(* ===== verification/Prelude.thy ===== *)
theory Prelude
  imports Main "HOL-Library.Word"
begin

text \<open>
  Shared vocabulary of the development: the machine integers of the i386 target, the outcome
  of code that may panic or leave its buffers, little-endian reads, and the generic lemmas on
  lists, sums and words that the component theories use.
\<close>

unbundle bit_operations_syntax

section \<open>Machine integers\<close>

type_synonym u8 = "8 word"
type_synonym u16 = "16 word"
type_synonym u32 = "32 word"
type_synonym u64 = "64 word"

section \<open>Outcomes\<close>

text \<open>
  \<open>Panic\<close> is a call of \<open>panic()\<close>, which prints and halts for ever; \<open>Fault\<close> is an access
  outside the object a pointer points into (undefined behaviour in C) or a division by zero;
  \<open>Loop\<close> is the end of the fuel of a loop that need not end. Every other way out of a C
  function, error codes included, is an ordinary value.
\<close>

datatype fault = Panic | Fault | Loop

type_synonym 'a res = "fault + 'a"

named_theorems res_simps \<open>evaluation and inversion of sequenced outcomes\<close>

definition bnd :: "'a res \<Rightarrow> ('a \<Rightarrow> 'b res) \<Rightarrow> 'b res" where
  "bnd m f = (case m of Inl e \<Rightarrow> Inl e | Inr x \<Rightarrow> f x)"

lemma bnd_Inl [simp, res_simps]: "bnd (Inl e) f = Inl e"
  by (simp add: bnd_def)

lemma bnd_Inr [simp, res_simps]: "bnd (Inr x) f = f x"
  by (simp add: bnd_def)

lemma bnd_eq_Inr [res_simps]: "bnd m f = Inr y \<longleftrightarrow> (\<exists>x. m = Inr x \<and> f x = Inr y)"
  by (cases m) auto

lemma bnd_eq_Inl [res_simps]:
  "bnd m f = Inl e \<longleftrightarrow> m = Inl e \<or> (\<exists>x. m = Inr x \<and> f x = Inl e)"
  by (cases m) auto

lemma bnd_assoc: "bnd (bnd m f) g = bnd m (\<lambda>x. bnd (f x) g)"
  by (cases m) auto

lemma bnd_cong [fundef_cong]:
  "m = m' \<Longrightarrow> (\<And>x. m' = Inr x \<Longrightarrow> f x = f' x) \<Longrightarrow> bnd m f = bnd m' f'"
  by (cases m') (auto simp: bnd_def)

section \<open>Sums over lists with one element replaced\<close>

lemma sum_list_map_update:
  fixes f :: "'a \<Rightarrow> nat"
  assumes "i < length xs"
  shows "sum_list (map f (xs[i := y])) + f (xs ! i) = sum_list (map f xs) + f y"
  using assms
proof (induction xs arbitrary: i)
  case Nil
  then show ?case by simp
next
  case (Cons x xs)
  then show ?case by (cases i) (auto simp: algebra_simps)
qed

lemma sum_list_map_nth_le:
  fixes f :: "'a \<Rightarrow> nat"
  assumes "i < length xs"
  shows "f (xs ! i) \<le> sum_list (map f xs)"
  using assms by (simp add: member_le_sum_list)

lemma sum_list_map_two_le:
  fixes f :: "'a \<Rightarrow> nat"
  assumes "i < length xs" and "j < length xs" and "i \<noteq> j"
  shows "f (xs ! i) + f (xs ! j) \<le> sum_list (map f xs)"
proof -
  have "f (xs ! j) \<le> sum_list (map f xs) - f (xs ! i)"
  proof -
    have eq: "sum_list (map f xs) = (\<Sum>k<length xs. f (xs ! k))"
      by (simp add: sum_list_sum_nth atLeast0LessThan)
    have "(\<Sum>k<length xs. f (xs ! k)) = f (xs ! i) + (\<Sum>k\<in>{..<length xs} - {i}. f (xs ! k))"
      using assms by (intro sum.remove) auto
    moreover have "f (xs ! j) \<le> (\<Sum>k\<in>{..<length xs} - {i}. f (xs ! k))"
      using assms by (intro member_le_sum) auto
    ultimately show ?thesis using eq by simp
  qed
  moreover have "f (xs ! i) \<le> sum_list (map f xs)"
    using assms by (intro sum_list_map_nth_le)
  ultimately show ?thesis by simp
qed

section \<open>Words as naturals\<close>

lemma unat_add_no_wrap:
  fixes a b :: "'w::len word"
  assumes "unat a + unat b < 2 ^ LENGTH('w)"
  shows "unat (a + b) = unat a + unat b"
  using assms by (simp add: unat_word_ariths)

lemma unat_sub_le:
  fixes a b :: "'w::len word"
  assumes "b \<le> a"
  shows "unat (a - b) = unat a - unat b"
  using assms by (simp add: unat_sub_if_size word_le_nat_alt)

lemma unat_u32_less [simp]: "unat (w :: u32) < 4294967296"
  using unsigned_less [of w] by simp

lemma align_up_word:
  fixes s al :: u32
  assumes "unat s + unat al < 2 ^ 32" and "0 < unat al"
  defines "r \<equiv> (if s mod al \<noteq> 0 then s + (al - s mod al) else s)"
  shows "unat s \<le> unat r" and "unat r < unat s + unat al" and "unat r mod unat al = 0"
proof -
  have m: "unat (s mod al) = unat s mod unat al" by (simp add: unat_mod_distrib)
  have lt: "unat s mod unat al < unat al" using assms(2) by simp
  have d: "unat (al - s mod al) = unat al - unat s mod unat al"
    using lt m by (subst unat_sub_le) (auto simp: word_le_nat_alt)
  have ne: "s mod al \<noteq> 0 \<longleftrightarrow> unat s mod unat al \<noteq> 0"
    by (metis m unat_eq_zero)
  show "unat s \<le> unat r" and "unat r < unat s + unat al" and "unat r mod unat al = 0"
  proof -
    have "unat (s + (al - s mod al)) = unat s + (unat al - unat s mod unat al)"
      using assms(1) lt d by (subst unat_add_no_wrap) auto
    moreover have "(unat s + (unat al - unat s mod unat al)) mod unat al = 0"
    proof -
      have "unat s + (unat al - unat s mod unat al)
          = unat al * (unat s div unat al) + unat al"
        using lt mult_div_mod_eq [of "unat al" "unat s"] by linarith
      then show ?thesis by simp
    qed
    ultimately show "unat s \<le> unat r" and "unat r < unat s + unat al"
      and "unat r mod unat al = 0"
      using ne lt assms(2) unfolding r_def by (cases "s mod al \<noteq> 0"; simp; linarith)+
  qed
qed

lemma unat_push_bit_1: "n < LENGTH('w) \<Longrightarrow> unat (push_bit n (1 :: 'w::len word)) = 2 ^ n"
proof -
  assume n: "n < LENGTH('w)"
  have "unat (push_bit n (1 :: 'w word)) = take_bit LENGTH('w) (push_bit n (unat (1 :: 'w word)))"
    by (rule unsigned_push_bit_eq)
  also have "\<dots> = 2 ^ n" using n by (simp add: push_bit_of_1 take_bit_nat_eq_self)
  finally show ?thesis .
qed

lemma unat_ucast_up:
  fixes x :: "'a::len word"
  assumes "LENGTH('a) \<le> LENGTH('b)"
  shows "unat (ucast x :: 'b::len word) = unat x"
proof -
  have "unat x < 2 ^ LENGTH('a)" by (rule unsigned_less)
  also have "(2 :: nat) ^ LENGTH('a) \<le> 2 ^ LENGTH('b)" using assms by (intro power_increasing) auto
  finally show ?thesis by (simp add: unsigned_ucast_eq unsigned_take_bit_eq take_bit_nat_eq_self)
qed

lemma unat_ucast_widen [simp]:
  "unat (ucast (b :: u8) :: u16) = unat b" "unat (ucast (b :: u8) :: u32) = unat b"
  "unat (ucast (h :: u16) :: u32) = unat h"
  by (simp_all add: unat_ucast_up)

lemma unat_and_15: "unat (w AND 15 :: u32) \<le> 15"
proof -
  have "w AND 15 \<le> (15 :: u32)" by (rule word_and_le1)
  then show ?thesis by (simp add: word_le_nat_alt)
qed

lemma odd_and_1: "(n :: u32) AND 1 \<noteq> 0 \<longleftrightarrow> odd (unat n)"
proof -
  have "n AND 1 = n mod 2" by (simp add: and_one_eq)
  moreover have "n mod 2 = 0 \<longleftrightarrow> unat n mod 2 = 0"
    by (simp add: word_unat_eq_iff unat_mod_distrib)
  ultimately show ?thesis by (simp add: odd_iff_mod_2_eq_one)
qed

lemma sint_eq_iff: "sint (x :: 'w::len word) = sint y \<longleftrightarrow> x = y"
  by (metis signed_word_eqI)

lemma sint_eq_0_iff [simp]: "sint (x :: 'w::len word) = 0 \<longleftrightarrow> x = 0"
  by (metis sint_eq_iff signed_0)

lemma unat_minus_1: "n \<noteq> 0 \<Longrightarrow> unat (n - 1 :: 'w::len word) = unat n - 1"
  by (metis One_nat_def Suc_pred unat_minus_one unat_gt_0 diff_Suc_1)

section \<open>Memory\<close>

text \<open>The byte-addressed memory, and the transfer of a run of bytes at an address.\<close>

type_synonym memory = "u32 \<Rightarrow> u8"

definition mem_get :: "memory \<Rightarrow> u32 \<Rightarrow> nat \<Rightarrow> u8 list" where
  "mem_get m a n = map (\<lambda>i. m (a + of_nat i)) [0..<n]"

definition mem_put :: "memory \<Rightarrow> u32 \<Rightarrow> u8 list \<Rightarrow> memory" where
  "mem_put m a bs = (\<lambda>x. if unat (x - a) < length bs then bs ! unat (x - a) else m x)"

text \<open>The addresses of a block of \<open>n\<close> bytes at \<open>a\<close>, which may wrap at the end of the memory.\<close>

definition block :: "u32 \<Rightarrow> nat \<Rightarrow> u32 set" where
  "block a n = {x. unat (x - a) < n}"

lemma length_mem_get [simp]: "length (mem_get m a n) = n"
  by (simp add: mem_get_def)

lemma nth_mem_get [simp]: "i < n \<Longrightarrow> mem_get m a n ! i = m (a + of_nat i)"
  by (simp add: mem_get_def)

lemma in_block: "x \<in> block a n \<longleftrightarrow> unat (x - a) < n"
  by (simp add: block_def)

lemma mem_put_other: "x \<notin> block a (length bs) \<Longrightarrow> mem_put m a bs x = m x"
  by (simp add: mem_put_def in_block)

lemma in_blockI: "i < n \<Longrightarrow> n \<le> 2 ^ 32 \<Longrightarrow> a + of_nat i \<in> block a n"
  by (simp add: in_block unsigned_of_nat take_bit_nat_eq_self)

lemma mem_put_nth:
  assumes "i < length bs" and "length bs \<le> 2 ^ 32"
  shows "mem_put m a bs (a + of_nat i) = bs ! i"
  using assms by (simp add: mem_put_def unsigned_of_nat take_bit_nat_eq_self)

lemma mem_get_put: "length bs \<le> 2 ^ 32 \<Longrightarrow> mem_get (mem_put m a bs) a (length bs) = bs"
  by (intro nth_equalityI) (simp_all add: mem_put_nth)

lemma mem_get_cong:
  assumes "\<And>x. x \<in> block a n \<Longrightarrow> m x = m' x" and "n \<le> 2 ^ 32"
  shows "mem_get m a n = mem_get m' a n"
  using assms by (intro nth_equalityI) (simp_all add: in_blockI)

lemma mem_get_add: "mem_get m a (k + n) = mem_get m a k @ mem_get m (a + of_nat k) n"
  by (intro nth_equalityI) (auto simp: nth_append algebra_simps)

lemma mem_get_0 [simp]: "mem_get m a 0 = []"
  by (simp add: mem_get_def)

lemma take_mem_get: "k \<le> n \<Longrightarrow> take k (mem_get m a n) = mem_get m a k"
  by (intro nth_equalityI) auto

text \<open>A block and the blocks inside it and behind it.\<close>

lemma in_block_add:
  fixes a x :: u32
  assumes "m + n \<le> 2 ^ 32"
  shows "x \<in> block (a + of_nat m) n \<longleftrightarrow> m \<le> unat (x - a) \<and> unat (x - a) < m + n"
proof (cases "m < 2 ^ 32")
  case True
  let ?y = "x - a"
  have d: "x - (a + of_nat m) = ?y - of_nat m" by simp
  have m: "unat (of_nat m :: u32) = m" using True by (simp add: unsigned_of_nat take_bit_nat_eq_self)
  have e: "unat (x - (a + of_nat m)) = (if m \<le> unat ?y then unat ?y - m else unat ?y + 2 ^ 32 - m)"
    unfolding d by (simp add: m unat_sub_if_size word_size)
  show ?thesis unfolding in_block e using assms True by auto
next
  case False
  then have "n = 0" "m = 2 ^ 32" using assms by auto
  then show ?thesis using unat_u32_less [of "x - a"] by (simp add: in_block del: unat_u32_less)
qed
lemma block_0 [simp]: "block a 0 = {}"
  by (simp add: block_def)

lemma block_mono: "m \<le> n \<Longrightarrow> block a m \<subseteq> block a n"
  by (auto simp: in_block)

lemma block_add_subset: "m + n \<le> k \<Longrightarrow> m + n \<le> 2 ^ 32 \<Longrightarrow> block (a + of_nat m) n \<subseteq> block a k"
  using in_block_add [of m n _ a] by (auto simp: in_block [of _ a])

lemma block_add_disjoint: "k \<le> m \<Longrightarrow> m + n \<le> 2 ^ 32 \<Longrightarrow> block a k \<inter> block (a + of_nat m) n = {}"
  using in_block_add [of m n _ a] by (auto simp: in_block [of _ a])

text \<open>\<open>memcpy\<close> inside the memory, byte by byte upwards.\<close>

fun mem_copy :: "memory \<Rightarrow> u32 \<Rightarrow> u32 \<Rightarrow> nat \<Rightarrow> memory" where
  "mem_copy m d s 0 = m"
| "mem_copy m d s (Suc n) = mem_copy (m(d := m s)) (d + 1) (s + 1) n"

lemma mem_get_Suc: "mem_get m a (Suc n) = m a # mem_get m (a + 1) n"
  using mem_get_add [of m a 1 n] by (simp add: mem_get_def)

lemma mem_put_Nil [simp]: "mem_put m a [] = m"
  by (simp add: mem_put_def)

lemma mem_put_Cons:
  assumes "length bs < 2 ^ 32"
  shows "mem_put m a (b # bs) = mem_put (m(a := b)) (a + 1) bs"
proof
  fix x
  have A: "unat (x - (a + 1)) < length bs \<longleftrightarrow> 1 \<le> unat (x - a) \<and> unat (x - a) < 1 + length bs"
    using in_block_add [of 1 "length bs" x a] assms by (simp add: in_block)
  show "mem_put m a (b # bs) x = mem_put (m(a := b)) (a + 1) bs x"
  proof (cases "x = a")
    case True
    then show ?thesis using A by (simp add: mem_put_def)
  next
    case False
    then have n: "x - a \<noteq> 0" by simp
    then have p: "1 \<le> unat (x - a)" by (simp add: Suc_le_eq unat_gt_0)
    have "x - (a + 1) = (x - a) - 1" by simp
    then have "unat (x - (a + 1)) = unat (x - a) - 1" using unat_minus_1 [OF n] by (simp only:)
    then show ?thesis using A False p by (auto simp: mem_put_def nth_Cons')
  qed
qed

lemma mem_copy_disjoint:
  assumes "block d n \<inter> block s n = {}" and "n \<le> 2 ^ 32"
  shows "mem_copy m d s n = mem_put m d (mem_get m s n)"
  using assms
proof (induction m d s n rule: mem_copy.induct)
  case (2 m d s n)
  have sub: "block (d + 1) n \<subseteq> block d (Suc n)" "block (s + 1) n \<subseteq> block s (Suc n)"
    using block_add_subset [of 1 n "Suc n" d] block_add_subset [of 1 n "Suc n" s] 2(3) by auto
  have d: "d \<in> block d (Suc n)" by (simp add: in_block)
  have "mem_get (m(d := m s)) (s + 1) n = mem_get m (s + 1) n"
    by (rule mem_get_cong) (use 2(2,3) sub d in auto)
  moreover have "mem_copy (m(d := m s)) (d + 1) (s + 1) n = 
     mem_put (m(d := m s)) (d + 1) (mem_get (m(d := m s)) (s + 1) n)"
    by (rule 2(1)) (use 2(2,3) sub in auto)
  moreover have "mem_put m d (m s # mem_get m (s + 1) n) = mem_put (m(d := m s)) (d + 1) (mem_get m (s + 1) n)"
    by (rule mem_put_Cons) (use 2(3) in simp)
  ultimately show ?case by (simp add: mem_get_Suc)
qed simp

lemma block_interval:
  assumes "unat a + n \<le> 2 ^ 32"
  shows "x \<in> block a n \<longleftrightarrow> unat a \<le> unat x \<and> unat x < unat a + n"
proof (cases "a \<le> x")
  case True
  then show ?thesis using unat_sub_le [OF True] by (auto simp: in_block word_le_nat_alt)
next
  case False
  then have "\<not> unat a \<le> unat x" by (simp add: word_le_nat_alt)
  then have "unat (x - a) = unat x + 2 ^ 32 - unat a" by (simp add: unat_sub_if_size word_size)
  then show ?thesis using assms \<open>\<not> unat a \<le> unat x\<close> by (simp add: in_block)
qed

lemma block_disjointI:
  assumes "unat a + m \<le> unat b \<or> unat b + n \<le> unat a" and "unat a + m \<le> 2 ^ 32" and "unat b + n \<le> 2 ^ 32"
  shows "block a m \<inter> block b n = {}"
  using assms by (auto simp: block_interval)

text \<open>Little-endian loads.\<close>

definition load8 :: "memory \<Rightarrow> u32 \<Rightarrow> u8" where
  "load8 m a = m a"

definition load16 :: "memory \<Rightarrow> u32 \<Rightarrow> u16" where
  "load16 m a = ucast (m a) OR push_bit 8 (ucast (m (a + 1)))"

definition load32 :: "memory \<Rightarrow> u32 \<Rightarrow> u32" where
  "load32 m a = ucast (m a) OR push_bit 8 (ucast (m (a + 1))) OR
     push_bit 16 (ucast (m (a + 2))) OR push_bit 24 (ucast (m (a + 3)))"

end
