(* ===== verification/Alloc.thy ===== *)
theory Alloc
  imports Prelude
begin

text \<open>
  The allocator of \<^verbatim>\<open>src/mm/alloc.c\<close> and \<^verbatim>\<open>inc/mm/alloc.h\<close>. A heap is the table of
  allocation entries: the entries of all chained allocation blocks, in chain order, 128 to a
  block, with the addresses of the blocks beside them. A pointer to an entry is its index in the
  table. The contents of the managed memory and the diagnostic \<^verbatim>\<open>printf\<close> are not part of the
  heap. This theory holds the data and the operations; \<open>Alloc_Facts\<close> proves them correct.
\<close>

unbundle bit_operations_syntax

section \<open>Entries and the table\<close>

record alloc_ent =
  ae_flags :: u32
  ae_addr :: u32
  ae_size :: u32

definition ALLOCENT_FLAG_VALID :: u32 where "ALLOCENT_FLAG_VALID = 1"
definition ALLOCENT_FLAG_USED :: u32 where "ALLOCENT_FLAG_USED = 2"

definition ALLOC_BLOCK_SZ :: nat where "ALLOC_BLOCK_SZ = 128"

text \<open>\<open>sizeof(alloc_block_t)\<close>: 128 entries of three 32-bit fields, and the \<open>next\<close> pointer.\<close>

definition sizeof_alloc_block :: u32 where "sizeof_alloc_block = 1540"

record alloc_memrange =
  mr_start :: u32
  mr_end :: u32

record heap =
  ents :: "alloc_ent list"
  blocks :: "u32 list"

definition ent_valid :: "alloc_ent \<Rightarrow> bool" where
  "ent_valid e \<longleftrightarrow> ae_flags e AND ALLOCENT_FLAG_VALID \<noteq> 0"

definition ent_used :: "alloc_ent \<Rightarrow> bool" where
  "ent_used e \<longleftrightarrow> ae_flags e AND ALLOCENT_FLAG_USED \<noteq> 0"

definition zero_ent :: alloc_ent where
  "zero_ent = \<lparr>ae_flags = 0, ae_addr = 0, ae_size = 0\<rparr>"

definition upd_ent :: "heap \<Rightarrow> nat \<Rightarrow> (alloc_ent \<Rightarrow> alloc_ent) \<Rightarrow> heap" where
  "upd_ent h i f = h\<lparr>ents := (ents h)[i := f (ents h ! i)]\<rparr>"

section \<open>Operations\<close>

text \<open>\<open>_add_alloc\<close>: the first slot that is not valid takes the entry; none left is a panic.\<close>

fun add_slot :: "alloc_ent list \<Rightarrow> alloc_ent \<Rightarrow> alloc_ent list option" where
  "add_slot [] a = None"
| "add_slot (e # es) a =
     (if \<not> ent_valid e then Some (a # es) else map_option ((#) e) (add_slot es a))"

definition add_alloc :: "heap \<Rightarrow> alloc_ent \<Rightarrow> heap res" where
  "add_alloc h a =
     (case add_slot (ents h) a of None \<Rightarrow> Inl Panic | Some es \<Rightarrow> Inr (h\<lparr>ents := es\<rparr>))"

text \<open>\<open>_add_alloc_block\<close> of a block that has just been cleared.\<close>

definition add_alloc_block :: "heap \<Rightarrow> u32 \<Rightarrow> heap" where
  "add_alloc_block h b =
     h\<lparr>ents := ents h @ replicate ALLOC_BLOCK_SZ zero_ent, blocks := blocks h @ [b]\<rparr>"

definition alloc_init :: "u32 \<Rightarrow> u32 \<Rightarrow> heap res" where
  "alloc_init base sz =
     (let newbase = (if base mod 4 \<noteq> 0 then base + (4 - base mod 4) else base);
          first = newbase;
          newbase = newbase + sizeof_alloc_block;
          h = \<lparr>ents = replicate ALLOC_BLOCK_SZ zero_ent, blocks = [first]\<rparr>;
          sz = sz - (newbase - base)
      in add_alloc h \<lparr>ae_flags = ALLOCENT_FLAG_VALID, ae_addr = newbase, ae_size = sz\<rparr>)"

definition MIN_ALIGN :: u32 where "MIN_ALIGN = 4"

definition ALLOC_FLAG_SETALIGN :: u32 where "ALLOC_FLAG_SETALIGN = push_bit 4 1"
definition ALLOC_FLAG_16B :: u32 where "ALLOC_FLAG_16B = push_bit 5 1"
definition ALLOC_FLAG_NONEWBLOCK :: u32 where "ALLOC_FLAG_NONEWBLOCK = push_bit 31 1"

definition ALLOC_FLAG_ALIGN :: "u32 \<Rightarrow> u32" where
  "ALLOC_FLAG_ALIGN n = (if n > 15 then 15 else n) OR ALLOC_FLAG_SETALIGN"

definition alloc_align :: "u32 \<Rightarrow> u32" where
  "alloc_align fl =
     (if fl AND ALLOC_FLAG_SETALIGN \<noteq> 0 then push_bit (unat (fl AND 15)) 1 else MIN_ALIGN)"

text \<open>
  The body of the inner loop of \<open>_find_free\<close>: where in entry \<open>e\<close> the request would start,
  if it fits there.
\<close>

definition fit_start :: "alloc_memrange \<Rightarrow> u32 \<Rightarrow> u32 \<Rightarrow> alloc_ent \<Rightarrow> u32 option" where
  "fit_start mr al sz e =
     (let start = ae_addr e;
          fin = start + ae_size e;
          start = (if start < mr_start mr then mr_start mr else start);
          fin = (if fin > mr_end mr then mr_end mr else fin);
          start = (if start mod al \<noteq> 0 then start + (al - start mod al) else start)
      in if start > fin \<or> fin - start < sz then None else Some start)"

type_synonym scan_acc = "(nat \<times> alloc_ent \<times> u32) option \<times> nat"

definition scan_step ::
  "alloc_memrange \<Rightarrow> u32 \<Rightarrow> u32 \<Rightarrow> nat \<Rightarrow> alloc_ent \<Rightarrow> scan_acc \<Rightarrow> scan_acc" where
  "scan_step mr al sz i e acc =
     (if ent_valid e \<and> \<not> ent_used e then
        (case fit_start mr al sz e of
           None \<Rightarrow> acc
         | Some st \<Rightarrow>
             (case fst acc of
                Some (j, b, s) \<Rightarrow>
                  if ae_size e < ae_size b then (Some (i, e, st), snd acc) else acc
              | None \<Rightarrow> (Some (i, e, st), snd acc)))
      else if \<not> ent_valid e then (fst acc, Suc (snd acc))
      else acc)"

fun scan_ents ::
  "alloc_memrange \<Rightarrow> u32 \<Rightarrow> u32 \<Rightarrow> nat \<Rightarrow> alloc_ent list \<Rightarrow> scan_acc \<Rightarrow> scan_acc" where
  "scan_ents mr al sz i [] acc = acc"
| "scan_ents mr al sz i (e # es) acc =
     scan_ents mr al sz (Suc i) es (scan_step mr al sz i e acc)"

text \<open>The tail of \<open>_find_free\<close>: split the chosen entry around the request.\<close>

definition claim_front :: "heap \<Rightarrow> nat \<Rightarrow> u32 \<Rightarrow> heap res" where
  "claim_front h i start =
     (let e = ents h ! i; pre_size = start - ae_addr e
      in if ae_addr e \<noteq> start then
           bnd (add_alloc h \<lparr>ae_flags = ALLOCENT_FLAG_VALID, ae_addr = ae_addr e,
                              ae_size = pre_size\<rparr>)
             (\<lambda>h. Inr (upd_ent h i
                    (\<lambda>e. e\<lparr>ae_addr := start, ae_size := ae_size e - pre_size\<rparr>)))
         else Inr h)"

definition claim_back :: "heap \<Rightarrow> nat \<Rightarrow> u32 \<Rightarrow> u32 \<Rightarrow> (u32 \<times> heap) res" where
  "claim_back h i start sz =
     (if ae_size (ents h ! i) = sz then
        Inr (ae_addr (ents h ! i),
             upd_ent h i (\<lambda>e. e\<lparr>ae_flags := ae_flags e OR ALLOCENT_FLAG_USED\<rparr>))
      else
        bnd (add_alloc
               (upd_ent h i (\<lambda>e. e\<lparr>ae_addr := ae_addr e + sz, ae_size := ae_size e - sz\<rparr>))
               \<lparr>ae_flags = ALLOCENT_FLAG_VALID OR ALLOCENT_FLAG_USED, ae_addr = start,
                 ae_size = sz\<rparr>)
          (\<lambda>h. Inr (start, h)))"

definition claim_entry :: "heap \<Rightarrow> nat \<Rightarrow> u32 \<Rightarrow> u32 \<Rightarrow> (u32 \<times> heap) res" where
  "claim_entry h i start sz =
     bnd (claim_front h i start) (\<lambda>h. claim_back h i start sz)"

definition find_free_here ::
  "heap \<Rightarrow> u32 \<Rightarrow> u32 \<Rightarrow> alloc_memrange \<Rightarrow> (u32 \<times> heap) res" where
  "find_free_here h sz fl mr =
     (case fst (scan_ents mr (alloc_align fl) sz 0 (ents h) (None, 0)) of
        None \<Rightarrow> Inr (0, h)
      | Some (i, e, st) \<Rightarrow> claim_entry h i st sz)"

definition mrange_16b :: alloc_memrange where
  "mrange_16b = \<lparr>mr_start = 0x00000000, mr_end = 0x0000FFFF\<rparr>"

definition mrange_32b :: alloc_memrange where
  "mrange_32b = \<lparr>mr_start = 0x00010000, mr_end = 0xFFFFFFFF\<rparr>"

definition mrange_of :: "u32 \<Rightarrow> alloc_memrange" where
  "mrange_of fl = (if fl AND ALLOC_FLAG_16B \<noteq> 0 then mrange_16b else mrange_32b)"

text \<open>
  \<open>alloc(sizeof(alloc_block_t), ALLOC_FLAG_NONEWBLOCK)\<close>, the only call \<open>_find_free\<close> makes of
  \<open>alloc\<close>: with that flag \<open>_find_free\<close> does not recurse again.
\<close>

definition alloc_table_block :: "heap \<Rightarrow> (u32 \<times> heap) res" where
  "alloc_table_block h =
     bnd (find_free_here h sizeof_alloc_block ALLOC_FLAG_NONEWBLOCK
            (mrange_of ALLOC_FLAG_NONEWBLOCK))
       (\<lambda>(a, h). if a = 0 then Inl Panic else Inr (a, h))"

text \<open>The test \<open>free_ents < ALLOC_BLOCK_SZ * 0.7\<close>, without the floating-point number.\<close>

definition free_ents_low :: "nat \<Rightarrow> bool" where
  "free_ents_low n \<longleftrightarrow> 10 * n < 7 * ALLOC_BLOCK_SZ"

lemma snd_scan_ents:
  "snd (scan_ents mr al sz i es acc) = snd acc + length (filter (\<lambda>e. \<not> ent_valid e) es)"
  by (induction mr al sz i es acc rule: scan_ents.induct)
    (auto simp: scan_step_def split: option.splits)

function find_free :: "heap \<Rightarrow> u32 \<Rightarrow> u32 \<Rightarrow> alloc_memrange \<Rightarrow> (u32 \<times> heap) res" where
  "find_free h sz fl mr =
     (if free_ents_low (snd (scan_ents mr (alloc_align fl) sz 0 (ents h) (None, 0)))
         \<and> fl AND ALLOC_FLAG_NONEWBLOCK = 0 then
        bnd (alloc_table_block h)
          (\<lambda>(nb, h'). find_free (add_alloc_block h' nb) sz fl mr)
      else find_free_here h sz fl mr)"
  by pat_completeness auto
termination
proof (relation "measure (\<lambda>(h, sz, fl, mr).
    if free_ents_low (length (filter (\<lambda>e. \<not> ent_valid e) (ents h))) then 1 else 0)",
    goal_cases)
  case 1
  show ?case by simp
next
  case (2 h sz fl mr x nb h')
  then show ?case
    by (auto simp: snd_scan_ents add_alloc_block_def free_ents_low_def ALLOC_BLOCK_SZ_def
        zero_ent_def ent_valid_def)
qed

declare find_free.simps [simp del]

definition alloc :: "heap \<Rightarrow> u32 \<Rightarrow> u32 \<Rightarrow> (u32 \<times> heap) res" where
  "alloc h sz fl =
     (if sz = 0 then Inl Panic
      else bnd (find_free h sz fl (mrange_of fl))
             (\<lambda>(a, h). if a = 0 then Inl Panic else Inr (a, h)))"

text \<open>The three entries \<open>_do_free\<close> looks for in one pass, as indices.\<close>

type_synonym free_acc = "nat option \<times> nat option \<times> nat option"

definition free_step :: "alloc_ent list \<Rightarrow> u32 \<Rightarrow> nat \<Rightarrow> free_acc \<Rightarrow> free_acc" where
  "free_step es a i acc =
     (case acc of (pre, ent, post) \<Rightarrow>
        let e = es ! i in
        if ent_valid e then
          if ent_used e then
            (if ent = None \<and> ae_addr e = a then (pre, Some i, post) else acc)
          else
            (if pre = None \<and> ae_addr e + ae_size e = a then (Some i, ent, post)
             else if ae_addr e > a then
               (case post of
                  None \<Rightarrow> (pre, ent, Some i)
                | Some j \<Rightarrow> if ae_addr e < ae_addr (es ! j) then (pre, ent, Some i) else acc)
             else acc)
        else acc)"

definition free_scan :: "alloc_ent list \<Rightarrow> u32 \<Rightarrow> free_acc" where
  "free_scan es a = fold (free_step es a) [0..<length es] (None, None, None)"

text \<open>Joining the entry \<open>i\<close> with a free neighbour below, and with the closest one above.\<close>

definition absorb_pre :: "heap \<Rightarrow> nat \<Rightarrow> nat option \<Rightarrow> heap" where
  "absorb_pre h i pre =
     (case pre of
        None \<Rightarrow> h
      | Some p \<Rightarrow>
          let pe = ents h ! p;
              h = upd_ent h i (\<lambda>e. e\<lparr>ae_addr := ae_addr pe, ae_size := ae_size e + ae_size pe\<rparr>)
          in upd_ent h p (\<lambda>e. e\<lparr>ae_flags := 0\<rparr>))"

definition absorb_post :: "heap \<Rightarrow> nat \<Rightarrow> nat option \<Rightarrow> heap" where
  "absorb_post h i post =
     (case post of
        None \<Rightarrow> h
      | Some q \<Rightarrow>
          if ae_addr (ents h ! i) + ae_size (ents h ! i) = ae_addr (ents h ! q) then
            let qe = ents h ! q;
                h = upd_ent h i (\<lambda>e. e\<lparr>ae_size := ae_size e + ae_size qe\<rparr>)
            in upd_ent h q (\<lambda>e. e\<lparr>ae_flags := 0\<rparr>)
          else h)"

definition do_free :: "heap \<Rightarrow> u32 \<Rightarrow> int \<times> heap" where
  "do_free h a =
     (case free_scan (ents h) a of
        (pre, None, post) \<Rightarrow> (-1, h)
      | (pre, Some i, post) \<Rightarrow>
          (0, upd_ent (absorb_post (absorb_pre h i pre) i post) i
                (\<lambda>e. e\<lparr>ae_flags := ae_flags e AND NOT ALLOCENT_FLAG_USED\<rparr>)))"

definition free :: "heap \<Rightarrow> u32 \<Rightarrow> heap res" where
  "free h a = (case do_free h a of (r, h') \<Rightarrow> if r \<noteq> 0 then Inl Panic else Inr h')"

end
