(* ===== verification/Regions.thy ===== *)
theory Regions
  imports Main "HOL-Library.Multiset"
begin

text \<open>
  What a table of memory regions means, without the table: a region is a used flag, a start and
  a length, a table is a multiset of regions. \<open>covers\<close> counts the regions over a byte, and the
  two transformations the allocator makes, splitting a free region around a request and joining a
  released one with its free neighbours, are shown to keep those counts.
\<close>

type_synonym region = "bool \<times> nat \<times> nat"

definition in_reg :: "nat \<Rightarrow> region \<Rightarrow> bool" where
  "in_reg x r \<longleftrightarrow> (case r of (u, a, s) \<Rightarrow> a \<le> x \<and> x < a + s)"

definition covers :: "region multiset \<Rightarrow> nat \<Rightarrow> nat" where
  "covers R x = size (filter_mset (in_reg x) R)"

definition free_covers :: "region multiset \<Rightarrow> nat \<Rightarrow> nat" where
  "free_covers R x = size (filter_mset (\<lambda>r. \<not> fst r \<and> in_reg x r) R)"

text \<open>The used regions with their lengths, and the set of free bytes.\<close>

definition used_of :: "region multiset \<Rightarrow> (nat \<times> nat) multiset" where
  "used_of R = image_mset snd (filter_mset fst R)"

definition free_bytes_of :: "region multiset \<Rightarrow> nat set" where
  "free_bytes_of R = {x. \<exists>a s. (False, a, s) \<in># R \<and> a \<le> x \<and> x < a + s}"

definition regions_ok :: "nat \<Rightarrow> region multiset \<Rightarrow> bool" where
  "regions_ok lim R \<longleftrightarrow>
     (\<forall>u a s. (u, a, s) \<in># R \<longrightarrow> 0 < s \<and> a + s \<le> lim) \<and> (\<forall>x. covers R x \<le> 1)"

text \<open>No free region ends where another begins.\<close>

definition coalesced :: "region multiset \<Rightarrow> bool" where
  "coalesced R \<longleftrightarrow> (\<forall>a s t. (False, a, s) \<in># R \<longrightarrow> (False, a + s, t) \<notin># R)"

lemma covers_simps [simp]:
  "covers {#} x = 0" "covers (R + S) x = covers R x + covers S x"
  "covers (add_mset r R) x = (if in_reg x r then 1 else 0) + covers R x"
  by (simp_all add: covers_def)

lemma free_covers_simps [simp]:
  "free_covers {#} x = 0" "free_covers (R + S) x = free_covers R x + free_covers S x"
  "free_covers (add_mset r R) x = (if \<not> fst r \<and> in_reg x r then 1 else 0) + free_covers R x"
  by (simp_all add: free_covers_def)

lemma used_of_simps [simp]:
  "used_of {#} = {#}" "used_of (R + S) = used_of R + used_of S"
  "used_of (add_mset r R) = (if fst r then {#snd r#} else {#}) + used_of R"
  by (simp_all add: used_of_def)

lemma mem_used_of: "(a, s) \<in># used_of R \<longleftrightarrow> (True, a, s) \<in># R"
  by (force simp: used_of_def)

lemma free_bytes_of_covers: "free_bytes_of R = {x. 0 < free_covers R x}"
proof -
  have "free_covers R x = 0 \<longleftrightarrow> (\<forall>r. r \<in># R \<longrightarrow> \<not> (\<not> fst r \<and> in_reg x r))" for x
    by (induction R) auto
  then have "0 < free_covers R x \<longleftrightarrow> (\<exists>r. r \<in># R \<and> \<not> fst r \<and> in_reg x r)" for x
    by (metis gr_zeroI less_numeral_extra(3))
  then show ?thesis by (force simp: free_bytes_of_def in_reg_def)
qed

lemma free_covers_le: "free_covers R x \<le> covers R x"
  by (induction R) auto

lemma covers_two:
  assumes "r \<in># R" and "r' \<in># R" and "r \<noteq> r'" and "in_reg x r" and "in_reg x r'"
  shows "2 \<le> covers R x"
proof -
  obtain S where S: "R = add_mset r S" using assms(1) by (metis mset_add)
  then have "r' \<in># S" using assms(2,3) by auto
  then obtain T where "S = add_mset r' T" by (metis mset_add)
  with S assms show ?thesis by simp
qed

lemma regions_ok_eq:
  assumes "regions_ok lim R" and "r \<in># R" and "r' \<in># R" and "in_reg x r" and "in_reg x r'"
  shows "r = r'"
proof (rule ccontr)
  assume "r \<noteq> r'"
  with assms have "2 \<le> covers R x" by (intro covers_two)
  moreover have "covers R x \<le> 1" using assms(1) by (simp add: regions_ok_def)
  ultimately show False by simp
qed

lemma regions_ok_bounds:
  "regions_ok lim R \<Longrightarrow> (u, a, s) \<in># R \<Longrightarrow> 0 < s \<and> a + s \<le> lim"
  by (auto simp: regions_ok_def)

lemma mset_chain:
  fixes M X Y R H H1 H' :: "'a multiset"
  assumes "H' + M = H1 + X" and "H1 + R = H + M + Y"
  shows "H' + R = H + Y + X"
proof -
  have "(H' + R) + M = (H' + M) + R" by (simp only: ac_simps)
  also have "\<dots> = (H1 + R) + X" by (simp only: assms(1) ac_simps)
  also have "\<dots> = (H + Y + X) + M" by (simp only: assms(2) ac_simps)
  finally show ?thesis by simp
qed

section \<open>Splitting a free region\<close>

definition split_regs :: "nat \<Rightarrow> nat \<Rightarrow> nat \<Rightarrow> nat \<Rightarrow> region multiset" where
  "split_regs a s p n =
     (if a < p then {#(False, a, p - a)#} else {#}) + {#(True, p, n)#} +
     (if p + n < a + s then {#(False, p + n, a + s - (p + n))#} else {#})"

lemma split_covers:
  assumes "R' + {#(False, a, s)#} = R + split_regs a s p n"
    and "a \<le> p" and "p + n \<le> a + s" and "0 < n"
  shows "covers R' x = covers R x"
    and "free_covers R' x + (if p \<le> x \<and> x < p + n then 1 else 0) = free_covers R x"
    and "used_of R' = add_mset (p, n) (used_of R)"
proof -
  have "covers (R' + {#(False, a, s)#}) x = covers (R + split_regs a s p n) x"
    "free_covers (R' + {#(False, a, s)#}) x = free_covers (R + split_regs a s p n) x"
    "used_of (R' + {#(False, a, s)#}) = used_of (R + split_regs a s p n)"
    by (simp_all only: assms(1))
  then show "covers R' x = covers R x"
    and "free_covers R' x + (if p \<le> x \<and> x < p + n then 1 else 0) = free_covers R x"
    and "used_of R' = add_mset (p, n) (used_of R)"
    using assms(2-4) by (auto simp: split_regs_def in_reg_def split: if_splits)
qed

lemma split_mem:
  assumes "R' + {#(False, a, s)#} = R + split_regs a s p n" and "r \<in># R'"
  shows "r \<in># R \<or> r \<in># split_regs a s p n"
  using assms by (metis union_iff)

lemma split_regions_ok:
  assumes ok: "regions_ok lim R" and mem: "(False, a, s) \<in># R"
    and eq: "R' + {#(False, a, s)#} = R + split_regs a s p n"
    and fit: "a \<le> p" "p + n \<le> a + s" "0 < n"
  shows "regions_ok lim R'"
proof -
  have "a + s \<le> lim" using regions_ok_bounds [OF ok mem] by simp
  then have "0 < t \<and> b + t \<le> lim" if "(u, b, t) \<in># R'" for u b t
    using split_mem [OF eq that] regions_ok_bounds [OF ok, of u b t] fit
    by (auto simp: split_regs_def split: if_splits)
  then show ?thesis
    using ok split_covers(1) [OF eq fit] by (simp add: regions_ok_def)
qed

lemma split_free_bytes:
  assumes ok: "regions_ok lim R" and mem: "(False, a, s) \<in># R"
    and eq: "R' + {#(False, a, s)#} = R + split_regs a s p n"
    and fit: "a \<le> p" "p + n \<le> a + s" "0 < n"
  shows "free_bytes_of R' = free_bytes_of R - {p..<p + n}" and "{p..<p + n} \<subseteq> free_bytes_of R"
proof -
  have sub: "{p..<p + n} \<subseteq> free_bytes_of R"
    using mem fit by (force simp: free_bytes_of_def)
  have le: "free_covers R x \<le> 1" for x
    using free_covers_le [of R x] ok unfolding regions_ok_def by (meson le_trans)
  have "0 < free_covers R' x \<longleftrightarrow> 0 < free_covers R x \<and> \<not> (p \<le> x \<and> x < p + n)" for x
  proof (cases "p \<le> x \<and> x < p + n")
    case True
    then have "free_covers R' x + 1 = free_covers R x"
      using split_covers(2) [OF eq fit, of x] by simp
    with le [of x] have "free_covers R' x = 0" by linarith
    with True show ?thesis by simp
  next
    case False
    then have "free_covers R' x = free_covers R x"
      using split_covers(2) [OF eq fit, of x] by (simp split: if_splits)
    with False show ?thesis by simp
  qed
  then show "free_bytes_of R' = free_bytes_of R - {p..<p + n}"
    unfolding free_bytes_of_covers set_eq_iff by simp
  show "{p..<p + n} \<subseteq> free_bytes_of R" by (rule sub)
qed

lemma split_coalesced:
  assumes ok: "regions_ok lim R" and mem: "(False, a, s) \<in># R"
    and eq: "R' + {#(False, a, s)#} = R + split_regs a s p n"
    and fit: "a \<le> p" "p + n \<le> a + s" "0 < n"
    and co: "coalesced R"
  shows "coalesced R'"
  unfolding coalesced_def
proof (intro allI impI notI)
  fix b t t'
  assume m1: "(False, b, t) \<in># R'" and m2: "(False, b + t, t') \<in># R'"
  have ok': "regions_ok lim R'" by (rule split_regions_ok [OF ok mem eq fit])
  have tm: "(True, p, n) \<in># R'"
  proof -
    have "(True, p, n) \<in># R' + {#(False, a, s)#}" unfolding eq by (simp add: split_regs_def)
    then show ?thesis by auto
  qed
  have pos: "0 < t" "0 < t'"
    using regions_ok_bounds [OF ok' m1] regions_ok_bounds [OF ok' m2] by auto
  have off: "\<not> (c \<le> x \<and> x < c + u)" if "(False, c, u) \<in># R'" "p \<le> x" "x < p + n" for c u x
    using regions_ok_eq [OF ok' that(1) tm, of x] that(2,3) by (auto simp: in_reg_def)
  have old: "c + u \<le> a \<or> a + s \<le> c" if "(False, c, u) \<in># R'" "(False, c, u) \<in># R" "0 < u" for c u
  proof (rule ccontr)
    assume "\<not> ?thesis"
    then have "in_reg (max a c) (False, c, u)" "in_reg (max a c) (False, a, s)"
      using that(3) regions_ok_bounds [OF ok mem] by (auto simp: in_reg_def)
    then have "(False, c, u) = (False, a, s)" using regions_ok_eq [OF ok that(2) mem] by blast
    then show False using off [OF that(1), of p] fit by auto
  qed
  have no: "(False, b, t) \<in># R \<Longrightarrow> b + t \<noteq> a" "(False, a + s, t') \<notin># R"
    using co mem by (auto simp: coalesced_def)
  have first: "(False, b, t) \<in># R \<or> a < p \<and> b = a \<and> t = p - a \<or>
      p + n < a + s \<and> b = p + n \<and> t = a + s - (p + n)"
    using split_mem [OF eq m1] by (auto simp: split_regs_def split: if_splits)
  have second: "(False, b + t, t') \<in># R \<or> a < p \<and> b + t = a \<or> p + n < a + s \<and> b + t = p + n"
    using split_mem [OF eq m2] by (auto simp: split_regs_def split: if_splits)
  show False
    using second
  proof (elim disjE conjE)
    assume R2: "(False, b + t, t') \<in># R"
    have "b + t + t' \<le> a \<or> a + s \<le> b + t" by (rule old [OF m2 R2 pos(2)])
    moreover have "(False, b, t) \<notin># R" using co R2 by (auto simp: coalesced_def)
    moreover have "b + t \<noteq> a + s" using no(2) R2 by auto
    ultimately show False using first pos fit by auto
  next
    assume "b + t = a"
    then show False using first no(1) pos fit by auto
  next
    assume "p + n < a + s" "b + t = p + n"
    then show False using first old [OF m1 _ pos(1)] pos fit by auto
  qed
qed

section \<open>Joining a released region with its free neighbours\<close>

definition free_reg :: "(nat \<times> nat) option \<Rightarrow> region multiset" where
  "free_reg r = (case r of None \<Rightarrow> {#} | Some (a, s) \<Rightarrow> {#(False, a, s)#})"

definition joined :: "nat \<Rightarrow> nat \<Rightarrow> (nat \<times> nat) option \<Rightarrow> (nat \<times> nat) option \<Rightarrow> region" where
  "joined p s pre post =
     (let lo = (case pre of None \<Rightarrow> p | Some (a, t) \<Rightarrow> a);
          hi = (case post of None \<Rightarrow> p + s | Some (b, t) \<Rightarrow> b + t)
      in (False, lo, hi - lo))"

text \<open>The neighbours taken are the ones that touch, and none that touches is left out.\<close>

definition touching :: "region multiset \<Rightarrow> nat \<Rightarrow> nat \<Rightarrow> (nat \<times> nat) option \<Rightarrow>
    (nat \<times> nat) option \<Rightarrow> bool" where
  "touching R p s pre post \<longleftrightarrow>
     (case pre of None \<Rightarrow> \<forall>a t. (False, a, t) \<in># R \<longrightarrow> a + t \<noteq> p
      | Some (a, t) \<Rightarrow> (False, a, t) \<in># R \<and> a + t = p) \<and>
     (case post of None \<Rightarrow> \<forall>t. (False, p + s, t) \<notin># R
      | Some (b, t) \<Rightarrow> (False, b, t) \<in># R \<and> b = p + s)"

lemma join_covers:
  assumes eq: "R' + {#(True, p, s)#} + free_reg pre + free_reg post =
      R + {#joined p s pre post#}"
    and t: "touching R p s pre post"
  shows "covers R' x = covers R x"
    and "free_covers R' x = free_covers R x + (if p \<le> x \<and> x < p + s then 1 else 0)"
    and "add_mset (p, s) (used_of R') = used_of R"
proof -
  have "covers (R' + {#(True, p, s)#} + free_reg pre + free_reg post) x =
      covers (R + {#joined p s pre post#}) x"
    "free_covers (R' + {#(True, p, s)#} + free_reg pre + free_reg post) x =
      free_covers (R + {#joined p s pre post#}) x"
    "used_of (R' + {#(True, p, s)#} + free_reg pre + free_reg post) =
      used_of (R + {#joined p s pre post#})"
    by (simp_all only: eq)
  then show "covers R' x = covers R x"
    and "free_covers R' x = free_covers R x + (if p \<le> x \<and> x < p + s then 1 else 0)"
    and "add_mset (p, s) (used_of R') = used_of R"
    using t by (auto simp: free_reg_def joined_def touching_def in_reg_def Let_def
        split: option.splits if_splits prod.splits)
qed

lemma join_mem:
  assumes "R' + {#(True, p, s)#} + free_reg pre + free_reg post = R + {#joined p s pre post#}"
    and "r \<in># R'"
  shows "r \<in># R \<or> r = joined p s pre post"
  using assms by (metis add_mset_add_single insert_iff set_mset_add_mset_insert union_iff)

lemma join_regions_ok:
  assumes ok: "regions_ok lim R" and mem: "(True, p, s) \<in># R"
    and eq: "R' + {#(True, p, s)#} + free_reg pre + free_reg post = R + {#joined p s pre post#}"
    and t: "touching R p s pre post"
  shows "regions_ok lim R'"
proof -
  note b = regions_ok_bounds [OF ok]
  have "0 < v \<and> c + v \<le> lim" if "(u, c, v) \<in># R'" for u c v
    using join_mem [OF eq that]
  proof
    assume "(u, c, v) = joined p s pre post"
    then show ?thesis
      using t b [OF mem] b [of False] b [of False "p + s"]
      by (auto simp: joined_def touching_def Let_def split: option.splits) fastforce+
  qed (rule b)
  then show ?thesis
    using ok join_covers(1) [OF eq t] by (simp add: regions_ok_def)
qed

lemma join_free_bytes:
  assumes eq: "R' + {#(True, p, s)#} + free_reg pre + free_reg post = R + {#joined p s pre post#}"
    and t: "touching R p s pre post"
  shows "free_bytes_of R' = free_bytes_of R \<union> {p..<p + s}"
  unfolding free_bytes_of_covers set_eq_iff using join_covers(2) [OF eq t] by auto

lemma join_coalesced:
  assumes ok: "regions_ok lim R" and mem: "(True, p, s) \<in># R"
    and eq: "R' + {#(True, p, s)#} + free_reg pre + free_reg post = R + {#joined p s pre post#}"
    and t: "touching R p s pre post" and co: "coalesced R"
  shows "coalesced R'"
  unfolding coalesced_def
proof (intro allI impI notI)
  fix b u v
  assume m1: "(False, b, u) \<in># R'" and m2: "(False, b + u, v) \<in># R'"
  obtain lo n where J: "joined p s pre post = (False, lo, n)" by (auto simp: joined_def Let_def)
  have hi: "lo + n = (case post of None \<Rightarrow> p + s | Some (b, t) \<Rightarrow> b + t)"
    and lo: "lo = (case pre of None \<Rightarrow> p | Some (a, t) \<Rightarrow> a)"
    using J t by (auto simp: joined_def touching_def Let_def split: option.splits)
  have ok': "regions_ok lim R'" by (rule join_regions_ok [OF ok mem eq t])
  have pos: "0 < u" "0 < v"
    using regions_ok_bounds [OF ok' m1] regions_ok_bounds [OF ok' m2] by auto
  have noL: "(False, c, w) \<in># R \<Longrightarrow> c + w \<noteq> lo" for c w
    using t co by (auto simp: lo touching_def coalesced_def split: option.splits)
  have noR: "(False, lo + n, w) \<notin># R" for w
    using t co by (auto simp: hi touching_def coalesced_def split: option.splits)
  have "(False, b, u) \<in># R \<or> b = lo \<and> u = n" "(False, b + u, v) \<in># R \<or> b + u = lo \<and> v = n"
    using join_mem [OF eq m1] join_mem [OF eq m2] J by auto
  then show False
    using co noL [of b u] noR [of v] pos by (auto simp: coalesced_def)
qed

text \<open>A used region is not empty, shares no byte with the free ones, and its address tells its length.\<close>

lemma overlap_eq:
  assumes "regions_ok lim R" and "r \<in># R" and "s \<in># R" and "in_reg x r" and "in_reg x s"
  shows "r = s"
proof (rule ccontr)
  assume "r \<noteq> s"
  then obtain Q where "R = add_mset r (add_mset s Q)"
    using assms(2,3) by (metis insert_DiffM insert_noteq_member)
  then have "covers R x \<ge> 2" using assms(4,5) by simp
  then show False using assms(1) by (auto simp: regions_ok_def dest: spec [of _ x])
qed

lemma used_of_iff: "(a, n) \<in># used_of R \<longleftrightarrow> (True, a, n) \<in># R"
  by (force simp: used_of_def)

lemma used_region_props:
  assumes "regions_ok lim R" and "(a, n) \<in># used_of R"
  shows "0 < n" and "{a..<a + n} \<inter> free_bytes_of R = {}" and "(a, m) \<in># used_of R \<Longrightarrow> m = n"
proof -
  have u: "(True, a, n) \<in># R" using assms(2) by (simp add: used_of_iff)
  show n: "0 < n" using assms(1) u by (simp add: regions_ok_def)
  show "{a..<a + n} \<inter> free_bytes_of R = {}"
    using overlap_eq [OF assms(1) u] by (force simp: free_bytes_of_def in_reg_def)
  assume "(a, m) \<in># used_of R"
  then have m: "(True, a, m) \<in># R" by (simp add: used_of_iff)
  then have "0 < m" using assms(1) by (simp add: regions_ok_def)
  with overlap_eq [OF assms(1) u m, of a] n show "m = n" by (simp add: in_reg_def)
qed

end
