(* ===== verification/Alloc_Facts.thy ===== *)
theory Alloc_Facts
  imports Alloc Regions
begin

text \<open>
  The allocator proved correct: its entries are read as regions (theory \<open>Regions\<close>), and each
  operation as a step on the multiset of regions. \<open>alloc\<close> and \<open>free\<close> only ever split and
  join entries (the number of entries over a byte never changes), the entry chosen is a smallest
  one that fits, and free neighbours are always joined. The locale \<open>allocator\<close> is what the rest
  of the loader relies on, interpreted here on \<open>alloc\<close> and \<open>free\<close>.
\<close>

unbundle bit_operations_syntax

section \<open>Entries as regions\<close>

lemma unat_alloc_align:
  "unat (alloc_align fl) = (if fl AND ALLOC_FLAG_SETALIGN \<noteq> 0 then 2 ^ unat (fl AND 15) else 4)"
  using unat_and_15 [of fl]
  by (auto simp: alloc_align_def unat_push_bit_1 MIN_ALIGN_def simp del: push_bit_of_1)

lemma alloc_align_bounds: "0 < unat (alloc_align fl)" "unat (alloc_align fl) \<le> 32768"
proof -
  have "(2::nat) ^ unat (fl AND 15) \<le> 2 ^ 15"
    using unat_and_15 [of fl] by (intro power_increasing) auto
  then show "0 < unat (alloc_align fl)" "unat (alloc_align fl) \<le> 32768"
    by (auto simp: unat_alloc_align)
qed

definition reg :: "alloc_ent \<Rightarrow> region" where
  "reg e = (ent_used e, unat (ae_addr e), unat (ae_size e))"

definition regs_ent :: "alloc_ent \<Rightarrow> region multiset" where
  "regs_ent e = (if ent_valid e then {#reg e#} else {#})"

definition regs :: "alloc_ent list \<Rightarrow> region multiset" where
  "regs es = image_mset reg (filter_mset ent_valid (mset es))"

lemma regs_Nil [simp]: "regs [] = {#}" by (simp add: regs_def)
lemma regs_Cons [simp]: "regs (e # es) = regs_ent e + regs es"
  by (simp add: regs_def regs_ent_def)
lemma regs_append [simp]: "regs (es @ fs) = regs es + regs fs"
  by (simp add: regs_def)
lemma regs_zero [simp]: "regs (replicate n zero_ent) = {#}"
  by (induction n) (auto simp: regs_ent_def zero_ent_def ent_valid_def)

lemma regs_update:
  "i < length es \<Longrightarrow> regs (es[i := y]) + regs_ent (es ! i) = regs es + regs_ent y"
proof (induction es arbitrary: i)
  case Nil
  then show ?case by simp
next
  case (Cons e es)
  then show ?case by (cases i) (auto simp: ac_simps)
qed

lemma regs_add_slot: "add_slot es a = Some es' \<Longrightarrow> regs es' = regs es + regs_ent a"
  by (induction es arbitrary: es') (auto simp: regs_ent_def split: if_splits)

lemma add_slot_nth:
  "add_slot es a = Some es' \<Longrightarrow> length es' = length es \<and>
     (\<forall>i < length es. ent_valid (es ! i) \<longrightarrow> es' ! i = es ! i)"
proof (induction es arbitrary: es')
  case Nil
  then show ?case by simp
next
  case (Cons e es)
  then show ?case by (fastforce simp: nth_Cons split: if_splits nat.splits)
qed

lemma add_slot_None: "add_slot es a = None \<longleftrightarrow> (\<forall>e \<in> set es. ent_valid e)"
  by (induction es) auto

lemma regs_mem_iff: "r \<in># regs es \<longleftrightarrow> (\<exists>i < length es. ent_valid (es ! i) \<and> reg (es ! i) = r)"
  by (auto simp: regs_def in_set_conv_nth)

lemma fit_start_bounds:
  assumes fit: "fit_start mr al sz e = Some st"
    and e: "unat (ae_addr e) + unat (ae_size e) \<le> 2 ^ 31"
    and al: "0 < unat al" "unat al \<le> 32768" and mr: "unat (mr_start mr) \<le> 65536"
  shows "unat (ae_addr e) \<le> unat st"
    and "unat st + unat sz \<le> unat (ae_addr e) + unat (ae_size e)"
    and "unat (mr_start mr) \<le> unat st" and "unat st + unat sz \<le> unat (mr_end mr)"
    and "unat st mod unat al = 0"
proof -
  define s0 where "s0 = (if ae_addr e < mr_start mr then mr_start mr else ae_addr e)"
  define f0 where "f0 = (if ae_addr e + ae_size e > mr_end mr then mr_end mr else ae_addr e + ae_size e)"
  have f: "unat (ae_addr e + ae_size e) = unat (ae_addr e) + unat (ae_size e)"
    using e by (subst unat_add_no_wrap) auto
  have s0: "unat s0 = max (unat (ae_addr e)) (unat (mr_start mr))"
    by (auto simp: s0_def word_less_nat_alt)
  have f0: "unat f0 = min (unat (ae_addr e) + unat (ae_size e)) (unat (mr_end mr))"
    using f by (auto simp: f0_def word_less_nat_alt)
  have st: "st = (if s0 mod al \<noteq> 0 then s0 + (al - s0 mod al) else s0)"
    and ge: "\<not> st > f0" "\<not> f0 - st < sz"
    using fit by (auto simp: fit_start_def Let_def s0_def f0_def split: if_splits)
  have b: "unat s0 + unat al < 2 ^ 32" using s0 e al mr by auto
  note r = align_up_word [OF b al(1), folded st]
  have "unat st \<le> unat f0" using ge(1) by (simp add: word_less_nat_alt)
  moreover have "unat (f0 - st) = unat f0 - unat st"
    using ge(1) by (intro unat_sub_le) simp
  ultimately have "unat st + unat sz \<le> unat f0"
    using ge(2) by (simp add: word_less_nat_alt)
  then show "unat (ae_addr e) \<le> unat st"
    and "unat st + unat sz \<le> unat (ae_addr e) + unat (ae_size e)"
    and "unat (mr_start mr) \<le> unat st" and "unat st + unat sz \<le> unat (mr_end mr)"
    and "unat st mod unat al = 0"
    using r s0 f0 by auto
qed

lemma ent_valid_bit: "ent_valid e \<longleftrightarrow> bit (ae_flags e) 0"
  using bit_iff_and_push_bit_not_eq_0 [of "ae_flags e" 0]
  by (simp add: ent_valid_def ALLOCENT_FLAG_VALID_def)

lemma ent_used_bit: "ent_used e \<longleftrightarrow> bit (ae_flags e) 1"
  using bit_iff_and_push_bit_not_eq_0 [of "ae_flags e" 1]
  by (simp add: ent_used_def ALLOCENT_FLAG_USED_def)

lemma ent_flag_simps [simp]:
  "ent_valid (e\<lparr>ae_addr := a\<rparr>) = ent_valid e" "ent_used (e\<lparr>ae_addr := a\<rparr>) = ent_used e"
  "ent_valid (e\<lparr>ae_size := s\<rparr>) = ent_valid e" "ent_used (e\<lparr>ae_size := s\<rparr>) = ent_used e"
  "ent_valid (e\<lparr>ae_flags := f OR ALLOCENT_FLAG_USED\<rparr>) = ent_valid (e\<lparr>ae_flags := f\<rparr>)"
  "ent_used (e\<lparr>ae_flags := f OR ALLOCENT_FLAG_USED\<rparr>)"
  "ent_valid (e\<lparr>ae_flags := f AND NOT ALLOCENT_FLAG_USED\<rparr>) = ent_valid (e\<lparr>ae_flags := f\<rparr>)"
  "\<not> ent_used (e\<lparr>ae_flags := f AND NOT ALLOCENT_FLAG_USED\<rparr>)"
  "\<not> ent_valid (e\<lparr>ae_flags := 0\<rparr>)"
  "ent_valid \<lparr>ae_flags = ALLOCENT_FLAG_VALID, ae_addr = a, ae_size = s\<rparr>"
  "\<not> ent_used \<lparr>ae_flags = ALLOCENT_FLAG_VALID, ae_addr = a, ae_size = s\<rparr>"
  "ent_valid \<lparr>ae_flags = ALLOCENT_FLAG_VALID OR ALLOCENT_FLAG_USED, ae_addr = a, ae_size = s\<rparr>"
  "ent_used \<lparr>ae_flags = ALLOCENT_FLAG_VALID OR ALLOCENT_FLAG_USED, ae_addr = a, ae_size = s\<rparr>"
  by (auto simp: ent_valid_bit ent_used_bit ALLOCENT_FLAG_USED_def ALLOCENT_FLAG_VALID_def
      bit_simps)

lemma ents_upd_ent [simp]: "ents (upd_ent h i f) = (ents h)[i := f (ents h ! i)]"
  and blocks_upd_ent [simp]: "blocks (upd_ent h i f) = blocks h"
  by (simp_all add: upd_ent_def)

lemma add_alloc_Inr:
  "add_alloc h a = Inr h' \<Longrightarrow> blocks h' = blocks h \<and> length (ents h') = length (ents h) \<and>
     regs (ents h') = regs (ents h) + regs_ent a \<and>
     (\<forall>i < length (ents h). ent_valid (ents h ! i) \<longrightarrow> ents h' ! i = ents h ! i)"
  by (auto simp: add_alloc_def regs_add_slot dest: add_slot_nth split: option.splits)

lemma claim_front_regs:
  assumes i: "i < length (ents h)" and v: "ent_valid (ents h ! i)" "\<not> ent_used (ents h ! i)"
    and e: "e = ents h ! i" and st: "unat (ae_addr e) \<le> unat st"
    and c: "claim_front h i st = Inr h'"
  shows "blocks h' = blocks h" and "length (ents h') = length (ents h)"
    and "ents h' ! i = e\<lparr>ae_addr := st, ae_size := ae_size e - (st - ae_addr e)\<rparr>"
    and "regs (ents h') + {#reg e#} =
      regs (ents h) + {#(False, unat st, unat (ae_size e - (st - ae_addr e)))#} +
      (if unat (ae_addr e) < unat st
       then {#(False, unat (ae_addr e), unat st - unat (ae_addr e))#} else {#})"
proof -
  have d: "unat (st - ae_addr e) = unat st - unat (ae_addr e)"
    using st by (simp add: unat_sub_le word_le_nat_alt)
  have "blocks h' = blocks h \<and> length (ents h') = length (ents h) \<and>
    ents h' ! i = e\<lparr>ae_addr := st, ae_size := ae_size e - (st - ae_addr e)\<rparr> \<and>
    regs (ents h') + {#reg e#} =
      regs (ents h) + {#(False, unat st, unat (ae_size e - (st - ae_addr e)))#} +
      (if unat (ae_addr e) < unat st
       then {#(False, unat (ae_addr e), unat st - unat (ae_addr e))#} else {#})"
  proof (cases "ae_addr e = st")
    case True
    then show ?thesis using c v e by (auto simp: claim_front_def Let_def reg_def)
  next
    case False
    then have lt: "unat (ae_addr e) < unat st" using st by (metis nat_less_le word_unat_eq_iff)
    obtain h0 where h0: "add_alloc h \<lparr>ae_flags = ALLOCENT_FLAG_VALID, ae_addr = ae_addr e,
        ae_size = st - ae_addr e\<rparr> = Inr h0"
      and h': "h' = upd_ent h0 i (\<lambda>x. x\<lparr>ae_addr := st, ae_size := ae_size x - (st - ae_addr e)\<rparr>)"
      using c False e by (auto simp: claim_front_def Let_def res_simps)
    note a0 = add_alloc_Inr [OF h0]
    have i0: "ents h0 ! i = e" "i < length (ents h0)" using a0 i v e by auto
    show ?thesis
      using regs_update [OF i0(2), of "e\<lparr>ae_addr := st, ae_size := ae_size e - (st - ae_addr e)\<rparr>"]
        a0 v lt d i0 by (simp add: h' regs_ent_def reg_def e [symmetric])
  qed
  then show "blocks h' = blocks h" and "length (ents h') = length (ents h)"
    and "ents h' ! i = e\<lparr>ae_addr := st, ae_size := ae_size e - (st - ae_addr e)\<rparr>"
    and "regs (ents h') + {#reg e#} =
      regs (ents h) + {#(False, unat st, unat (ae_size e - (st - ae_addr e)))#} +
      (if unat (ae_addr e) < unat st
       then {#(False, unat (ae_addr e), unat st - unat (ae_addr e))#} else {#})"
    by simp_all
qed

lemma claim_back_regs:
  assumes i: "i < length (ents h)" and v: "ent_valid (ents h ! i)" "\<not> ent_used (ents h ! i)"
    and st: "ae_addr (ents h ! i) = st" and s: "unat (ae_size (ents h ! i)) = s"
    and b: "unat st + s \<le> 2 ^ 31" and sz: "unat sz \<le> s"
    and c: "claim_back h i st sz = Inr (p, h')"
  shows "p = st" and "blocks h' = blocks h" and "length (ents h') = length (ents h)"
    and "regs (ents h') + {#(False, unat st, s)#} =
      regs (ents h) + {#(True, unat st, unat sz)#} +
      (if unat sz < s then {#(False, unat st + unat sz, s - unat sz)#} else {#})"
proof -
  have "p = st \<and> blocks h' = blocks h \<and> length (ents h') = length (ents h) \<and>
    regs (ents h') + {#(False, unat st, s)#} =
      regs (ents h) + {#(True, unat st, unat sz)#} +
      (if unat sz < s then {#(False, unat st + unat sz, s - unat sz)#} else {#})"
  proof (cases "ae_size (ents h ! i) = sz")
    case True
    then show ?thesis
      using c v i st s
        regs_update [OF i, of "(ents h ! i)\<lparr>ae_flags := ae_flags (ents h ! i) OR ALLOCENT_FLAG_USED\<rparr>"]
      by (auto simp: claim_back_def regs_ent_def reg_def)
  next
    case False
    then have lt: "unat sz < s" using sz s by (metis nat_less_le word_unat_eq_iff)
    let ?e = "(ents h ! i)\<lparr>ae_addr := st + sz, ae_size := ae_size (ents h ! i) - sz\<rparr>"
    have u: "unat (st + sz) = unat st + unat sz" "unat (ae_size (ents h ! i) - sz) = s - unat sz"
      using b sz s by (subst unat_add_no_wrap, simp_all add: unat_sub_le word_le_nat_alt)
    have "p = st" and a: "add_alloc (upd_ent h i (\<lambda>e. e\<lparr>ae_addr := ae_addr e + sz, ae_size := ae_size e - sz\<rparr>))
               \<lparr>ae_flags = ALLOCENT_FLAG_VALID OR ALLOCENT_FLAG_USED, ae_addr = st, ae_size = sz\<rparr> = Inr h'"
      using c False by (auto simp: claim_back_def res_simps)
    then show ?thesis
      using add_alloc_Inr [OF a] regs_update [OF i, of ?e] v st s lt u
      by (simp add: regs_ent_def reg_def)
  qed
  then show "p = st" and "blocks h' = blocks h" and "length (ents h') = length (ents h)"
    and "regs (ents h') + {#(False, unat st, s)#} =
      regs (ents h) + {#(True, unat st, unat sz)#} +
      (if unat sz < s then {#(False, unat st + unat sz, s - unat sz)#} else {#})"
    by simp_all
qed

lemma claim_entry_regs:
  assumes i: "i < length (ents h)" and v: "ent_valid (ents h ! i)" "\<not> ent_used (ents h ! i)"
    and e: "e = ents h ! i" and b: "unat (ae_addr e) + unat (ae_size e) \<le> 2 ^ 31"
    and st: "unat (ae_addr e) \<le> unat st"
      "unat st + unat sz \<le> unat (ae_addr e) + unat (ae_size e)"
    and c: "claim_entry h i st sz = Inr (p, h')"
  shows "p = st" and "blocks h' = blocks h" and "length (ents h') = length (ents h)"
    and "regs (ents h') + {#(False, unat (ae_addr e), unat (ae_size e))#} =
      regs (ents h) + split_regs (unat (ae_addr e)) (unat (ae_size e)) (unat st) (unat sz)"
proof -
  obtain h1 where f: "claim_front h i st = Inr h1" and g: "claim_back h1 i st sz = Inr (p, h')"
    using c by (auto simp: claim_entry_def res_simps)
  note F = claim_front_regs [OF i v e st(1) f]
  have d: "unat (ae_size e - (st - ae_addr e)) = unat (ae_addr e) + unat (ae_size e) - unat st"
    using st by (simp add: unat_sub_le word_le_nat_alt)
  have G: "p = st \<and> blocks h' = blocks h1 \<and> length (ents h') = length (ents h1) \<and>
    regs (ents h') + {#(False, unat st, unat (ae_size e - (st - ae_addr e)))#} =
      regs (ents h1) + {#(True, unat st, unat sz)#} +
      (if unat sz < unat (ae_size e - (st - ae_addr e))
       then {#(False, unat st + unat sz, unat (ae_size e - (st - ae_addr e)) - unat sz)#} else {#})"
    using claim_back_regs [OF _ _ _ _ refl _ _ g] F i v e st b d by auto
  show "p = st" "blocks h' = blocks h" "length (ents h') = length (ents h)"
    using F G by auto
  have G4: "regs (ents h') + {#(False, unat st, unat (ae_size e - (st - ae_addr e)))#} =
      regs (ents h1) + ({#(True, unat st, unat sz)#} +
      (if unat sz < unat (ae_size e - (st - ae_addr e))
       then {#(False, unat st + unat sz, unat (ae_size e - (st - ae_addr e)) - unat sz)#} else {#}))"
    using G by (simp only: add.assoc)
  have re: "reg e = (False, unat (ae_addr e), unat (ae_size e))"
    using v e by (simp add: reg_def)
  have n: "unat sz < unat (ae_addr e) + unat (ae_size e) - unat st \<longleftrightarrow>
      unat st + unat sz < unat (ae_addr e) + unat (ae_size e)"
    "unat (ae_addr e) + unat (ae_size e) - unat st - unat sz =
      unat (ae_addr e) + unat (ae_size e) - (unat st + unat sz)"
    using st by linarith+
  show "regs (ents h') + {#(False, unat (ae_addr e), unat (ae_size e))#} =
      regs (ents h) + split_regs (unat (ae_addr e)) (unat (ae_size e)) (unat st) (unat sz)"
    using mset_chain [OF G4 F(4)] unfolding d re split_regs_def n by (simp only: add.assoc)
qed

section \<open>The scan chooses a smallest entry that fits\<close>

definition fits :: "alloc_memrange \<Rightarrow> u32 \<Rightarrow> u32 \<Rightarrow> alloc_ent \<Rightarrow> bool" where
  "fits mr al sz e \<longleftrightarrow> ent_valid e \<and> \<not> ent_used e \<and> fit_start mr al sz e \<noteq> None"

definition best_of :: "alloc_memrange \<Rightarrow> u32 \<Rightarrow> u32 \<Rightarrow> alloc_ent list \<Rightarrow>
    (nat \<times> alloc_ent \<times> u32) option \<Rightarrow> bool" where
  "best_of mr al sz es r \<longleftrightarrow>
     (case r of
        None \<Rightarrow> \<forall>e \<in> set es. \<not> fits mr al sz e
      | Some (i, e, st) \<Rightarrow>
          i < length es \<and> e = es ! i \<and> ent_valid e \<and> \<not> ent_used e \<and>
          fit_start mr al sz e = Some st \<and>
          (\<forall>e' \<in> set es. fits mr al sz e' \<longrightarrow> ae_size e \<le> ae_size e'))"

lemma best_of_step:
  assumes "best_of mr al sz es (fst acc)"
  shows "best_of mr al sz (es @ [e]) (fst (scan_step mr al sz (length es) e acc))"
proof (cases "fits mr al sz e")
  case False
  then have "fst (scan_step mr al sz (length es) e acc) = fst acc"
    by (auto simp: scan_step_def fits_def)
  with assms False show ?thesis
    by (auto simp: best_of_def nth_append split: option.splits)
next
  case True
  then obtain st where st: "fit_start mr al sz e = Some st" "ent_valid e" "\<not> ent_used e"
    by (auto simp: fits_def)
  show ?thesis
  proof (cases "fst acc")
    case None
    with assms st show ?thesis by (auto simp: best_of_def scan_step_def)
  next
    case (Some r)
    obtain i b s where r: "r = (i, b, s)" by (cases r)
    with Some assms have b: "i < length es" "b = es ! i" "ent_valid b" "\<not> ent_used b"
      "fit_start mr al sz b = Some s" "\<forall>e' \<in> set es. fits mr al sz e' \<longrightarrow> ae_size b \<le> ae_size e'"
      by (auto simp: best_of_def)
    show ?thesis
    proof (cases "ae_size e < ae_size b")
      case True
      then show ?thesis
        using Some r b st
        by (auto simp: best_of_def scan_step_def dest: less_imp_le intro: less_le_trans)
    next
      case False
      then show ?thesis using Some r b st by (auto simp: best_of_def scan_step_def nth_append)
    qed
  qed
qed

lemma best_of_scan:
  assumes "best_of mr al sz es (fst acc)"
  shows "best_of mr al sz (es @ fs) (fst (scan_ents mr al sz (length es) fs acc))"
  using assms
proof (induction fs arbitrary: es acc)
  case Nil
  then show ?case by simp
next
  case (Cons f fs)
  from Cons.IH [OF best_of_step [OF Cons.prems, of f]] show ?case by simp
qed

lemma scan_best_of: "best_of mr al sz es (fst (scan_ents mr al sz 0 es (None, 0)))"
  using best_of_scan [of mr al sz "[]" "(None, 0)" es] by (simp add: best_of_def)

section \<open>What a heap means\<close>

definition heap_top :: nat where "heap_top = 2 ^ 31"

definition heap_inv :: "heap \<Rightarrow> bool" where
  "heap_inv h \<longleftrightarrow> regions_ok heap_top (regs (ents h))"

definition used_regions :: "heap \<Rightarrow> (nat \<times> nat) multiset" where
  "used_regions h = used_of (regs (ents h))"

definition free_bytes :: "heap \<Rightarrow> nat set" where
  "free_bytes h = free_bytes_of (regs (ents h))"

definition heap_covers :: "heap \<Rightarrow> nat \<Rightarrow> nat" where
  "heap_covers h x = covers (regs (ents h)) x"

definition heap_coalesced :: "heap \<Rightarrow> bool" where
  "heap_coalesced h \<longleftrightarrow> coalesced (regs (ents h))"

lemmas heap_defs = heap_inv_def used_regions_def free_bytes_def heap_covers_def heap_coalesced_def

text \<open>\<open>took h p n h'\<close>: \<open>h'\<close> is \<open>h\<close> with the free bytes from \<open>p\<close> on, \<open>n\<close> of them, made used.\<close>

definition took :: "heap \<Rightarrow> nat \<Rightarrow> nat \<Rightarrow> heap \<Rightarrow> bool" where
  "took h p n h' \<longleftrightarrow>
     heap_inv h' \<and> used_regions h' = add_mset (p, n) (used_regions h) \<and>
     {p..<p + n} \<subseteq> free_bytes h \<and> free_bytes h' = free_bytes h - {p..<p + n} \<and>
     (\<forall>x. heap_covers h' x = heap_covers h x) \<and> (heap_coalesced h \<longrightarrow> heap_coalesced h')"

lemma add_alloc_block_same [simp]:
  "heap_inv (add_alloc_block h b) = heap_inv h"
  "used_regions (add_alloc_block h b) = used_regions h"
  "free_bytes (add_alloc_block h b) = free_bytes h"
  "heap_covers (add_alloc_block h b) = heap_covers h"
  "heap_coalesced (add_alloc_block h b) = heap_coalesced h"
  "blocks (add_alloc_block h b) = blocks h @ [b]"
  by (simp_all add: heap_defs add_alloc_block_def fun_eq_iff)

lemma heap_inv_ent:
  assumes "heap_inv h" and "i < length (ents h)" and "ent_valid (ents h ! i)"
  shows "0 < unat (ae_size (ents h ! i))"
    and "unat (ae_addr (ents h ! i)) + unat (ae_size (ents h ! i)) \<le> heap_top"
proof -
  have "reg (ents h ! i) \<in># regs (ents h)" using assms(2,3) by (auto simp: regs_mem_iff)
  then show "0 < unat (ae_size (ents h ! i))"
    and "unat (ae_addr (ents h ! i)) + unat (ae_size (ents h ! i)) \<le> heap_top"
    using assms(1) by (auto simp: heap_inv_def reg_def dest: regions_ok_bounds)
qed

lemma find_free_here_spec:
  assumes inv: "heap_inv h" and sz: "0 < unat sz" and mr: "unat (mr_start mr) \<le> 65536"
    and c: "find_free_here h sz fl mr = Inr (p, h')"
  shows "(p = 0 \<and> h' = h \<and> (\<forall>e \<in> set (ents h). \<not> fits mr (alloc_align fl) sz e)) \<or>
    (took h (unat p) (unat sz) h' \<and> blocks h' = blocks h \<and> length (ents h') = length (ents h) \<and>
     unat p mod unat (alloc_align fl) = 0 \<and>
     unat (mr_start mr) \<le> unat p \<and> unat p + unat sz \<le> unat (mr_end mr))"
proof -
  note best = scan_best_of [of mr "alloc_align fl" sz "ents h"]
  show ?thesis
  proof (cases "fst (scan_ents mr (alloc_align fl) sz 0 (ents h) (None, 0))")
    case None
    then show ?thesis using best c by (auto simp: best_of_def find_free_here_def)
  next
    case (Some r)
    obtain i e st where r: "r = (i, e, st)" by (cases r)
    have b: "i < length (ents h)" "e = ents h ! i" "ent_valid e" "\<not> ent_used e"
      "fit_start mr (alloc_align fl) sz e = Some st"
      using best Some r by (auto simp: best_of_def)
    have cl: "claim_entry h i st sz = Inr (p, h')" using c Some r by (simp add: find_free_here_def)
    note hi = heap_inv_ent [OF inv b(1) b(3) [unfolded b(2)], folded b(2), unfolded heap_top_def]
    note f = fit_start_bounds [OF b(5) hi(2) alloc_align_bounds mr]
    note cr = claim_entry_regs [OF b(1) b(3,4) [unfolded b(2)] b(2) hi(2) f(1,2) cl]
    have m: "(False, unat (ae_addr e), unat (ae_size e)) \<in># regs (ents h)"
      using b by (auto simp: regs_mem_iff reg_def)
    note ok = inv [unfolded heap_inv_def]
    note s = cr(4) f(1,2) sz
    have "took h (unat p) (unat sz) h'"
      unfolding took_def heap_defs cr(1)
      using split_regions_ok [OF ok m s] split_free_bytes [OF ok m s] split_covers [OF s]
        split_coalesced [OF ok m s] by blast
    then show ?thesis using cr f by simp
  qed
qed

lemma mrange_of_start: "unat (mr_start (mrange_of fl)) \<le> 65536"
  by (simp add: mrange_of_def mrange_16b_def mrange_32b_def)

lemma find_free_unfold:
  "find_free h sz fl mr =
     (if free_ents_low (length (filter (\<lambda>e. \<not> ent_valid e) (ents h)))
         \<and> fl AND ALLOC_FLAG_NONEWBLOCK = 0 then
        bnd (alloc_table_block h)
          (\<lambda>(nb, h'). find_free_here (add_alloc_block h' nb) sz fl mr)
      else find_free_here h sz fl mr)"
proof -
  have "\<not> free_ents_low (snd (scan_ents mr al sz 0 (ents (add_alloc_block h' nb)) (None, 0)))"
    for h' nb al
    by (simp add: snd_scan_ents free_ents_low_def add_alloc_block_def ALLOC_BLOCK_SZ_def
        zero_ent_def ent_valid_def)
  then have "find_free (add_alloc_block h' nb) sz fl mr = find_free_here (add_alloc_block h' nb) sz fl mr"
    for h' nb by (subst find_free.simps) simp
  then show ?thesis by (subst find_free.simps) (simp add: snd_scan_ents)
qed

lemma alloc_table_block_spec:
  assumes inv: "heap_inv h" and c: "alloc_table_block h = Inr (nb, h')"
  shows "took h (unat nb) 1540 h'" and "blocks h' = blocks h" and "nb \<noteq> 0"
proof -
  have "find_free_here h sizeof_alloc_block ALLOC_FLAG_NONEWBLOCK (mrange_of ALLOC_FLAG_NONEWBLOCK) = Inr (nb, h')"
    and "nb \<noteq> 0"
    using c by (auto simp: alloc_table_block_def res_simps split: if_splits)
  then show "took h (unat nb) 1540 h'" and "blocks h' = blocks h" and "nb \<noteq> 0"
    using find_free_here_spec [OF inv _ mrange_of_start, of sizeof_alloc_block ALLOC_FLAG_NONEWBLOCK ALLOC_FLAG_NONEWBLOCK nb h']
    by (auto simp: sizeof_alloc_block_def)
qed

lemma tookD:
  assumes "took h p n h'"
  shows "heap_inv h'" "used_regions h' = add_mset (p, n) (used_regions h)"
    "{p..<p + n} \<subseteq> free_bytes h" "free_bytes h' = free_bytes h - {p..<p + n}"
    "heap_covers h' x = heap_covers h x" "heap_coalesced h \<Longrightarrow> heap_coalesced h'"
  using assms by (simp_all add: took_def)

lemma took_block:
  "took (add_alloc_block h b) p n h' = took h p n h'"
  by (simp add: took_def)

lemma alloc_cases:
  assumes inv: "heap_inv h" and c: "alloc h sz fl = Inr (p, h')"
  obtains (plain) "took h (unat p) (unat sz) h'" "blocks h' = blocks h"
      "find_free_here h sz fl (mrange_of fl) = Inr (p, h')" "sz \<noteq> 0" "p \<noteq> 0"
    | (table) nb h1 where "took h (unat nb) 1540 h1" "took h1 (unat p) (unat sz) h'"
      "blocks h' = blocks h @ [nb]" "sz \<noteq> 0" "p \<noteq> 0"
      "find_free_here (add_alloc_block h1 nb) sz fl (mrange_of fl) = Inr (p, h')"
proof -
  have nz: "sz \<noteq> 0" "p \<noteq> 0" and f: "find_free h sz fl (mrange_of fl) = Inr (p, h')"
    using c by (auto simp: alloc_def res_simps split: if_splits)
  have sz: "0 < unat sz" using nz by (simp add: unat_gt_0)
  show ?thesis
  proof (cases "free_ents_low (length (filter (\<lambda>e. \<not> ent_valid e) (ents h)))
         \<and> fl AND ALLOC_FLAG_NONEWBLOCK = 0")
    case False
    then have "find_free_here h sz fl (mrange_of fl) = Inr (p, h')"
      using f unfolding find_free_unfold by (simp only: if_False)
    with find_free_here_spec [OF inv sz mrange_of_start this] nz show ?thesis by (intro plain) auto
  next
    case True
    then obtain nb h1 where t: "alloc_table_block h = Inr (nb, h1)"
      and g: "find_free_here (add_alloc_block h1 nb) sz fl (mrange_of fl) = Inr (p, h')"
      using f by (auto simp: find_free_unfold res_simps)
    note T = alloc_table_block_spec [OF inv t]
    have "heap_inv (add_alloc_block h1 nb)" using tookD(1) [OF T(1)] by simp
    from find_free_here_spec [OF this sz mrange_of_start g] T nz show ?thesis
      by (intro table) (auto simp: took_block g)
  qed
qed

section \<open>Freeing\<close>

definition ends_at :: "u32 \<Rightarrow> alloc_ent \<Rightarrow> bool" where
  "ends_at a e \<longleftrightarrow> ent_valid e \<and> \<not> ent_used e \<and> ae_addr e + ae_size e = a"

definition used_at :: "u32 \<Rightarrow> alloc_ent \<Rightarrow> bool" where
  "used_at a e \<longleftrightarrow> ent_valid e \<and> ent_used e \<and> ae_addr e = a"

definition free_above :: "u32 \<Rightarrow> alloc_ent \<Rightarrow> bool" where
  "free_above a e \<longleftrightarrow> ent_valid e \<and> \<not> ent_used e \<and> a < ae_addr e"

definition found :: "(alloc_ent \<Rightarrow> bool) \<Rightarrow> alloc_ent list \<Rightarrow> nat \<Rightarrow> nat option \<Rightarrow> bool" where
  "found P es n r \<longleftrightarrow>
     (case r of None \<Rightarrow> \<forall>k < n. \<not> P (es ! k) | Some i \<Rightarrow> i < length es \<and> P (es ! i))"

definition free_scan_ok :: "alloc_ent list \<Rightarrow> u32 \<Rightarrow> nat \<Rightarrow> free_acc \<Rightarrow> bool" where
  "free_scan_ok es a n acc \<longleftrightarrow>
     (case acc of (pre, ent, post) \<Rightarrow>
        found (ends_at a) es n pre \<and> found (used_at a) es n ent \<and> found (free_above a) es n post \<and>
        (\<forall>q k. post = Some q \<longrightarrow> k < n \<longrightarrow> free_above a (es ! k) \<longrightarrow>
           ae_addr (es ! q) \<le> ae_addr (es ! k)))"

lemma free_scan_ok_step:
  assumes "free_scan_ok es a n acc" and "n < length es"
    and "ends_at a (es ! n) \<Longrightarrow> ae_addr (es ! n) < a"
  shows "free_scan_ok es a (Suc n) (free_step es a n acc)"
proof -
  obtain pre ent post where acc: "acc = (pre, ent, post)" by (cases acc)
  show ?thesis
    using assms unfolding acc free_scan_ok_def free_step_def found_def Let_def prod.case
    by (cases pre; cases ent; cases post)
      (auto simp: less_Suc_eq ends_at_def used_at_def free_above_def)
qed

lemma free_scan_found:
  assumes "\<And>e. e \<in> set es \<Longrightarrow> ends_at a e \<Longrightarrow> ae_addr e < a"
  shows "free_scan_ok es a (length es) (free_scan es a)"
proof -
  have "n \<le> length es \<Longrightarrow> free_scan_ok es a n (fold (free_step es a) [0..<n] (None, None, None))" for n
  proof (induction n)
    case 0
    show ?case by (simp add: free_scan_ok_def found_def)
  next
    case (Suc n)
    then show ?case using assms [of "es ! n"] by (simp add: free_scan_ok_step)
  qed
  then show ?thesis by (simp add: free_scan_def)
qed

definition ext :: "alloc_ent \<Rightarrow> nat \<times> nat" where
  "ext e = (unat (ae_addr e), unat (ae_size e))"

lemma ext_reg: "reg e = (ent_used e, ext e)"
  by (simp add: reg_def ext_def)

lemma regs_update2:
  assumes "i < length es" and "p < length es" and "i \<noteq> p"
    and "ent_valid (es ! i)" and "ent_valid (es ! p)" and "ent_valid x" and "\<not> ent_valid y"
  shows "regs (es[i := x, p := y]) + {#reg (es ! i)#} + {#reg (es ! p)#} = regs es + {#reg x#}"
proof -
  have "regs (es[i := x, p := y]) + {#reg (es ! p)#} = regs (es[i := x])"
    using regs_update [of p "es[i := x]" y] assms by (simp add: regs_ent_def)
  moreover have "regs (es[i := x]) + {#reg (es ! i)#} = regs es + {#reg x#}"
    using regs_update [of i es x] assms by (simp add: regs_ent_def)
  ultimately show ?thesis by (simp only: ac_simps)
qed

lemma absorb_pre_Some:
  assumes i: "i < length (ents h)" "used_at a (ents h ! i)"
    and p: "p < length (ents h)" "ends_at a (ents h ! p)"
    and b: "unat a + unat (ae_size (ents h ! i)) \<le> heap_top"
      "unat (ae_addr (ents h ! p)) + unat (ae_size (ents h ! p)) \<le> heap_top"
    and h': "h' = absorb_pre h i (Some p)"
  shows "length (ents h') = length (ents h)" and "blocks h' = blocks h"
    and "k \<noteq> i \<Longrightarrow> k \<noteq> p \<Longrightarrow> ents h' ! k = ents h ! k"
    and "ent_valid (ents h' ! i)" and "ent_used (ents h' ! i)"
    and "ext (ents h' ! i) = (unat (ae_addr (ents h ! p)),
      unat a + unat (ae_size (ents h ! i)) - unat (ae_addr (ents h ! p)))"
    and "unat (ae_addr (ents h ! p)) + unat (ae_size (ents h ! p)) = unat a"
    and "regs (ents h') + {#reg (ents h ! i)#} + {#reg (ents h ! p)#} =
      regs (ents h) + {#reg (ents h' ! i)#}"
proof -
  let ?e = "ents h ! i" and ?p = "ents h ! p"
  let ?x = "?e\<lparr>ae_addr := ae_addr ?p, ae_size := ae_size ?e + ae_size ?p\<rparr>"
  let ?y = "?p\<lparr>ae_flags := 0\<rparr>"
  have ne: "i \<noteq> p" using i p by (auto simp: used_at_def ends_at_def)
  have es: "ents h' = (ents h)[i := ?x, p := ?y]"
    using ne by (simp add: h' absorb_pre_def Let_def)
  have sum: "unat (ae_addr ?p) + unat (ae_size ?p) = unat a"
    using p(2) b(2) unat_add_no_wrap [of "ae_addr ?p" "ae_size ?p"]
    by (auto simp: ends_at_def heap_top_def)
  have sz: "unat (ae_size ?e + ae_size ?p) = unat (ae_size ?e) + unat (ae_size ?p)"
    using b sum by (intro unat_add_no_wrap) (simp add: heap_top_def)
  have nth: "ents h' ! i = ?x" using es ne i by simp
  show "length (ents h') = length (ents h)" "blocks h' = blocks h"
    by (simp_all add: h' absorb_pre_def Let_def)
  show "k \<noteq> i \<Longrightarrow> k \<noteq> p \<Longrightarrow> ents h' ! k = ents h ! k" by (simp add: es)
  show "ent_valid (ents h' ! i)" "ent_used (ents h' ! i)" using i(2) by (simp_all add: nth used_at_def)
  show "ext (ents h' ! i) = (unat (ae_addr ?p), unat a + unat (ae_size ?e) - unat (ae_addr ?p))"
    using sum sz by (simp add: nth ext_def)
  show "unat (ae_addr ?p) + unat (ae_size ?p) = unat a" by (rule sum)
  show "regs (ents h') + {#reg ?e#} + {#reg ?p#} = regs (ents h) + {#reg (ents h' ! i)#}"
    unfolding nth unfolding es using i p ne
    by (intro regs_update2) (auto simp: used_at_def ends_at_def)
qed

lemma absorb_post_Some:
  assumes i: "i < length (ents h)" "ent_valid (ents h ! i)" "ent_used (ents h ! i)"
    and q: "q < length (ents h)" "ent_valid (ents h ! q)" "\<not> ent_used (ents h ! q)"
    and b: "unat (ae_addr (ents h ! i)) + unat (ae_size (ents h ! i)) = unat (ae_addr (ents h ! q))"
      "unat (ae_addr (ents h ! q)) + unat (ae_size (ents h ! q)) \<le> heap_top"
    and h': "h' = absorb_post h i (Some q)"
  shows "length (ents h') = length (ents h)" and "blocks h' = blocks h"
    and "ent_valid (ents h' ! i)" and "ent_used (ents h' ! i)"
    and "ext (ents h' ! i) = (unat (ae_addr (ents h ! i)),
      unat (ae_size (ents h ! i)) + unat (ae_size (ents h ! q)))"
    and "regs (ents h') + {#reg (ents h ! i)#} + {#reg (ents h ! q)#} =
      regs (ents h) + {#reg (ents h' ! i)#}"
proof -
  let ?e = "ents h ! i" and ?q = "ents h ! q"
  let ?x = "?e\<lparr>ae_size := ae_size ?e + ae_size ?q\<rparr>"
  let ?y = "?q\<lparr>ae_flags := 0\<rparr>"
  have ne: "i \<noteq> q" using i q by auto
  have "unat (ae_addr ?e + ae_size ?e) = unat (ae_addr ?q)"
    using b by (subst unat_add_no_wrap) (auto simp: heap_top_def)
  then have "ae_addr ?e + ae_size ?e = ae_addr ?q" by (simp add: word_unat_eq_iff)
  then have h2: "h' = upd_ent (upd_ent h i (\<lambda>e. e\<lparr>ae_size := ae_size e + ae_size ?q\<rparr>)) q (\<lambda>e. e\<lparr>ae_flags := 0\<rparr>)"
    by (simp add: h' absorb_post_def Let_def)
  have es: "ents h' = (ents h)[i := ?x, q := ?y]" using ne by (simp add: h2)
  have sz: "unat (ae_size ?e + ae_size ?q) = unat (ae_size ?e) + unat (ae_size ?q)"
    using b by (intro unat_add_no_wrap) (simp add: heap_top_def)
  have nth: "ents h' ! i = ?x" using es ne i by simp
  show "length (ents h') = length (ents h)" "blocks h' = blocks h" by (simp_all add: h2)
  show "ent_valid (ents h' ! i)" "ent_used (ents h' ! i)" using i by (simp_all add: nth)
  show "ext (ents h' ! i) = (unat (ae_addr ?e), unat (ae_size ?e) + unat (ae_size ?q))"
    using sz by (simp add: nth ext_def)
  show "regs (ents h') + {#reg ?e#} + {#reg ?q#} = regs (ents h) + {#reg (ents h' ! i)#}"
    unfolding nth unfolding es using i q ne by (intro regs_update2) auto
qed


definition post_touch :: "heap \<Rightarrow> nat \<Rightarrow> nat option \<Rightarrow> nat option" where
  "post_touch h c post =
     (case post of None \<Rightarrow> None
      | Some q \<Rightarrow> if unat (ae_addr (ents h ! q)) = c then Some q else None)"

definition ext_opt :: "heap \<Rightarrow> nat option \<Rightarrow> (nat \<times> nat) option" where
  "ext_opt h r = map_option (\<lambda>k. ext (ents h ! k)) r"

lemma heap_inv_no_wrap:
  assumes "heap_inv h" and "e \<in> set (ents h)" and "ent_valid e"
  shows "unat (ae_addr e + ae_size e) = unat (ae_addr e) + unat (ae_size e)"
    and "0 < unat (ae_size e)" and "unat (ae_addr e) + unat (ae_size e) \<le> heap_top"
proof -
  obtain i where i: "i < length (ents h)" "e = ents h ! i"
    using assms(2) by (auto simp: in_set_conv_nth)
  note b = heap_inv_ent [OF assms(1) i(1) assms(3) [unfolded i(2)], folded i(2)]
  then show "unat (ae_addr e + ae_size e) = unat (ae_addr e) + unat (ae_size e)"
    by (subst unat_add_no_wrap) (auto simp: heap_top_def)
  show "0 < unat (ae_size e)" "unat (ae_addr e) + unat (ae_size e) \<le> heap_top" by (fact b)+
qed

lemma heap_inv_ends_at:
  assumes "heap_inv h" and "e \<in> set (ents h)" and "ends_at a e"
  shows "ae_addr e < a" and "unat (ae_addr e) + unat (ae_size e) = unat a"
  using heap_inv_no_wrap [OF assms(1,2)] assms(3) by (auto simp: ends_at_def word_less_nat_alt)

lemma mem_free_reg:
  "(False, b, t) \<in># regs es \<longleftrightarrow>
     (\<exists>k < length es. ent_valid (es ! k) \<and> \<not> ent_used (es ! k) \<and> ext (es ! k) = (b, t))"
  by (auto simp: regs_mem_iff ext_reg)

lemma free_scan_touching:
  assumes inv: "heap_inv h" and sc: "free_scan (ents h) a = (pre, Some i, post)"
  defines "s \<equiv> unat (ae_size (ents h ! i))"
  shows "touching (regs (ents h)) (unat a) s (ext_opt h pre)
    (ext_opt h (post_touch h (unat a + s) post))"
proof -
  let ?es = "ents h"
  have ok: "free_scan_ok ?es a (length ?es) (pre, Some i, post)"
    using free_scan_found [of ?es a] heap_inv_ends_at [OF inv] sc by metis
  then have i: "i < length ?es" "used_at a (?es ! i)"
    and pre: "found (ends_at a) ?es (length ?es) pre"
    and post: "found (free_above a) ?es (length ?es) post"
    and least: "\<And>q k. post = Some q \<Longrightarrow> k < length ?es \<Longrightarrow> free_above a (?es ! k) \<Longrightarrow>
      ae_addr (?es ! q) \<le> ae_addr (?es ! k)"
    by (auto simp: free_scan_ok_def found_def)
  have s: "0 < s" using heap_inv_ent(1) [OF inv i(1)] i(2) by (simp add: s_def used_at_def)
  have im: "(True, unat a, s) \<in># regs ?es"
    using i by (auto simp: regs_mem_iff reg_def used_at_def s_def)
  have preT: "case ext_opt h pre of None \<Rightarrow> \<forall>b t. (False, b, t) \<in># regs ?es \<longrightarrow> b + t \<noteq> unat a
      | Some (b, t) \<Rightarrow> (False, b, t) \<in># regs ?es \<and> b + t = unat a"
  proof (cases pre)
    case None
    have "b + t \<noteq> unat a" if m: "(False, b, t) \<in># regs ?es" for b t
    proof -
      obtain k where k: "k < length ?es" "ent_valid (?es ! k)" "\<not> ent_used (?es ! k)" "ext (?es ! k) = (b, t)"
        using m unfolding mem_free_reg by blast
      then have "\<not> ends_at a (?es ! k)" using pre None by (simp add: found_def)
      then show ?thesis using k heap_inv_no_wrap(1) [OF inv nth_mem [OF k(1)] k(2)]
        by (auto simp: ends_at_def ext_def word_unat_eq_iff)
    qed
    then show ?thesis using None by (simp add: ext_opt_def)
  next
    case (Some p)
    then have p: "p < length ?es" "ends_at a (?es ! p)" using pre by (auto simp: found_def)
    then show ?thesis
      using Some heap_inv_ends_at(2) [OF inv nth_mem [OF p(1)] p(2)]
      by (auto simp: ext_opt_def ext_def mem_free_reg ends_at_def)
  qed
  have above: "\<exists>q. post = Some q \<and> unat (ae_addr (?es ! q)) = unat a + s"
    if m: "(False, unat a + s, t) \<in># regs ?es" for t
  proof -
    obtain k where k: "k < length ?es" "ent_valid (?es ! k)" "\<not> ent_used (?es ! k)"
      "ext (?es ! k) = (unat a + s, t)" using m unfolding mem_free_reg by blast
    then have ka: "free_above a (?es ! k)" using s
      by (auto simp: free_above_def ext_def word_less_nat_alt)
    then obtain q where q: "post = Some q" using post k(1) by (cases post) (auto simp: found_def)
    then have qf: "q < length ?es" "free_above a (?es ! q)" using post by (auto simp: found_def)
    have "ae_addr (?es ! q) \<le> ae_addr (?es ! k)" by (rule least [OF q k(1) ka])
    then have le: "unat (ae_addr (?es ! q)) \<le> unat a + s"
      using k(4) by (simp add: ext_def word_le_nat_alt)
    have "\<not> unat (ae_addr (?es ! q)) < unat a + s"
    proof
      assume lt: "unat (ae_addr (?es ! q)) < unat a + s"
      have "reg (?es ! q) \<in># regs ?es" using qf by (auto simp: regs_mem_iff free_above_def)
      then have "reg (?es ! q) = (True, unat a, s)"
        using inv im lt qf heap_inv_ent(1) [OF inv qf(1)]
        by (intro regions_ok_eq [of heap_top "regs ?es" _ _ "unat (ae_addr (?es ! q))"])
          (auto simp: heap_inv_def in_reg_def reg_def free_above_def word_less_nat_alt)
      then show False using qf by (simp add: reg_def free_above_def)
    qed
    with le q show ?thesis by simp
  qed
  have postT: "case ext_opt h (post_touch h (unat a + s) post) of
      None \<Rightarrow> \<forall>t. (False, unat a + s, t) \<notin># regs ?es
    | Some (b, t) \<Rightarrow> (False, b, t) \<in># regs ?es \<and> b = unat a + s"
    using above post
    by (cases post) (auto simp: ext_opt_def post_touch_def found_def free_above_def mem_free_reg ext_def
      split: if_splits)
  show ?thesis using preT postT by (simp add: touching_def)
qed


lemma absorb_pre_all:
  assumes inv: "heap_inv h" and i: "i < length (ents h)" "used_at a (ents h ! i)"
    and pre: "found (ends_at a) (ents h) (length (ents h)) pre"
    and h': "h' = absorb_pre h i pre"
  defines "lo \<equiv> (case ext_opt h pre of None \<Rightarrow> unat a | Some (b, t) \<Rightarrow> b)"
    and "s \<equiv> unat (ae_size (ents h ! i))"
  shows "length (ents h') = length (ents h) \<and> blocks h' = blocks h \<and>
    (\<forall>k. k \<noteq> i \<longrightarrow> pre \<noteq> Some k \<longrightarrow> ents h' ! k = ents h ! k) \<and>
    ent_valid (ents h' ! i) \<and> ent_used (ents h' ! i) \<and>
    ext (ents h' ! i) = (lo, unat a + s - lo) \<and> lo \<le> unat a \<and>
    regs (ents h') + {#(True, unat a, s)#} + free_reg (ext_opt h pre) =
      regs (ents h) + {#(True, lo, unat a + s - lo)#}"
proof (cases pre)
  case None
  then show ?thesis
    using i h' by (auto simp: absorb_pre_def lo_def s_def ext_opt_def free_reg_def used_at_def ext_def)
next
  case (Some p)
  then have p: "p < length (ents h)" "ends_at a (ents h ! p)" using pre by (auto simp: found_def)
  have b: "unat a + unat (ae_size (ents h ! i)) \<le> heap_top"
    "unat (ae_addr (ents h ! p)) + unat (ae_size (ents h ! p)) \<le> heap_top"
    using heap_inv_ent(2) [OF inv i(1)] heap_inv_ent(2) [OF inv p(1)] i(2) p(2)
    by (auto simp: used_at_def ends_at_def)
  note A = absorb_pre_Some [OF i p b h' [unfolded Some]]
  have lo: "lo = unat (ae_addr (ents h ! p))" by (simp add: lo_def Some ext_opt_def ext_def)
  have "reg (ents h ! i) = (True, unat a, s)" "reg (ents h ! p) = (False, ext (ents h ! p))"
    using i(2) p(2) by (simp_all add: reg_def ext_def s_def used_at_def ends_at_def)
  then show ?thesis
    using A by (auto simp: Some lo s_def ext_opt_def free_reg_def ext_reg)
qed

lemma mset_chain3:
  fixes H H1 H2 H' A L P U F :: "'a multiset"
  assumes "H1 + A = H + L" and "H2 + L + P = H1 + U" and "H' + U = H2 + F"
  shows "H' + (A + P) = H + F"
proof -
  have "H' + (A + P) + (U + L) = (H' + U) + (A + L + P)" by (simp only: ac_simps)
  also have "\<dots> = (H2 + F) + (A + L + P)" by (simp only: assms(3))
  also have "\<dots> = (H2 + L + P) + (F + A)" by (simp only: ac_simps)
  also have "\<dots> = (H1 + U) + (F + A)" by (simp only: assms(2))
  also have "\<dots> = (H1 + A) + (U + F)" by (simp only: ac_simps)
  also have "\<dots> = (H + L) + (U + F)" by (simp only: assms(1))
  also have "\<dots> = (H + F) + (U + L)" by (simp only: ac_simps)
  finally show ?thesis by (simp only: add_right_cancel)
qed

lemma do_free_found:
  assumes inv: "heap_inv h" and sc: "free_scan (ents h) a = (pre, Some i, post)"
    and d: "do_free h a = (r, h')"
  defines "s \<equiv> unat (ae_size (ents h ! i))"
  shows "r = 0 \<and> blocks h' = blocks h \<and> length (ents h') = length (ents h) \<and>
    (True, unat a, s) \<in># regs (ents h) \<and>
    regs (ents h') + {#(True, unat a, s)#} + free_reg (ext_opt h pre) +
      free_reg (ext_opt h (post_touch h (unat a + s) post)) =
    regs (ents h) +
      {#joined (unat a) s (ext_opt h pre) (ext_opt h (post_touch h (unat a + s) post))#}"
proof -
  let ?es = "ents h"
  have "free_scan_ok ?es a (length ?es) (pre, Some i, post)"
    using free_scan_found [of ?es a] heap_inv_ends_at [OF inv] sc by metis
  then have i: "i < length ?es" "used_at a (?es ! i)"
    and pre: "found (ends_at a) ?es (length ?es) pre"
    and post: "found (free_above a) ?es (length ?es) post"
    by (auto simp: free_scan_ok_def found_def)
  define h1 where "h1 = absorb_pre h i pre"
  define h2 where "h2 = absorb_post h1 i post"
  note P = absorb_pre_all [OF inv i pre h1_def, folded s_def]
  define lo where "lo = (case ext_opt h pre of None \<Rightarrow> unat a | Some (b, t) \<Rightarrow> b)"
  note P = P [folded lo_def]
  have h': "r = 0" "h' = upd_ent h2 i (\<lambda>e. e\<lparr>ae_flags := ae_flags e AND NOT ALLOCENT_FLAG_USED\<rparr>)"
    using d sc by (auto simp: do_free_def h1_def h2_def)
  have as: "unat a + s \<le> heap_top"
    using heap_inv_ent(2) [OF inv i(1)] i(2) by (auto simp: used_at_def s_def)
  let ?pt = "ext_opt h (post_touch h (unat a + s) post)"
  define hi where "hi = (case ?pt of None \<Rightarrow> unat a + s | Some (b, t) \<Rightarrow> b + t)"
  have Q: "length (ents h2) = length ?es \<and> blocks h2 = blocks h \<and>
    ent_valid (ents h2 ! i) \<and> ent_used (ents h2 ! i) \<and> ext (ents h2 ! i) = (lo, hi - lo) \<and>
    regs (ents h2) + {#(True, lo, unat a + s - lo)#} + free_reg ?pt =
      regs (ents h1) + {#(True, lo, hi - lo)#}"
  proof (cases "post_touch h (unat a + s) post")
    case None
    have "h2 = h1"
    proof (cases post)
      case None
      then show ?thesis by (simp add: h2_def absorb_post_def)
    next
      case (Some q)
      then have "q < length ?es" "free_above a (?es ! q)" using post by (auto simp: found_def)
      moreover have "q \<noteq> i" "pre \<noteq> Some q"
        using calculation i pre heap_inv_ends_at(1) [OF inv, of "?es ! q" a]
        by (auto simp: used_at_def free_above_def found_def)
      ultimately have q: "ents h1 ! q = ?es ! q" using P by simp
      have "unat (ae_addr (ents h1 ! i)) + unat (ae_size (ents h1 ! i)) = unat a + s"
        using P by (auto simp: ext_def)
      then have "unat (ae_addr (ents h1 ! i) + ae_size (ents h1 ! i)) = unat a + s"
        using as by (subst unat_add_no_wrap) (auto simp: heap_top_def)
      then have "ae_addr (ents h1 ! i) + ae_size (ents h1 ! i) \<noteq> ae_addr (?es ! q)"
        using None Some by (auto simp: post_touch_def split: if_splits)
      then show ?thesis using q by (simp add: h2_def absorb_post_def Some)
    qed
    then show ?thesis using P None by (simp add: hi_def ext_opt_def free_reg_def ext_reg)
  next
    case (Some q)
    then have pq: "post = Some q" and aq: "unat (ae_addr (?es ! q)) = unat a + s"
      by (auto simp: post_touch_def split: option.splits if_splits)
    then have q: "q < length ?es" "free_above a (?es ! q)" using post by (auto simp: found_def)
    moreover have "q \<noteq> i" "pre \<noteq> Some q"
      using q i pre heap_inv_ends_at(1) [OF inv, of "?es ! q" a]
      by (auto simp: used_at_def free_above_def found_def)
    ultimately have q1: "ents h1 ! q = ?es ! q" using P by simp
    have bq: "unat (ae_addr (?es ! q)) + unat (ae_size (?es ! q)) \<le> heap_top"
      using heap_inv_ent(2) [OF inv q(1)] q(2) by (auto simp: free_above_def)
    have e1: "unat (ae_addr (ents h1 ! i)) = lo" "unat (ae_size (ents h1 ! i)) = unat a + s - lo"
      using P by (auto simp: ext_def)
    have "h2 = absorb_post h1 i (Some q)" by (simp add: h2_def pq)
    note A = absorb_post_Some [OF _ _ _ _ _ _ _ _ this]
    have hi: "hi = unat a + s + unat (ae_size (?es ! q))"
      by (simp add: hi_def Some ext_opt_def ext_def aq)
    show ?thesis
      using A P q q1 bq e1 aq i hi
      by (auto simp: free_above_def ext_reg Some ext_opt_def free_reg_def ext_def)
  qed
  have fin: "regs (ents h') + {#(True, lo, hi - lo)#} = regs (ents h2) + {#(False, lo, hi - lo)#}"
    using regs_update [of i "ents h2" "(ents h2 ! i)\<lparr>ae_flags := ae_flags (ents h2 ! i) AND NOT ALLOCENT_FLAG_USED\<rparr>"] Q i
    by (simp add: h' regs_ent_def reg_def ext_def)
  have "joined (unat a) s (ext_opt h pre) ?pt = (False, lo, hi - lo)"
    by (simp add: joined_def lo_def hi_def Let_def)
  moreover have "regs (ents h') + ({#(True, unat a, s)#} + free_reg (ext_opt h pre) + free_reg ?pt) =
      regs ?es + {#(False, lo, hi - lo)#}"
  proof (rule mset_chain3 [OF _ _ fin])
    show "regs (ents h1) + ({#(True, unat a, s)#} + free_reg (ext_opt h pre)) =
        regs ?es + {#(True, lo, unat a + s - lo)#}" using P by (simp only: add.assoc)
  qed (use Q in blast)
  moreover have "(True, unat a, s) \<in># regs ?es"
    using i by (auto simp: regs_mem_iff reg_def used_at_def s_def)
  ultimately show ?thesis using Q h' by (simp add: add.assoc ents_upd_ent blocks_upd_ent)
qed


lemma free_scan_None:
  assumes inv: "heap_inv h" and sc: "free_scan (ents h) a = (pre, None, post)"
  shows "(unat a, s) \<notin># used_regions h"
proof -
  have "free_scan_ok (ents h) a (length (ents h)) (pre, None, post)"
    using free_scan_found [of "ents h" a] heap_inv_ends_at [OF inv] sc by metis
  then have "\<forall>k < length (ents h). \<not> used_at a (ents h ! k)"
    by (simp add: free_scan_ok_def found_def)
  then show ?thesis
    by (auto simp: used_regions_def mem_used_of regs_mem_iff reg_def used_at_def word_unat_eq_iff)
qed

lemma free_Inr:
  assumes inv: "heap_inv h" and f: "free h a = Inr h'"
  obtains s where "(unat a, s) \<in># used_regions h"
    and "add_mset (unat a, s) (used_regions h') = used_regions h"
    and "free_bytes h' = free_bytes h \<union> {unat a..<unat a + s}"
    and "heap_inv h'" and "blocks h' = blocks h"
    and "\<And>x. heap_covers h' x = heap_covers h x"
    and "heap_coalesced h \<Longrightarrow> heap_coalesced h'"
proof -
  obtain pre ent post where sc: "free_scan (ents h) a = (pre, ent, post)" by (metis prod_cases3)
  obtain r where d: "do_free h a = (r, h')" and "r = 0"
    using f by (auto simp: free_def split: prod.splits if_splits)
  then obtain i where "ent = Some i" using sc by (cases ent) (auto simp: do_free_def)
  note sc = sc [unfolded this]
  note D = do_free_found [OF inv sc d] and T = free_scan_touching [OF inv sc]
  note ok = inv [unfolded heap_inv_def]
  define s where "s = unat (ae_size (ents h ! i))"
  note D = D [folded s_def] and T = T [folded s_def]
  have eq: "regs (ents h') + {#(True, unat a, s)#} + free_reg (ext_opt h pre) +
      free_reg (ext_opt h (post_touch h (unat a + s) post)) =
    regs (ents h) +
      {#joined (unat a) s (ext_opt h pre) (ext_opt h (post_touch h (unat a + s) post))#}"
    and m: "(True, unat a, s) \<in># regs (ents h)" and bl: "blocks h' = blocks h"
    using D by simp_all
  show ?thesis
  proof (rule that [of s])
    show "(unat a, s) \<in># used_regions h" using m by (simp add: used_regions_def mem_used_of)
    show "heap_inv h'" unfolding heap_inv_def by (rule join_regions_ok [OF ok m eq T])
    show "heap_coalesced h'" if "heap_coalesced h"
      using that unfolding heap_coalesced_def by (rule join_coalesced [OF ok m eq T])
    show "free_bytes h' = free_bytes h \<union> {unat a..<unat a + s}"
      unfolding free_bytes_def by (rule join_free_bytes [OF eq T])
  qed (simp_all add: used_regions_def heap_covers_def join_covers [OF eq T] bl)
qed


lemma free_Inl:
  assumes inv: "heap_inv h" and f: "free h a = Inl e"
  shows "(unat a, s) \<notin># used_regions h"
proof -
  obtain pre ent post where sc: "free_scan (ents h) a = (pre, ent, post)" by (metis prod_cases3)
  have "ent = None" using f sc by (cases ent) (auto simp: free_def do_free_def)
  with sc show ?thesis by (metis free_scan_None [OF inv])
qed

lemma alloc_init_inv:
  assumes b: "unat base + unat sz \<le> heap_top" and s: "1544 < unat sz"
  shows "\<exists>h. alloc_init base sz = Inr h \<and> heap_inv h \<and> heap_coalesced h \<and> used_regions h = {#} \<and>
    free_bytes h \<subseteq> {unat base + 1540..<unat base + unat sz} \<and>
    length (filter (\<lambda>e. \<not> ent_valid e) (ents h)) = 127"
proof -
  define nb where "nb = (if base mod 4 \<noteq> 0 then base + (4 - base mod 4) else base)"
  have "unat base + unat (4 :: u32) < 2 ^ 32" using b by (simp add: heap_top_def)
  note al = align_up_word [OF this, folded nb_def, simplified]
  have u1: "unat (nb + 1540) = unat nb + 1540"
    using al b s by (subst unat_add_no_wrap) (auto simp: heap_top_def)
  have u2: "unat (nb + 1540 - base) = unat nb + 1540 - unat base"
    using al u1 by (subst unat_sub_le) (auto simp: word_le_nat_alt)
  have u3: "unat (sz - (nb + 1540 - base)) = unat base + unat sz - (unat nb + 1540)"
    using al u2 b s by (subst unat_sub_le) (auto simp: word_le_nat_alt)
  define e where "e = \<lparr>ae_flags = ALLOCENT_FLAG_VALID, ae_addr = nb + 1540, ae_size = sz - (nb + 1540 - base)\<rparr>"
  define h where "h = \<lparr>ents = e # replicate 127 zero_ent, blocks = [nb]\<rparr>"
  have z: "\<not> ent_valid zero_ent" by (simp add: zero_ent_def ent_valid_def)
  have "replicate ALLOC_BLOCK_SZ zero_ent = zero_ent # replicate 127 zero_ent"
    by (simp add: ALLOC_BLOCK_SZ_def flip: replicate_Suc)
  then have init: "alloc_init base sz = Inr h"
    using z by (simp add: alloc_init_def Let_def add_alloc_def h_def e_def nb_def sizeof_alloc_block_def)
  have v: "ent_valid e" "\<not> ent_used e" by (simp_all add: e_def)
  have regs: "regs (ents h) = {#(False, unat nb + 1540, unat base + unat sz - (unat nb + 1540))#}"
    using v by (simp add: h_def regs_ent_def reg_def) (simp add: e_def u1 u3)
  have "heap_inv h" using al s b
    by (auto simp: heap_inv_def regs regions_ok_def)
  moreover have "heap_coalesced h" using al s by (auto simp: heap_coalesced_def regs coalesced_def)
  moreover have "used_regions h = {#}" by (simp add: used_regions_def regs)
  moreover have "free_bytes h \<subseteq> {unat base + 1540..<unat base + unat sz}"
    using al by (auto simp: free_bytes_def regs free_bytes_of_def)
  moreover have "length (filter (\<lambda>e. \<not> ent_valid e) (ents h)) = 127"
    using v z by (simp add: h_def)
  ultimately show ?thesis using init by blast
qed

text \<open>The number of slots that are still free, which bounds how often an entry can be added.\<close>

definition free_slots :: "heap \<Rightarrow> nat" where
  "free_slots h = length (filter (\<lambda>e. \<not> ent_valid e) (ents h))"

lemma add_slot_free:
  "add_slot es a = Some es' \<Longrightarrow> ent_valid a \<Longrightarrow>
     Suc (length (filter (\<lambda>e. \<not> ent_valid e) es')) = length (filter (\<lambda>e. \<not> ent_valid e) es)"
  by (induction es arbitrary: es') (auto split: if_splits)

lemma add_alloc_total:
  assumes "0 < free_slots h" and "ent_valid a"
  obtains h' where "add_alloc h a = Inr h'" and "Suc (free_slots h') = free_slots h"
proof -
  have "add_slot (ents h) a \<noteq> None"
    using assms(1) by (auto simp: free_slots_def add_slot_None filter_empty_conv)
  then obtain es where "add_slot (ents h) a = Some es" by blast
  with add_slot_free [OF this assms(2)] show ?thesis
    by (intro that [of "h\<lparr>ents := es\<rparr>"]) (simp_all add: add_alloc_def free_slots_def)
qed

lemma free_slots_upd:
  assumes "i < length (ents h)" and "ent_valid (ents h ! i)" and "ent_valid (f (ents h ! i))"
  shows "free_slots (upd_ent h i f) = free_slots h"
proof -
  have "length (filter P (xs[i := y])) = length (filter P xs)"
    if "i < length xs" "P (xs ! i) = P y" for P and xs :: "alloc_ent list" and y
    using that by (induction xs arbitrary: i) (auto simp: nth_Cons split: nat.splits)
  then show ?thesis using assms by (simp add: free_slots_def)
qed

lemma claim_entry_total:
  assumes i: "i < length (ents h)" "ent_valid (ents h ! i)" and f: "2 \<le> free_slots h"
  shows "\<exists>p h'. claim_entry h i st sz = Inr (p, h')"
proof -
  obtain h1 where h1: "claim_front h i st = Inr h1" "1 \<le> free_slots h1"
    "i < length (ents h1)" "ent_valid (ents h1 ! i)"
  proof (cases "ae_addr (ents h ! i) = st")
    case True
    then show ?thesis using i f by (intro that [of h]) (auto simp: claim_front_def)
  next
    case False
    let ?a = "\<lparr>ae_flags = ALLOCENT_FLAG_VALID, ae_addr = ae_addr (ents h ! i),
        ae_size = st - ae_addr (ents h ! i)\<rparr>"
    obtain h0 where h0: "add_alloc h ?a = Inr h0" "Suc (free_slots h0) = free_slots h"
      using f by (elim add_alloc_total [rotated -1]) auto
    note a0 = add_alloc_Inr [OF h0(1)]
    then have e: "i < length (ents h0)" "ent_valid (ents h0 ! i)" using i by auto
    let ?f = "\<lambda>e. e\<lparr>ae_addr := st, ae_size := ae_size e - (st - ae_addr (ents h ! i))\<rparr>"
    show ?thesis
      using False h0 f e free_slots_upd [OF e, of ?f]
      by (intro that [of "upd_ent h0 i ?f"]) (auto simp: claim_front_def Let_def)
  qed
  show ?thesis
  proof (cases "ae_size (ents h1 ! i) = sz")
    case True
    then show ?thesis using h1 by (auto simp: claim_entry_def claim_back_def)
  next
    case False
    let ?f = "\<lambda>e. e\<lparr>ae_addr := ae_addr e + sz, ae_size := ae_size e - sz\<rparr>"
    have "0 < free_slots (upd_ent h1 i ?f)" using free_slots_upd [OF h1(3,4), of ?f] h1 by simp
    then obtain h2 where "add_alloc (upd_ent h1 i ?f)
        \<lparr>ae_flags = ALLOCENT_FLAG_VALID OR ALLOCENT_FLAG_USED, ae_addr = st, ae_size = sz\<rparr> = Inr h2"
      by (elim add_alloc_total) auto
    then show ?thesis using False h1 by (auto simp: claim_entry_def claim_back_def)
  qed
qed

section \<open>The interface other components rely on\<close>

text \<open>
  \<open>al\<close> and \<open>fr\<close> are \<open>alloc\<close> and \<open>free\<close>, \<open>used\<close> the live blocks with their lengths and
  \<open>avail\<close> the bytes in none of them.
\<close>

locale allocator =
  fixes al :: "'h \<Rightarrow> u32 \<Rightarrow> u32 \<Rightarrow> (u32 \<times> 'h) res"
    and fr :: "'h \<Rightarrow> u32 \<Rightarrow> 'h res"
    and inv :: "'h \<Rightarrow> bool"
    and used :: "'h \<Rightarrow> (nat \<times> nat) multiset"
    and avail :: "'h \<Rightarrow> nat set"
  assumes al_inv: "inv h \<Longrightarrow> al h sz fl = Inr (p, h') \<Longrightarrow> inv h'"
    and al_used: "inv h \<Longrightarrow> al h sz fl = Inr (p, h') \<Longrightarrow>
      \<exists>X. used h' = add_mset (unat p, unat sz) (used h + X)"
    and al_avail: "inv h \<Longrightarrow> al h sz fl = Inr (p, h') \<Longrightarrow>
      {unat p..<unat p + unat sz} \<subseteq> avail h \<and>
      avail h' \<subseteq> avail h - {unat p..<unat p + unat sz}"
    and fr_total: "inv h \<Longrightarrow> (unat p, n) \<in># used h \<Longrightarrow> \<exists>h'. fr h p = Inr h'"
    and fr_inv: "inv h \<Longrightarrow> fr h p = Inr h' \<Longrightarrow> inv h'"
    and fr_used: "inv h \<Longrightarrow> fr h p = Inr h' \<Longrightarrow>
      \<exists>n. used h = add_mset (unat p, n) (used h') \<and> avail h' = avail h \<union> {unat p..<unat p + n}"
    and live_avail: "inv h \<Longrightarrow> (a, n) \<in># used h \<Longrightarrow> 0 < n \<and> {a..<a + n} \<inter> avail h = {}"
    and live_unique: "inv h \<Longrightarrow> (a, n) \<in># used h \<Longrightarrow> (a, m) \<in># used h \<Longrightarrow> m = n"
begin

lemma al_live: "inv h \<Longrightarrow> al h sz fl = Inr (p, h') \<Longrightarrow> (unat p, unat sz) \<in># used h'"
  using al_used by fastforce

lemma al_keeps: "inv h \<Longrightarrow> al h sz fl = Inr (p, h') \<Longrightarrow> b \<in># used h \<Longrightarrow> b \<in># used h'"
  using al_used by fastforce

text \<open>A block that has been allocated can be freed.\<close>

lemma fr_after_al:
  "inv h \<Longrightarrow> al h sz fl = Inr (p, h') \<Longrightarrow> \<exists>h''. fr h' p = Inr h'' \<and> inv h''"
  by (meson al_inv al_live fr_inv fr_total)

text \<open>Two blocks allocated one after the other share no byte.\<close>

lemma al_al_disjoint:
  assumes "inv h" and "al h sz fl = Inr (p, h1)" and "al h1 sz' fl' = Inr (q, h2)"
  shows "{unat p..<unat p + unat sz} \<inter> {unat q..<unat q + unat sz'} = {}"
  using al_avail [OF assms(1,2)] al_avail [OF al_inv [OF assms(1,2)] assms(3)] by blast

text \<open>Freeing one block keeps every other live block.\<close>

lemma fr_keeps:
  "inv h \<Longrightarrow> fr h p = Inr h' \<Longrightarrow> b \<in># used h \<Longrightarrow> fst b \<noteq> unat p \<Longrightarrow> b \<in># used h'"
  using fr_used by fastforce

text \<open>A new block is nowhere in a live one.\<close>

lemma al_fresh:
  assumes "inv h" and "al h sz fl = Inr (p, h')" and "(a, n) \<in># used h"
  shows "{a..<a + n} \<inter> {unat p..<unat p + unat sz} = {}" and "a \<noteq> unat p"
proof -
  have "0 < unat sz" using live_avail [OF al_inv [OF assms(1,2)] al_live [OF assms(1,2)]] by simp
  then show "{a..<a + n} \<inter> {unat p..<unat p + unat sz} = {}" and "a \<noteq> unat p"
    using live_avail [OF assms(1,3)] al_avail [OF assms(1,2)] by fastforce+
qed

text \<open>
  \<open>grown h h'\<close>: every live block of \<open>h\<close> is live in \<open>h'\<close>, and nothing has become free. A block
  that is allocated for a while and freed again leaves the heap at most grown.
\<close>

definition grown :: "'h \<Rightarrow> 'h \<Rightarrow> bool" where
  "grown h h' \<longleftrightarrow> inv h' \<and> used h \<subseteq># used h' \<and> avail h' \<subseteq> avail h"

lemma grown_refl [simp, intro]: "inv h \<Longrightarrow> grown h h"
  by (simp add: grown_def)

lemma grown_trans: "grown h h' \<Longrightarrow> grown h' h'' \<Longrightarrow> grown h h''"
  by (auto simp: grown_def intro: subset_mset.order_trans)

lemma al_grown: "inv h \<Longrightarrow> al h sz fl = Inr (p, h') \<Longrightarrow> grown h h'"
  using al_inv [of h sz fl p h'] al_used [of h sz fl p h'] al_avail [of h sz fl p h'] by (auto simp: grown_def)

lemma scratch_block:
  assumes "inv h" and "al h sz fl = Inr (p, h1)" and "fr h1 p = Inr h2"
  shows "grown h h2"
proof -
  obtain X where X: "used h1 = add_mset (unat p, unat sz) (used h + X)" using al_used [OF assms(1,2)] by blast
  note i = al_inv [OF assms(1,2)]
  obtain n where n: "used h1 = add_mset (unat p, n) (used h2)" "avail h2 = avail h1 \<union> {unat p..<unat p + n}"
    using fr_used [OF i assms(3)] by blast
  have "n = unat sz" using live_unique [OF i al_live [OF assms(1,2)], of n] n(1) by simp
  then show ?thesis
    using X n al_avail [OF assms(1,2)] fr_inv [OF i assms(3)] by (auto simp: grown_def)
qed

text \<open>A block allocated later can be freed after any growth, and only its own bytes become free.\<close>

lemma grown_fr:
  assumes "inv h" and "al h sz fl = Inr (p, h1)" and "grown h1 h2"
  shows "\<exists>h3. fr h2 p = Inr h3 \<and> grown h h3"
proof -
  obtain X where X: "used h1 = add_mset (unat p, unat sz) (used h + X)" using al_used [OF assms(1,2)] by blast
  have l: "(unat p, unat sz) \<in># used h2" and i: "inv h2"
    using assms(3) al_live [OF assms(1,2)] by (auto simp: grown_def dest: mset_subset_eqD)
  then obtain h3 where h3: "fr h2 p = Inr h3" using fr_total by blast
  obtain n where n: "used h2 = add_mset (unat p, n) (used h3)" "avail h3 = avail h2 \<union> {unat p..<unat p + n}"
    using fr_used [OF i h3] by blast
  have "n = unat sz" using live_unique [OF i l, of n] n(1) by simp
  then have "used h + X \<subseteq># used h3" using assms(3) X n(1) by (simp add: grown_def)
  then have "used h \<subseteq># used h3" by (meson mset_subset_eq_add_left subset_mset.order_trans)
  then show ?thesis
    using \<open>n = unat sz\<close> h3 n al_avail [OF assms(1,2)] fr_inv [OF i h3] assms(3)
    by (auto simp: grown_def)
qed

end

interpretation heap_alloc: allocator alloc free heap_inv used_regions free_bytes
proof unfold_locales
  fix h sz fl p h'
  assume inv: "heap_inv h" and a: "alloc h sz fl = Inr (p, h')"
  from inv a show "heap_inv h'"
    by (cases rule: alloc_cases) (auto dest: tookD(1))
  from inv a show "\<exists>X. used_regions h' = add_mset (unat p, unat sz) (used_regions h + X)"
  proof (cases rule: alloc_cases)
    case plain
    then show ?thesis by (intro exI [of _ "{#}"]) (simp add: tookD(2))
  next
    case (table nb h1)
    then show ?thesis by (intro exI [of _ "{#(unat nb, 1540)#}"]) (simp add: tookD(2))
  qed
  from inv a show "{unat p..<unat p + unat sz} \<subseteq> free_bytes h \<and>
      free_bytes h' \<subseteq> free_bytes h - {unat p..<unat p + unat sz}"
  proof (cases rule: alloc_cases)
    case plain
    then show ?thesis using tookD(3,4) [OF plain(1)] by simp
  next
    case (table nb h1)
    then show ?thesis
      using tookD(4) [OF table(1)] tookD(3,4) [OF table(2)] by auto
  qed
next
  fix h and p :: u32 and n
  assume "heap_inv h" and "(unat p, n) \<in># used_regions h"
  then show "\<exists>h'. free h p = Inr h'"
    using free_Inl [of h p] by (cases "free h p") blast+
next
  fix h and p :: u32 and h'
  assume inv: "heap_inv h" and f: "free h p = Inr h'"
  show "heap_inv h'" by (rule free_Inr [OF inv f])
  show "\<exists>n. used_regions h = add_mset (unat p, n) (used_regions h') \<and>
      free_bytes h' = free_bytes h \<union> {unat p..<unat p + n}"
    by (metis free_Inr [OF inv f])
next
  fix h a n m
  assume inv: "heap_inv h" and u: "(a, n) \<in># used_regions h"
  note P = used_region_props [of heap_top "regs (ents h)", folded heap_defs, OF inv u]
  show "0 < n \<and> {a..<a + n} \<inter> free_bytes h = {}" using P(1,2) by simp
  show "(a, m) \<in># used_regions h \<Longrightarrow> m = n" by (rule P(3))
qed

text \<open>The heap after operations that keep what they allocate and free only what they allocated.\<close>

definition heap_grown :: "heap \<Rightarrow> heap \<Rightarrow> bool" where
  "heap_grown h h' \<longleftrightarrow>
     heap_inv h' \<and> used_regions h \<subseteq># used_regions h' \<and> free_bytes h' \<subseteq> free_bytes h"

lemma heap_grown_eq: "heap_grown = heap_alloc.grown"
  by (intro ext) (simp add: heap_grown_def heap_alloc.grown_def)

lemmas heap_grown_refl [simp, intro] = heap_alloc.grown_refl [folded heap_grown_eq]
  and heap_grown_trans = heap_alloc.grown_trans [folded heap_grown_eq]
  and heap_grown_alloc = heap_alloc.al_grown [folded heap_grown_eq]
  and heap_grown_scratch = heap_alloc.scratch_block [folded heap_grown_eq]
  and heap_grown_free = heap_alloc.grown_fr [folded heap_grown_eq]

section \<open>What a caller of the allocator gets\<close>

lemma alloc_spec:
  assumes inv: "heap_inv h" and c: "alloc h sz fl = Inr (p, h')"
  shows "heap_inv h' \<and> p \<noteq> 0 \<and> {unat p..<unat p + unat sz} \<subseteq> free_bytes h \<and>
    unat p mod unat (alloc_align fl) = 0 \<and>
    unat (mr_start (mrange_of fl)) \<le> unat p \<and>
    unat p + unat sz \<le> unat (mr_end (mrange_of fl)) \<and>
    (\<exists>tb. length tb \<le> 1 \<and> blocks h' = blocks h @ tb \<and>
       used_regions h' =
         add_mset (unat p, unat sz) (used_regions h) + mset (map (\<lambda>b. (unat b, 1540)) tb) \<and>
       free_bytes h' =
         free_bytes h - {unat p..<unat p + unat sz} - (\<Union>b \<in> set tb. {unat b..<unat b + 1540}))"
  using inv c
proof (cases rule: alloc_cases)
  case plain
  have "0 < unat sz" using plain by (simp add: unat_gt_0)
  from find_free_here_spec [OF inv this mrange_of_start plain(3)] plain(4,5) tookD [OF plain(1)]
  show ?thesis by (intro conjI exI [of _ "[]"]) (auto simp: plain(2))
next
  case (table nb h1)
  have sz: "0 < unat sz" using table by (simp add: unat_gt_0)
  note T = tookD [OF table(1)] and U = tookD [OF table(2)]
  have "heap_inv (add_alloc_block h1 nb)" using T by simp
  from find_free_here_spec [OF this sz mrange_of_start table(6)] table(4,5) T U
  show ?thesis by (intro conjI exI [of _ "[nb]"]) (auto simp: table(3))
qed

lemma alloc_free_back:
  assumes inv: "heap_inv h" and a: "alloc h sz fl = Inr (p, h1)" and b: "blocks h1 = blocks h"
  shows "\<exists>h2. free h1 p = Inr h2 \<and> used_regions h2 = used_regions h \<and> free_bytes h2 = free_bytes h"
  using inv a
proof (cases rule: alloc_cases)
  case plain
  note T = tookD [OF plain(1)]
  have m: "(unat p, unat sz) \<in># used_regions h1" using T(2) by simp
  obtain h2 where f: "free h1 p = Inr h2"
    using free_Inl [OF T(1)] m by (cases "free h1 p") blast+
  obtain s where s: "(unat p, s) \<in># used_regions h1"
    "add_mset (unat p, s) (used_regions h2) = used_regions h1"
    "free_bytes h2 = free_bytes h1 \<union> {unat p..<unat p + s}"
    using free_Inr [OF T(1) f] by metis
  have "(True, unat p, s) = (True, unat p, unat sz)"
    using T(1) m s(1) plain(4) regions_ok_bounds [of heap_top "regs (ents h1)" True "unat p" s]
    by (intro regions_ok_eq [of heap_top "regs (ents h1)" _ _ "unat p"])
      (auto simp: heap_inv_def used_regions_def mem_used_of in_reg_def unat_gt_0)
  then show ?thesis using f s T by (intro exI [of _ h2]) auto
next
  case (table nb h1)
  then show ?thesis using b by simp
qed

section \<open>Properties\<close>

text \<open>
  The heap of a machine whose loader ends at \<open>0x8000\<close>, on which the properties are applied.
\<close>

definition example_heap :: heap where
  "example_heap = projr (alloc_init 0x8000 0x78000)"

lemma example_heap:
  "heap_inv example_heap" "heap_coalesced example_heap" "used_regions example_heap = {#}"
  "0 \<notin> free_bytes example_heap" "free_slots example_heap = 127"
  "free_bytes example_heap \<subseteq> {0x8604..<0x80000}"
proof -
  obtain h where h: "alloc_init 0x8000 0x78000 = Inr h" "heap_inv h" "heap_coalesced h"
    "used_regions h = {#}" "free_bytes h \<subseteq> {unat (0x8000 :: u32) + 1540..<unat (0x8000 :: u32) + unat (0x78000 :: u32)}"
    "length (filter (\<lambda>e. \<not> ent_valid e) (ents h)) = 127"
    using alloc_init_inv [of "0x8000" "0x78000"] by (auto simp: heap_top_def)
  then show "heap_inv example_heap" "heap_coalesced example_heap" "used_regions example_heap = {#}"
    "0 \<notin> free_bytes example_heap" "free_slots example_heap = 127"
    "free_bytes example_heap \<subseteq> {0x8604..<0x80000}"
    by (auto simp: example_heap_def free_slots_def)
qed

text \<open>
  C1: A successful \<open>alloc\<close> returns a block of free bytes that is aligned as the flags ask, lies
  inside the memory range the flags select, and becomes used; nothing else changes, but for at
  most one table block of 1540 bytes that is taken the same way and chained.
\<close>

theorem alloc_sound:
  assumes inv: "heap_inv h" and c: "alloc h sz fl = Inr (p, h')"
  shows "heap_inv h' \<and> p \<noteq> 0 \<and> {unat p..<unat p + unat sz} \<subseteq> free_bytes h \<and>
    unat p mod unat (alloc_align fl) = 0 \<and>
    unat (mr_start (mrange_of fl)) \<le> unat p \<and>
    unat p + unat sz \<le> unat (mr_end (mrange_of fl)) \<and>
    (\<exists>tb. length tb \<le> 1 \<and> blocks h' = blocks h @ tb \<and>
       used_regions h' =
         add_mset (unat p, unat sz) (used_regions h) + mset (map (\<lambda>b. (unat b, 1540)) tb) \<and>
       free_bytes h' =
         free_bytes h - {unat p..<unat p + unat sz} - (\<Union>b \<in> set tb. {unat b..<unat b + 1540}))"
  by (rule alloc_spec [OF assms])

theorem alloc_sound_witness:
  "\<exists>p h'. alloc example_heap 512 ALLOC_FLAG_16B = Inr (p, h') \<and> heap_inv h' \<and>
     {unat p..<unat p + 512} \<subseteq> free_bytes example_heap \<and> unat p + 512 \<le> 0xFFFF"
proof -
  have "isl (alloc example_heap 512 ALLOC_FLAG_16B) = False"
    unfolding example_heap_def by code_simp
  then obtain p h' where a: "alloc example_heap 512 ALLOC_FLAG_16B = Inr (p, h')"
    by (cases "alloc example_heap 512 ALLOC_FLAG_16B") auto
  then show ?thesis
    using alloc_sound [OF example_heap(1) a]
    by (auto simp: mrange_of_def mrange_16b_def ALLOC_FLAG_16B_def)
qed

text \<open>
  C2: While enough table slots are free, a request for which some free entry is large enough
  never fails: \<open>alloc\<close> returns a non-null block, at the place where it fits in an entry that is
  a smallest one among all that fit.
\<close>

theorem alloc_total:
  assumes inv: "heap_inv h" and "0 \<notin> free_bytes h" and slots: "\<not> free_ents_low (free_slots h)"
    and sz: "sz \<noteq> 0" and e: "e \<in> set (ents h)" "fits (mrange_of fl) (alloc_align fl) sz e"
  shows "\<exists>p h'. alloc h sz fl = Inr (p, h') \<and> p \<noteq> 0 \<and>
    (\<exists>b \<in> set (ents h). fits (mrange_of fl) (alloc_align fl) sz b \<and>
       (\<forall>e' \<in> set (ents h). fits (mrange_of fl) (alloc_align fl) sz e' \<longrightarrow> ae_size b \<le> ae_size e') \<and>
       fit_start (mrange_of fl) (alloc_align fl) sz b = Some p)"
proof -
  let ?mr = "mrange_of fl" and ?al = "alloc_align fl"
  have ff: "find_free h sz fl ?mr = find_free_here h sz fl ?mr"
    using slots by (simp add: find_free_unfold free_slots_def)
  note best = scan_best_of [of ?mr ?al sz "ents h"]
  obtain i b st where sc: "fst (scan_ents ?mr ?al sz 0 (ents h) (None, 0)) = Some (i, b, st)"
    using best e by (cases "fst (scan_ents ?mr ?al sz 0 (ents h) (None, 0))") (auto simp: best_of_def)
  then have b: "i < length (ents h)" "b = ents h ! i" "ent_valid b" "\<not> ent_used b"
    "fit_start ?mr ?al sz b = Some st"
    "\<forall>e' \<in> set (ents h). fits ?mr ?al sz e' \<longrightarrow> ae_size b \<le> ae_size e'"
    using best by (auto simp: best_of_def)
  have "2 \<le> free_slots h" using slots by (simp add: free_ents_low_def ALLOC_BLOCK_SZ_def)
  then obtain p h' where c: "claim_entry h i st sz = Inr (p, h')"
    using claim_entry_total [OF b(1) b(3) [unfolded b(2)]] by blast
  then have fh: "find_free_here h sz fl ?mr = Inr (p, h')" by (simp add: find_free_here_def sc)
  have z: "0 < unat sz" using sz by (simp add: unat_gt_0)
  have "took h (unat p) (unat sz) h'"
    using find_free_here_spec [OF inv z mrange_of_start fh] e by blast
  then have "unat p \<in> free_bytes h" using z by (auto simp: took_def)
  then have p0: "p \<noteq> 0" using assms(2) by auto
  note hi = heap_inv_ent [OF inv b(1) b(3) [unfolded b(2)], folded b(2), unfolded heap_top_def]
  have "p = st"
    by (rule claim_entry_regs(1) [OF b(1) b(3,4) [unfolded b(2)] b(2) hi(2)
          fit_start_bounds(1,2) [OF b(5) hi(2) alloc_align_bounds mrange_of_start] c])
  then show ?thesis
    using ff fh sz p0 b by (auto simp: alloc_def fits_def intro!: bexI [of _ b])
qed

theorem alloc_total_witness:
  "\<exists>p h'. alloc example_heap 1024 (ALLOC_FLAG_ALIGN 3) = Inr (p, h') \<and> p \<noteq> 0"
proof -
  let ?e = "hd (ents example_heap)"
  have e: "?e \<in> set (ents example_heap)"
    "fits (mrange_of (ALLOC_FLAG_ALIGN 3)) (alloc_align (ALLOC_FLAG_ALIGN 3)) 1024 ?e"
    unfolding example_heap_def by code_simp+
  have "\<not> free_ents_low (free_slots example_heap)"
    by (simp add: example_heap(5) free_ents_low_def ALLOC_BLOCK_SZ_def)
  then show ?thesis
    using alloc_total [OF example_heap(1) example_heap(4) _ _ e] by auto
qed

text \<open>
  C3: \<open>free\<close> of a used block makes exactly its bytes free again and keeps every other block;
  \<open>free\<close> of an address at which no used block starts panics.
\<close>

theorem free_sound:
  assumes inv: "heap_inv h"
  shows "case free h a of
      Inl e \<Rightarrow> e = Panic \<and> (\<forall>s. (unat a, s) \<notin># used_regions h)
    | Inr h' \<Rightarrow> \<exists>s. used_regions h = add_mset (unat a, s) (used_regions h') \<and>
        free_bytes h' = free_bytes h \<union> {unat a..<unat a + s} \<and>
        heap_inv h' \<and> blocks h' = blocks h"
proof (cases "free h a")
  case (Inl e)
  then have "e = Panic" by (auto simp: free_def split: prod.splits if_splits)
  then show ?thesis using Inl free_Inl [OF inv Inl] by simp
next
  case (Inr h')
  from free_Inr [OF inv Inr] obtain s
    where "add_mset (unat a, s) (used_regions h') = used_regions h"
      "free_bytes h' = free_bytes h \<union> {unat a..<unat a + s}" "heap_inv h'" "blocks h' = blocks h"
    by metis
  then show ?thesis using Inr by (auto intro!: exI [of _ s])
qed

theorem free_sound_witness:
  "case free example_heap 0x9000 of
      Inl e \<Rightarrow> e = Panic \<and> (\<forall>s. (unat (0x9000 :: u32), s) \<notin># used_regions example_heap)
    | Inr h' \<Rightarrow> \<exists>s. used_regions example_heap = add_mset (unat (0x9000 :: u32), s) (used_regions h') \<and>
        free_bytes h' = free_bytes example_heap \<union> {unat (0x9000 :: u32)..<unat (0x9000 :: u32) + s} \<and>
        heap_inv h' \<and> blocks h' = blocks example_heap"
  by (rule free_sound [OF example_heap(1)])

text \<open>
  C4: Memory is neither lost nor handed out twice: over every byte, \<open>alloc\<close> and \<open>free\<close> keep
  the number of table entries that cover it, and no two free regions are ever left adjacent.
\<close>

theorem alloc_free_conserve:
  assumes inv: "heap_inv h"
  shows "(\<forall>sz fl p h'. alloc h sz fl = Inr (p, h') \<longrightarrow>
      (\<forall>x. heap_covers h' x = heap_covers h x) \<and> (heap_coalesced h \<longrightarrow> heap_coalesced h')) \<and>
    (\<forall>a h'. free h a = Inr h' \<longrightarrow>
      (\<forall>x. heap_covers h' x = heap_covers h x) \<and> (heap_coalesced h \<longrightarrow> heap_coalesced h'))"
proof (intro conjI allI impI)
  fix sz fl p h' x
  assume a: "alloc h sz fl = Inr (p, h')"
  from inv a show "heap_covers h' x = heap_covers h x"
    by (cases rule: alloc_cases) (simp_all add: tookD)
  from inv a show "heap_coalesced h \<Longrightarrow> heap_coalesced h'"
    by (cases rule: alloc_cases) (auto dest: tookD(6))
next
  fix a h' x
  assume f: "free h a = Inr h'"
  show "heap_covers h' x = heap_covers h x" by (rule free_Inr [OF inv f])
  show "heap_coalesced h \<Longrightarrow> heap_coalesced h'" by (metis free_Inr [OF inv f])
qed

theorem alloc_free_conserve_witness:
  "\<exists>p h'. alloc example_heap 512 0 = Inr (p, h') \<and> heap_coalesced h' \<and>
     (\<forall>x. heap_covers h' x = heap_covers example_heap x)"
proof -
  have "isl (alloc example_heap 512 0) = False"
    unfolding example_heap_def by code_simp
  then obtain p h' where a: "alloc example_heap 512 0 = Inr (p, h')"
    by (cases "alloc example_heap 512 0") auto
  with alloc_free_conserve [OF example_heap(1)] example_heap(2) show ?thesis by blast
qed

text \<open>
  C5: Freeing the block that \<open>alloc\<close> has just returned never panics and restores the used
  blocks and the free bytes, when no table block was chained meanwhile.
\<close>

theorem alloc_free_roundtrip:
  assumes inv: "heap_inv h" and a: "alloc h sz fl = Inr (p, h1)" and b: "blocks h1 = blocks h"
  shows "\<exists>h2. free h1 p = Inr h2 \<and> used_regions h2 = used_regions h \<and> free_bytes h2 = free_bytes h"
  by (rule alloc_free_back [OF assms])

theorem alloc_free_roundtrip_witness:
  "\<exists>p h1 h2. alloc example_heap 512 0 = Inr (p, h1) \<and> free h1 p = Inr h2 \<and>
     free_bytes h2 = free_bytes example_heap"
proof -
  have "map_sum id (\<lambda>(p, h'). blocks h') (alloc example_heap 512 0) = Inr (blocks example_heap)"
    unfolding example_heap_def by code_simp
  then obtain p h1 where a: "alloc example_heap 512 0 = Inr (p, h1)" "blocks h1 = blocks example_heap"
    by (cases "alloc example_heap 512 0") auto
  from alloc_free_roundtrip [OF example_heap(1) a] a show ?thesis by blast
qed

end
