(* ===== verification/Fifo.thy ===== *)
theory Fifo
  imports Alloc_Facts
begin

text \<open>
  The byte queue of \<^verbatim>\<open>src/data/fifo.c\<close> and \<^verbatim>\<open>inc/data/fifo.h\<close>: a ring buffer with one slot kept
  empty, \<open>head\<close> at the oldest byte and \<open>tail\<close> at the next free slot. The first part holds the
  record and the operations, the second the contract of a bounded queue as a locale, with the
  order of a whole run of operations proved inside it, and the third the interpretation of the
  contract on the operations of the code.
\<close>

section \<open>State and operations\<close>

text \<open>\<open>fifo_data\<close> is the object \<open>buf\<close> points at, \<open>fifo_ptr\<close> its address (0 for \<open>NULL\<close>).\<close>

record fifo =
  fifo_ptr :: u32
  fifo_data :: "u8 list"
  fifo_size :: u32
  fifo_head :: u32
  fifo_tail :: u32

text \<open>\<open>mem\<close> is what the allocated bytes happen to hold: \<open>fifo_init\<close> does not clear them.\<close>

definition fifo_init :: "memory \<Rightarrow> heap \<Rightarrow> u32 \<Rightarrow> (int \<times> fifo \<times> heap) res" where
  "fifo_init mem h sz =
     bnd (alloc h sz 0) (\<lambda>(a, h).
       Inr (0, \<lparr>fifo_ptr = a, fifo_data = mem_get mem a (unat sz),
                fifo_size = sz, fifo_head = 0, fifo_tail = 0\<rparr>, h))"

definition fifo_isinitialized :: "fifo \<Rightarrow> bool" where
  "fifo_isinitialized f \<longleftrightarrow> fifo_ptr f \<noteq> 0 \<and> fifo_size f \<noteq> 0"

definition fifo_write_byte :: "fifo \<Rightarrow> u8 \<Rightarrow> fifo res" where
  "fifo_write_byte f b =
     (if unat (fifo_tail f) < length (fifo_data f) then
        let f = f\<lparr>fifo_data := (fifo_data f)[unat (fifo_tail f) := b],
                  fifo_tail := fifo_tail f + 1\<rparr>
        in Inr (if fifo_tail f \<ge> fifo_size f then f\<lparr>fifo_tail := 0\<rparr> else f)
      else Inl Fault)"

definition fifo_read_byte :: "fifo \<Rightarrow> (u8 \<times> fifo) res" where
  "fifo_read_byte f =
     (if unat (fifo_head f) < length (fifo_data f) then
        let b = fifo_data f ! unat (fifo_head f);
            f = f\<lparr>fifo_head := fifo_head f + 1\<rparr>
        in Inr (b, if fifo_head f \<ge> fifo_size f then f\<lparr>fifo_head := 0\<rparr> else f)
      else Inl Fault)"

definition fifo_getfree :: "fifo \<Rightarrow> u32" where
  "fifo_getfree f =
     (if fifo_head f \<le> fifo_tail f then fifo_size f - (fifo_tail f - fifo_head f) - 1
      else fifo_head f - fifo_tail f - 1)"

definition fifo_getused :: "fifo \<Rightarrow> u32" where
  "fifo_getused f =
     (if fifo_head f \<le> fifo_tail f then fifo_tail f - fifo_head f
      else fifo_size f - (fifo_head f - fifo_tail f))"

text \<open>The copy loops; the source or the destination may be shorter than the length asked for.\<close>

fun fifo_write_loop :: "fifo \<Rightarrow> u8 list \<Rightarrow> nat \<Rightarrow> fifo res" where
  "fifo_write_loop f bs 0 = Inr f"
| "fifo_write_loop f [] (Suc n) = Inl Fault"
| "fifo_write_loop f (b # bs) (Suc n) =
     bnd (fifo_write_byte f b) (\<lambda>f. fifo_write_loop f bs n)"

definition fifo_write :: "fifo \<Rightarrow> u8 list \<Rightarrow> u32 \<Rightarrow> (int \<times> fifo) res" where
  "fifo_write f buf sz =
     (if fifo_getfree f < sz then Inr (-1, f)
      else bnd (fifo_write_loop f buf (unat sz)) (\<lambda>f. Inr (0, f)))"

fun fifo_read_loop :: "fifo \<Rightarrow> u8 list \<Rightarrow> nat \<Rightarrow> nat \<Rightarrow> (u8 list \<times> fifo) res" where
  "fifo_read_loop f buf i 0 = Inr (buf, f)"
| "fifo_read_loop f buf i (Suc n) =
     bnd (fifo_read_byte f) (\<lambda>(b, f).
       if i < length buf then fifo_read_loop f (buf[i := b]) (Suc i) n else Inl Fault)"

fun fifo_drop_loop :: "fifo \<Rightarrow> nat \<Rightarrow> fifo res" where
  "fifo_drop_loop f 0 = Inr f"
| "fifo_drop_loop f (Suc n) = bnd (fifo_read_byte f) (\<lambda>(b, f). fifo_drop_loop f n)"

text \<open>\<open>buf\<close> is \<open>None\<close> for a null pointer: then the bytes are dropped.\<close>

definition fifo_read :: "fifo \<Rightarrow> u8 list option \<Rightarrow> u32 \<Rightarrow> (int \<times> u8 list option \<times> fifo) res" where
  "fifo_read f buf sz =
     (if fifo_getused f < sz then Inr (-1, buf, f)
      else case buf of
          Some b \<Rightarrow> bnd (fifo_read_loop f b 0 (unat sz)) (\<lambda>(b, f). Inr (0, Some b, f))
        | None \<Rightarrow> bnd (fifo_drop_loop f (unat sz)) (\<lambda>f. Inr (0, None, f)))"

section \<open>Invariant and contents\<close>

definition fifo_inv :: "fifo \<Rightarrow> bool" where
  "fifo_inv f \<longleftrightarrow> length (fifo_data f) = unat (fifo_size f) \<and>
     fifo_head f < fifo_size f \<and> fifo_tail f < fifo_size f"

definition fifo_contents :: "fifo \<Rightarrow> u8 list" where
  "fifo_contents f =
     (let d = fifo_data f; hd = unat (fifo_head f); tl = unat (fifo_tail f)
      in if hd \<le> tl then take (tl - hd) (drop hd d) else drop hd d @ take tl d)"

lemma fifo_inv_nat:
  "fifo_inv f \<longleftrightarrow> length (fifo_data f) = unat (fifo_size f) \<and>
     unat (fifo_head f) < unat (fifo_size f) \<and> unat (fifo_tail f) < unat (fifo_size f)"
  by (simp add: fifo_inv_def word_less_nat_alt)

lemma fifo_getused_contents:
  assumes "fifo_inv f"
  shows "unat (fifo_getused f) = length (fifo_contents f)"
proof -
  have "unat (fifo_size f - (fifo_head f - fifo_tail f))
      = unat (fifo_size f) - (unat (fifo_head f) - unat (fifo_tail f))"
    if "\<not> fifo_head f \<le> fifo_tail f"
  proof -
    have u: "unat (fifo_head f - fifo_tail f) = unat (fifo_head f) - unat (fifo_tail f)"
      using that by (simp add: unat_sub_le)
    with assms show ?thesis
      by (subst unat_sub_le) (auto simp: fifo_inv_nat word_le_nat_alt)
  qed
  with assms show ?thesis
    by (auto simp: fifo_getused_def fifo_contents_def fifo_inv_nat Let_def word_le_nat_alt unat_sub_le)
qed

lemma fifo_getfree_contents:
  assumes "fifo_inv f"
  shows "unat (fifo_getfree f) + length (fifo_contents f) + 1 = unat (fifo_size f)"
proof (cases "fifo_head f \<le> fifo_tail f")
  case True
  let ?u = "fifo_tail f - fifo_head f"
  have u: "unat ?u = unat (fifo_tail f) - unat (fifo_head f)" using True by (rule unat_sub_le)
  have s: "unat (fifo_size f - ?u) = unat (fifo_size f) - unat ?u"
    using assms u by (intro unat_sub_le) (auto simp: fifo_inv_nat word_le_nat_alt)
  have "unat (fifo_size f - ?u - 1) = unat (fifo_size f - ?u) - 1"
    using assms u s by (subst unat_sub_le) (auto simp: fifo_inv_nat word_le_nat_alt)
  with assms True u s show ?thesis
    by (auto simp: fifo_getfree_def fifo_contents_def fifo_inv_nat Let_def word_le_nat_alt)
next
  case False
  then have u: "unat (fifo_head f - fifo_tail f) = unat (fifo_head f) - unat (fifo_tail f)"
    by (simp add: unat_sub_le)
  then have "unat (fifo_head f - fifo_tail f - 1) = unat (fifo_head f - fifo_tail f) - 1"
    using False by (subst unat_sub_le) (auto simp: word_le_nat_alt)
  with assms False u show ?thesis
    by (auto simp: fifo_getfree_def fifo_contents_def fifo_inv_nat Let_def word_le_nat_alt)
qed

text \<open>Advancing an index of the ring, with the wrap at the end of the buffer.\<close>

lemma ring_next:
  fixes i n :: u32
  assumes "i < n"
  shows "unat (if n \<le> i + 1 then 0 else i + 1) = (if Suc (unat i) = unat n then 0 else Suc (unat i))"
proof -
  have "unat (i + 1) = Suc (unat i)"
  proof -
    have "unat i < unat n" using assms by (simp add: word_less_nat_alt)
    moreover have "unat n < 4294967296" by simp
    ultimately have "unat i + 1 < 4294967296" by linarith
    then show ?thesis by (subst unat_add_no_wrap) auto
  qed
  then show ?thesis using assms by (auto simp: word_le_nat_alt word_less_nat_alt)
qed

lemma fifo_write_byte_ok:
  assumes inv: "fifo_inv f" and room: "length (fifo_contents f) + 1 < unat (fifo_size f)"
  shows "\<exists>f'. fifo_write_byte f b = Inr f' \<and> fifo_inv f' \<and>
    fifo_contents f' = fifo_contents f @ [b] \<and> fifo_size f' = fifo_size f"
proof -
  let ?t = "if fifo_size f \<le> fifo_tail f + 1 then 0 else fifo_tail f + 1"
  let ?f = "f\<lparr>fifo_data := (fifo_data f)[unat (fifo_tail f) := b], fifo_tail := ?t\<rparr>"
  let ?h = "unat (fifo_head f)" and ?tl = "unat (fifo_tail f)" and ?d = "fifo_data f"
  have t: "unat ?t = (if Suc ?tl = unat (fifo_size f) then 0 else Suc ?tl)"
    using inv by (intro ring_next) (simp add: fifo_inv_def)
  have I: "length ?d = unat (fifo_size f)" "?h < length ?d" "?tl < length ?d"
    using inv by (auto simp: fifo_inv_nat)
  have "fifo_write_byte f b = Inr ?f"
    using I by (simp add: fifo_write_byte_def Let_def)
  moreover have "fifo_inv ?f" using I t by (auto simp: fifo_inv_nat)
  moreover have "fifo_contents ?f = fifo_contents f @ [b]"
  proof (cases "?h \<le> ?tl")
    case True
    have d: "take (Suc ?tl - ?h) (drop ?h (?d[?tl := b])) = take (?tl - ?h) (drop ?h ?d) @ [b]"
      using True I by (simp add: Suc_diff_le take_Suc_conv_app_nth drop_update_swap)
    show ?thesis
    proof (cases "Suc ?tl = length ?d")
      case True
      then have "drop ?h (?d[?tl := b]) = take (Suc ?tl - ?h) (drop ?h (?d[?tl := b]))"
        by simp
      with d True t I \<open>?h \<le> ?tl\<close> room show ?thesis
        by (auto simp: fifo_contents_def Let_def)
    next
      case False
      with d True t I show ?thesis by (simp add: fifo_contents_def Let_def)
    qed
  next
    case False
    with room I have "Suc ?tl < ?h" by (auto simp: fifo_contents_def Let_def split: if_splits)
    with False t I show ?thesis
      by (auto simp: fifo_contents_def Let_def take_Suc_conv_app_nth)
  qed
  ultimately show ?thesis by (intro exI [of _ ?f]) simp
qed

lemma fifo_read_byte_ok:
  assumes inv: "fifo_inv f" and c: "fifo_contents f = b # bs"
  shows "\<exists>f'. fifo_read_byte f = Inr (b, f') \<and> fifo_inv f' \<and>
    fifo_contents f' = bs \<and> fifo_size f' = fifo_size f"
proof -
  let ?n = "if fifo_size f \<le> fifo_head f + 1 then 0 else fifo_head f + 1"
  let ?f = "f\<lparr>fifo_head := ?n\<rparr>"
  let ?h = "unat (fifo_head f)" and ?tl = "unat (fifo_tail f)" and ?d = "fifo_data f"
  have t: "unat ?n = (if Suc ?h = unat (fifo_size f) then 0 else Suc ?h)"
    using inv by (intro ring_next) (simp add: fifo_inv_def)
  have I: "length ?d = unat (fifo_size f)" "?h < length ?d" "?tl < length ?d"
    using inv by (auto simp: fifo_inv_nat)
  have dr: "drop ?h ?d = ?d ! ?h # drop (Suc ?h) ?d" using I by (simp add: Cons_nth_drop_Suc)
  have split: "b = ?d ! ?h \<and> fifo_contents ?f = bs"
  proof (cases "?h \<le> ?tl")
    case True
    have "?h \<noteq> ?tl" using c by (auto simp: fifo_contents_def)
    with True have "?h < ?tl" by simp
    then have "?tl - ?h = Suc (?tl - Suc ?h)" by simp
    with True c t I dr \<open>?h < ?tl\<close> show ?thesis
      by (auto simp: fifo_contents_def Let_def)
  next
    case False
    with c t I dr show ?thesis by (auto simp: fifo_contents_def Let_def)
  qed
  moreover have "fifo_read_byte f = Inr (?d ! ?h, ?f)"
    using I by (simp add: fifo_read_byte_def Let_def)
  moreover have "fifo_inv ?f" using I t by (auto simp: fifo_inv_nat)
  ultimately show ?thesis by (intro exI [of _ ?f]) simp
qed

lemma fifo_write_loop_ok:
  assumes "fifo_inv f" and "length (fifo_contents f) + n < unat (fifo_size f)" and "n \<le> length bs"
  shows "\<exists>f'. fifo_write_loop f bs n = Inr f' \<and> fifo_inv f' \<and>
    fifo_contents f' = fifo_contents f @ take n bs \<and> fifo_size f' = fifo_size f"
  using assms
proof (induction f bs n rule: fifo_write_loop.induct)
  case (3 f b bs n)
  obtain f1 where f1: "fifo_write_byte f b = Inr f1" "fifo_inv f1"
    "fifo_contents f1 = fifo_contents f @ [b]" "fifo_size f1 = fifo_size f"
    using fifo_write_byte_ok [OF 3(2), of b] 3(3) by auto
  with 3 show ?case by auto
qed auto

lemma fifo_read_loop_ok:
  assumes "fifo_inv f" and "n \<le> length (fifo_contents f)" and "i + n \<le> length buf"
  shows "\<exists>f'. fifo_read_loop f buf i n = Inr (take i buf @ take n (fifo_contents f) @ drop (i + n) buf, f') \<and>
    fifo_inv f' \<and> fifo_contents f' = drop n (fifo_contents f) \<and> fifo_size f' = fifo_size f"
  using assms
proof (induction n arbitrary: f buf i)
  case (Suc n)
  then obtain b bs where c: "fifo_contents f = b # bs" by (cases "fifo_contents f") auto
  then obtain f1 where f1: "fifo_read_byte f = Inr (b, f1)" "fifo_inv f1"
    "fifo_contents f1 = bs" "fifo_size f1 = fifo_size f"
    using fifo_read_byte_ok Suc.prems(1) by blast
  have "take (Suc i) (buf[i := b]) = take i buf @ [b]"
    using Suc.prems by (simp add: take_Suc_conv_app_nth)
  with Suc.IH [of f1 "Suc i" "buf[i := b]"] Suc.prems c f1 show ?case by auto
qed auto

lemma fifo_drop_loop_ok:
  assumes "fifo_inv f" and "n \<le> length (fifo_contents f)"
  shows "\<exists>f'. fifo_drop_loop f n = Inr f' \<and>
    fifo_inv f' \<and> fifo_contents f' = drop n (fifo_contents f) \<and> fifo_size f' = fifo_size f"
  using assms
proof (induction n arbitrary: f)
  case (Suc n)
  then obtain b bs where c: "fifo_contents f = b # bs" by (cases "fifo_contents f") auto
  then obtain f1 where f1: "fifo_read_byte f = Inr (b, f1)" "fifo_inv f1"
    "fifo_contents f1 = bs" "fifo_size f1 = fifo_size f"
    using fifo_read_byte_ok Suc.prems(1) by blast
  with Suc.IH [of f1] Suc.prems c show ?case by auto
qed auto

lemmas fifo_counts = fifo_getused_contents fifo_getfree_contents

text \<open>\<open>fifo_write\<close> and \<open>fifo_read\<close> on the contents: all of the request or nothing.\<close>

lemma fifo_write_cases:
  assumes inv: "fifo_inv f" and len: "unat sz \<le> length buf"
  obtains (full) "unat (fifo_size f) \<le> length (fifo_contents f) + unat sz"
      "fifo_write f buf sz = Inr (-1, f)"
  | (ok) f' where "length (fifo_contents f) + unat sz < unat (fifo_size f)"
      "fifo_write f buf sz = Inr (0, f')" "fifo_inv f'" "fifo_size f' = fifo_size f"
      "fifo_contents f' = fifo_contents f @ take (unat sz) buf"
proof (cases "fifo_getfree f < sz")
  case True
  show thesis
    by (rule full) (use True fifo_getfree_contents [OF inv] in \<open>auto simp: fifo_write_def word_less_nat_alt\<close>)
next
  case False
  then have room: "length (fifo_contents f) + unat sz < unat (fifo_size f)"
    using fifo_getfree_contents [OF inv] by (simp add: word_less_nat_alt)
  from fifo_write_loop_ok [OF inv room len] False show thesis
    by (auto intro: ok [OF room] simp: fifo_write_def)
qed

lemma fifo_read_cases:
  assumes inv: "fifo_inv f" and len: "\<And>b. buf = Some b \<Longrightarrow> unat sz \<le> length b"
  obtains (short) "length (fifo_contents f) < unat sz" "fifo_read f buf sz = Inr (-1, buf, f)"
  | (ok) f' where "unat sz \<le> length (fifo_contents f)"
      "fifo_read f buf sz =
         Inr (0, map_option (\<lambda>b. take (unat sz) (fifo_contents f) @ drop (unat sz) b) buf, f')"
      "fifo_inv f'" "fifo_size f' = fifo_size f"
      "fifo_contents f' = drop (unat sz) (fifo_contents f)"
proof (cases "fifo_getused f < sz")
  case True
  show thesis
    by (rule short) (use True fifo_getused_contents [OF inv] in \<open>auto simp: fifo_read_def word_less_nat_alt\<close>)
next
  case False
  then have have_it: "unat sz \<le> length (fifo_contents f)"
    using fifo_getused_contents [OF inv] by (simp add: word_less_nat_alt)
  show thesis
  proof (cases buf)
    case None
    with fifo_drop_loop_ok [OF inv have_it] False show thesis
      by (auto intro: ok [OF have_it] simp: fifo_read_def)
  next
    case (Some b)
    with fifo_read_loop_ok [OF inv have_it, of 0 b] len [OF Some] False show thesis
      by (auto intro: ok [OF have_it] simp: fifo_read_def)
  qed
qed

section \<open>The contract of a bounded queue\<close>

text \<open>
  What the users of a queue (the serial driver, the XMODEM receiver) call, and a run of such
  calls. \<open>qrun\<close> collects the bytes accepted and, in order, the bytes taken out: \<open>None\<close> stands
  for a byte that was discarded.
\<close>

datatype qop = Q_write "u8 list" u32 | Q_read "u8 list option" u32

type_synonym 'q writer = "'q \<Rightarrow> u8 list \<Rightarrow> u32 \<Rightarrow> (int \<times> 'q) res"
type_synonym 'q reader = "'q \<Rightarrow> u8 list option \<Rightarrow> u32 \<Rightarrow> (int \<times> u8 list option \<times> 'q) res"

fun qop_ok :: "qop \<Rightarrow> bool" where
  "qop_ok (Q_write bs n) \<longleftrightarrow> unat n \<le> length bs"
| "qop_ok (Q_read buf n) \<longleftrightarrow> (case buf of None \<Rightarrow> True | Some b \<Rightarrow> unat n \<le> length b)"

definition taken :: "u8 list option \<Rightarrow> u32 \<Rightarrow> u8 option list" where
  "taken buf n =
     (case buf of None \<Rightarrow> replicate (unat n) None | Some b \<Rightarrow> map Some (take (unat n) b))"

fun qrun ::
  "'q writer \<Rightarrow> 'q reader \<Rightarrow> 'q \<Rightarrow> qop list \<Rightarrow> (u8 list \<times> u8 option list \<times> 'q) res" where
  "qrun wr rd q [] = Inr ([], [], q)"
| "qrun wr rd q (Q_write bs n # ops) =
     bnd (wr q bs n) (\<lambda>(r, q).
       bnd (qrun wr rd q ops) (\<lambda>(i, out, q).
         Inr (if r = 0 then take (unat n) bs @ i else i, out, q)))"
| "qrun wr rd q (Q_read buf n # ops) =
     bnd (rd q buf n) (\<lambda>(r, buf, q).
       bnd (qrun wr rd q ops) (\<lambda>(i, out, q).
         Inr (i, if r = 0 then taken buf n @ out else out, q)))"

text \<open>\<open>out\<close> is the start of \<open>stream\<close>, but for the discarded bytes.\<close>

definition shows_of :: "u8 option list \<Rightarrow> u8 list \<Rightarrow> bool" where
  "shows_of out stream \<longleftrightarrow> list_all2 (\<lambda>x b. x = None \<or> x = Some b) out (take (length out) stream)"

lemma shows_of_Nil [simp]: "shows_of [] s"
  by (simp add: shows_of_def)

lemma shows_of_taken:
  assumes "unat n \<le> length c" and "shows_of out (drop (unat n) c @ s)"
  shows "shows_of (taken (map_option (\<lambda>b. take (unat n) c @ drop (unat n) b) buf) n @ out) (c @ s)"
proof -
  let ?n = "unat n"
  have c: "c = take ?n c @ drop ?n c" by simp
  have t: "list_all2 (\<lambda>x b. x = None \<or> x = Some b)
      (taken (map_option (\<lambda>b. take ?n c @ drop ?n b) buf) n) (take ?n c)"
    using assms(1)
    by (cases buf) (auto simp: taken_def list_all2_conv_all_nth min_def)
  have l: "length (taken (map_option (\<lambda>b. take ?n c @ drop ?n b) buf) n) = ?n"
    using assms(1) by (cases buf) (auto simp: taken_def)
  have "take (?n + length out) (c @ s) = take ?n c @ take (length out) (drop ?n c @ s)"
    using assms(1) take_add [of ?n "length out" "c @ s"] by simp
  then show ?thesis
    using t assms(2) l unfolding shows_of_def by (simp add: list_all2_appendI)
qed

locale bounded_queue =
  fixes inv :: "'q \<Rightarrow> bool"
    and cont :: "'q \<Rightarrow> u8 list"
    and cap :: "'q \<Rightarrow> nat"
    and wr :: "'q writer"
    and rd :: "'q reader"
  assumes cont_cap: "inv q \<Longrightarrow> length (cont q) \<le> cap q"
    and wr_law: "inv q \<Longrightarrow> unat n \<le> length bs \<Longrightarrow>
      if length (cont q) + unat n \<le> cap q
      then \<exists>q'. wr q bs n = Inr (0, q') \<and> inv q' \<and> cap q' = cap q \<and>
        cont q' = cont q @ take (unat n) bs
      else wr q bs n = Inr (-1, q)"
    and rd_law: "inv q \<Longrightarrow> (\<And>b. buf = Some b \<Longrightarrow> unat n \<le> length b) \<Longrightarrow>
      if unat n \<le> length (cont q)
      then \<exists>q'. rd q buf n = Inr (0, map_option (\<lambda>b. take (unat n) (cont q) @ drop (unat n) b) buf, q') \<and>
        inv q' \<and> cap q' = cap q \<and> cont q' = drop (unat n) (cont q)
      else rd q buf n = Inr (-1, buf, q)"
begin

text \<open>A run of operations never faults and delivers the accepted bytes in order.\<close>

lemma run_stream:
  assumes "inv q" and "\<forall>op \<in> set ops. qop_ok op"
  shows "\<exists>i out q'. qrun wr rd q ops = Inr (i, out, q') \<and> inv q' \<and> cap q' = cap q \<and>
    shows_of out (cont q @ i) \<and> cont q' = drop (length out) (cont q @ i)"
  using assms
proof (induction ops arbitrary: q)
  case Nil
  then show ?case by simp
next
  case (Cons op ops)
  note IH = Cons.IH
  show ?case
  proof (cases op)
    case (Q_write bs n)
    show ?thesis
    proof (cases "length (cont q) + unat n \<le> cap q")
      case True
      with wr_law [of q n bs] Cons.prems Q_write obtain q1 where q1: "wr q bs n = Inr (0, q1)"
        "inv q1" "cap q1 = cap q" "cont q1 = cont q @ take (unat n) bs" by auto
      from IH [OF q1(2)] Cons.prems q1 Q_write show ?thesis by fastforce
    next
      case False
      with wr_law [of q n bs] Cons.prems Q_write have "wr q bs n = Inr (-1, q)" by auto
      with IH [OF Cons.prems(1)] Cons.prems Q_write show ?thesis by fastforce
    qed
  next
    case (Q_read buf n)
    have ok: "\<And>b. buf = Some b \<Longrightarrow> unat n \<le> length b" using Cons.prems Q_read by auto
    show ?thesis
    proof (cases "unat n \<le> length (cont q)")
      case True
      let ?b = "map_option (\<lambda>b. take (unat n) (cont q) @ drop (unat n) b) buf"
      from True rd_law [OF Cons.prems(1) ok] obtain q1 where q1: "rd q buf n = Inr (0, ?b, q1)"
        "inv q1" "cap q1 = cap q" "cont q1 = drop (unat n) (cont q)" by auto
      from IH [OF q1(2)] Cons.prems obtain i out q' where r: "qrun wr rd q1 ops = Inr (i, out, q')"
        "inv q'" "cap q' = cap q1" "shows_of out (cont q1 @ i)"
        "cont q' = drop (length out) (cont q1 @ i)" by auto
      have l: "length (taken ?b n) = unat n" using True by (cases buf) (auto simp: taken_def)
      have "shows_of (taken ?b n @ out) (cont q @ i)"
        using shows_of_taken [OF True] r(4) q1(4) by simp
      with r q1 Q_read l True show ?thesis by (simp add: add.commute)
    next
      case False
      with rd_law [OF Cons.prems(1) ok] have "rd q buf n = Inr (-1, buf, q)" by auto
      with IH [OF Cons.prems(1)] Cons.prems Q_read show ?thesis by fastforce
    qed
  qed
qed

end

interpretation fifo_queue: bounded_queue fifo_inv fifo_contents "\<lambda>f. unat (fifo_size f) - 1"
  fifo_write fifo_read
proof unfold_locales
  fix q :: fifo
  assume "fifo_inv q"
  then show "length (fifo_contents q) \<le> unat (fifo_size q) - 1"
    using fifo_getfree_contents [of q] by linarith
next
  fix q :: fifo and n :: u32 and bs :: "u8 list"
  assume inv: "fifo_inv q" and len: "unat n \<le> length bs"
  have "0 < unat (fifo_size q)" using inv by (auto simp: fifo_inv_nat)
  with inv len show "if length (fifo_contents q) + unat n \<le> unat (fifo_size q) - 1
    then \<exists>q'. fifo_write q bs n = Inr (0, q') \<and> fifo_inv q' \<and>
      unat (fifo_size q') - 1 = unat (fifo_size q) - 1 \<and>
      fifo_contents q' = fifo_contents q @ take (unat n) bs
    else fifo_write q bs n = Inr (- 1, q)"
    by (cases rule: fifo_write_cases) auto
next
  fix q :: fifo and buf :: "u8 list option" and n :: u32
  assume inv: "fifo_inv q" and len: "\<And>b. buf = Some b \<Longrightarrow> unat n \<le> length b"
  from inv len show "if unat n \<le> length (fifo_contents q)
    then \<exists>q'. fifo_read q buf n =
        Inr (0, map_option (\<lambda>b. take (unat n) (fifo_contents q) @ drop (unat n) b) buf, q') \<and>
      fifo_inv q' \<and> unat (fifo_size q') - 1 = unat (fifo_size q) - 1 \<and>
      fifo_contents q' = drop (unat n) (fifo_contents q)
    else fifo_read q buf n = Inr (- 1, buf, q)"
    by (cases rule: fifo_read_cases) auto
qed

section \<open>Properties\<close>

text \<open>
  C6: A queue fresh from \<open>fifo_init\<close> never faults, over any sequence of writes, reads and
  discards of requests that fit their buffers; the bytes it gives are exactly those it accepted,
  in order, without loss or repetition, and the rest is what it still holds.
\<close>

theorem fifo_stream:
  assumes init: "fifo_init mem h sz = Inr (r, f, h')" and ops: "\<forall>op \<in> set ops. qop_ok op"
  shows "\<exists>i out f'. qrun fifo_write fifo_read f ops = Inr (i, out, f') \<and>
    shows_of out i \<and> fifo_contents f' = drop (length out) i \<and>
    unat (fifo_getused f') + length out = length i \<and>
    unat (fifo_getfree f') + unat (fifo_getused f') + 1 = unat sz"
proof -
  have "sz \<noteq> 0" using init by (auto simp: fifo_init_def alloc_def)
  then have f: "fifo_inv f" "fifo_contents f = []" "fifo_size f = sz"
    using init
    by (auto simp: fifo_init_def bnd_eq_Inr fifo_inv_nat unat_gt_0 fifo_contents_def split: prod.splits)
  from fifo_queue.run_stream [OF f(1) ops] obtain i out f' where
    r: "qrun fifo_write fifo_read f ops = Inr (i, out, f')" "fifo_inv f'"
    "unat (fifo_size f') - 1 = unat sz - 1" "shows_of out i" "fifo_contents f' = drop (length out) i"
    using f by auto
  have "length out \<le> length i"
    using r(4) by (auto simp: shows_of_def dest: list_all2_lengthD)
  moreover have "unat (fifo_size f') = unat sz"
    using r(2,3) \<open>sz \<noteq> 0\<close> f(1,3) by (auto simp: fifo_inv_nat)
  ultimately show ?thesis
    using r fifo_counts [OF r(2)] by simp
qed

text \<open>
  \<open>fifo_write\<close> takes the whole request when it fits beside what the queue holds, with one
  slot kept empty, and otherwise changes nothing and fails.
\<close>

lemma fifo_write_refines:
  assumes inv: "fifo_inv f" and len: "unat sz \<le> length buf"
  shows "if length (fifo_contents f) + unat sz < unat (fifo_size f)
    then \<exists>f'. fifo_write f buf sz = Inr (0, f') \<and> fifo_inv f' \<and> fifo_size f' = fifo_size f \<and>
      fifo_contents f' = fifo_contents f @ take (unat sz) buf
    else fifo_write f buf sz = Inr (-1, f)"
  using inv len by (cases rule: fifo_write_cases) auto

text \<open>
  \<open>fifo_read\<close> removes the oldest bytes and stores them at the start of the buffer, or
  discards them when there is no buffer; when fewer are held it changes nothing and fails.
\<close>

lemma fifo_read_refines:
  assumes inv: "fifo_inv f" and len: "\<And>b. buf = Some b \<Longrightarrow> unat sz \<le> length b"
  shows "if unat sz \<le> length (fifo_contents f)
    then \<exists>f'. fifo_read f buf sz =
        Inr (0, map_option (\<lambda>b. take (unat sz) (fifo_contents f) @ drop (unat sz) b) buf, f') \<and>
      fifo_inv f' \<and> fifo_size f' = fifo_size f \<and>
      fifo_contents f' = drop (unat sz) (fifo_contents f)
    else fifo_read f buf sz = Inr (-1, buf, f)"
  using inv len by (cases rule: fifo_read_cases) auto

text \<open>A ring of four bytes that holds three and wraps.\<close>

definition example_fifo :: fifo where
  "example_fifo = \<lparr>fifo_ptr = 0x9000, fifo_data = [3, 0, 1, 2], fifo_size = 4,
     fifo_head = 2, fifo_tail = 1\<rparr>"

lemma example_fifo: "fifo_inv example_fifo" "fifo_contents example_fifo = [1, 2, 3]"
  by (simp_all add: example_fifo_def fifo_inv_def fifo_contents_def)

theorem fifo_stream_witness:
  "\<exists>f h'. fifo_init (\<lambda>_. 0) example_heap 4 = Inr (0, f, h') \<and>
     (\<exists>i out f'. qrun fifo_write fifo_read f
        [Q_write [1, 2, 3] 3, Q_read (Some [0, 0]) 2, Q_write [4, 5] 2, Q_read None 1] = Inr (i, out, f') \<and>
      shows_of out i)"
proof -
  have "isl (alloc example_heap 4 0) = False"
    unfolding example_heap_def by code_simp
  then obtain a h' where "alloc example_heap 4 0 = Inr (a, h')"
    by (cases "alloc example_heap 4 0") auto
  then obtain f where i: "fifo_init (\<lambda>_. 0) example_heap 4 = Inr (0, f, h')"
    by (simp add: fifo_init_def)
  from fifo_stream [OF i, of "[Q_write [1, 2, 3] 3, Q_read (Some [0, 0]) 2, Q_write [4, 5] 2, Q_read None 1]"]
  show ?thesis using i by auto
qed

end
