(* ===== verification/Lib_String.thy ===== *)
theory Lib_String
  imports Alloc_Facts
begin

text \<open>
  The C library of the loader: \<^verbatim>\<open>src/stdlib/string.c\<close>, \<^verbatim>\<open>src/stdlib/stdlib.c\<close> and
  \<^verbatim>\<open>src/stdlib/ctype.c\<close>. A pointer into an object is the list of the bytes from there to the end
  of the object, or an offset where the code computes with it; reading past the end is a
  \<open>Fault\<close>. A \<open>char\<close> is signed, as on the i386 target, so comparisons read it with \<open>sint\<close>.
\<close>

unbundle bit_operations_syntax

section \<open>Strings\<close>

definition bytes_of :: "string \<Rightarrow> u8 list" where
  "bytes_of s = map of_char s"

definition cstr :: "string \<Rightarrow> u8 list" where
  "cstr s = bytes_of s @ [0]"

fun strlen :: "u8 list \<Rightarrow> nat res" where
  "strlen [] = Inl Fault"
| "strlen (c # cs) = (if c \<noteq> 0 then bnd (strlen cs) (\<lambda>n. Inr (Suc n)) else Inr 0)"

fun strcmp :: "u8 list \<Rightarrow> u8 list \<Rightarrow> int res" where
  "strcmp (a # as) (b # bs) = (if a \<noteq> 0 \<and> a = b then strcmp as bs else Inr (sint a - sint b))"
| "strcmp _ _ = Inl Fault"

fun strncmp :: "u8 list \<Rightarrow> u8 list \<Rightarrow> u32 \<Rightarrow> int res" where
  "strncmp (a # as) (b # bs) n =
     (if a \<noteq> 0 \<and> a = b \<and> n - 1 \<noteq> 0 then strncmp as bs (n - 1) else Inr (sint a - sint b))"
| "strncmp _ _ _ = Inl Fault"

definition tolower :: "u8 \<Rightarrow> u8" where
  "tolower c = (if sint c \<ge> 65 \<and> sint c \<le> 90 then c + (97 - 65) else c)"

fun strcasecmp :: "u8 list \<Rightarrow> u8 list \<Rightarrow> int res" where
  "strcasecmp (a # as) (b # bs) =
     (let c1 = tolower a; c2 = tolower b
      in if c1 \<noteq> 0 \<and> c1 = c2 then strcasecmp as bs else Inr (sint c1 - sint c2))"
| "strcasecmp _ _ = Inl Fault"

fun strncasecmp :: "u8 list \<Rightarrow> u8 list \<Rightarrow> u32 \<Rightarrow> int res" where
  "strncasecmp (a # as) (b # bs) n =
     (let c1 = tolower a; c2 = tolower b
      in if c1 \<noteq> 0 \<and> c1 = c2 \<and> n - 1 \<noteq> 0 then strncasecmp as bs (n - 1)
         else Inr (sint c1 - sint c2))"
| "strncasecmp _ _ _ = Inl Fault"

text \<open>The result of \<open>strchr\<close> and \<open>strstr\<close> is an offset, \<open>None\<close> the null pointer.\<close>

fun strchr :: "u8 list \<Rightarrow> u8 \<Rightarrow> nat option res" where
  "strchr [] c = Inl Fault"
| "strchr (x # xs) c =
     (if x \<noteq> 0 then
        if x = c then Inr (Some 0)
        else bnd (strchr xs c) (\<lambda>r. Inr (map_option Suc r))
      else Inr None)"

text \<open>The inner loop of \<open>strstr\<close>: how many characters match at the position \<open>i\<close>.\<close>

function strstr_match :: "u8 list \<Rightarrow> u8 list \<Rightarrow> nat \<Rightarrow> nat \<Rightarrow> nat \<Rightarrow> nat res" where
  "strstr_match hay needle nsz i j =
     (if j < nsz then
        if i + j < length hay \<and> j < length needle then
          if hay ! (i + j) \<noteq> needle ! j then Inr j
          else strstr_match hay needle nsz i (Suc j)
        else Inl Fault
      else Inr j)"
  by pat_completeness auto
termination by (relation "measure (\<lambda>(hay, needle, nsz, i, j). nsz - j)") auto

function strstr_loop :: "u8 list \<Rightarrow> u8 list \<Rightarrow> nat \<Rightarrow> nat \<Rightarrow> nat \<Rightarrow> nat option res" where
  "strstr_loop hay needle nsz lim i =
     (if i \<le> lim then
        bnd (strstr_match hay needle nsz i 0)
          (\<lambda>j. if j = nsz then Inr (Some i) else strstr_loop hay needle nsz lim (Suc i))
      else Inr None)"
  by pat_completeness auto
termination by (relation "measure (\<lambda>(hay, needle, nsz, lim, i). Suc lim - i)") auto

declare strstr_match.simps [simp del] strstr_loop.simps [simp del]

definition strstr :: "u8 list \<Rightarrow> u8 list \<Rightarrow> nat option res" where
  "strstr haystack needle =
     bnd (strlen haystack) (\<lambda>hsz. bnd (strlen needle) (\<lambda>nsz.
       if hsz < nsz then Inr None
       else strstr_loop haystack needle nsz (hsz - nsz) 0))"

text \<open>Copies into the object \<open>dest\<close>, from its index \<open>i\<close> on.\<close>

fun strcpy_at :: "u8 list \<Rightarrow> nat \<Rightarrow> u8 list \<Rightarrow> u8 list res" where
  "strcpy_at dest i [] = Inl Fault"
| "strcpy_at dest i (c # cs) =
     (if i < length dest then
        if c \<noteq> 0 then strcpy_at (dest[i := c]) (Suc i) cs else Inr (dest[i := 0])
      else Inl Fault)"

definition strcpy :: "u8 list \<Rightarrow> u8 list \<Rightarrow> u8 list res" where
  "strcpy dest src = strcpy_at dest 0 src"

text \<open>The second loop of \<open>strncpy\<close> fills up to the length \<open>n\<close> with zeros.\<close>

fun fill_zero :: "u8 list \<Rightarrow> nat \<Rightarrow> nat \<Rightarrow> u8 list res" where
  "fill_zero dest i 0 = Inr dest"
| "fill_zero dest i (Suc k) =
     (if i < length dest then fill_zero (dest[i := 0]) (Suc i) k else Inl Fault)"

fun strncpy_at :: "u8 list \<Rightarrow> nat \<Rightarrow> u8 list \<Rightarrow> nat \<Rightarrow> u8 list res" where
  "strncpy_at dest i src 0 = Inr dest"
| "strncpy_at dest i [] (Suc k) = Inl Fault"
| "strncpy_at dest i (c # cs) (Suc k) =
     (if c \<noteq> 0 then
        if i < length dest then strncpy_at (dest[i := c]) (Suc i) cs k else Inl Fault
      else fill_zero dest i (Suc k))"

definition strncpy :: "u8 list \<Rightarrow> u8 list \<Rightarrow> u32 \<Rightarrow> u8 list res" where
  "strncpy dest src n = strncpy_at dest 0 src (unat n)"

text \<open>\<open>strdup\<close>: the address of the copy, its bytes, and the heap; \<open>mem\<close> is the memory before.\<close>

definition strdup :: "memory \<Rightarrow> heap \<Rightarrow> u8 list \<Rightarrow> (u32 \<times> u8 list \<times> heap) res" where
  "strdup mem h str =
     bnd (strlen str) (\<lambda>n. bnd (alloc h (of_nat n + 1) 0) (\<lambda>(a, h).
       bnd (strcpy (mem_get mem a (n + 1)) str) (\<lambda>d. Inr (a, d, h))))"

section \<open>Memory\<close>

text \<open>\<open>memcpy\<close> between two objects, from offset \<open>s\<close> of the one to offset \<open>d\<close> of the other.\<close>

fun memcpy :: "u8 list \<Rightarrow> nat \<Rightarrow> u8 list \<Rightarrow> nat \<Rightarrow> nat \<Rightarrow> u8 list res" where
  "memcpy dest d src s 0 = Inr dest"
| "memcpy dest d src s (Suc n) =
     (if d < length dest \<and> s < length src then memcpy (dest[d := src ! s]) (Suc d) src (Suc s) n
      else Inl Fault)"

fun memset :: "u8 list \<Rightarrow> nat \<Rightarrow> u8 \<Rightarrow> nat \<Rightarrow> u8 list res" where
  "memset buf i c 0 = Inr buf"
| "memset buf i c (Suc n) =
     (if i < length buf then memset (buf[i := c]) (Suc i) c n else Inl Fault)"

text \<open>The two loops of \<open>memmove\<close> inside one object, upwards and downwards.\<close>

fun memmove_up :: "u8 list \<Rightarrow> nat \<Rightarrow> nat \<Rightarrow> nat \<Rightarrow> u8 list res" where
  "memmove_up buf d s 0 = Inr buf"
| "memmove_up buf d s (Suc n) =
     (if d < length buf \<and> s < length buf then memmove_up (buf[d := buf ! s]) (Suc d) (Suc s) n
      else Inl Fault)"

text \<open>\<open>d\<close> and \<open>s\<close> are one past the last bytes still to be moved, \<open>n\<close> of them.\<close>

fun memmove_down :: "u8 list \<Rightarrow> nat \<Rightarrow> nat \<Rightarrow> nat \<Rightarrow> u8 list res" where
  "memmove_down buf d s 0 = Inr buf"
| "memmove_down buf d s (Suc n) =
     (if d - 1 < length buf \<and> s - 1 < length buf then
        memmove_down (buf[d - 1 := buf ! (s - 1)]) (d - 1) (s - 1) n
      else Inl Fault)"

definition memmove :: "u8 list \<Rightarrow> nat \<Rightarrow> nat \<Rightarrow> nat \<Rightarrow> u8 list res" where
  "memmove buf d s n =
     (if d < s then memmove_up buf d s n else memmove_down buf (d + n) (s + n) n)"

text \<open>\<open>memcmp\<close>; the difference is of the second byte and the first.\<close>

fun memcmp :: "u8 list \<Rightarrow> u8 list \<Rightarrow> nat \<Rightarrow> int res" where
  "memcmp s1 s2 0 = Inr 0"
| "memcmp (a # as) (b # bs) (Suc n) = (if a \<noteq> b then Inr (uint b - uint a) else memcmp as bs n)"
| "memcmp _ _ (Suc n) = Inl Fault"

section \<open>Numbers\<close>

text \<open>The third test of \<open>isalnum\<close> reads \<open>c < - 'z'\<close>, as the compiler does.\<close>

definition isalnum :: "int \<Rightarrow> bool" where
  "isalnum c \<longleftrightarrow> (c \<ge> 48 \<and> c \<le> 57) \<or> (c \<ge> 65 \<and> c \<le> 90) \<or> (c \<ge> 97 \<and> c < -122)"

definition char_to_num :: "int \<Rightarrow> int" where
  "char_to_num c =
     (if c \<ge> 48 \<and> c \<le> 57 then c - 48
      else if c \<ge> 65 \<and> c \<le> 90 then 10 + (c - 65)
      else if c \<ge> 97 \<and> c \<le> 122 then 10 + (c - 97)
      else -1)"

text \<open>\<open>strtoul\<close>: the value and how far \<open>*endptr\<close> is behind \<open>nptr\<close>.\<close>

fun strtoul_loop :: "u8 list \<Rightarrow> u32 \<Rightarrow> u32 \<Rightarrow> nat \<Rightarrow> (u32 \<times> nat) res" where
  "strtoul_loop [] base r k = Inl Fault"
| "strtoul_loop (c # cs) base r k =
     (if c \<noteq> 0 then
        if \<not> isalnum (sint c) then Inr (r, k)
        else if char_to_num (sint c) > sint base then Inr (r, k)
        else strtoul_loop cs base (r * base + of_int (char_to_num (sint c))) (Suc k)
      else Inr (r, k))"

definition strtoul :: "u8 list \<Rightarrow> u32 \<Rightarrow> (u32 \<times> nat) res" where
  "strtoul s base = strtoul_loop s base 0 0"

section \<open>Facts about strings\<close>

text \<open>\<open>str_at s p\<close>: the pointer \<open>p\<close> points at the terminated string \<open>s\<close>.\<close>

definition str_at :: "u8 list \<Rightarrow> u8 list \<Rightarrow> bool" where
  "str_at s p \<longleftrightarrow> 0 \<notin> set s \<and> take (Suc (length s)) p = s @ [0]"

lemma str_at_cases:
  assumes "str_at s p"
  obtains r where "p = s @ 0 # r" "0 \<notin> set s"
proof -
  have "p = take (Suc (length s)) p @ drop (Suc (length s)) p" by simp
  with assms show thesis by (intro that [of "drop (Suc (length s)) p"]) (auto simp: str_at_def)
qed

lemma strlen_app: "0 \<notin> set s \<Longrightarrow> strlen (s @ 0 # r) = Inr (length s)"
  by (induction s) auto

lemma strlen_str_at: "str_at s p \<Longrightarrow> strlen p = Inr (length s)"
  by (erule str_at_cases) (simp add: strlen_app)

lemma strcmp_app:
  assumes "0 \<notin> set a" and "0 \<notin> set b"
  shows "\<exists>r. strcmp (a @ 0 # ra) (b @ 0 # rb) = Inr r \<and> (r = 0 \<longleftrightarrow> a = b) \<and>
    (r < 0 \<longleftrightarrow> (map sint (a @ [0]), map sint (b @ [0])) \<in> lexord {(x, y). x < y})"
  using assms
proof (induction a arbitrary: b)
  case Nil
  then show ?case
    by (cases b) auto
next
  case (Cons x a)
  show ?case
  proof (cases b)
    case Nil
    with Cons.prems show ?thesis
      by auto
  next
    case b: (Cons y b')
    then show ?thesis
    proof (cases "x = y")
      case True
      with Cons.IH [of b'] Cons.prems b show ?thesis by auto
    next
      case False
      then have "sint x \<noteq> sint y" by (simp add: sint_eq_iff)
      with False Cons.prems b show ?thesis by auto
    qed
  qed
qed

text \<open>
  How many characters a count limits the comparison to: the count is decremented before it is
  tested, so a count of 0 is one of \<open>2 ^ 32\<close>.
\<close>

definition compared :: "u32 \<Rightarrow> nat" where
  "compared n = (if n = 0 then 2 ^ 32 else unat n)"

lemma compared_Suc: "compared n = (if n - 1 = 0 then 1 else Suc (compared (n - 1)))"
proof -
  have m: "unat (- 1 :: u32) = 4294967295" by (simp add: unsigned_minus_1_eq_mask mask_eq_exp_minus_1)
  consider "n = 0" | "n = 1" | "n \<noteq> 0" "n \<noteq> 1" by blast
  then show ?thesis
  proof cases
    case 3
    then have "unat n \<noteq> 0" by (simp add: unat_eq_zero)
    with 3 show ?thesis by (simp add: compared_def unat_minus_1)
  qed (simp_all add: compared_def m)
qed

lemma strncmp_app:
  assumes "0 \<notin> set a" and "0 \<notin> set b"
  shows "\<exists>r. strncmp (a @ 0 # ra) (b @ 0 # rb) n = Inr r \<and>
    (r = 0 \<longleftrightarrow> take (compared n) a = take (compared n) b)"
  using assms
proof (induction a arbitrary: b n)
  case Nil
  have "compared n \<noteq> 0" by (simp add: compared_Suc [of n])
  with Nil show ?case
    by (cases b) auto
next
  case (Cons x a)
  show ?case
  proof (cases b)
    case Nil
    with Cons.prems show ?thesis
      by (auto simp: compared_Suc [of n])
  next
    case b: (Cons y b')
    show ?thesis
    proof (cases "x = y")
      case True
      with Cons.IH [of b' "n - 1"] Cons.prems b show ?thesis
        by (cases "n = 1") (simp_all add: compared_Suc [of n] compared_Suc [of 1])
    next
      case False
      then have "sint x \<noteq> sint y" by (simp add: sint_eq_iff)
      with False Cons.prems b show ?thesis by (auto simp: compared_Suc [of n])
    qed
  qed
qed

text \<open>The case-insensitive comparisons compare the lowered strings.\<close>

lemma tolower_0 [simp]: "tolower 0 = 0"
  by (simp add: tolower_def)

lemma tolower_eq_0 [simp]: "tolower c = 0 \<longleftrightarrow> c = 0"
proof (cases "sint c \<ge> 65 \<and> sint c \<le> 90")
  case True
  have "c + 32 \<noteq> 0"
  proof
    assume "c + 32 = 0"
    then have "c = -32" by (simp add: eq_neg_iff_add_eq_0)
    with True show False by simp
  qed
  moreover have "c \<noteq> 0" using True by auto
  ultimately show ?thesis using True by (simp add: tolower_def)
qed (auto simp: tolower_def)

lemma strcasecmp_map: "strcasecmp p q = strcmp (map tolower p) (map tolower q)"
  by (induction p q rule: strcasecmp.induct) (auto simp: Let_def)

lemma strncasecmp_map: "strncasecmp p q n = strncmp (map tolower p) (map tolower q) n"
  by (induction p q n rule: strncasecmp.induct) (auto simp: Let_def)

lemma zero_in_map_tolower [simp]: "0 \<in> tolower ` A \<longleftrightarrow> 0 \<in> A"
  by (metis image_iff tolower_0 tolower_eq_0)

text \<open>
  Equality up to case: at each place the same character, or one letter of the alphabet small on one
  side and capital on the other.
\<close>

definition capital_of :: "u8 \<Rightarrow> u8 \<Rightarrow> bool" where
  "capital_of x y \<longleftrightarrow>
     (x, y) \<in> set (zip (bytes_of ''ABCDEFGHIJKLMNOPQRSTUVWXYZ'') (bytes_of ''abcdefghijklmnopqrstuvwxyz''))"

definition same_letter :: "u8 \<Rightarrow> u8 \<Rightarrow> bool" where
  "same_letter x y \<longleftrightarrow> x = y \<or> capital_of x y \<or> capital_of y x"

definition same_up_to_case :: "u8 list \<Rightarrow> u8 list \<Rightarrow> bool" where
  "same_up_to_case a b \<longleftrightarrow> list_all2 same_letter a b"

lemma sint_of_nat_u8: "n < 128 \<Longrightarrow> sint (of_nat n :: u8) = int n"
  by (simp add: sint_uint unsigned_of_nat take_bit_nat_eq_self signed_take_bit_int_eq_self)

lemma capital_of_iff: "capital_of x y \<longleftrightarrow> 65 \<le> sint x \<and> sint x \<le> 90 \<and> y = x + 32"
proof
  assume "capital_of x y"
  then show "65 \<le> sint x \<and> sint x \<le> 90 \<and> y = x + 32"
    by (auto simp: capital_of_def bytes_of_def)
next
  assume a: "65 \<le> sint x \<and> sint x \<le> 90 \<and> y = x + 32"
  let ?k = "nat (sint x - 65)"
  have k: "?k < 26" "int (65 + ?k) = sint x" using a by linarith+
  then have "sint (of_nat (65 + ?k) :: u8) = sint x" using sint_of_nat_u8 [of "65 + ?k"] by linarith
  then have "of_nat (65 + ?k) = x" by (simp only: sint_eq_iff)
  then have "x \<in> set (map (\<lambda>k. of_nat (65 + k)) [0..<26])" using k(1) by (metis atLeastLessThan_iff image_eqI le0 list.set_map set_upt)
  with a show "capital_of x y"
    by (auto simp: capital_of_def bytes_of_def upt_rec)
qed

lemma tolower_eq: "tolower x = tolower y \<longleftrightarrow> same_letter x y"
proof -
  have n: "\<not> (65 \<le> sint (c + 32) \<and> sint (c + 32) \<le> 90)" if "65 \<le> sint c" "sint c \<le> 90" for c :: u8
  proof -
    let ?k = "nat (sint c)"
    have k: "?k < 96" "int ?k = sint c" using that by linarith+
    then have "of_nat ?k = c" using sint_of_nat_u8 [of ?k] by (simp add: sint_eq_iff [symmetric])
    then have "sint (c + 32) = sint (of_nat (?k + 32) :: u8)" by simp
    also have "\<dots> = sint c + 32" using sint_of_nat_u8 [of "?k + 32"] k by linarith
    finally show ?thesis using that by simp
  qed
  show ?thesis
    using n [of x] n [of y] by (auto simp: tolower_def same_letter_def capital_of_iff)
qed

lemma map_tolower_eq: "map tolower a = map tolower b \<longleftrightarrow> same_up_to_case a b"
  by (simp add: same_up_to_case_def list_all2_conv_all_nth list_eq_iff_nth_eq tolower_eq cong: conj_cong)

text \<open>The occurrence of one string in another at an offset, and \<open>strstr\<close>.\<close>

definition occurs_at :: "u8 list \<Rightarrow> u8 list \<Rightarrow> nat \<Rightarrow> bool" where
  "occurs_at s t i \<longleftrightarrow> i + length t \<le> length s \<and> take (length t) (drop i s) = t"

lemma strstr_match_spec:
  assumes "i + nsz \<le> length hay" and "nsz \<le> length needle" and "j \<le> nsz"
  shows "\<exists>k. strstr_match hay needle nsz i j = Inr k \<and> k \<le> nsz \<and>
    (k = nsz \<longleftrightarrow> (\<forall>m. j \<le> m \<and> m < nsz \<longrightarrow> hay ! (i + m) = needle ! m))"
  using assms
proof (induction hay needle nsz i j rule: strstr_match.induct)
  case (1 hay needle nsz i j)
  show ?case
  proof (cases "j < nsz \<and> hay ! (i + j) = needle ! j")
    case True
    with 1 obtain k where "strstr_match hay needle nsz i (Suc j) = Inr k" "k \<le> nsz"
      "k = nsz \<longleftrightarrow> (\<forall>m. Suc j \<le> m \<and> m < nsz \<longrightarrow> hay ! (i + m) = needle ! m)" by auto
    moreover have "(\<forall>m. Suc j \<le> m \<and> m < nsz \<longrightarrow> hay ! (i + m) = needle ! m) \<longleftrightarrow>
        (\<forall>m. j \<le> m \<and> m < nsz \<longrightarrow> hay ! (i + m) = needle ! m)"
      using True by (metis Suc_leD Suc_leI le_neq_implies_less)
    ultimately show ?thesis using True 1 by (simp add: strstr_match.simps [of _ _ _ _ j])
  next
    case False
    with 1 show ?thesis by (auto simp: strstr_match.simps [of _ _ _ _ j])
  qed
qed

lemma strstr_match_occurs:
  assumes "str_at h p" and "str_at n q" and "i + length n \<le> length h"
  shows "\<exists>k. strstr_match p q (length n) i 0 = Inr k \<and> (k = length n \<longleftrightarrow> occurs_at h n i)"
proof -
  obtain rp rq where pq: "p = h @ 0 # rp" "q = n @ 0 # rq"
    using assms(1,2) by (meson str_at_cases)
  have "(\<forall>m. 0 \<le> m \<and> m < length n \<longrightarrow> p ! (i + m) = q ! m) \<longleftrightarrow> occurs_at h n i"
    using assms(3) by (auto simp: pq occurs_at_def nth_append list_eq_iff_nth_eq)
  with strstr_match_spec [of i "length n" p q 0] assms(3) pq show ?thesis by auto
qed

lemma strstr_loop_spec:
  assumes "str_at h p" and "str_at n q" and "lim + length n = length h"
  shows "strstr_loop p q (length n) lim i =
    Inr (if \<exists>k. i \<le> k \<and> occurs_at h n k then Some (LEAST k. i \<le> k \<and> occurs_at h n k) else None)"
  using assms
proof (induction p q "length n" lim i rule: strstr_loop.induct)
  case (1 p q lim i)
  let ?Q = "\<lambda>i k. i \<le> k \<and> occurs_at h n k"
  show ?case
  proof (cases "i \<le> lim")
    case True
    then obtain k where k: "strstr_match p q (length n) i 0 = Inr k" "k = length n \<longleftrightarrow> occurs_at h n i"
      using strstr_match_occurs [OF 1(2,3), of i] 1(4) by auto
    show ?thesis
    proof (cases "occurs_at h n i")
      case o: True
      then have "(LEAST k. ?Q i k) = i" by (intro Least_equality) auto
      with o k True show ?thesis by (auto simp: strstr_loop.simps [of _ _ _ _ i])
    next
      case o: False
      then have "?Q i = ?Q (Suc i)" by (auto intro!: ext simp: Suc_le_eq order.order_iff_strict)
      with 1(1) [OF True k(1) _ 1(2-4)] o k True show ?thesis
        by (simp add: strstr_loop.simps [of _ _ _ _ i])
    qed
  next
    case False
    then have "\<not> (\<exists>k. ?Q i k)" using 1(4) by (auto simp: occurs_at_def)
    with False show ?thesis by (simp add: strstr_loop.simps [of _ _ _ _ i])
  qed
qed

section \<open>Facts about memory\<close>

lemma memmove_up_spec:
  assumes "d + n \<le> length buf" and "s + n \<le> length buf" and "d < s"
  shows "\<exists>r. memmove_up buf d s n = Inr r \<and> length r = length buf \<and>
    (\<forall>i < length buf. r ! i = (if d \<le> i \<and> i < d + n then buf ! (s + (i - d)) else buf ! i))"
  using assms
proof (induction buf d s n rule: memmove_up.induct)
  case (2 buf d s n)
  then obtain r where r: "memmove_up (buf[d := buf ! s]) (Suc d) (Suc s) n = Inr r"
    "length r = length buf"
    "\<forall>i < length buf. r ! i = (if Suc d \<le> i \<and> i < Suc d + n then (buf[d := buf ! s]) ! (Suc s + (i - Suc d))
       else (buf[d := buf ! s]) ! i)" by auto
  have "r ! i = (if d \<le> i \<and> i < d + Suc n then buf ! (s + (i - d)) else buf ! i)"
    if "i < length buf" for i
  proof (cases "i = d")
    case False
    then show ?thesis using r(3) that 2(4) by (auto simp: Suc_diff_Suc nth_list_update)
  qed (use r(3) that in auto)
  with 2 r show ?case by auto
qed auto

lemma memmove_down_spec:
  assumes "d + n \<le> length buf" and "s + n \<le> length buf" and "s \<le> d"
  shows "\<exists>r. memmove_down buf (d + n) (s + n) n = Inr r \<and> length r = length buf \<and>
    (\<forall>i < length buf. r ! i = (if d \<le> i \<and> i < d + n then buf ! (s + (i - d)) else buf ! i))"
  using assms
proof (induction n arbitrary: buf)
  case (Suc n)
  let ?b = "buf[d + n := buf ! (s + n)]"
  from Suc.IH [of ?b] Suc.prems obtain r where r: "memmove_down ?b (d + n) (s + n) n = Inr r"
    "length r = length buf"
    "\<forall>i < length buf. r ! i = (if d \<le> i \<and> i < d + n then ?b ! (s + (i - d)) else ?b ! i)" by auto
  have "r ! i = (if d \<le> i \<and> i < d + Suc n then buf ! (s + (i - d)) else buf ! i)"
    if "i < length buf" for i
  proof (cases "i = d + n")
    case False
    then show ?thesis using r(3) that Suc.prems by (auto simp: nth_list_update)
  qed (use r(3) that in auto)
  with Suc.prems r show ?case by auto
qed auto

lemma memmove_nth:
  assumes "d + n \<le> length buf" and "s + n \<le> length buf"
  shows "\<exists>r. memmove buf d s n = Inr r \<and> length r = length buf \<and>
    (\<forall>i < length buf. r ! i = (if d \<le> i \<and> i < d + n then buf ! (s + (i - d)) else buf ! i))"
  using memmove_up_spec [OF assms] memmove_down_spec [OF assms] by (simp add: memmove_def)

lemma memcpy_spec:
  assumes "d + n \<le> length dest" and "s + n \<le> length src"
  shows "memcpy dest d src s n = Inr (take d dest @ take n (drop s src) @ drop (d + n) dest)"
  using assms
proof (induction n arbitrary: dest d s)
  case (Suc n)
  have "take (Suc d) (dest[d := src ! s]) = take d dest @ [src ! s]"
    using Suc.prems by (simp add: take_Suc_conv_app_nth)
  moreover have "take (Suc n) (drop s src) = src ! s # take n (drop (Suc s) src)"
    using Suc.prems by (simp add: Cons_nth_drop_Suc [symmetric])
  ultimately show ?case using Suc.IH [of "Suc d" "dest[d := src ! s]" "Suc s"] Suc.prems by simp
qed auto

lemma memset_spec:
  assumes "i + n \<le> length buf"
  shows "memset buf i c n = Inr (take i buf @ replicate n c @ drop (i + n) buf)"
  using assms
proof (induction n arbitrary: buf i)
  case (Suc n)
  have "take (Suc i) (buf[i := c]) = take i buf @ [c]"
    using Suc.prems by (simp add: take_Suc_conv_app_nth)
  with Suc.IH [of "Suc i" "buf[i := c]"] Suc.prems show ?case by simp
qed auto

lemma memcmp_spec:
  assumes "n \<le> length a" and "n \<le> length b"
  shows "\<exists>r. memcmp a b n = Inr r \<and> (r = 0 \<longleftrightarrow> take n a = take n b)"
  using assms by (induction a b n rule: memcmp.induct) (auto simp: word_uint_eq_iff)

lemma strcpy_at_spec:
  assumes "0 \<notin> set s" and "i + length s < length dest"
  shows "strcpy_at dest i (s @ 0 # r) = Inr (take i dest @ s @ 0 # drop (i + length s + 1) dest)"
  using assms
proof (induction s arbitrary: dest i)
  case Nil
  then show ?case by (simp add: upd_conv_take_nth_drop)
next
  case (Cons c s)
  have "take (Suc i) (dest[i := c]) = take i dest @ [c]"
    using Cons.prems by (simp add: take_Suc_conv_app_nth)
  with Cons.IH [of "Suc i" "dest[i := c]"] Cons.prems show ?case by simp
qed

section \<open>Facts about numbers\<close>

definition digit_char :: "nat \<Rightarrow> u8" where
  "digit_char d = (if d < 10 then of_nat (48 + d) else of_nat (55 + d))"

definition horner :: "nat \<Rightarrow> nat \<Rightarrow> nat list \<Rightarrow> nat" where
  "horner b = foldl (\<lambda>r d. r * b + d)"

lemma digit_char_props:
  assumes "d < 36"
  shows "digit_char d \<noteq> 0" and "isalnum (sint (digit_char d))"
    and "char_to_num (sint (digit_char d)) = int d"
proof -
  have s: "sint (digit_char d) = (if d < 10 then 48 + int d else 55 + int d)"
    using assms sint_of_nat_u8 [of "48 + d"] sint_of_nat_u8 [of "55 + d"]
    by (simp add: digit_char_def)
  show "isalnum (sint (digit_char d))" "char_to_num (sint (digit_char d)) = int d"
    using assms by (auto simp: s isalnum_def char_to_num_def)
  have "sint (digit_char d) \<noteq> 0" unfolding s by simp
  then show "digit_char d \<noteq> 0" by (metis signed_0)
qed

text \<open>
  The digits \<open>strtoul\<close> accepts for a base are \<open>0\<close> to \<open>9\<close> and \<open>A\<close> to \<open>Z\<close>, in this order, up to
  and including the one that stands for the base itself. Every other character stops it.
\<close>

definition accepted_digits :: "u32 \<Rightarrow> nat list" where
  "accepted_digits base = filter (\<lambda>d. int d \<le> sint base) [0..<36]"

definition stops :: "u32 \<Rightarrow> u8 \<Rightarrow> bool" where
  "stops base c \<longleftrightarrow> c \<notin> set (map digit_char (accepted_digits base))"

lemma accepted_digits_iff: "d \<in> set (accepted_digits base) \<longleftrightarrow> d < 36 \<and> int d \<le> sint base"
  by (auto simp: accepted_digits_def)

lemma digit_char_of:
  assumes "isalnum (sint c)"
  shows "\<exists>d < 36. c = digit_char d \<and> char_to_num (sint c) = int d"
proof (cases "sint c \<le> 57")
  case True
  then have c: "48 \<le> sint c" using assms by (auto simp: isalnum_def)
  let ?d = "nat (sint c - 48)"
  have "?d < 10" using True c by linarith
  have "sint (digit_char ?d) = sint c"
    using True c sint_of_nat_u8 [of "48 + ?d"] \<open>?d < 10\<close> by (simp add: digit_char_def)
  then have "c = digit_char ?d" by (simp only: sint_eq_iff [symmetric])
  moreover have "char_to_num (sint c) = int ?d" using True c by (simp add: char_to_num_def)
  moreover have "?d < 36" using \<open>?d < 10\<close> by simp
  ultimately show ?thesis by blast
next
  case False
  then have c: "65 \<le> sint c" "sint c \<le> 90" using assms by (auto simp: isalnum_def)
  let ?d = "nat (sint c - 55)"
  have "sint (digit_char ?d) = sint c"
    using c sint_of_nat_u8 [of "55 + ?d"] by (simp add: digit_char_def)
  then have "c = digit_char ?d" by (simp only: sint_eq_iff [symmetric])
  moreover have "char_to_num (sint c) = int ?d" using c by (simp add: char_to_num_def)
  moreover have "?d < 36" using c by linarith
  ultimately show ?thesis by blast
qed

lemma stops_iff:
  "stops base c \<longleftrightarrow> c = 0 \<or> \<not> isalnum (sint c) \<or> char_to_num (sint c) > sint base"
proof -
  have "c \<in> digit_char ` set (accepted_digits base) \<longleftrightarrow>
      c \<noteq> 0 \<and> isalnum (sint c) \<and> char_to_num (sint c) \<le> sint base"
    using digit_char_props digit_char_of [of c]
    by (metis (no_types, lifting) accepted_digits_iff image_iff)
  then show ?thesis by (auto simp: stops_def not_le)
qed

lemma strtoul_loop_digits:
  assumes "set ds \<subseteq> set (accepted_digits base)" and "stops base c"
  shows "strtoul_loop (map digit_char ds @ c # rest) base (of_nat r) k =
    Inr (of_nat (horner (unat base) r ds), k + length ds)"
  using assms
proof (induction ds arbitrary: r k)
  case Nil
  then show ?case by (auto simp: stops_iff horner_def)
next
  case (Cons d ds)
  have "of_nat r * base + of_nat d = (of_nat (r * unat base + d) :: u32)" by simp
  with Cons digit_char_props [of d] show ?case
    by (simp add: horner_def accepted_digits_iff del: of_nat_add of_nat_mult)
qed

section \<open>Properties\<close>

text \<open>
  C7: The four comparisons of terminated strings: \<open>strcmp\<close> is zero exactly on equal strings and
  negative exactly when the first comes before the second in the order of signed characters;
  \<open>strncmp\<close> is zero exactly when the first \<open>n\<close> characters are equal, where a count of 0 stands for
  \<open>2 ^ 32\<close>, that is for no limit; \<open>strcasecmp\<close> and \<open>strncasecmp\<close> are zero exactly when this holds
  with each of \<open>A\<close> to \<open>Z\<close> taken for the small letter of the alphabet. None of them reads past a
  terminator.
\<close>

theorem str_compare:
  assumes "str_at a p" and "str_at b q"
  shows "(\<exists>r. strcmp p q = Inr r \<and> (r = 0 \<longleftrightarrow> a = b) \<and>
      (r < 0 \<longleftrightarrow> (map sint (a @ [0]), map sint (b @ [0])) \<in> lexord {(x, y). x < y})) \<and>
    (\<exists>r. strncmp p q n = Inr r \<and> (r = 0 \<longleftrightarrow> take (compared n) a = take (compared n) b)) \<and>
    (\<exists>r. strcasecmp p q = Inr r \<and> (r = 0 \<longleftrightarrow> same_up_to_case a b)) \<and>
    (\<exists>r. strncasecmp p q n = Inr r \<and>
      (r = 0 \<longleftrightarrow> same_up_to_case (take (compared n) a) (take (compared n) b)))"
proof -
  from assms obtain ra rb where p: "p = a @ 0 # ra" and a: "0 \<notin> set a"
    and q: "q = b @ 0 # rb" and b: "0 \<notin> set b" by (meson str_at_cases)
  have al: "0 \<notin> set (map tolower a)" and bl: "0 \<notin> set (map tolower b)" using a b by auto
  have "\<exists>r. strcasecmp p q = Inr r \<and> (r = 0 \<longleftrightarrow> same_up_to_case a b)"
    using strcmp_app [OF al bl, of "map tolower ra" "map tolower rb"]
    by (auto simp: strcasecmp_map p q map_tolower_eq)
  moreover have "\<exists>r. strncasecmp p q n = Inr r \<and>
      (r = 0 \<longleftrightarrow> same_up_to_case (take (compared n) a) (take (compared n) b))"
    using strncmp_app [OF al bl, of "map tolower ra" "map tolower rb" n]
    by (simp add: strncasecmp_map p q take_map map_tolower_eq)
  ultimately show ?thesis
    using strcmp_app [OF a b] strncmp_app [OF a b] by (simp add: p q)
qed

text \<open>
  C8: \<open>strstr\<close> on terminated strings returns the offset of the first occurrence of the second in
  the first, the null pointer exactly when there is none, and stays inside both.
\<close>

theorem strstr_first:
  assumes "str_at h p" and "str_at n q"
  shows "strstr p q =
    Inr (if \<exists>k. occurs_at h n k then Some (LEAST k. occurs_at h n k) else None)"
proof (cases "length h < length n")
  case True
  then have "\<not> (\<exists>k. occurs_at h n k)" by (auto simp: occurs_at_def)
  with True show ?thesis
    by (simp add: strstr_def strlen_str_at [OF assms(1)] strlen_str_at [OF assms(2)])
next
  case False
  with strstr_loop_spec [OF assms, of "length h - length n" 0] show ?thesis
    by (simp add: strstr_def strlen_str_at [OF assms(1)] strlen_str_at [OF assms(2)])
qed

text \<open>
  C9: \<open>memmove\<close> inside one object moves the \<open>n\<close> bytes as they were before, whatever the overlap,
  and leaves every other byte alone.
\<close>

theorem memmove_overlap:
  assumes "d + n \<le> length buf" and "s + n \<le> length buf"
  shows "memmove buf d s n = Inr (take d buf @ take n (drop s buf) @ drop (d + n) buf)"
proof -
  obtain r where r: "memmove buf d s n = Inr r" "length r = length buf"
    "\<forall>i < length buf. r ! i = (if d \<le> i \<and> i < d + n then buf ! (s + (i - d)) else buf ! i)"
    using memmove_nth [OF assms] by blast
  have "r = take d buf @ take n (drop s buf) @ drop (d + n) buf"
    using r assms by (intro nth_equalityI) (auto simp: nth_append)
  with r(1) show ?thesis by simp
qed

text \<open>
  C10: \<open>strdup\<close> returns a block of exactly the length of the string and its terminator that holds a
  copy of the string. Its bytes were free before and are in use after; every block in use before
  stays in use, so none of them is handed out again.
\<close>

theorem strdup_copies:
  assumes inv: "heap_inv h" and s: "str_at s p" and len: "length s < 2 ^ 32 - 1"
    and d: "strdup mem h p = Inr (a, d, h')"
  shows "d = s @ [0] \<and> heap_inv h' \<and> a \<noteq> 0 \<and>
    {unat a..<unat a + length s + 1} \<subseteq> free_bytes h \<and>
    {unat a..<unat a + length s + 1} \<inter> free_bytes h' = {} \<and>
    add_mset (unat a, length s + 1) (used_regions h) \<subseteq># used_regions h'"
proof -
  obtain r where p: "p = s @ 0 # r" and z: "0 \<notin> set s" using s by (rule str_at_cases)
  let ?buf = "mem_get mem a (length s + 1)"
  from d have al: "alloc h (of_nat (length s) + 1) 0 = Inr (a, h')" and c: "strcpy ?buf p = Inr d"
    by (auto simp: strdup_def strlen_str_at [OF s] bnd_eq_Inr)
  have "strcpy ?buf p = Inr (s @ [0])"
    using strcpy_at_spec [OF z, of 0 ?buf r] by (simp add: strcpy_def p)
  with c have "d = s @ [0]" by simp
  have "length s + 1 < 2 ^ LENGTH(32)" using len by simp
  then have "take_bit LENGTH(32) (length s + 1) = length s + 1" by (rule take_bit_nat_eq_self)
  then have "unat (of_nat (length s + 1) :: u32) = length s + 1" by (simp only: unsigned_of_nat of_nat_id)
  then have n: "unat (of_nat (length s) + 1 :: u32) = length s + 1" by (simp add: add.commute)
  from alloc_spec [OF inv al, unfolded n] obtain tb :: "u32 list" where sp: "heap_inv h'" "a \<noteq> 0"
    "{unat a..<unat a + (length s + 1)} \<subseteq> free_bytes h"
    "used_regions h' = add_mset (unat a, length s + 1) (used_regions h) + mset (map (\<lambda>b. (unat b, 1540)) tb)"
    "free_bytes h' = free_bytes h - {unat a..<unat a + (length s + 1)} - (\<Union>b \<in> set tb. {unat b..<unat b + 1540})"
    by (elim conjE exE) (rule that; assumption)
  have "add_mset (unat a, length s + 1) (used_regions h) \<subseteq># used_regions h'"
    unfolding sp(4) by (rule mset_subset_eq_add_left)
  moreover have "{unat a..<unat a + (length s + 1)} \<inter> free_bytes h' = {}" unfolding sp(5) by blast
  ultimately show ?thesis using sp(1-3) \<open>d = s @ [0]\<close> unfolding add.assoc by blast
qed

text \<open>
  C11: \<open>strtoul\<close> reads the digits it accepts as the number they write in the base (reduced to 32
  bits) and leaves the end pointer at the first character that is none of them. The digits it
  accepts are \<open>0\<close> to \<open>9\<close> and the upper-case letters up to the one that stands for the base itself;
  so a lower-case letter ends the number, and a digit equal to the base does not.
\<close>

theorem strtoul_value:
  assumes "set ds \<subseteq> set (accepted_digits base)" and "stops base c"
  shows "strtoul (map digit_char ds @ c # rest) base =
    Inr (of_nat (horner (unat base) 0 ds), length ds)"
  using strtoul_loop_digits [OF assms, of rest 0 0] by (simp add: strtoul_def)

text \<open>Two limits of \<open>strtoul\<close>: no lower-case digit, and one digit too many.\<close>

lemma strtoul_lower_case: "strtoul (cstr ''ff'') 16 = Inr (0, 0)"
  by code_simp

lemma strtoul_extra_digit: "strtoul (cstr ''1A'') 10 = Inr (20, 2)"
  by code_simp

lemma example_str_at: "str_at (bytes_of ''boot'') (cstr ''boot'')" "str_at (bytes_of ''oo'') (cstr ''oo'')"
  by (simp_all add: str_at_def bytes_of_def cstr_def)

theorem str_compare_witness:
  "(\<exists>r. strncmp (cstr ''boot'') (cstr ''oo'') 0 = Inr r \<and> r \<noteq> 0) \<and>
   (\<exists>r. strncasecmp (cstr ''boot'') (cstr ''oo'') 2 = Inr r \<and> r \<noteq> 0)"
proof -
  have "\<not> same_up_to_case (take (compared 2) (bytes_of ''boot'')) (take (compared 2) (bytes_of ''oo''))"
    by code_simp
  moreover have "take (compared 0) (bytes_of ''boot'') \<noteq> take (compared 0) (bytes_of ''oo'')"
    by (simp add: compared_def bytes_of_def)
  ultimately show ?thesis
    using str_compare [OF example_str_at, of 2] str_compare [OF example_str_at, of 0] by blast
qed

theorem strstr_first_witness: "\<exists>k. strstr (cstr ''boot'') (cstr ''oo'') = Inr (Some k)"
proof -
  have "occurs_at (bytes_of ''boot'') (bytes_of ''oo'') 1" by (simp add: occurs_at_def bytes_of_def)
  then have "\<exists>k. occurs_at (bytes_of ''boot'') (bytes_of ''oo'') k" by blast
  with strstr_first [OF example_str_at] show ?thesis by simp
qed

theorem memmove_overlap_witness: "memmove [1, 2, 3, 4] 1 0 3 = Inr [1, 1, 2, 3]"
  using memmove_overlap [of 1 3 "[1, 2, 3, 4]" 0] by (simp add: eval_nat_numeral)

theorem strdup_copies_witness:
  "\<exists>a h'. strdup (\<lambda>_. 0) example_heap (cstr ''boot'') = Inr (a, bytes_of ''boot'' @ [0], h') \<and> heap_inv h' \<and>
     {unat a..<unat a + length (bytes_of ''boot'') + 1} \<subseteq> free_bytes example_heap"
proof -
  have "isl (strdup (\<lambda>_. 0) example_heap (cstr ''boot'')) = False"
    unfolding example_heap_def by code_simp
  then obtain a d h' where e: "strdup (\<lambda>_. 0) example_heap (cstr ''boot'') = Inr (a, d, h')"
    by (cases "strdup (\<lambda>_. 0) example_heap (cstr ''boot'')") auto
  have "length (bytes_of ''boot'') < 2 ^ 32 - 1" by (simp add: bytes_of_def)
  from strdup_copies [OF example_heap(1) example_str_at(1) this e] e show ?thesis by blast
qed

theorem strtoul_value_witness:
  "strtoul (map digit_char [4, 2] @ of_char (CHR ''f'') # [7]) 10 = Inr (42, 2)"
proof -
  have "set [4, 2] \<subseteq> set (accepted_digits 10)" by code_simp
  moreover have "stops 10 (of_char (CHR ''f''))" by code_simp
  ultimately show ?thesis
    using strtoul_value [of "[4, 2]" 10 "of_char (CHR ''f'')" "[7]"] by (simp add: horner_def)
qed

end
