(* ===== verification/Machine.thy ===== *)
theory Machine
  imports Alloc_Facts
begin

text \<open>
  What the drivers share: the machine the loader runs on. The memory, the heap of the allocator
  and the interrupt flag are the loader's own state; the devices behind the ports and the BIOS are
  not code of the repository, so their state is a type parameter and their behaviour the
  parameter \<open>hw\<close> of the definitions that use them. \<^verbatim>\<open>inc/io/ioport.h\<close>, \<^verbatim>\<open>inc/bios/bios.h\<close>,
  \<^verbatim>\<open>src/bios/bios.c\<close>, \<^verbatim>\<open>src/intr/pic.c\<close> and the inline functions of
  \<^verbatim>\<open>inc/intr/interrupts.h\<close> are modelled here.
\<close>

unbundle bit_operations_syntax

section \<open>State\<close>

record 'd world =
  w_mem :: memory
  w_heap :: heap
  w_if :: bool
  w_dev :: 'd

text \<open>\<open>bios_call_t\<close>; the 16-bit and 8-bit names of the union are parts of the 32-bit registers.\<close>

record bios_regs =
  bc_int_n :: u8
  bc_eax :: u32
  bc_ebx :: u32
  bc_ecx :: u32
  bc_edx :: u32
  bc_esi :: u32
  bc_edi :: u32
  bc_eflags :: u32

definition set_word :: "u16 \<Rightarrow> u32 \<Rightarrow> u32" where
  "set_word v r = (r AND 0xFFFF0000) OR ucast v"

definition set_low :: "u8 \<Rightarrow> u32 \<Rightarrow> u32" where
  "set_low v r = (r AND 0xFFFFFF00) OR ucast v"

definition set_high :: "u8 \<Rightarrow> u32 \<Rightarrow> u32" where
  "set_high v r = (r AND 0xFFFF00FF) OR push_bit 8 (ucast v)"

definition EFLAGS_CF :: u32 where "EFLAGS_CF = push_bit 0 1"

text \<open>\<open>memset(&call, 0, sizeof(bios_call_t))\<close>.\<close>

definition bios_zero :: bios_regs where
  "bios_zero = \<lparr>bc_int_n = 0, bc_eax = 0, bc_ebx = 0, bc_ecx = 0, bc_edx = 0, bc_esi = 0,
     bc_edi = 0, bc_eflags = 0\<rparr>"

text \<open>
  The hardware: port input and output, \<open>bios_call_asm\<close> with the interrupt it raises, and whether the
  devices request an interrupt with a given number.
\<close>

record 'd hardware =
  hw_in :: "u16 \<Rightarrow> 'd \<Rightarrow> u8 \<times> 'd"
  hw_out :: "u16 \<Rightarrow> u8 \<Rightarrow> 'd \<Rightarrow> 'd"
  hw_bios :: "bios_regs \<Rightarrow> memory \<Rightarrow> 'd \<Rightarrow> bios_regs \<times> memory \<times> 'd"
  hw_irq :: "u8 \<Rightarrow> 'd \<Rightarrow> bool"

section \<open>Ports and interrupts\<close>

definition inb :: "'d hardware \<Rightarrow> u16 \<Rightarrow> 'd world \<Rightarrow> u8 \<times> 'd world" where
  "inb hw p w = (case hw_in hw p (w_dev w) of (v, d) \<Rightarrow> (v, w\<lparr>w_dev := d\<rparr>))"

definition outb :: "'d hardware \<Rightarrow> u16 \<Rightarrow> u8 \<Rightarrow> 'd world \<Rightarrow> 'd world" where
  "outb hw p v w = w\<lparr>w_dev := hw_out hw p v (w_dev w)\<rparr>"

definition interrupts_enable :: "'d world \<Rightarrow> 'd world" where
  "interrupts_enable w = w\<lparr>w_if := True\<rparr>"

definition interrupts_disable :: "'d world \<Rightarrow> 'd world" where
  "interrupts_disable w = w\<lparr>w_if := False\<rparr>"

definition interrupts_enabled :: "'d world \<Rightarrow> bool" where
  "interrupts_enabled w = w_if w"

section \<open>The interrupt controllers\<close>

definition PIC_OFFSET_MASTER :: u8 where "PIC_OFFSET_MASTER = 32"
definition PIC_OFFSET_SLAVE :: u8 where "PIC_OFFSET_SLAVE = PIC_OFFSET_MASTER + 8"
definition PIC_BIOS_OFFSET_MASTER :: u8 where "PIC_BIOS_OFFSET_MASTER = 0x08"
definition PIC_BIOS_OFFSET_SLAVE :: u8 where "PIC_BIOS_OFFSET_SLAVE = 0x70"
definition PIC1_COMMAND :: u16 where "PIC1_COMMAND = 0x20"
definition PIC1_DATA :: u16 where "PIC1_DATA = 0x20 + 1"
definition PIC2_COMMAND :: u16 where "PIC2_COMMAND = 0xa0"
definition PIC2_DATA :: u16 where "PIC2_DATA = 0xa0 + 1"
definition PIC_ICW1_IC4 :: u8 where "PIC_ICW1_IC4 = push_bit 0 1"
definition PIC_ICW1_1 :: u8 where "PIC_ICW1_1 = push_bit 4 1"
definition PIC_ICW4_uPM :: u8 where "PIC_ICW4_uPM = push_bit 0 1"
definition PIC_OCW2_EOI :: u8 where "PIC_OCW2_EOI = push_bit 5 1"

definition pic_remap :: "'d hardware \<Rightarrow> u8 \<Rightarrow> u8 \<Rightarrow> 'd world \<Rightarrow> 'd world" where
  "pic_remap hw master slave w =
     (let (m_mask, w) = inb hw PIC1_DATA w;
          (s_mask, w) = inb hw PIC2_DATA w;
          w = outb hw PIC1_COMMAND (PIC_ICW1_IC4 OR PIC_ICW1_1) w;
          w = outb hw PIC2_COMMAND (PIC_ICW1_IC4 OR PIC_ICW1_1) w;
          w = outb hw PIC1_DATA master w;
          w = outb hw PIC2_DATA slave w;
          w = outb hw PIC1_DATA (push_bit 2 1) w;
          w = outb hw PIC2_DATA 2 w;
          w = outb hw PIC1_DATA PIC_ICW4_uPM w;
          w = outb hw PIC2_DATA PIC_ICW4_uPM w;
          w = outb hw PIC1_DATA m_mask w
      in outb hw PIC2_DATA s_mask w)"

definition pic_eoi :: "'d hardware \<Rightarrow> u8 \<Rightarrow> 'd world \<Rightarrow> 'd world" where
  "pic_eoi hw irq_id w =
     (let w = (if irq_id \<ge> 8 then outb hw PIC2_COMMAND PIC_OCW2_EOI w else w)
      in outb hw PIC1_COMMAND PIC_OCW2_EOI w)"

definition pic_mask :: "'d hardware \<Rightarrow> u8 \<Rightarrow> 'd world \<Rightarrow> int \<times> 'd world" where
  "pic_mask hw irq_id w =
     (if irq_id \<ge> 16 then (-1, w)
      else
        let (port, irq_id) = (if irq_id \<ge> 8 then (PIC2_DATA, irq_id - 8) else (PIC1_DATA, irq_id));
            (v, w) = inb hw port w
        in (0, outb hw port (v OR push_bit (unat irq_id) 1) w))"

definition pic_unmask :: "'d hardware \<Rightarrow> u8 \<Rightarrow> 'd world \<Rightarrow> int \<times> 'd world" where
  "pic_unmask hw irq_id w =
     (if irq_id \<ge> 16 then (-1, w)
      else
        let (port, irq_id) = (if irq_id \<ge> 8 then (PIC2_DATA, irq_id - 8) else (PIC1_DATA, irq_id));
            (v, w) = inb hw port w
        in (0, outb hw port (v AND NOT (push_bit (unat irq_id) 1)) w))"

section \<open>BIOS calls\<close>

definition bios_call_asm :: "'d hardware \<Rightarrow> bios_regs \<Rightarrow> 'd world \<Rightarrow> bios_regs \<times> 'd world" where
  "bios_call_asm hw c w =
     (case hw_bios hw c (w_mem w) (w_dev w) of
        (c, m, d) \<Rightarrow> (c, w\<lparr>w_mem := m, w_dev := d\<rparr>))"

definition bios_call :: "'d hardware \<Rightarrow> bios_regs \<Rightarrow> 'd world \<Rightarrow> bios_regs \<times> 'd world" where
  "bios_call hw c w =
     (let int_en = interrupts_enabled w;
          w = interrupts_disable w;
          w = pic_remap hw PIC_BIOS_OFFSET_MASTER PIC_BIOS_OFFSET_SLAVE w;
          (c, w) = bios_call_asm hw c w;
          w = pic_remap hw PIC_OFFSET_MASTER PIC_OFFSET_SLAVE w
      in (c, if int_en then interrupts_enable w else w))"

end
