(* ===== verification/Storage_Bios.thy ===== *)
theory Storage_Bios
  imports Machine "HOL-Library.Signed_Division"
begin

text \<open>
  The floppy driver over BIOS interrupt 0x13: \<^verbatim>\<open>src/storage/bios.c\<close>, \<^verbatim>\<open>inc/storage/bios.h\<close> and
  \<^verbatim>\<open>inc/storage/storage.h\<close>. The locale \<open>storage_device\<close> is the contract the file system relies on
  (what \<open>storage->read\<close> promises), \<open>bios_floppy\<close> derives it for the driver from the documented
  behaviour of the BIOS, and the interpretation at the end supplies a floppy controller that
  may fail any read.
\<close>

unbundle bit_operations_syntax

section \<open>The driver\<close>

record storage_bios_data =
  bd_bios_id :: u8
  bd_sectors_per_track :: u16
  bd_n_heads :: u16

text \<open>\<open>storage_hand_t\<close>; \<open>read\<close> is always \<open>bios_read\<close> below, applied to \<open>data\<close>.\<close>

record storage_hand =
  st_size :: u32
  st_data :: "storage_bios_data option"

definition bios_data0 :: storage_bios_data where
  "bios_data0 = \<lparr>bd_bios_id = 0, bd_sectors_per_track = 0, bd_n_heads = 0\<rparr>"

definition storage_bios_init :: "storage_bios_data \<Rightarrow> u8 \<Rightarrow> int \<times> storage_bios_data \<times> storage_hand" where
  "storage_bios_init bdata bios_dev =
     (let st = \<lparr>st_size = 0, st_data = None\<rparr>
      in if bios_dev < 0x80 then
           let bdata = bdata\<lparr>bd_sectors_per_track := 18, bd_n_heads := 2\<rparr>
           in (0, bdata, st\<lparr>st_size := 2880 * 512, st_data := Some bdata\<rparr>)
         else (-1, bdata, st))"

definition floppy_reset :: "'d hardware \<Rightarrow> u8 \<Rightarrow> 'd world \<Rightarrow> 'd world" where
  "floppy_reset hw bios_id w =
     (let call = bios_zero\<lparr>bc_int_n := 0x13\<rparr>;
          call = call\<lparr>bc_eax := set_word 0x00 (bc_eax call)\<rparr>;
          call = call\<lparr>bc_edx := set_low bios_id (bc_edx call)\<rparr>
      in snd (bios_call hw call w))"

text \<open>
  Track, head and sector of a byte offset, at the widths of the code; dividing by a zero geometry
  traps.
\<close>

definition chs :: "storage_bios_data \<Rightarrow> u32 \<Rightarrow> (u16 \<times> u8 \<times> u8) res" where
  "chs bdata offset =
     (let off = sint offset sdiv 512; spt = uint (bd_sectors_per_track bdata);
          heads = uint (bd_n_heads bdata)
      in if spt = 0 \<or> heads = 0 then Inl Fault
         else
           let track = (of_int (off sdiv spt) :: u16);
               sector = (of_int (off smod spt + 1) :: u8);
               head = (of_int (uint track smod heads) :: u8);
               track = (of_int (uint track sdiv heads) :: u16)
           in Inr (track, head, sector))"

text \<open>The registers of a read of one sector to \<open>buff\<close>.\<close>

definition read_regs ::
  "storage_bios_data \<Rightarrow> u32 \<Rightarrow> u16 \<times> u8 \<times> u8 \<Rightarrow> bios_regs \<Rightarrow> bios_regs" where
  "read_regs bdata buff a call =
     (case a of (track, head, sector) \<Rightarrow>
        let call = call\<lparr>bc_int_n := 0x13\<rparr>;
            call = call\<lparr>bc_eax := set_word 0x0201 (bc_eax call)\<rparr>;
            call = call\<lparr>bc_ebx := set_word (ucast buff) (bc_ebx call)\<rparr>;
            call = call\<lparr>bc_ecx := set_low sector (bc_ecx call)\<rparr>;
            call = call\<lparr>bc_ecx := set_high (ucast track) (bc_ecx call)\<rparr>;
            call = call\<lparr>bc_edx := set_low (bd_bios_id bdata) (bc_edx call)\<rparr>
        in call\<lparr>bc_edx := set_high head (bc_edx call)\<rparr>)"

text \<open>
  The loop \<open>while(--attempts)\<close>, \<open>n\<close> tries left; the result is whether one succeeded. The
  registers of a failed call are reused by the next.
\<close>

fun read_attempts ::
  "'d hardware \<Rightarrow> storage_bios_data \<Rightarrow> u32 \<Rightarrow> u16 \<times> u8 \<times> u8 \<Rightarrow> nat \<Rightarrow> bios_regs \<Rightarrow> 'd world
     \<Rightarrow> bool \<times> 'd world" where
  "read_attempts hw bdata buff a 0 call w = (False, w)"
| "read_attempts hw bdata buff a (Suc n) call w =
     (case bios_call hw (read_regs bdata buff a call) w of
        (call, w) \<Rightarrow>
          if bc_eflags call AND EFLAGS_CF = 0 then (True, w)
          else read_attempts hw bdata buff a n call (floppy_reset hw (bd_bios_id bdata) w))"

definition floppy_attempts :: nat where "floppy_attempts = 4"

definition floppy_read_sector ::
  "'d hardware \<Rightarrow> storage_bios_data \<Rightarrow> u32 \<Rightarrow> u32 \<Rightarrow> 'd world \<Rightarrow> (int \<times> 'd world) res" where
  "floppy_read_sector hw bdata buff offset w =
     (if buff > 0xffff then Inl Panic
      else bnd (chs bdata offset) (\<lambda>a.
        let (ok, w) = read_attempts hw bdata buff a (floppy_attempts - 1) bios_zero w
        in Inr (if ok then 0 else -1, w)))"

text \<open>The loop of \<open>_read\<close>: \<open>n\<close> sectors are left and \<open>pos\<close> bytes are done.\<close>

fun read_sectors ::
  "'d hardware \<Rightarrow> storage_bios_data \<Rightarrow> u32 \<Rightarrow> u32 \<Rightarrow> nat \<Rightarrow> u32 \<Rightarrow> 'd world \<Rightarrow> (u32 \<times> 'd world) res" where
  "read_sectors hw bdata buff offset 0 pos w = Inr (pos, w)"
| "read_sectors hw bdata buff offset (Suc n) pos w =
     bnd (floppy_read_sector hw bdata (buff + pos) (offset + pos) w)
       (\<lambda>(r, w). if r \<noteq> 0 then Inr (-1, w)
                 else read_sectors hw bdata buff offset n (pos + 512) w)"

definition bios_read ::
  "'d hardware \<Rightarrow> storage_bios_data \<Rightarrow> u32 \<Rightarrow> u32 \<Rightarrow> u32 \<Rightarrow> 'd world \<Rightarrow> (u32 \<times> 'd world) res" where
  "bios_read hw bdata buff offset sz w =
     (if sint offset smod 512 \<noteq> 0 \<or> sz mod 512 \<noteq> 0 then Inl Panic
      else if offset <s 0 then Inl Panic
      else if bd_bios_id bdata < 0x80 then
        read_sectors hw bdata buff offset (unat sz div 512) 0 w
      else Inr (-1, w))"

section \<open>The contract of a storage device\<close>

text \<open>
  A request the callers may make: whole sectors inside the device, to a buffer below 64 KiB.
\<close>

definition request_ok :: "nat \<Rightarrow> u32 \<Rightarrow> u32 \<Rightarrow> u32 \<Rightarrow> bool" where
  "request_ok cap a off sz \<longleftrightarrow> unat off mod 512 = 0 \<and> unat sz mod 512 = 0 \<and>
     unat off + unat sz \<le> cap \<and> unat a + unat sz \<le> 0x10000"

text \<open>
  \<open>img\<close> reads the contents of the medium: every request ends; it changes nothing of the memory
  outside the buffer; and either the buffer then holds the bytes of the medium or -1 is returned.
\<close>

locale storage_device =
  fixes rd :: "u32 \<Rightarrow> u32 \<Rightarrow> u32 \<Rightarrow> 'd world \<Rightarrow> (u32 \<times> 'd world) res"
    and img :: "'d \<Rightarrow> nat \<Rightarrow> u8"
    and cap :: nat
  assumes cap_bound: "cap + 0x10000 \<le> 2 ^ 31"
    and rd_total: "request_ok cap a off sz \<Longrightarrow> \<exists>r w'. rd a off sz w = Inr (r, w')"
    and rd_frame: "request_ok cap a off sz \<Longrightarrow> rd a off sz w = Inr (r, w') \<Longrightarrow>
      img (w_dev w') = img (w_dev w) \<and> w_heap w' = w_heap w \<and> w_if w' = w_if w \<and>
      (\<forall>x. x \<notin> block a (unat sz) \<longrightarrow> w_mem w' x = w_mem w x)"
    and rd_result: "request_ok cap a off sz \<Longrightarrow> rd a off sz w = Inr (r, w') \<Longrightarrow>
      r = -1 \<or> r = sz \<and>
        mem_get (w_mem w') a (unat sz) = map (img (w_dev w)) [unat off..<unat off + unat sz]"
begin

text \<open>A failed read is told from a good one by its result.\<close>

lemma rd_sz_data:
  assumes "request_ok cap a off sz" and "rd a off sz w = Inr (sz, w')"
  shows "mem_get (w_mem w') a (unat sz) = map (img (w_dev w)) [unat off..<unat off + unat sz]"
proof -
  have "sz \<noteq> -1"
  proof
    assume "sz = -1"
    then have "unat sz = 4294967295"
      by (simp add: unsigned_minus_1_eq_mask mask_eq_exp_minus_1)
    with assms(1) show False by (simp add: request_ok_def)
  qed
  with rd_result [OF assms] show ?thesis by blast
qed

end

text \<open>A device whose reads succeed as long as its state is \<open>good\<close>.\<close>

locale reliable_device = storage_device rd img cap
  for rd :: "u32 \<Rightarrow> u32 \<Rightarrow> u32 \<Rightarrow> 'd world \<Rightarrow> (u32 \<times> 'd world) res"
    and img :: "'d \<Rightarrow> nat \<Rightarrow> u8" and cap :: nat +
  fixes good :: "'d \<Rightarrow> bool"
  assumes rd_good: "good (w_dev w) \<Longrightarrow> request_ok cap a off sz \<Longrightarrow>
    \<exists>w'. rd a off sz w = Inr (sz, w') \<and> good (w_dev w')"
begin

text \<open>Two reads in a row: the second sees the medium the first saw.\<close>

lemma read_twice:
  assumes "good (w_dev w)" and "request_ok cap a off sz" and "request_ok cap b off sz"
  shows "\<exists>w1 w2. rd a off sz w = Inr (sz, w1) \<and> rd b off sz w1 = Inr (sz, w2) \<and>
    mem_get (w_mem w2) b (unat sz) = map (img (w_dev w)) [unat off..<unat off + unat sz]"
proof -
  obtain w1 where w1: "rd a off sz w = Inr (sz, w1)" "good (w_dev w1)"
    using rd_good [OF assms(1,2)] by blast
  obtain w2 where w2: "rd b off sz w1 = Inr (sz, w2)" using rd_good [OF w1(2) assms(3)] by blast
  from rd_sz_data [OF assms(3) w2] rd_frame [OF assms(2) w1(1)] w1 w2 show ?thesis by auto
qed

end

section \<open>The BIOS disk service\<close>

text \<open>
  The behaviour of interrupt 0x13 the driver relies on, for a standard 1.44 MB floppy (80 tracks, 2
  heads, 18 sectors): function 2 with the carry flag clear has put the addressed sector at
  \<open>BX\<close>; with carry set it may have written there. Neither it nor the reset (function 0) nor
  the programming of the interrupt controllers changes the medium.
\<close>

definition sector_bytes :: "(nat \<Rightarrow> u8) \<Rightarrow> nat \<Rightarrow> u8 list" where
  "sector_bytes f lba = map f [lba * 512..<lba * 512 + 512]"

definition reg_al :: "u32 \<Rightarrow> u8" where "reg_al r = ucast r"
definition reg_ah :: "u32 \<Rightarrow> u8" where "reg_ah r = ucast (drop_bit 8 r)"

definition int13_read_ok :: "'d hardware \<Rightarrow> ('d \<Rightarrow> nat \<Rightarrow> u8) \<Rightarrow> bool" where
  "int13_read_ok hw img \<longleftrightarrow> (\<forall>c m d c' m' d' lba.
     bc_int_n c = 0x13 \<and> (ucast (bc_eax c) :: u16) = 0x0201 \<and>
     unat (ucast (bc_ebx c) :: u16) + 512 \<le> 0x10000 \<and>
     unat (reg_ah (bc_ecx c)) < 80 \<and> unat (reg_ah (bc_edx c)) < 2 \<and>
     1 \<le> unat (reg_al (bc_ecx c)) \<and> unat (reg_al (bc_ecx c)) \<le> 18 \<and> reg_al (bc_edx c) = 0 \<and>
     lba = (unat (reg_ah (bc_ecx c)) * 2 + unat (reg_ah (bc_edx c))) * 18 +
       unat (reg_al (bc_ecx c)) - 1 \<and>
     hw_bios hw c m d = (c', m', d') \<longrightarrow>
     img d' = img d \<and>
     (\<forall>x. x \<notin> block (ucast (ucast (bc_ebx c) :: u16)) 512 \<longrightarrow> m' x = m x) \<and>
     (bc_eflags c' AND EFLAGS_CF = 0 \<longrightarrow>
        mem_get m' (ucast (ucast (bc_ebx c) :: u16)) 512 = sector_bytes (img d) lba))"

definition int13_reset_ok :: "'d hardware \<Rightarrow> ('d \<Rightarrow> nat \<Rightarrow> u8) \<Rightarrow> bool" where
  "int13_reset_ok hw img \<longleftrightarrow> (\<forall>c m d c' m' d'.
     bc_int_n c = 0x13 \<and> (ucast (bc_eax c) :: u16) = 0 \<and> hw_bios hw c m d = (c', m', d') \<longrightarrow>
     img d' = img d \<and> m' = m)"

definition pic_ports :: "u16 set" where
  "pic_ports = {PIC1_COMMAND, PIC1_DATA, PIC2_COMMAND, PIC2_DATA}"

definition pic_keeps :: "'d hardware \<Rightarrow> ('d \<Rightarrow> 'i) \<Rightarrow> bool" where
  "pic_keeps hw img \<longleftrightarrow> (\<forall>p \<in> pic_ports. \<forall>d.
     (\<forall>v. img (hw_out hw p v d) = img d) \<and> img (snd (hw_in hw p d)) = img d)"

definition int13_floppy :: "'d hardware \<Rightarrow> ('d \<Rightarrow> nat \<Rightarrow> u8) \<Rightarrow> bool" where
  "int13_floppy hw img \<longleftrightarrow> int13_read_ok hw img \<and> int13_reset_ok hw img \<and> pic_keeps hw img"

text \<open>The data of a floppy after \<open>storage_bios_init\<close>.\<close>

definition floppy_data :: storage_bios_data where
  "floppy_data = fst (snd (storage_bios_init bios_data0 0))"

lemma floppy_data:
  "bd_bios_id floppy_data = 0" "bd_sectors_per_track floppy_data = 18" "bd_n_heads floppy_data = 2"
  by (simp_all add: floppy_data_def storage_bios_init_def bios_data0_def Let_def)

definition floppy_cap :: nat where "floppy_cap = 2880 * 512"

section \<open>Facts about the driver\<close>

lemma int_sdiv_nonneg: "0 \<le> a \<Longrightarrow> 0 < b \<Longrightarrow> (a :: int) sdiv b = a div b"
  by (simp add: signed_divide_int_def sgn_if)

lemma int_smod_nonneg: "0 \<le> a \<Longrightarrow> 0 < b \<Longrightarrow> (a :: int) smod b = a mod b"
  by (cases "a = 0") (simp_all add: signed_modulo_int_def)

lemma sint_small:
  assumes "unat (w :: u32) < 2 ^ 31"
  shows "sint w = int (unat w)"
proof -
  have "int (unat w) < int (2 ^ 31)" using assms by (simp only: of_nat_less_iff)
  then have "uint w < 2 ^ 31" by simp
  moreover have "- (2 ^ 31) \<le> uint w" by (rule order_trans [of _ 0]) simp_all
  ultimately show ?thesis by (simp add: sint_uint signed_take_bit_int_eq_self)
qed

text \<open>Narrowing a quotient that fits keeps its value.\<close>

lemma uint_of_nat_small: "n < 2 ^ LENGTH('w) \<Longrightarrow> uint (of_nat n :: 'w::len word) = int n"
  by (simp add: unsigned_of_nat take_bit_nat_eq_self)

text \<open>The track, head and sector of a sector of a standard floppy, and back.\<close>

lemma chs_sector:
  assumes "sint offset sdiv 512 = int n" and n: "n < 2880"
  shows "chs floppy_data offset = Inr (of_nat (n div 36), of_nat (n div 18 mod 2), of_nat (n mod 18 + 1))"
proof -
  have d: "int n sdiv 18 = int (n div 18)" "int n smod 18 + 1 = int (n mod 18 + 1)"
    by (simp_all add: int_sdiv_nonneg int_smod_nonneg zdiv_int zmod_int)
  have u: "uint (of_nat (n div 18) :: u16) = int (n div 18)"
    using n by (intro uint_of_nat_small) simp
  have e: "int (n div 18) sdiv 2 = int (n div 36)" "int (n div 18) smod 2 = int (n div 18 mod 2)"
    by (simp_all add: int_sdiv_nonneg int_smod_nonneg zdiv_int zmod_int zdiv_zmult2_eq)
  have f: "uint (18 :: u16) = 18" "uint (2 :: u16) = 2" by simp_all
  show ?thesis
    unfolding chs_def Let_def assms floppy_data f d of_int_of_nat_eq u e by simp
qed

lemma chs_floppy:
  assumes "unat offset < floppy_cap"
  shows "chs floppy_data offset = Inr (of_nat (unat offset div 512 div 36),
      of_nat (unat offset div 512 div 18 mod 2), of_nat (unat offset div 512 mod 18 + 1))"
proof (rule chs_sector)
  show "sint offset sdiv 512 = int (unat offset div 512)"
    using assms by (subst sint_small) (auto simp: floppy_cap_def int_sdiv_nonneg zdiv_int)
  show "unat offset div 512 < 2880" using assms by (simp add: floppy_cap_def less_mult_imp_div_less)
qed

text \<open>Port accesses and the remapping of the interrupt controllers touch only the device.\<close>

lemma inb_frame [simp]:
  "w_mem (snd (inb hw p w)) = w_mem w" "w_heap (snd (inb hw p w)) = w_heap w"
  "w_if (snd (inb hw p w)) = w_if w"
  by (simp_all add: inb_def split: prod.splits)

lemma outb_frame [simp]:
  "w_mem (outb hw p v w) = w_mem w" "w_heap (outb hw p v w) = w_heap w"
  "w_if (outb hw p v w) = w_if w"
  by (simp_all add: outb_def)

lemma port_img:
  assumes "pic_keeps hw img" and "p \<in> pic_ports"
  shows "img (w_dev (snd (inb hw p w))) = img (w_dev w)"
    and "img (w_dev (outb hw p v w)) = img (w_dev w)"
  using assms by (auto simp: pic_keeps_def inb_def outb_def split: prod.splits) (metis snd_conv)

lemma pic_remap_frame [simp]:
  "w_mem (pic_remap hw m s w) = w_mem w" "w_heap (pic_remap hw m s w) = w_heap w"
  "w_if (pic_remap hw m s w) = w_if w"
  by (simp_all add: pic_remap_def Let_def case_prod_beta)

lemma pic_remap_img:
  assumes "pic_keeps hw img"
  shows "img (w_dev (pic_remap hw m s w)) = img (w_dev w)"
  by (simp add: pic_remap_def Let_def case_prod_beta port_img [OF assms] pic_ports_def)

lemma bios_call_cases:
  assumes "pic_keeps hw img" and "bios_call hw c w = (c', w')"
  obtains d d' where "hw_bios hw c (w_mem w) d = (c', w_mem w', d')" "img d = img (w_dev w)"
    "img (w_dev w') = img d'" "w_heap w' = w_heap w" "w_if w' = w_if w"
proof -
  let ?d = "w_dev (pic_remap hw PIC_BIOS_OFFSET_MASTER PIC_BIOS_OFFSET_SLAVE (interrupts_disable w))"
  obtain m' d' where h: "hw_bios hw c (w_mem w) ?d = (c', m', d')"
    using assms(2)
    by (auto simp: bios_call_def bios_call_asm_def Let_def interrupts_disable_def split: prod.splits)
  show thesis
    by (rule that [of ?d d'])
      (use h assms in \<open>auto simp: bios_call_def bios_call_asm_def Let_def pic_remap_img
        interrupts_disable_def interrupts_enable_def interrupts_enabled_def
        split: prod.splits if_splits\<close>)
qed

text \<open>The registers of a read, as the BIOS sees them.\<close>

lemma reg_masks:
  "(0xFFFF0000 :: u32) = NOT (mask 16)" "(0xFFFFFF00 :: u32) = NOT (mask 8)"
  "(0xFFFF00FF :: u32) = NOT (push_bit 8 (mask 8))"
  by (simp_all add: mask_eq_exp_minus_1 push_bit_eq_mult)

lemma reg_set [simp]:
  "(ucast (set_word v r) :: u16) = v" "reg_al (set_low b r) = b" "reg_ah (set_high b r) = b"
  "reg_al (set_high b r) = reg_al r" "reg_ah (set_low b r) = reg_ah r"
  by (rule bit_word_eqI, auto simp: set_word_def set_low_def set_high_def reg_al_def reg_ah_def
      reg_masks bit_simps dest: bit_imp_le_length)+

lemma read_regs_props [simp]:
  "bc_int_n (read_regs bd b (t, h, sc) c) = 0x13"
  "(ucast (bc_eax (read_regs bd b (t, h, sc) c)) :: u16) = 0x0201"
  "(ucast (bc_ebx (read_regs bd b (t, h, sc) c)) :: u16) = ucast b"
  "reg_al (bc_ecx (read_regs bd b (t, h, sc) c)) = sc"
  "reg_ah (bc_ecx (read_regs bd b (t, h, sc) c)) = ucast t"
  "reg_al (bc_edx (read_regs bd b (t, h, sc) c)) = bd_bios_id bd"
  "reg_ah (bc_edx (read_regs bd b (t, h, sc) c)) = h"
  by (simp_all add: read_regs_def Let_def)

lemma int13_readD:
  assumes "int13_read_ok hw img" and "hw_bios hw c m d = (c', m', d')"
    and "bc_int_n c = 0x13" and "(ucast (bc_eax c) :: u16) = 0x0201"
    and "(ucast (bc_ebx c) :: u16) = bx" and "unat bx + 512 \<le> 0x10000"
    and "unat (reg_ah (bc_ecx c)) = cyl" and "cyl < 80"
    and "unat (reg_ah (bc_edx c)) = hh" and "hh < 2"
    and "unat (reg_al (bc_ecx c)) = sec" and "1 \<le> sec" and "sec \<le> 18"
    and "reg_al (bc_edx c) = 0" and "lba = (cyl * 2 + hh) * 18 + sec - 1"
  shows "img d' = img d" and "x \<notin> block (ucast bx) 512 \<Longrightarrow> m' x = m x"
    and "bc_eflags c' AND EFLAGS_CF = 0 \<Longrightarrow> mem_get m' (ucast bx) 512 = sector_bytes (img d) lba"
proof -
  from assms(1) have "bc_int_n c = 0x13 \<and> (ucast (bc_eax c) :: u16) = 0x0201 \<and>
     unat (ucast (bc_ebx c) :: u16) + 512 \<le> 0x10000 \<and>
     unat (reg_ah (bc_ecx c)) < 80 \<and> unat (reg_ah (bc_edx c)) < 2 \<and>
     1 \<le> unat (reg_al (bc_ecx c)) \<and> unat (reg_al (bc_ecx c)) \<le> 18 \<and> reg_al (bc_edx c) = 0 \<and>
     lba = (unat (reg_ah (bc_ecx c)) * 2 + unat (reg_ah (bc_edx c))) * 18 +
       unat (reg_al (bc_ecx c)) - 1 \<and>
     hw_bios hw c m d = (c', m', d') \<longrightarrow>
     img d' = img d \<and>
     (\<forall>x. x \<notin> block (ucast (ucast (bc_ebx c) :: u16)) 512 \<longrightarrow> m' x = m x) \<and>
     (bc_eflags c' AND EFLAGS_CF = 0 \<longrightarrow>
        mem_get m' (ucast (ucast (bc_ebx c) :: u16)) 512 = sector_bytes (img d) lba)"
    unfolding int13_read_ok_def by blast
  then have "img d' = img d \<and> (\<forall>x. x \<notin> block (ucast bx) 512 \<longrightarrow> m' x = m x) \<and>
     (bc_eflags c' AND EFLAGS_CF = 0 \<longrightarrow> mem_get m' (ucast bx) 512 = sector_bytes (img d) lba)"
    using assms(2-) by (simp only: simp_thms) blast
  then show "img d' = img d" "x \<notin> block (ucast bx) 512 \<Longrightarrow> m' x = m x"
    "bc_eflags c' AND EFLAGS_CF = 0 \<Longrightarrow> mem_get m' (ucast bx) 512 = sector_bytes (img d) lba"
    by blast+
qed

lemma int13_resetD:
  assumes "int13_reset_ok hw img" and "hw_bios hw c m d = (c', m', d')"
    and "bc_int_n c = 0x13" and "(ucast (bc_eax c) :: u16) = 0"
  shows "img d' = img d \<and> m' = m"
  using assms unfolding int13_reset_ok_def by blast

text \<open>An address below 64 KiB is its low half.\<close>

lemma ucast_low_half:
  assumes "unat (a :: u32) < 0x10000"
  shows "unat (ucast a :: u16) = unat a" and "(ucast (ucast a :: u16) :: u32) = a"
proof -
  show u: "unat (ucast a :: u16) = unat a"
    using assms by (simp add: unsigned_ucast_eq unsigned_take_bit_eq take_bit_nat_eq_self)
  show "(ucast (ucast a :: u16) :: u32) = a"
    by (rule word_unat_eq_iff [THEN iffD2])
      (use u assms in \<open>simp add: unsigned_ucast_eq unsigned_take_bit_eq take_bit_nat_eq_self\<close>)
qed

lemma floppy_reset_frame:
  assumes "int13_floppy hw img"
  shows "img (w_dev (floppy_reset hw drv w)) = img (w_dev w)" "w_mem (floppy_reset hw drv w) = w_mem w"
    "w_heap (floppy_reset hw drv w) = w_heap w" "w_if (floppy_reset hw drv w) = w_if w"
proof -
  let ?c = "bios_zero\<lparr>bc_int_n := 0x13, bc_eax := set_word 0 0, bc_edx := set_low drv 0\<rparr>"
  have pk: "pic_keeps hw img" using assms by (simp add: int13_floppy_def)
  obtain c' w' where b: "bios_call hw ?c w = (c', w')" by fastforce
  obtain d d' where h: "hw_bios hw ?c (w_mem w) d = (c', w_mem w', d')" "img d = img (w_dev w)"
    "img (w_dev w') = img d'" "w_heap w' = w_heap w" "w_if w' = w_if w"
    by (rule bios_call_cases [OF pk b])
  have "img d' = img d \<and> w_mem w' = w_mem w"
    by (rule int13_resetD [OF _ h(1)]) (use assms in \<open>simp_all add: int13_floppy_def bios_zero_def\<close>)
  moreover have "floppy_reset hw drv w = w'"
    using b by (simp add: floppy_reset_def Let_def bios_zero_def)
  ultimately show "img (w_dev (floppy_reset hw drv w)) = img (w_dev w)"
    "w_mem (floppy_reset hw drv w) = w_mem w"
    "w_heap (floppy_reset hw drv w) = w_heap w" "w_if (floppy_reset hw drv w) = w_if w"
    using h by simp_all
qed

text \<open>What one call of the driver keeps, whether or not it succeeds.\<close>

definition keeps :: "('d \<Rightarrow> nat \<Rightarrow> u8) \<Rightarrow> u32 \<Rightarrow> nat \<Rightarrow> 'd world \<Rightarrow> 'd world \<Rightarrow> bool" where
  "keeps img a n w w' \<longleftrightarrow> img (w_dev w') = img (w_dev w) \<and> w_heap w' = w_heap w \<and>
     w_if w' = w_if w \<and> (\<forall>x. x \<notin> block a n \<longrightarrow> w_mem w' x = w_mem w x)"

lemma keeps_trans: "keeps img a n w w' \<Longrightarrow> keeps img a n w' w'' \<Longrightarrow> keeps img a n w w''"
  by (simp add: keeps_def)

lemma keeps_refl [simp]: "keeps img a n w w"
  by (simp add: keeps_def)

lemma chs_bounds:
  assumes "n < 2880"
  shows "unat (ucast (of_nat (n div 36) :: u16) :: u8) = n div 36" "n div 36 < 80"
    "unat (of_nat (n div 18 mod 2) :: u8) = n div 18 mod 2"
    "unat (of_nat (n mod 18 + 1) :: u8) = n mod 18 + 1"
    "(n div 36 * 2 + n div 18 mod 2) * 18 + (n mod 18 + 1) - 1 = n"
proof -
  show b: "n div 36 < 80" using assms by simp
  have "n mod 18 < 18" by simp
  then show "unat (of_nat (n mod 18 + 1) :: u8) = n mod 18 + 1"
    by (simp add: unsigned_of_nat take_bit_nat_eq_self del: of_nat_Suc)
  show "unat (of_nat (n div 18 mod 2) :: u8) = n div 18 mod 2"
    by (simp add: unsigned_of_nat take_bit_nat_eq_self)
  show "unat (ucast (of_nat (n div 36) :: u16) :: u8) = n div 36"
    using b by (simp add: unsigned_ucast_eq unsigned_of_nat take_bit_nat_eq_self)
  have "n div 36 = n div 18 div 2" by (simp add: div_mult2_eq [symmetric])
  then have "n div 36 * 2 + n div 18 mod 2 = n div 18" by (metis div_mult_mod_eq)
  then show "(n div 36 * 2 + n div 18 mod 2) * 18 + (n mod 18 + 1) - 1 = n" by simp
qed

lemma read_attempts_spec:
  assumes hw: "int13_floppy hw img" and n: "n < 2880" and b: "unat buff + 512 \<le> 0x10000"
    and r: "read_attempts hw floppy_data buff (of_nat (n div 36), of_nat (n div 18 mod 2),
      of_nat (n mod 18 + 1)) k call w = (ok, w')"
  shows "keeps img buff 512 w w' \<and>
    (ok \<longrightarrow> mem_get (w_mem w') buff 512 = sector_bytes (img (w_dev w)) n)"
  using r
proof (induction k arbitrary: call w)
  case 0
  then show ?case by simp
next
  case (Suc k)
  let ?a = "(of_nat (n div 36) :: u16, of_nat (n div 18 mod 2) :: u8, of_nat (n mod 18 + 1) :: u8)"
  let ?c = "read_regs floppy_data buff ?a call"
  have pk: "pic_keeps hw img" using hw by (simp add: int13_floppy_def)
  obtain c1 w1 where c: "bios_call hw ?c w = (c1, w1)" by fastforce
  obtain d d' where h: "hw_bios hw ?c (w_mem w) d = (c1, w_mem w1, d')" "img d = img (w_dev w)"
    "img (w_dev w1) = img d'" "w_heap w1 = w_heap w" "w_if w1 = w_if w"
    by (rule bios_call_cases [OF pk c])
  note u = ucast_low_half [of buff]
  have i: "int13_read_ok hw img" using hw by (simp add: int13_floppy_def)
  have P: "bc_int_n ?c = 0x13" "(ucast (bc_eax ?c) :: u16) = 0x0201"
    "(ucast (bc_ebx ?c) :: u16) = ucast buff" "unat (ucast buff :: u16) + 512 \<le> 0x10000"
    "unat (reg_ah (bc_ecx ?c)) = n div 36" "n div 36 < 80"
    "unat (reg_ah (bc_edx ?c)) = n div 18 mod 2" "n div 18 mod 2 < 2"
    "unat (reg_al (bc_ecx ?c)) = n mod 18 + 1" "1 \<le> n mod 18 + 1" "n mod 18 + 1 \<le> 18"
    "reg_al (bc_edx ?c) = 0" "n = (n div 36 * 2 + n div 18 mod 2) * 18 + (n mod 18 + 1) - 1"
    subgoal by simp
    subgoal by simp
    subgoal by simp
    subgoal using b u by simp
    subgoal using chs_bounds(1) [OF n] by simp
    subgoal by (rule chs_bounds(2) [OF n])
    subgoal using chs_bounds(3) [OF n] by simp
    subgoal by simp
    subgoal using chs_bounds(4) [OF n] by simp
    subgoal by simp
    subgoal using mod_less_divisor [of 18 n] by linarith
    subgoal by (simp add: floppy_data)
    subgoal using chs_bounds(5) [OF n] by (rule sym)
    done
  note R = int13_readD [OF i h(1) P]
  have "(ucast (ucast buff :: u16) :: u32) = buff" using b u by simp
  with R have s: "img d' = img d \<and> (\<forall>x. x \<notin> block buff 512 \<longrightarrow> w_mem w1 x = w_mem w x) \<and>
     (bc_eflags c1 AND EFLAGS_CF = 0 \<longrightarrow> mem_get (w_mem w1) buff 512 = sector_bytes (img d) n)"
    by simp
  then have k1: "keeps img buff 512 w w1" using h by (simp add: keeps_def)
  show ?case
  proof (cases "bc_eflags c1 AND EFLAGS_CF = 0")
    case True
    with Suc.prems c k1 s h show ?thesis by simp
  next
    case False
    let ?w2 = "floppy_reset hw (bd_bios_id floppy_data) w1"
    have k2: "keeps img buff 512 w1 ?w2" by (simp add: keeps_def floppy_reset_frame [OF hw])
    from False Suc.prems c have "read_attempts hw floppy_data buff ?a k c1 ?w2 = (ok, w')" by simp
    from Suc.IH [OF this] keeps_trans [OF k1 k2] show ?thesis
      by (auto intro: keeps_trans simp: keeps_def)
  qed
qed

lemma keeps_mono: "keeps img b m w w' \<Longrightarrow> block b m \<subseteq> block a n \<Longrightarrow> keeps img a n w w'"
  by (auto simp: keeps_def)

lemma floppy_read_sector_spec:
  assumes hw: "int13_floppy hw img" and o: "unat off < floppy_cap" "unat off mod 512 = 0"
    and b: "unat buff + 512 \<le> 0x10000"
  shows "\<exists>r w'. floppy_read_sector hw floppy_data buff off w = Inr (r, w') \<and> keeps img buff 512 w w' \<and>
    (r = 0 \<or> r = -1) \<and>
    (r = 0 \<longrightarrow> mem_get (w_mem w') buff 512 = map (img (w_dev w)) [unat off..<unat off + 512])"
proof -
  let ?n = "unat off div 512"
  let ?a = "(of_nat (?n div 36) :: u16, of_nat (?n div 18 mod 2) :: u8, of_nat (?n mod 18 + 1) :: u8)"
  obtain ok w' where r: "read_attempts hw floppy_data buff ?a (floppy_attempts - 1) bios_zero w = (ok, w')"
    by fastforce
  have n: "?n < 2880" using o(1) by (simp add: floppy_cap_def less_mult_imp_div_less)
  have "?n * 512 = unat off" using o(2) by auto
  then have s: "sector_bytes (img (w_dev w)) ?n = map (img (w_dev w)) [unat off..<unat off + 512]"
    by (simp add: sector_bytes_def)
  have "\<not> buff > 0xffff" using b by (simp add: word_less_nat_alt)
  then have "floppy_read_sector hw floppy_data buff off w = Inr (if ok then 0 else -1, w')"
    using r by (simp add: floppy_read_sector_def chs_floppy [OF o(1)])
  with read_attempts_spec [OF hw n b r] s show ?thesis by simp
qed

lemma read_sectors_spec:
  assumes hw: "int13_floppy hw img"
    and "unat off mod 512 = 0" and "unat pos mod 512 = 0"
    and "unat off + unat pos + n * 512 \<le> floppy_cap"
    and "unat buff + unat pos + n * 512 \<le> 0x10000"
  shows "\<exists>r w'. read_sectors hw floppy_data buff off n pos w = Inr (r, w') \<and>
    keeps img (buff + pos) (n * 512) w w' \<and>
    (r = -1 \<or> unat r = unat pos + n * 512 \<and>
       mem_get (w_mem w') (buff + pos) (n * 512) =
         map (img (w_dev w)) [unat off + unat pos..<unat off + unat pos + n * 512])"
  using assms(2-)
proof (induction n arbitrary: pos w)
  case 0
  then show ?case by simp
next
  case (Suc n)
  have c: "unat off + unat pos < 2 ^ 32" "unat buff + unat pos < 2 ^ 32" "unat pos + 512 < 2 ^ 32"
    using Suc.prems by (simp_all add: floppy_cap_def)
  have u: "unat (off + pos) = unat off + unat pos" "unat (buff + pos) = unat buff + unat pos"
    "unat (pos + 512) = unat pos + 512"
    using c by (subst unat_add_no_wrap; simp)+
  obtain r1 w1 where r1: "floppy_read_sector hw floppy_data (buff + pos) (off + pos) w = Inr (r1, w1)"
    "keeps img (buff + pos) 512 w w1" "r1 = 0 \<or> r1 = -1"
    "r1 = 0 \<longrightarrow> mem_get (w_mem w1) (buff + pos) 512 =
       map (img (w_dev w)) [unat off + unat pos..<unat off + unat pos + 512]"
    using floppy_read_sector_spec [OF hw, of "off + pos" "buff + pos" w] Suc.prems u
    by (auto simp: mod_add_eq [symmetric])
  have sub: "block (buff + pos) 512 \<subseteq> block (buff + pos) (Suc n * 512)" by (rule block_mono) simp
  show ?case
  proof (cases "r1 = 0")
    case False
    then show ?thesis using r1 keeps_mono [OF r1(2) sub] by simp
  next
    case True
    have p: "unat (pos + 512) mod 512 = 0" using Suc.prems(2) u(3) by simp
    obtain r w' where r: "read_sectors hw floppy_data buff off n (pos + 512) w1 = Inr (r, w')"
      "keeps img (buff + (pos + 512)) (n * 512) w1 w'"
      "r = -1 \<or> unat r = unat (pos + 512) + n * 512 \<and>
         mem_get (w_mem w') (buff + (pos + 512)) (n * 512) =
         map (img (w_dev w1)) [unat off + unat (pos + 512)..<unat off + unat (pos + 512) + n * 512]"
      using Suc.IH [OF Suc.prems(1) p, of w1] Suc.prems u(3) by auto
    have a: "buff + (pos + 512) = (buff + pos) + of_nat 512" by simp
    have bd: "512 + n * 512 \<le> 2 ^ 32" using Suc.prems by simp
    have sub2: "block (buff + (pos + 512)) (n * 512) \<subseteq> block (buff + pos) (Suc n * 512)"
      unfolding a by (rule block_add_subset) (use bd in simp_all)
    have k: "keeps img (buff + pos) (Suc n * 512) w w'"
      by (rule keeps_trans [OF keeps_mono [OF r1(2) sub] keeps_mono [OF r(2) sub2]])
    have first: "mem_get (w_mem w') (buff + pos) 512 = mem_get (w_mem w1) (buff + pos) 512"
    proof (rule mem_get_cong)
      fix x
      assume "x \<in> block (buff + pos) 512"
      moreover have "block (buff + pos) 512 \<inter> block (buff + (pos + 512)) (n * 512) = {}"
        unfolding a by (rule block_add_disjoint) (use bd in simp_all)
      ultimately show "w_mem w' x = w_mem w1 x" using r(2) by (auto simp: keeps_def)
    qed simp
    have "mem_get (w_mem w') (buff + pos) (Suc n * 512) =
        mem_get (w_mem w') (buff + pos) 512 @ mem_get (w_mem w') (buff + (pos + 512)) (n * 512)"
      using mem_get_add [of "w_mem w'" "buff + pos" 512 "n * 512"] by (simp add: a add.commute)
    moreover have "img (w_dev w1) = img (w_dev w)" using r1(2) by (simp add: keeps_def)
    moreover have "[unat off + unat pos..<unat off + unat pos + Suc n * 512] =
        [unat off + unat pos..<unat off + unat pos + 512] @
        [unat off + unat (pos + 512)..<unat off + unat (pos + 512) + n * 512]"
      using upt_add_eq_append [of "unat off + unat pos" "unat off + unat pos + 512" "n * 512"]
      by (simp add: u(3) ac_simps)
    ultimately show ?thesis
      using r1 r k first True u(3) by auto
  qed
qed

lemma bios_read_request:
  assumes q: "request_ok floppy_cap a off sz"
  shows "bios_read hw floppy_data a off sz w = read_sectors hw floppy_data a off (unat sz div 512) 0 w"
proof -
  have o: "unat off < 2 ^ 31" using q by (simp add: request_ok_def floppy_cap_def)
  have s: "sint off = int (unat off)" by (rule sint_small [OF o])
  have m: "sint off smod 512 = 0"
  proof -
    have "int (unat off) smod 512 = int (unat off mod 512)" by (simp add: int_smod_nonneg zmod_int)
    with q show ?thesis by (simp add: s request_ok_def)
  qed
  have z: "sz mod 512 = 0" using q
    by (simp add: request_ok_def word_unat_eq_iff unat_mod_distrib)
  have l: "\<not> off <s 0" by (simp add: word_sless_alt s)
  show ?thesis by (simp add: bios_read_def m z l floppy_data)
qed

lemma bios_read_spec:
  assumes hw: "int13_floppy hw img" and q: "request_ok floppy_cap a off sz"
  shows "\<exists>r w'. bios_read hw floppy_data a off sz w = Inr (r, w') \<and> keeps img a (unat sz) w w' \<and>
    (r = -1 \<or> r = sz \<and>
       mem_get (w_mem w') a (unat sz) = map (img (w_dev w)) [unat off..<unat off + unat sz])"
proof -
  have n: "unat sz div 512 * 512 = unat sz" using q by (auto simp: request_ok_def)
  note bios_read_request [OF q, of hw w]
  with read_sectors_spec [OF hw, of off 0 "unat sz div 512" a w] q n show ?thesis
    by (auto simp: request_ok_def word_unat_eq_iff)
qed

locale bios_floppy =
  fixes hw :: "'d hardware"
    and img :: "'d \<Rightarrow> nat \<Rightarrow> u8"
  assumes bios: "int13_floppy hw img"
begin

text \<open>The results of the driver are determined by \<open>bios_read_spec\<close>.\<close>

lemma read_cases:
  assumes "request_ok floppy_cap a off sz" and "bios_read hw floppy_data a off sz w = Inr (r, w')"
  shows "keeps img a (unat sz) w w'"
    and "r = -1 \<or> r = sz \<and>
       mem_get (w_mem w') a (unat sz) = map (img (w_dev w)) [unat off..<unat off + unat sz]"
  using bios_read_spec [OF bios assms(1), of w] assms(2) by auto

end

sublocale bios_floppy \<subseteq> storage_device "bios_read hw floppy_data" img floppy_cap
proof unfold_locales
  show "floppy_cap + 0x10000 \<le> 2 ^ 31" by (simp add: floppy_cap_def)
next
  fix a off sz :: u32 and w :: "'d world"
  assume "request_ok floppy_cap a off sz"
  then show "\<exists>r w'. bios_read hw floppy_data a off sz w = Inr (r, w')"
    using bios_read_spec [OF bios] by blast
next
  fix a off sz r :: u32 and w w' :: "'d world"
  assume q: "request_ok floppy_cap a off sz" and r: "bios_read hw floppy_data a off sz w = Inr (r, w')"
  from read_cases(1) [OF q r]
  show "img (w_dev w') = img (w_dev w) \<and> w_heap w' = w_heap w \<and> w_if w' = w_if w \<and>
      (\<forall>x. x \<notin> block a (unat sz) \<longrightarrow> w_mem w' x = w_mem w x)"
    by (simp add: keeps_def)
  from read_cases(2) [OF q r]
  show "r = -1 \<or> r = sz \<and>
      mem_get (w_mem w') a (unat sz) = map (img (w_dev w)) [unat off..<unat off + unat sz]" .
qed

section \<open>A floppy controller\<close>

text \<open>
  A machine on which the contract holds: any medium, and a list that says which of the next reads
  fail. Its interrupt controllers only remember the last byte written to them.
\<close>

record floppy =
  fd_img :: "nat \<Rightarrow> u8"
  fd_fails :: "bool list"
  fd_pic :: "u16 \<Rightarrow> u8"

definition floppy_lba :: "bios_regs \<Rightarrow> nat" where
  "floppy_lba c = (unat (reg_ah (bc_ecx c)) * 2 + unat (reg_ah (bc_edx c))) * 18 +
     unat (reg_al (bc_ecx c)) - 1"

definition floppy_bios :: "bios_regs \<Rightarrow> memory \<Rightarrow> floppy \<Rightarrow> bios_regs \<times> memory \<times> floppy" where
  "floppy_bios c m d =
     (if bc_int_n c = 0x13 \<and> (ucast (bc_eax c) :: u16) = 0x0201 then
        (case fd_fails d of
           True # fs \<Rightarrow> (c\<lparr>bc_eflags := EFLAGS_CF\<rparr>, m, d\<lparr>fd_fails := fs\<rparr>)
         | fs \<Rightarrow> (c\<lparr>bc_eflags := 0\<rparr>,
             mem_put m (ucast (ucast (bc_ebx c) :: u16)) (sector_bytes (fd_img d) (floppy_lba c)),
             d\<lparr>fd_fails := tl fs\<rparr>))
      else (c\<lparr>bc_eflags := 0\<rparr>, m, d))"

definition floppy_hw :: "floppy hardware" where
  "floppy_hw = \<lparr>hw_in = (\<lambda>p d. (fd_pic d p, d)),
     hw_out = (\<lambda>p v d. d\<lparr>fd_pic := (fd_pic d)(p := v)\<rparr>), hw_bios = floppy_bios,
     hw_irq = (\<lambda>n d. False)\<rparr>"

lemma length_sector_bytes [simp]: "length (sector_bytes f n) = 512"
  by (simp add: sector_bytes_def)

lemma floppy_bios_read:
  assumes "bc_int_n c = 0x13" and "(ucast (bc_eax c) :: u16) = 0x0201"
    and "floppy_bios c m d = (c', m', d')"
  shows "fd_img d' = fd_img d" and "x \<notin> block (ucast (ucast (bc_ebx c) :: u16)) 512 \<Longrightarrow> m' x = m x"
    and "bc_eflags c' AND EFLAGS_CF = 0 \<longleftrightarrow> \<not> (fd_fails d \<noteq> [] \<and> hd (fd_fails d))"
    and "bc_eflags c' AND EFLAGS_CF = 0 \<Longrightarrow>
      mem_get m' (ucast (ucast (bc_ebx c) :: u16)) 512 = sector_bytes (fd_img d) (floppy_lba c)"
    and "fd_fails d' = tl (fd_fails d)"
  using assms mem_get_put [of "sector_bytes (fd_img d) (floppy_lba c)" m "ucast (ucast (bc_ebx c) :: u16)"]
  by (auto simp: floppy_bios_def EFLAGS_CF_def mem_put_other split: list.splits bool.splits)

interpretation floppy: bios_floppy floppy_hw fd_img
proof unfold_locales
  have "int13_read_ok floppy_hw fd_img"
    unfolding int13_read_ok_def
  proof (intro allI impI, elim conjE, intro conjI allI impI)
    fix c m d c' m' d' lba x
    assume a: "bc_int_n c = 0x13" "(ucast (bc_eax c) :: u16) = 0x0201"
      and l: "lba = (unat (reg_ah (bc_ecx c)) * 2 + unat (reg_ah (bc_edx c))) * 18 +
       unat (reg_al (bc_ecx c)) - 1"
      and h: "hw_bios floppy_hw c m d = (c', m', d')"
    then have f: "floppy_bios c m d = (c', m', d')" by (simp add: floppy_hw_def)
    show "fd_img d' = fd_img d" by (rule floppy_bios_read(1) [OF a f])
    show "x \<notin> block (ucast (ucast (bc_ebx c) :: u16)) 512 \<Longrightarrow> m' x = m x"
      by (rule floppy_bios_read(2) [OF a f])
    show "bc_eflags c' AND EFLAGS_CF = 0 \<Longrightarrow>
        mem_get m' (ucast (ucast (bc_ebx c) :: u16)) 512 = sector_bytes (fd_img d) lba"
      using floppy_bios_read(4) [OF a f] by (simp add: l floppy_lba_def)
  qed
  moreover have "int13_reset_ok floppy_hw fd_img"
    by (auto simp: int13_reset_ok_def floppy_hw_def floppy_bios_def)
  moreover have "pic_keeps floppy_hw fd_img" by (simp add: pic_keeps_def floppy_hw_def)
  ultimately show "int13_floppy floppy_hw fd_img" by (simp add: int13_floppy_def)
qed

text \<open>The list of failures is consumed by the reads and by nothing else.\<close>

lemma floppy_pic_keeps: "pic_keeps floppy_hw fd_fails"
  by (simp add: pic_keeps_def floppy_hw_def)

lemma floppy_attempt:
  assumes "bios_call floppy_hw (read_regs bd buff a c) w = (c', w')"
  shows "bc_eflags c' AND EFLAGS_CF = 0 \<longleftrightarrow> \<not> (fd_fails (w_dev w) \<noteq> [] \<and> hd (fd_fails (w_dev w)))"
    and "fd_fails (w_dev w') = tl (fd_fails (w_dev w))"
proof -
  obtain t hh sc where a: "a = (t, hh, sc)" by (cases a)
  obtain d d' where h: "hw_bios floppy_hw (read_regs bd buff a c) (w_mem w) d = (c', w_mem w', d')"
    "fd_fails d = fd_fails (w_dev w)" "fd_fails (w_dev w') = fd_fails d'"
    by (rule bios_call_cases [OF floppy_pic_keeps assms])
  then have f: "floppy_bios (read_regs bd buff a c) (w_mem w) d = (c', w_mem w', d')"
    by (simp add: floppy_hw_def)
  show "bc_eflags c' AND EFLAGS_CF = 0 \<longleftrightarrow> \<not> (fd_fails (w_dev w) \<noteq> [] \<and> hd (fd_fails (w_dev w)))"
    "fd_fails (w_dev w') = tl (fd_fails (w_dev w))"
    using floppy_bios_read(3,5) [OF _ _ f] h(2,3) by (simp_all add: a)
qed

text \<open>With no failure ahead, every read succeeds.\<close>

lemma floppy_sector_good:
  assumes o: "unat off < floppy_cap" and b: "unat buff + 512 \<le> 0x10000" and f: "fd_fails (w_dev w) = []"
  shows "\<exists>w'. floppy_read_sector floppy_hw floppy_data buff off w = Inr (0, w') \<and> fd_fails (w_dev w') = []"
proof -
  let ?n = "unat off div 512"
  let ?a = "(of_nat (?n div 36) :: u16, of_nat (?n div 18 mod 2) :: u8, of_nat (?n mod 18 + 1) :: u8)"
  obtain c1 w1 where c: "bios_call floppy_hw (read_regs floppy_data buff ?a bios_zero) w = (c1, w1)"
    by fastforce
  have n: "\<not> buff > 0xffff" using b by (simp add: word_less_nat_alt)
  have k: "floppy_attempts - 1 = Suc 2" by (simp add: floppy_attempts_def)
  have "read_attempts floppy_hw floppy_data buff ?a (floppy_attempts - 1) bios_zero w = (True, w1)"
    unfolding k read_attempts.simps(2) c using floppy_attempt(1) [OF c] f by simp
  then show ?thesis
    using n floppy_attempt(2) [OF c] f by (simp add: floppy_read_sector_def chs_floppy [OF o])
qed

lemma floppy_sectors_good:
  assumes "unat off mod 512 = 0" and "unat pos mod 512 = 0"
    and "unat off + unat pos + n * 512 \<le> floppy_cap"
    and "unat buff + unat pos + n * 512 \<le> 0x10000" and "fd_fails (w_dev w) = []"
  shows "\<exists>r w'. read_sectors floppy_hw floppy_data buff off n pos w = Inr (r, w') \<and>
    fd_fails (w_dev w') = [] \<and> unat r = unat pos + n * 512"
  using assms
proof (induction n arbitrary: pos w)
  case 0
  then show ?case by simp
next
  case (Suc n)
  have u: "unat (off + pos) = unat off + unat pos" "unat (buff + pos) = unat buff + unat pos"
    "unat (pos + 512) = unat pos + 512"
    using Suc.prems by (subst unat_add_no_wrap; simp add: floppy_cap_def)+
  obtain w1 where w1: "floppy_read_sector floppy_hw floppy_data (buff + pos) (off + pos) w = Inr (0, w1)"
    "fd_fails (w_dev w1) = []"
    using floppy_sector_good [of "off + pos" "buff + pos" w] Suc.prems u by auto
  have "unat (pos + 512) mod 512 = 0" using Suc.prems(2) u(3) by simp
  with Suc.IH [OF Suc.prems(1) this _ _ w1(2)] Suc.prems u(3) obtain r w' where
    "read_sectors floppy_hw floppy_data buff off n (pos + 512) w1 = Inr (r, w')"
    "fd_fails (w_dev w') = []" "unat r = unat (pos + 512) + n * 512" by auto
  with w1 u(3) show ?case by simp
qed

interpretation good_floppy: reliable_device "bios_read floppy_hw floppy_data" fd_img floppy_cap
  "\<lambda>d. fd_fails d = []"
proof unfold_locales
  fix w :: "floppy world" and a off sz :: u32
  assume f: "fd_fails (w_dev w) = []" and q: "request_ok floppy_cap a off sz"
  have n: "unat sz div 512 * 512 = unat sz" using q by (auto simp: request_ok_def)
  note bios_read_request [OF q, of floppy_hw w]
  moreover obtain r2 w2 where "read_sectors floppy_hw floppy_data a off (unat sz div 512) 0 w = Inr (r2, w2)"
    "fd_fails (w_dev w2) = []" "unat r2 = unat sz"
    using floppy_sectors_good [of off 0 "unat sz div 512" a w] q n f by (auto simp: request_ok_def)
  ultimately show "\<exists>w'. bios_read floppy_hw floppy_data a off sz w = Inr (sz, w') \<and> fd_fails (w_dev w') = []"
    by (auto simp: word_unat_eq_iff)
qed

section \<open>The calls the driver makes\<close>

text \<open>
  Any BIOS with a list in which it writes down each call and the carry flag it returned with. The
  ports do not touch the list.
\<close>

definition logged :: "'d hardware \<Rightarrow> ('d \<times> (bios_regs \<times> bool) list) hardware" where
  "logged hw =
     \<lparr>hw_in = (\<lambda>p (d, l). case hw_in hw p d of (v, d) \<Rightarrow> (v, d, l)),
      hw_out = (\<lambda>p v (d, l). (hw_out hw p v d, l)),
      hw_bios = (\<lambda>c m (d, l). case hw_bios hw c m d of
        (c', m, d) \<Rightarrow> (c', m, d, l @ [(c, bc_eflags c' AND EFLAGS_CF \<noteq> 0)])),
      hw_irq = (\<lambda>n (d, l). hw_irq hw n d)\<rparr>"

text \<open>A call that reads the sector \<open>lba\<close> of drive 0 to \<open>buff\<close>, and one that resets drive 0.\<close>

definition reads_sector :: "u32 \<Rightarrow> nat \<Rightarrow> bios_regs \<Rightarrow> bool" where
  "reads_sector buff lba c \<longleftrightarrow> bc_int_n c = 0x13 \<and> (ucast (bc_eax c) :: u16) = 0x0201 \<and>
     (ucast (bc_ebx c) :: u16) = ucast buff \<and> reg_al (bc_edx c) = 0 \<and> 1 \<le> reg_al (bc_ecx c) \<and>
     floppy_lba c = lba"

definition resets_drive :: "bios_regs \<Rightarrow> bool" where
  "resets_drive c \<longleftrightarrow> bc_int_n c = 0x13 \<and> reg_ah (bc_eax c) = 0 \<and> reg_al (bc_edx c) = 0"

text \<open>
  The calls of up to \<open>n\<close> tries and the result: a read that succeeds is the last call, one that
  fails is followed by a reset and the remaining tries.
\<close>

fun retries :: "nat \<Rightarrow> u32 \<Rightarrow> nat \<Rightarrow> (bios_regs \<times> bool) list \<Rightarrow> int \<Rightarrow> bool" where
  "retries (Suc n) buff lba [(c, False)] r \<longleftrightarrow> reads_sector buff lba c \<and> r = 0"
| "retries (Suc n) buff lba ((c, True) # (c', _) # es) r \<longleftrightarrow>
     reads_sector buff lba c \<and> resets_drive c' \<and> retries n buff lba es r"
| "retries n buff lba es r \<longleftrightarrow> n = 0 \<and> es = [] \<and> r = -1"

lemma logged_floppy:
  assumes "int13_floppy hw img"
  shows "int13_floppy (logged hw) (\<lambda>d. img (fst d))"
proof -
  have "int13_read_ok (logged hw) (\<lambda>d. img (fst d))"
    unfolding int13_read_ok_def
  proof (intro allI impI, elim conjE)
    fix c m d c' m' d' lba
    assume a: "bc_int_n c = 0x13" "(ucast (bc_eax c) :: u16) = 0x0201"
      "unat (ucast (bc_ebx c) :: u16) + 512 \<le> 0x10000"
      "unat (reg_ah (bc_ecx c)) < 80" "unat (reg_ah (bc_edx c)) < 2"
      "1 \<le> unat (reg_al (bc_ecx c))" "unat (reg_al (bc_ecx c)) \<le> 18" "reg_al (bc_edx c) = 0"
      "lba = (unat (reg_ah (bc_ecx c)) * 2 + unat (reg_ah (bc_edx c))) * 18 +
        unat (reg_al (bc_ecx c)) - 1"
      and h: "hw_bios (logged hw) c m d = (c', m', d')"
    have h': "hw_bios hw c m (fst d) = (c', m', fst d')"
      using h by (cases d) (auto simp: logged_def split: prod.splits)
    have i: "int13_read_ok hw img" using assms by (simp add: int13_floppy_def)
    show "img (fst d') = img (fst d) \<and>
     (\<forall>x. x \<notin> block (ucast (ucast (bc_ebx c) :: u16)) 512 \<longrightarrow> m' x = m x) \<and>
     (bc_eflags c' AND EFLAGS_CF = 0 \<longrightarrow>
        mem_get m' (ucast (ucast (bc_ebx c) :: u16)) 512 = sector_bytes (img (fst d)) lba)"
      using int13_readD [OF i h' a(1,2) refl a(3) refl a(4) refl a(5) refl a(6-9)] by simp
  qed
  moreover have "int13_reset_ok (logged hw) (\<lambda>d. img (fst d))"
    unfolding int13_reset_ok_def
  proof (intro allI impI, elim conjE)
    fix c m d c' m' d'
    assume a: "bc_int_n c = 0x13" "(ucast (bc_eax c) :: u16) = 0"
      and h: "hw_bios (logged hw) c m d = (c', m', d')"
    have h': "hw_bios hw c m (fst d) = (c', m', fst d')"
      using h by (cases d) (auto simp: logged_def split: prod.splits)
    have i: "int13_reset_ok hw img" using assms by (simp add: int13_floppy_def)
    show "img (fst d') = img (fst d) \<and> m' = m" by (rule int13_resetD [OF i h' a])
  qed
  moreover have "pic_keeps (logged hw) (\<lambda>d. img (fst d))"
    unfolding pic_keeps_def
  proof (intro ballI allI, intro conjI allI)
    fix p d v
    assume "p \<in> pic_ports"
    then show "img (fst (hw_out (logged hw) p v d)) = img (fst d)"
      "img (fst (snd (hw_in (logged hw) p d))) = img (fst d)"
      using assms by (simp_all add: int13_floppy_def pic_keeps_def logged_def case_prod_beta)
  qed
  ultimately show ?thesis by (simp add: int13_floppy_def)
qed

lemma logged_pic: "pic_keeps (logged hw) snd"
  by (auto simp: pic_keeps_def logged_def split: prod.splits)

lemma logged_call:
  assumes "bios_call (logged hw) c w = (c', w')"
  shows "snd (w_dev w') = snd (w_dev w) @ [(c, bc_eflags c' AND EFLAGS_CF \<noteq> 0)]"
proof -
  obtain d d' where h: "hw_bios (logged hw) c (w_mem w) d = (c', w_mem w', d')"
    "snd d = snd (w_dev w)" "snd (w_dev w') = snd d'"
    by (rule bios_call_cases [OF logged_pic assms])
  then show ?thesis by (cases d) (auto simp: logged_def split: prod.splits)
qed

lemma read_attempts_log:
  assumes n: "n < 2880"
    and r: "read_attempts (logged hw) floppy_data buff (of_nat (n div 36), of_nat (n div 18 mod 2),
      of_nat (n mod 18 + 1)) k call w = (ok, w')"
  shows "\<exists>es. snd (w_dev w') = snd (w_dev w) @ es \<and> retries k buff n es (if ok then 0 else -1)"
  using r
proof (induction k arbitrary: call w)
  case 0
  then show ?case by (intro exI [of _ "[]"]) simp
next
  case (Suc k)
  let ?a = "(of_nat (n div 36) :: u16, of_nat (n div 18 mod 2) :: u8, of_nat (n mod 18 + 1) :: u8)"
  let ?c = "read_regs floppy_data buff ?a call"
  have rd: "reads_sector buff n ?c"
    using chs_bounds(1,3,4,5) [OF n] chs_bounds(4) [OF n]
    by (simp add: reads_sector_def floppy_lba_def floppy_data word_le_nat_alt del: of_nat_Suc)
  obtain c1 w1 where c: "bios_call (logged hw) ?c w = (c1, w1)" by fastforce
  note l1 = logged_call [OF c]
  show ?case
  proof (cases "bc_eflags c1 AND EFLAGS_CF = 0")
    case True
    with Suc.prems c rd l1 show ?thesis by (intro exI [of _ "[(?c, False)]"]) simp
  next
    case False
    let ?z = "bios_zero\<lparr>bc_int_n := 0x13, bc_eax := set_word 0 0, bc_edx := set_low 0 0\<rparr>"
    let ?w2 = "floppy_reset (logged hw) (bd_bios_id floppy_data) w1"
    obtain c2 w2 where z: "bios_call (logged hw) ?z w1 = (c2, w2)" by fastforce
    have w2: "?w2 = w2" using z by (simp add: floppy_reset_def Let_def bios_zero_def floppy_data)
    have rs: "resets_drive ?z" by (simp add: resets_drive_def reg_ah_def set_word_def)
    from False Suc.prems c w2
    have "read_attempts (logged hw) floppy_data buff ?a k c1 w2 = (ok, w')" by simp
    from Suc.IH [OF this] obtain es where
      "snd (w_dev w') = snd (w_dev w2) @ es" "retries k buff n es (if ok then 0 else -1)" by blast
    with logged_call [OF z] l1 rd rs False show ?thesis
      by (intro exI [of _ "(?c, True) # (?z, bc_eflags c2 AND EFLAGS_CF \<noteq> 0) # es"]) simp
  qed
qed

section \<open>Properties\<close>

text \<open>
  C12: With a BIOS that does what interrupt 0x13 is documented to do, a read of whole sectors of the
  floppy to a buffer below 64 KiB always returns. It returns -1 or the size asked for, and in that
  case the buffer holds exactly the bytes of the medium at that offset; whatever happens, the
  medium, the heap, the interrupt flag and every byte outside the buffer are unchanged.
\<close>

theorem bios_read_correct:
  assumes "int13_floppy hw img" and "request_ok floppy_cap a off sz"
  shows "\<exists>r w'. bios_read hw floppy_data a off sz w = Inr (r, w') \<and>
    (r = -1 \<or> r = sz \<and>
       mem_get (w_mem w') a (unat sz) = map (img (w_dev w)) [unat off..<unat off + unat sz]) \<and>
    img (w_dev w') = img (w_dev w) \<and> w_heap w' = w_heap w \<and> w_if w' = w_if w \<and>
    (\<forall>x. x \<notin> block a (unat sz) \<longrightarrow> w_mem w' x = w_mem w x)"
  using bios_read_spec [OF assms, of w] unfolding keeps_def by blast

text \<open>
  C13: The track, head and sector computed for an offset of the floppy are on the medium (track below
  80, head below 2, sector 1 to 18) and name exactly the sector at that offset.
\<close>

theorem chs_addresses_sector:
  assumes "unat offset < floppy_cap"
  shows "\<exists>t h s. chs floppy_data offset = Inr (t, h, s) \<and> unat t < 80 \<and> unat h < 2 \<and>
    1 \<le> unat s \<and> unat s \<le> 18 \<and> (unat t * 2 + unat h) * 18 + unat s - 1 = unat offset div 512"
proof -
  let ?n = "unat offset div 512"
  have n: "?n < 2880" using assms by (simp add: floppy_cap_def less_mult_imp_div_less)
  have t: "unat (of_nat (?n div 36) :: u16) = ?n div 36"
    using n by (simp add: unsigned_of_nat take_bit_nat_eq_self)
  have s: "?n mod 18 + 1 \<le> 18" using mod_less_divisor [of 18 ?n] by linarith
  show ?thesis
  proof (intro exI conjI)
    show "chs floppy_data offset = Inr (of_nat (?n div 36), of_nat (?n div 18 mod 2), of_nat (?n mod 18 + 1))"
      by (rule chs_floppy [OF assms])
    show "unat (of_nat (?n div 36) :: u16) < 80" unfolding t by (rule chs_bounds(2) [OF n])
    show "unat (of_nat (?n div 18 mod 2) :: u8) < 2" unfolding chs_bounds(3) [OF n] by simp
    show "1 \<le> unat (of_nat (?n mod 18 + 1) :: u8)" unfolding chs_bounds(4) [OF n] by simp
    show "unat (of_nat (?n mod 18 + 1) :: u8) \<le> 18" unfolding chs_bounds(4) [OF n] by (rule s)
    show "(unat (of_nat (?n div 36) :: u16) * 2 + unat (of_nat (?n div 18 mod 2) :: u8)) * 18 +
        unat (of_nat (?n mod 18 + 1) :: u8) - 1 = ?n"
      unfolding t chs_bounds(3,4) [OF n] by (rule chs_bounds(5) [OF n])
  qed
qed

text \<open>
  C14: On any BIOS a sector is tried until a read of it succeeds, three times at most, and the drive
  is reset after each read that fails: the calls the driver makes, with the carry flag each
  returns, are the reads of that sector to that buffer with a reset between them, and the result
  is 0 when the last read succeeds, else -1. When it is 0 the buffer holds the sector.
\<close>

theorem floppy_retries:
  assumes hw: "int13_floppy hw img"
    and o: "unat off < floppy_cap" "unat off mod 512 = 0" and b: "unat buff + 512 \<le> 0x10000"
  shows "\<exists>r w' es. floppy_read_sector (logged hw) floppy_data buff off w = Inr (r, w') \<and>
    snd (w_dev w') = snd (w_dev w) @ es \<and> retries 3 buff (unat off div 512) es r \<and>
    (r = 0 \<longrightarrow> mem_get (w_mem w') buff 512 =
       map (img (fst (w_dev w))) [unat off..<unat off + 512])"
proof -
  let ?n = "unat off div 512"
  let ?a = "(of_nat (?n div 36) :: u16, of_nat (?n div 18 mod 2) :: u8, of_nat (?n mod 18 + 1) :: u8)"
  obtain r w' where rw: "floppy_read_sector (logged hw) floppy_data buff off w = Inr (r, w')"
    "r = 0 \<longrightarrow> mem_get (w_mem w') buff 512 = map (img (fst (w_dev w))) [unat off..<unat off + 512]"
    using floppy_read_sector_spec [OF logged_floppy [OF hw] o b, of w] by auto
  obtain ok w1 where a: "read_attempts (logged hw) floppy_data buff ?a (floppy_attempts - 1) bios_zero w = (ok, w1)"
    by fastforce
  have n: "?n < 2880" using o(1) by (simp add: floppy_cap_def less_mult_imp_div_less)
  have "\<not> buff > 0xffff" using b by (simp add: word_less_nat_alt)
  then have e: "r = (if ok then 0 else -1)" "w' = w1"
    using a rw(1) by (simp_all add: floppy_read_sector_def chs_floppy [OF o(1)])
  have k: "floppy_attempts - 1 = 3" by (simp add: floppy_attempts_def)
  from read_attempts_log [OF n a] obtain es where
    "snd (w_dev w') = snd (w_dev w) @ es" "retries 3 buff ?n es r" unfolding e k by blast
  with rw show ?thesis by blast
qed

text \<open>A drive with a medium of known contents whose first read fails once.\<close>

definition example_world :: "floppy world" where
  "example_world = \<lparr>w_mem = (\<lambda>_. 0), w_heap = example_heap, w_if = True,
     w_dev = \<lparr>fd_img = (\<lambda>n. of_nat (n div 512)), fd_fails = [True], fd_pic = (\<lambda>_. 0xff)\<rparr>\<rparr>"

text \<open>The same drive with an empty list of calls.\<close>

definition world_of_log :: "floppy world \<Rightarrow> (floppy \<times> (bios_regs \<times> bool) list) world" where
  "world_of_log w = \<lparr>w_mem = w_mem w, w_heap = w_heap w, w_if = w_if w, w_dev = (w_dev w, [])\<rparr>"

theorem bios_read_correct_witness:
  "\<exists>r w'. bios_read floppy_hw floppy_data 0x7000 0x2400 1024 example_world = Inr (r, w') \<and>
    (r = -1 \<or> mem_get (w_mem w') 0x7000 1024 = map (\<lambda>n. of_nat (n div 512)) [0x2400..<0x2400 + 1024])"
  using bios_read_correct [OF floppy.bios, of "0x7000" "0x2400" 1024 example_world]
  by (auto simp: request_ok_def floppy_cap_def example_world_def)

theorem chs_addresses_sector_witness:
  "\<exists>t h s. chs floppy_data 0x2400 = Inr (t, h, s) \<and> (unat t * 2 + unat h) * 18 + unat s - 1 = 18"
  using chs_addresses_sector [of "0x2400"] by (auto simp: floppy_cap_def)

theorem floppy_retries_witness:
  "\<exists>r w' es. floppy_read_sector (logged floppy_hw) floppy_data 0x7000 0x2400
      (world_of_log example_world) = Inr (r, w') \<and>
    snd (w_dev w') = snd (w_dev (world_of_log example_world)) @ es \<and>
    retries 3 0x7000 (unat (0x2400 :: u32) div 512) es r"
proof -
  have "unat (0x2400 :: u32) < floppy_cap" "unat (0x2400 :: u32) mod 512 = 0"
    "unat (0x7000 :: u32) + 512 \<le> 0x10000" by (simp_all add: floppy_cap_def)
  from floppy_retries [OF floppy.bios this, of "world_of_log example_world"] show ?thesis by blast
qed

end
