(* ===== verification/Fat.thy ===== *)
theory Fat
  imports Machine Lib_String "HOL-Library.Signed_Division"
begin

text \<open>
  The FAT12 file system: \<^verbatim>\<open>src/storage/fs/fat.c\<close> with \<^verbatim>\<open>inc/storage/fs/fat.h\<close>,
  \<^verbatim>\<open>inc/storage/fs/fs.h\<close> and \<^verbatim>\<open>inc/storage/file.h\<close>. The sector buffers are blocks of the flat
  memory at the addresses the allocator gives; the handles and the private data of the file
  system are records. \<open>rd\<close> is \<open>storage->read\<close>. This theory holds the data and the operations;
  \<open>Fat_Facts\<close> proves them correct.
\<close>

unbundle bit_operations_syntax

section \<open>Handles\<close>

type_synonym 'd reader = "u32 \<Rightarrow> u32 \<Rightarrow> u32 \<Rightarrow> 'd world \<Rightarrow> (u32 \<times> 'd world) res"

text \<open>
  \<open>file_hand_t\<close> of a FAT file: \<open>fh_data\<close> is the address of the private data and
  \<open>fh_first_cluster\<close> what the \<open>fat_file_data_t\<close> there holds.
\<close>

record file_hand =
  fh_data :: u32
  fh_first_cluster :: u32
  fh_size :: u32
  fh_attr :: u32

definition FS_FILEATTR_FILE :: u32 where "FS_FILEATTR_FILE = push_bit 0 1"
definition FS_FILEATTR_DIRECTORY :: u32 where "FS_FILEATTR_DIRECTORY = push_bit 1 1"

definition FAT_CACHE_CNT :: nat where "FAT_CACHE_CNT = 4"

record fat_data =
  ft_sector_size :: u16
  ft_cluster_size :: u16
  ft_fat_offset :: u32
  ft_fat_size :: u32
  ft_data_offset :: u32
  ft_rootdir :: file_hand
  ft_cache_clust :: "u32 list"
  ft_cache_rank :: "u8 list"
  ft_cache_buf :: u32

record fs_hand =
  fs_offset :: u32
  fs_size :: u32
  fs_data :: fat_data

definition sizeof_fat_bootsector :: u32 where "sizeof_fat_bootsector = 512"
definition sizeof_fat_data :: u32 where "sizeof_fat_data = 76"
definition sizeof_fat_file_data :: u32 where "sizeof_fat_file_data = 4"
definition sizeof_fat_dirent :: u32 where "sizeof_fat_dirent = 32"

text \<open>The fields of \<open>fat_bootsector_t\<close> and \<open>fat_dirent_t\<close> the code reads, at their offsets.\<close>

definition bs_bytes_per_sector :: "memory \<Rightarrow> u32 \<Rightarrow> u16" where
  "bs_bytes_per_sector m a = load16 m (a + 11)"
definition bs_sectors_per_cluster :: "memory \<Rightarrow> u32 \<Rightarrow> u8" where
  "bs_sectors_per_cluster m a = load8 m (a + 13)"
definition bs_reserved_sectors :: "memory \<Rightarrow> u32 \<Rightarrow> u16" where
  "bs_reserved_sectors m a = load16 m (a + 14)"
definition bs_fat_copies :: "memory \<Rightarrow> u32 \<Rightarrow> u8" where
  "bs_fat_copies m a = load8 m (a + 16)"
definition bs_root_dir_entries :: "memory \<Rightarrow> u32 \<Rightarrow> u16" where
  "bs_root_dir_entries m a = load16 m (a + 17)"
definition bs_total_sectors :: "memory \<Rightarrow> u32 \<Rightarrow> u16" where
  "bs_total_sectors m a = load16 m (a + 19)"
definition bs_sectors_per_fat :: "memory \<Rightarrow> u32 \<Rightarrow> u16" where
  "bs_sectors_per_fat m a = load16 m (a + 22)"

definition de_attr :: "memory \<Rightarrow> u32 \<Rightarrow> u8" where "de_attr m a = load8 m (a + 11)"
definition de_start_cluster :: "memory \<Rightarrow> u32 \<Rightarrow> u16" where
  "de_start_cluster m a = load16 m (a + 26)"
definition de_filesize :: "memory \<Rightarrow> u32 \<Rightarrow> u32" where "de_filesize m a = load32 m (a + 28)"

definition FAT_DIRENT_ATTR_VOLUMELABEL :: u8 where "FAT_DIRENT_ATTR_VOLUMELABEL = push_bit 3 1"
definition FAT_DIRENT_ATTR_DIRECTORY :: u8 where "FAT_DIRENT_ATTR_DIRECTORY = push_bit 4 1"
definition FAT_DIRENT_ATTR_DEVICE :: u8 where "FAT_DIRENT_ATTR_DEVICE = push_bit 6 1"
definition FAT_DIRENT_ATTR_RESERVED :: u8 where "FAT_DIRENT_ATTR_RESERVED = push_bit 7 1"

section \<open>Allocation in the machine\<close>

definition walloc :: "u32 \<Rightarrow> u32 \<Rightarrow> 'd world \<Rightarrow> (u32 \<times> 'd world) res" where
  "walloc sz fl w = bnd (alloc (w_heap w) sz fl) (\<lambda>(a, h). Inr (a, w\<lparr>w_heap := h\<rparr>))"

definition wfree :: "u32 \<Rightarrow> 'd world \<Rightarrow> 'd world res" where
  "wfree a w = bnd (free (w_heap w) a) (\<lambda>h. Inr (w\<lparr>w_heap := h\<rparr>))"

section \<open>Opening a file system\<close>

definition fs_fat_init :: "'d reader \<Rightarrow> u32 \<Rightarrow> 'd world \<Rightarrow> (int \<times> fs_hand option \<times> 'd world) res" where
  "fs_fat_init rd off w =
     bnd (walloc sizeof_fat_bootsector ALLOC_FLAG_16B w) (\<lambda>(bootsec, w).
     bnd (rd bootsec off 512 w) (\<lambda>(r, w).
     if r \<noteq> 512 then bnd (wfree bootsec w) (\<lambda>w. Inr (-1, None, w))
     else
       bnd (walloc sizeof_fat_data 0 w) (\<lambda>(fdata, w).
       let m = w_mem w;
           sector_size = bs_bytes_per_sector m bootsec;
           cluster_size = (ucast (bs_sectors_per_cluster m bootsec) :: u16) * sector_size;
           fat_offset = ucast (bs_reserved_sectors m bootsec) * (ucast sector_size :: u32);
           fat_size = ucast (bs_sectors_per_fat m bootsec) * (ucast sector_size :: u32);
           first = fat_offset + fat_size * ucast (bs_fat_copies m bootsec);
           data_offset = first + ucast (bs_root_dir_entries m bootsec) * sizeof_fat_dirent;
           fs_size = ucast (bs_total_sectors m bootsec) * (ucast sector_size :: u32)
       in bnd (walloc (ucast cluster_size * of_nat FAT_CACHE_CNT) 0 w) (\<lambda>(buf, w).
          bnd (wfree bootsec w) (\<lambda>w.
            Inr (0, Some \<lparr>fs_offset = off, fs_size = fs_size, fs_data =
              \<lparr>ft_sector_size = sector_size, ft_cluster_size = cluster_size,
               ft_fat_offset = fat_offset, ft_fat_size = fat_size, ft_data_offset = data_offset,
               ft_rootdir = \<lparr>fh_data = fdata + 48, fh_first_cluster = first, fh_size = 0,
                 fh_attr = FS_FILEATTR_DIRECTORY\<rparr>,
               ft_cache_clust = map (\<lambda>i. load32 m (fdata + 52 + 4 * of_nat i)) [0..<FAT_CACHE_CNT],
               ft_cache_rank = map (\<lambda>i. load8 m (fdata + 68 + of_nat i)) [0..<FAT_CACHE_CNT],
               ft_cache_buf = buf\<rparr>\<rparr>, w))))))"

section \<open>The cache of FAT sectors\<close>

text \<open>\<open>_fat_cache_touch\<close>: every rank below that of the entry goes up by one.\<close>

definition fat_cache_touch :: "fat_data \<Rightarrow> nat \<Rightarrow> fat_data" where
  "fat_cache_touch fd idx =
     (let rank = ft_cache_rank fd;
          rank = map (\<lambda>i. if i = idx then rank ! i
                          else if rank ! i < rank ! idx then rank ! i + 1 else rank ! i)
                   [0..<FAT_CACHE_CNT]
      in fd\<lparr>ft_cache_rank := rank[idx := 0]\<rparr>)"

text \<open>The search of \<open>_fat_try_cache\<close>: the first entry from \<open>i\<close> on that holds the cluster.\<close>

fun cache_find :: "u32 list \<Rightarrow> u32 \<Rightarrow> nat \<Rightarrow> nat option" where
  "cache_find [] clust i = None"
| "cache_find (c # cs) clust i = (if c = clust then Some i else cache_find cs clust (Suc i))"

definition cache_slot :: "fat_data \<Rightarrow> nat \<Rightarrow> u32" where
  "cache_slot fd i = ft_cache_buf fd + of_nat i * ucast (ft_cluster_size fd)"

definition fat_try_cache ::
  "fat_data \<Rightarrow> u32 \<Rightarrow> u32 \<Rightarrow> 'd world \<Rightarrow> bool \<times> fat_data \<times> 'd world" where
  "fat_try_cache fd buf clust w =
     (case cache_find (ft_cache_clust fd) clust 0 of
        Some i \<Rightarrow>
          let fd = (if ft_cache_rank fd ! i \<noteq> 0 then fat_cache_touch fd i else fd);
              w = w\<lparr>w_mem := mem_copy (w_mem w) buf (cache_slot fd i) (unat (ft_cluster_size fd))\<rparr>
          in (True, fd, w)
      | None \<Rightarrow> (False, fd, w))"

definition oldest_entry :: "u8 list \<Rightarrow> nat" where
  "oldest_entry rank = fold (\<lambda>i entry. if rank ! i > rank ! entry then i else entry) [1..<FAT_CACHE_CNT] 0"

definition fat_add_cache :: "fat_data \<Rightarrow> u32 \<Rightarrow> u32 \<Rightarrow> 'd world \<Rightarrow> fat_data \<times> 'd world" where
  "fat_add_cache fd buf clust w =
     (let entry = oldest_entry (ft_cache_rank fd);
          fd = fd\<lparr>ft_cache_clust := (ft_cache_clust fd)[entry := clust]\<rparr>;
          w = w\<lparr>w_mem := mem_copy (w_mem w) (cache_slot fd entry) buf (unat (ft_cluster_size fd))\<rparr>
      in (fat_cache_touch fd entry, w))"

section \<open>The file allocation table\<close>

text \<open>\<open>_fat_read_fat_data\<close>: \<open>sz\<close> bytes of the table at \<open>off\<close>, through the cache.\<close>

definition fat_read_fat_data ::
  "'d reader \<Rightarrow> u32 \<Rightarrow> u32 \<Rightarrow> u8 \<Rightarrow> fat_data \<times> 'd world \<Rightarrow> (u32 \<times> fat_data \<times> 'd world) res" where
  "fat_read_fat_data rd tmp off sz s =
     (case s of (fd, w) \<Rightarrow>
        if ft_sector_size fd = 0 then Inl Fault
        else
          let read_addr = off - of_int (sint off smod uint (ft_sector_size fd));
              data = (\<lambda>(fd, w).
                let v = load32 (w_mem w) (tmp + (off - read_addr))
                in (if sz = 1 then v AND 0x000000FF
                    else if sz = 2 then v AND 0x0000FFFF
                    else if sz = 3 then v AND 0x00FFFFFF
                    else if sz = 4 then v AND 0xFFFFFFFF
                    else 0xFFFFFFFF, fd, w))
          in (case fat_try_cache fd tmp read_addr w of
                (True, fd, w) \<Rightarrow> Inr (data (fd, w))
              | (False, fd, w) \<Rightarrow>
                  bnd (rd tmp read_addr (ucast (ft_cluster_size fd)) w) (\<lambda>(r, w).
                    if r \<noteq> ucast (ft_cluster_size fd) then Inr (0xffffffff, fd, w)
                    else Inr (data (fat_add_cache fd tmp read_addr w)))))"

definition fat_get_fat_entry ::
  "'d reader \<Rightarrow> u32 \<Rightarrow> u32 \<Rightarrow> fat_data \<times> 'd world \<Rightarrow> (u32 \<times> fat_data \<times> 'd world) res" where
  "fat_get_fat_entry rd tmp clust_num s =
     (case s of (fd, w) \<Rightarrow>
        let off = ft_fat_offset fd + clust_num * 3 div 2;
            cs = uint (ft_cluster_size fd);
            finish = (\<lambda>(e :: u32, s).
              let e = (ucast e :: u16); e = (if clust_num AND 1 \<noteq> 0 then drop_bit 4 e else e)
              in Inr ((ucast e :: u32) AND 0xfff, s))
        in if cs = 0 then Inl Fault
           else if sint off smod cs = cs - 1 then
             bnd (fat_read_fat_data rd tmp off 1 s) (\<lambda>(lo, s).
             bnd (fat_read_fat_data rd tmp (off + 1) 1 s) (\<lambda>(hi, s).
               finish (lo OR push_bit 8 hi, s)))
           else bnd (fat_read_fat_data rd tmp off 2 s) finish)"

definition fat_get_next_cluster ::
  "'d reader \<Rightarrow> u32 \<Rightarrow> u32 \<Rightarrow> fat_data \<times> 'd world \<Rightarrow> (u32 \<times> fat_data \<times> 'd world) res" where
  "fat_get_next_cluster rd tmp clust s =
     (case s of (fd, w) \<Rightarrow>
        let cs = (ucast (ft_cluster_size fd) :: u32)
        in if clust <s ft_data_offset fd then
             (if clust <s fh_first_cluster (ft_rootdir fd) then Inr (0, s)
              else if clust + cs <s ft_data_offset fd then Inr (clust + cs, s)
              else Inr (0, s))
           else if cs = 0 then Inl Fault
           else
             let clust_num = (of_int (sint (clust - ft_data_offset fd) sdiv sint cs) :: u32) + 2
             in bnd (fat_get_fat_entry rd tmp clust_num s) (\<lambda>(fat_entry, s).
                  Inr (if fat_entry \<ge> 0x002 \<and> fat_entry \<le> 0xff0
                       then ft_data_offset fd + (fat_entry - 2) * cs else 0, s)))"

section \<open>Reading a file\<close>

text \<open>
  The loop that goes to the cluster of the offset. The size \<open>cs\<close> of a cluster is not zero when the
  loops are reached, since the allocation of a buffer of that size has succeeded; the branch
  for zero only makes them total. \<open>None\<close> is the early return with -1.
\<close>

function fat_seek ::
  "'d reader \<Rightarrow> u32 \<Rightarrow> nat \<Rightarrow> u32 \<Rightarrow> int \<Rightarrow> fat_data \<times> 'd world
     \<Rightarrow> ((u32 \<times> int) option \<times> fat_data \<times> 'd world) res" where
  "fat_seek rd tmp cs cluster off s =
     (if cs = 0 then Inl Fault
      else if off \<ge> int cs then
        bnd (fat_get_next_cluster rd tmp cluster s) (\<lambda>(cluster, s).
          if cluster = 0 then Inr (None, s)
          else fat_seek rd tmp cs cluster (off - int cs) s)
      else Inr (Some (cluster, off), s))"
  by pat_completeness auto
termination by (relation "measure (\<lambda>(rd, tmp, cs, cluster, off, s). nat off)") auto

text \<open>
  The copying loop, \<open>pos\<close> bytes done: the result is whether it ran to its end. \<open>pos\<close> is a number,
  as the sizes that would make the 32-bit counter wrap do not fit in the memory.
\<close>

function fat_read_loop ::
  "'d reader \<Rightarrow> u32 \<Rightarrow> u32 \<Rightarrow> nat \<Rightarrow> nat \<Rightarrow> u32 \<Rightarrow> int \<Rightarrow> nat \<Rightarrow> fat_data \<times> 'd world
     \<Rightarrow> (bool \<times> fat_data \<times> 'd world) res" where
  "fat_read_loop rd tmp buf sz cs cluster off pos s =
     (if cs = 0 then Inl Fault
      else if pos < sz then
        (case s of (fd, w) \<Rightarrow>
          bnd (rd tmp cluster (of_nat cs) w) (\<lambda>(r, w).
          if r \<noteq> of_nat cs then Inr (False, fd, w)
          else
            let room = (of_int (int cs - off) :: u32)
            in if (of_nat (sz - pos) :: u32) \<le> room then
                 let w = w\<lparr>w_mem := mem_copy (w_mem w) (buf + of_nat pos) (tmp + of_int off) (sz - pos)\<rparr>
                 in fat_read_loop rd tmp buf sz cs cluster 0 (pos + cs) (fd, w)
               else
                 let w = w\<lparr>w_mem := mem_copy (w_mem w) (buf + of_nat pos) tmp (unat room)\<rparr>
                 in bnd (fat_get_next_cluster rd tmp cluster (fd, w)) (\<lambda>(cluster, s).
                      if cluster = 0 then Inr (False, s)
                      else fat_read_loop rd tmp buf sz cs cluster 0 (pos + cs) s)))
      else Inr (True, s))"
  by pat_completeness auto
termination by (relation "measure (\<lambda>(rd, tmp, buf, sz, cs, cluster, off, pos, s). sz - pos)") auto

declare fat_seek.simps [simp del] fat_read_loop.simps [simp del]

definition fat_file_read ::
  "'d reader \<Rightarrow> file_hand \<Rightarrow> u32 \<Rightarrow> u32 \<Rightarrow> u32 \<Rightarrow> fat_data \<times> 'd world
     \<Rightarrow> (u32 \<times> fat_data \<times> 'd world) res" where
  "fat_file_read rd file buf sz off s =
     (case s of (fd, w) \<Rightarrow>
        if fh_attr file AND FS_FILEATTR_DIRECTORY = 0 \<and> off + sz > fh_size file then Inl Panic
        else
          let cs = ft_cluster_size fd
          in bnd (walloc (ucast cs) ALLOC_FLAG_16B w) (\<lambda>(tmp, w).
             bnd (fat_seek rd tmp (unat cs) (fh_first_cluster file) (sint off) (fd, w)) (\<lambda>(r, fd, w).
             case r of
               None \<Rightarrow> bnd (wfree tmp w) (\<lambda>w. Inr (-1, fd, w))
             | Some (cluster, off) \<Rightarrow>
                 bnd (fat_read_loop rd tmp buf (unat sz) (unat cs) cluster off 0 (fd, w))
                   (\<lambda>(ok, fd, w). bnd (wfree tmp w) (\<lambda>w. Inr (if ok then sz else -1, fd, w))))))"

section \<open>Directories\<close>

text \<open>
  \<open>_fat_strcmp\<close>; the directory entry's name is given from the index \<open>fidx\<close> on, with all that
  follows it in the buffer.
\<close>

fun skip_spaces :: "u8 list \<Rightarrow> nat \<Rightarrow> (u8 list \<times> nat) res" where
  "skip_spaces [] fidx = Inl Fault"
| "skip_spaces (c # cs) fidx = (if c = 32 then skip_spaces cs (Suc fidx) else Inr (c # cs, fidx))"

fun only_spaces :: "u8 list \<Rightarrow> nat \<Rightarrow> int res" where
  "only_spaces cs 0 = Inr 0"
| "only_spaces [] (Suc n) = Inl Fault"
| "only_spaces (c # cs) (Suc n) = (if c \<noteq> 32 then Inr (-1) else only_spaces cs n)"

fun fat_strcmp_at :: "u8 list \<Rightarrow> nat \<Rightarrow> u8 list \<Rightarrow> int res" where
  "fat_strcmp_at fat_name fidx [] = Inl Fault"
| "fat_strcmp_at fat_name fidx (c # filename) =
     (if c \<noteq> 0 then
        if c = 46 then bnd (skip_spaces fat_name fidx) (\<lambda>(fat_name, fidx).
          fat_strcmp_at fat_name fidx filename)
        else (case fat_name of
                [] \<Rightarrow> Inl Fault
              | f # fs \<Rightarrow> if f \<noteq> c then Inr (-1) else fat_strcmp_at fs (Suc fidx) filename)
      else only_spaces fat_name (11 - fidx))"

definition fat_strcmp :: "u8 list \<Rightarrow> u8 list \<Rightarrow> int res" where
  "fat_strcmp fat_name filename = fat_strcmp_at fat_name 0 filename"

text \<open>\<open>_fat_pop_file\<close>: the handle for the entry at the address \<open>dent\<close>.\<close>

definition fat_pop_file :: "fat_data \<Rightarrow> u32 \<Rightarrow> 'd world \<Rightarrow> (file_hand \<times> 'd world) res" where
  "fat_pop_file fd dent w =
     bnd (walloc sizeof_fat_file_data 0 w) (\<lambda>(filedata, w).
       let m = w_mem w
       in Inr (\<lparr>fh_data = filedata,
                fh_first_cluster = ft_data_offset fd +
                  (ucast (de_start_cluster m dent) - 2) * ucast (ft_cluster_size fd),
                fh_size = de_filesize m dent,
                fh_attr = (if de_attr m dent AND FAT_DIRENT_ATTR_DIRECTORY \<noteq> 0
                           then FS_FILEATTR_DIRECTORY else FS_FILEATTR_FILE)\<rparr>, w))"

definition dirent_skipped :: "u8 \<Rightarrow> bool" where
  "dirent_skipped attr \<longleftrightarrow> attr AND (FAT_DIRENT_ATTR_VOLUMELABEL OR FAT_DIRENT_ATTR_DEVICE OR
     FAT_DIRENT_ATTR_RESERVED) \<noteq> 0"

text \<open>The scan of the \<open>n\<close> entries of one cluster, from the entry \<open>i\<close> on.\<close>

fun scan_dirents :: "memory \<Rightarrow> u32 \<Rightarrow> nat \<Rightarrow> u8 list \<Rightarrow> nat \<Rightarrow> nat \<Rightarrow> nat option res" where
  "scan_dirents m dirents cs name i 0 = Inr None"
| "scan_dirents m dirents cs name i (Suc n) =
     (let a = dirents + 32 * of_nat i
      in bnd (fat_strcmp (mem_get m a (cs - 32 * i)) name) (\<lambda>r.
           if r = 0 \<and> \<not> dirent_skipped (de_attr m a) then Inr (Some i)
           else scan_dirents m dirents cs name (Suc i) n))"

text \<open>
  The loop \<open>while(1)\<close> over the clusters of the directory. A directory whose cluster chain is a
  cycle has no end, so the number of clusters looked at is bounded by \<open>fuel\<close>.
\<close>

fun find_loop ::
  "nat \<Rightarrow> 'd reader \<Rightarrow> file_hand \<Rightarrow> u32 \<Rightarrow> u8 list \<Rightarrow> u32 \<Rightarrow> fat_data \<times> 'd world
     \<Rightarrow> (nat option \<times> fat_data \<times> 'd world) res" where
  "find_loop 0 rd dir dirents name pos s = Inl Loop"
| "find_loop (Suc fuel) rd dir dirents name pos s =
     bnd (fat_file_read rd dir dirents (ucast (ft_cluster_size (fst s))) pos s) (\<lambda>(r, fd, w).
       let cs = ft_cluster_size fd
       in if r \<noteq> ucast cs then Inr (None, fd, w)
          else bnd (scan_dirents (w_mem w) dirents (unat cs) name 0 (unat cs div 32)) (\<lambda>i.
            case i of
              Some i \<Rightarrow> Inr (Some i, fd, w)
            | None \<Rightarrow> find_loop fuel rd dir dirents name (pos + ucast cs) (fd, w)))"

definition fat_fs_find ::
  "nat \<Rightarrow> 'd reader \<Rightarrow> file_hand option \<Rightarrow> u8 list \<Rightarrow> fat_data \<times> 'd world
     \<Rightarrow> (int \<times> file_hand option \<times> fat_data \<times> 'd world) res" where
  "fat_fs_find fuel rd dir name s =
     (case s of (fd, w) \<Rightarrow>
        let dir = (case dir of None \<Rightarrow> ft_rootdir fd | Some d \<Rightarrow> d)
        in if fh_data dir = 0 then Inl Panic
           else bnd (strcmp name (cstr ''.'')) (\<lambda>r.
             if r = 0 then
               bnd (walloc sizeof_fat_file_data 0 w) (\<lambda>(a, w).
                 Inr (0, Some (dir\<lparr>fh_data := a\<rparr>), fd, w))
             else
               bnd (walloc (ucast (ft_cluster_size fd)) 0 w) (\<lambda>(dirents, w).
               bnd (find_loop fuel rd dir dirents name 0 (fd, w)) (\<lambda>(i, fd, w).
               case i of
                 Some i \<Rightarrow>
                   bnd (fat_pop_file fd (dirents + 32 * of_nat i) w) (\<lambda>(file, w).
                   bnd (wfree dirents w) (\<lambda>w. Inr (0, Some file, fd, w)))
               | None \<Rightarrow> bnd (wfree dirents w) (\<lambda>w. Inr (-1, None, fd, w))))))"

text \<open>\<open>is_rootdir\<close>: the handle is the static one of the root directory.\<close>

definition fat_file_close :: "bool \<Rightarrow> file_hand \<Rightarrow> 'd world \<Rightarrow> (int \<times> 'd world) res" where
  "fat_file_close is_rootdir file w =
     (if is_rootdir then Inl Panic else bnd (wfree (fh_data file) w) (\<lambda>w. Inr (0, w)))"

end
