(* ===== verification/Fat_Names.thy ===== *)
theory Fat_Names
  imports Fat
begin

text \<open>
  Two parts of the FAT12 driver that need no device: the comparison of a directory entry's name
  with a file name, and the replacement policy of the cache of table sectors.
\<close>

unbundle bit_operations_syntax

section \<open>File names\<close>

text \<open>The eleven bytes of a directory entry for a base name and an extension, and the name as text.\<close>

definition name_part :: "nat \<Rightarrow> u8 list \<Rightarrow> bool" where
  "name_part n s \<longleftrightarrow> length s \<le> n \<and> 0 \<notin> set s \<and> 32 \<notin> set s \<and> 46 \<notin> set s"

definition name83 :: "u8 list \<Rightarrow> u8 list \<Rightarrow> u8 list" where
  "name83 b e = b @ replicate (8 - length b) 32 @ e @ replicate (3 - length e) 32"

definition name_text :: "u8 list \<Rightarrow> u8 list \<Rightarrow> u8 list" where
  "name_text b e = (if e = [] then b else b @ 46 # e)"

definition padded :: "u8 list \<Rightarrow> u8 list" where
  "padded s = s @ replicate (11 - length s) 32"

lemma strcmp_at_prefix:
  assumes "0 \<notin> set b" and "46 \<notin> set b" and "length b \<le> length nm"
  shows "fat_strcmp_at nm i (b @ t) =
    (if take (length b) nm = b then fat_strcmp_at (drop (length b) nm) (i + length b) t else Inr (-1))"
  using assms
proof (induction b arbitrary: nm i)
  case (Cons c b)
  then obtain x xs where "nm = x # xs" by (cases nm) auto
  with Cons show ?case by auto
qed simp

lemma skip_spaces_app:
  "x \<noteq> 32 \<Longrightarrow> skip_spaces (replicate k 32 @ x # xs) i = Inr (x # xs, i + k)"
  by (induction k arbitrary: i) auto

lemma skip_spaces_Inr:
  "skip_spaces s i = Inr (s', i') \<Longrightarrow> \<exists>k. s = replicate k 32 @ s' \<and> i' = i + k \<and> s' \<noteq> [] \<and> hd s' \<noteq> 32"
proof (induction s i rule: skip_spaces.induct)
  case (2 c cs i)
  show ?case
  proof (cases "c = 32")
    case True
    with 2 obtain k where "cs = replicate k 32 @ s'" "i' = Suc i + k" "s' \<noteq> [] \<and> hd s' \<noteq> 32" by auto
    with True show ?thesis by (intro exI [of _ "Suc k"]) auto
  next
    case False
    with 2 show ?thesis by (intro exI [of _ 0]) auto
  qed
qed simp

lemma only_spaces_eq:
  "n \<le> length s \<Longrightarrow> only_spaces s n = Inr (if take n s = replicate n 32 then 0 else -1)"
  by (induction s n rule: only_spaces.induct) auto

lemma length_name83: "name_part 8 b \<Longrightarrow> name_part 3 e \<Longrightarrow> length (name83 b e) = 11"
  by (auto simp: name_part_def name83_def)

lemma fat_strcmp_complete:
  assumes b: "name_part 8 b" and e: "name_part 3 e"
  shows "fat_strcmp (name83 b e @ rest) (name_text b e @ 0 # junk) = Inr 0"
proof (cases "e = []")
  case True
  have "replicate (8 - length b) 32 @ replicate 3 32 = replicate (11 - length b) (32 :: u8)"
    using b by (simp add: name_part_def flip: replicate_add)
  then have n: "name83 b e @ rest = b @ replicate (11 - length b) 32 @ rest"
    using True by (simp add: name83_def)
  show ?thesis
    unfolding n fat_strcmp_def name_text_def if_P [OF True]
    using b by (subst strcmp_at_prefix) (auto simp: name_part_def only_spaces_eq)
next
  case False
  then obtain x xs where x: "e = x # xs" by (cases e) auto
  let ?k = "8 - length b"
  have "fat_strcmp_at (name83 b e @ rest) 0 (b @ 46 # e @ 0 # junk) =
      fat_strcmp_at (replicate ?k 32 @ e @ replicate (3 - length e) 32 @ rest) (length b) (46 # e @ 0 # junk)"
    using b by (subst strcmp_at_prefix) (auto simp: name_part_def name83_def)
  also have "\<dots> = fat_strcmp_at (e @ replicate (3 - length e) 32 @ rest) 8 (e @ 0 # junk)"
    using b e x skip_spaces_app [of x ?k "xs @ replicate (3 - length e) 32 @ rest" "length b"]
    by (simp add: name_part_def)
  also have "\<dots> = Inr 0"
    using e by (subst strcmp_at_prefix) (auto simp: name_part_def only_spaces_eq)
  finally show ?thesis using False by (simp add: fat_strcmp_def name_text_def)
qed

text \<open>What a successful comparison says of the entry.\<close>

lemma take_padded:
  assumes "length b \<le> 11" and "take (11 - length b) t = replicate (11 - length b) 32"
  shows "take 11 (b @ t) = padded b"
  using assms by (simp add: padded_def)

text \<open>Where the base name of an entry ends is where its first space is.\<close>

lemma base_ends:
  assumes b: "name_part 8 b" and b2: "name_part 8 b2"
    and t: "take (length b) (name83 b2 e2) = b" and sp: "name83 b2 e2 ! length b = 32"
  shows "b = b2"
proof -
  have n: "name83 b2 e2 = b2 @ (replicate (8 - length b2) 32 @ e2 @ replicate (3 - length e2) 32)"
    by (simp add: name83_def)
  have "\<not> length b < length b2"
  proof
    assume "length b < length b2"
    then have "b2 ! length b = 32" using sp by (simp add: n nth_append)
    with \<open>length b < length b2\<close> show False using b2 by (auto simp: name_part_def dest: nth_mem)
  qed
  moreover have "\<not> length b2 < length b"
  proof
    assume l: "length b2 < length b"
    then have "b ! length b2 = name83 b2 e2 ! length b2" using t by (metis nth_take)
    also have "\<dots> = 32" using l b by (simp add: n nth_append name_part_def)
    finally show False using l b by (auto simp: name_part_def dest: nth_mem)
  qed
  ultimately have "length b = length b2" by simp
  with t show ?thesis by (simp add: n)
qed

text \<open>The end of a successful comparison: the extension, then spaces up to the eleventh byte.\<close>

lemma ext_match:
  assumes e: "name_part 3 e" and m: "fat_strcmp_at s i (e @ 0 # junk) = Inr 0"
    and l: "11 - i \<le> length s" "length e \<le> length s" "i + length e \<le> 11"
  shows "take (11 - i) s = e @ replicate (11 - i - length e) 32"
proof -
  have te: "take (length e) s = e" and r: "only_spaces (drop (length e) s) (11 - (i + length e)) = Inr 0"
    using m e l by (auto simp: strcmp_at_prefix name_part_def split: if_splits)
  have "take (11 - (i + length e)) (drop (length e) s) = replicate (11 - (i + length e)) 32"
    using r l by (simp add: only_spaces_eq split: if_splits)
  moreover have "take (11 - i) s = take (length e) s @ take (11 - (i + length e)) (drop (length e) s)"
    using l take_add [of "length e" "11 - (i + length e)" s] by simp
  ultimately show ?thesis using te by simp
qed

lemma fat_strcmp_sound:
  assumes b: "name_part 8 b" and e: "name_part 3 e"
    and b2: "name_part 8 b2" and e2: "name_part 3 e2"
    and m: "fat_strcmp (name83 b2 e2 @ rest) (name_text b e @ 0 # junk) = Inr 0"
  shows "name83 b2 e2 = name83 b e \<or> e \<noteq> [] \<and> (name83 b2 e2 = padded (b @ e) \<or> name83 b2 e2 = padded b)"
proof -
  let ?n = "name83 b2 e2"
  have l: "length ?n = 11" by (rule length_name83 [OF b2 e2])
  have lb: "length b \<le> 8" "length e \<le> 3" using b e by (simp_all add: name_part_def)
  have nb: "0 \<notin> set b" "46 \<notin> set b" "0 \<notin> set e" "46 \<notin> set e" "32 \<notin> set e" "32 \<notin> set b"
    using b e by (simp_all add: name_part_def)
  let ?t = "(if e = [] then [] else 46 # e) @ 0 # junk"
  have "name_text b e @ 0 # junk = b @ ?t" by (simp add: name_text_def)
  then have m1: "fat_strcmp_at (?n @ rest) 0 (b @ ?t) = Inr 0" using m by (simp add: fat_strcmp_def)
  then have tb: "take (length b) ?n = b" and m2: "fat_strcmp_at (drop (length b) (?n @ rest)) (length b) ?t = Inr 0"
    using lb l nb by (auto simp: strcmp_at_prefix split: if_splits)
  have nbd: "?n = b @ drop (length b) ?n" using tb by (metis append_take_drop_id)
  show ?thesis
  proof (cases "e = []")
    case True
    have "take (11 - length b) (drop (length b) ?n) = replicate (11 - length b) 32"
      using m2 True l lb by (simp add: only_spaces_eq split: if_splits)
    then have "take 11 (b @ drop (length b) ?n) = padded b"
      using lb by (intro take_padded) simp_all
    then have "?n = padded b" using nbd l by simp
    moreover have "padded b = name83 b e"
      using True lb by (simp add: padded_def name83_def flip: replicate_add)
    ultimately show ?thesis by simp
  next
    case False
    then obtain s i where sk: "skip_spaces (drop (length b) (?n @ rest)) (length b) = Inr (s, i)"
      and m3: "fat_strcmp_at s i (e @ 0 # junk) = Inr 0"
      using m2 by (auto simp: bnd_eq_Inr split: prod.splits)
    obtain k where k: "drop (length b) (?n @ rest) = replicate k 32 @ s" "i = length b + k"
      "s \<noteq> []" "hd s \<noteq> 32" using skip_spaces_Inr [OF sk] by blast
    have d: "drop (length b) (?n @ rest) = drop (length b) ?n @ rest" using l lb by simp
    show ?thesis
    proof (cases "11 \<le> length b + k")
      case True
      have "take (11 - length b) (drop (length b) ?n @ rest) = replicate (11 - length b) 32"
        unfolding d [symmetric] k(1) using True by (auto simp: min_def)
      then have "take (11 - length b) (drop (length b) ?n) = replicate (11 - length b) 32"
        using l by simp
      then have "take 11 (b @ drop (length b) ?n) = padded b"
        using lb by (intro take_padded) simp_all
      then show ?thesis using nbd l False by simp
    next
      case short: False
      have ns: "name83 b2 e2 ! length b = (if k = 0 then hd s else 32)"
      proof -
        have "name83 b2 e2 ! length b = (drop (length b) (?n @ rest)) ! 0"
          using l lb by (simp add: nth_append)
        then show ?thesis using k(1,3) by (cases k) (auto simp: hd_conv_nth)
      qed
      show ?thesis
      proof (cases "k = 0")
        case True
        have s: "s = drop (length b) ?n @ rest" using k(1) d True by simp
        have "take (11 - length b) s = e @ replicate (11 - length b - length e) 32"
          using m3 k(2) True lb l s by (intro ext_match [OF e]) simp_all
        then have "drop (length b) ?n = e @ replicate (11 - length b - length e) 32"
          using l s by simp
        then show ?thesis using nbd False by (simp add: padded_def)
      next
        case k0: False
        then have eq: "b = b2" using base_ends [OF b b2 tb] ns by simp
        then have dn: "drop (length b) (?n @ rest) = replicate (8 - length b) 32 @ e2 @ replicate (3 - length e2) 32 @ rest"
          by (simp add: name83_def)
        show ?thesis
        proof (cases "e2 = []")
          case True
          then have "drop (length b) (?n @ rest) = replicate (11 - length b) 32 @ rest"
            using dn lb by (simp flip: replicate_add append_assoc)
          then have A: "replicate k 32 @ s = replicate (11 - length b) 32 @ rest"
            unfolding k(1) by simp
          have "k < 11 - length b" using short by simp
          then have "(replicate k 32 @ s) ! k = 32" unfolding A by (simp add: nth_append)
          then show ?thesis using k(3,4) by (simp add: nth_append hd_conv_nth)
        next
          case ne: False
          then obtain y ys where y: "e2 = y # ys" "y \<noteq> 32" using e2 by (cases e2) (auto simp: name_part_def)
          have "skip_spaces (drop (length b) (?n @ rest)) (length b) =
              Inr (e2 @ replicate (3 - length e2) 32 @ rest, length b + (8 - length b))"
            using dn y skip_spaces_app [of y "8 - length b" "ys @ replicate (3 - length e2) 32 @ rest" "length b"]
            by simp
          then have s: "s = e2 @ replicate (3 - length e2) 32 @ rest" and i: "i = 8"
            using sk lb by simp_all
          have l2: "length e2 \<le> 3" using e2 by (simp add: name_part_def)
          have "take (11 - 8) s = e @ replicate (11 - 8 - length e) 32"
            using m3 i lb l2 s by (intro ext_match [OF e]) simp_all
          then have "e2 @ replicate (3 - length e2) 32 = e @ replicate (3 - length e) 32"
            using s l2 by simp
          then show ?thesis using eq by (simp add: name83_def)
        qed
      qed
    qed
  qed
qed

section \<open>The replacement policy of the cache\<close>

text \<open>
  The ranks are meant to order the entries by their last use, but nothing ever sets them up: from
  memory that happens to be zero they stay zero, and the entry replaced is always the first.
\<close>

lemma fat_cache_ranks_zero:
  assumes "ft_cache_rank fd = [0, 0, 0, 0]" and "idx < FAT_CACHE_CNT"
  shows "ft_cache_rank (fat_cache_touch fd idx) = [0, 0, 0, 0]" and "oldest_entry (ft_cache_rank fd) = 0"
proof -
  have "idx = 0 \<or> idx = 1 \<or> idx = 2 \<or> idx = 3" using assms(2) by (auto simp: FAT_CACHE_CNT_def)
  then show "ft_cache_rank (fat_cache_touch fd idx) = [0, 0, 0, 0]"
    using assms(1) by (auto simp: fat_cache_touch_def FAT_CACHE_CNT_def upt_rec)
  show "oldest_entry (ft_cache_rank fd) = 0"
    using assms(1) by (simp add: oldest_entry_def FAT_CACHE_CNT_def upt_rec)
qed

section \<open>Properties\<close>

text \<open>
  C18: For a directory entry with a valid short name and a file name of a base of at most eight
  characters and an extension of at most three, the comparison succeeds when the entry has that
  name; when it succeeds, the entry has that name, or else the file name has an extension and the
  eleven bytes of the entry are the base and the extension run together, or the base alone.
\<close>

theorem fat_strcmp_83:
  assumes b: "name_part 8 b" and e: "name_part 3 e" and b2: "name_part 8 b2" and e2: "name_part 3 e2"
  shows "(name83 b2 e2 = name83 b e \<longrightarrow> fat_strcmp (name83 b2 e2 @ rest) (name_text b e @ 0 # junk) = Inr 0) \<and>
    (fat_strcmp (name83 b2 e2 @ rest) (name_text b e @ 0 # junk) = Inr 0 \<longrightarrow>
       name83 b2 e2 = name83 b e \<or>
       e \<noteq> [] \<and> (name83 b2 e2 = padded (b @ e) \<or> name83 b2 e2 = padded b))"
  using fat_strcmp_complete [OF b e] fat_strcmp_sound [OF b e b2 e2] by auto

text \<open>The two wrong matches do occur: \<open>A.B\<close> opens the file \<open>AB\<close>, and \<open>A.B\<close> can open \<open>A\<close>.\<close>

lemma fat_strcmp_dot_ignored:
  "fat_strcmp (name83 (bytes_of ''AB'') [] @ replicate 21 0) (cstr ''A.B'') = Inr 0"
  by code_simp

lemma fat_strcmp_overrun:
  "fat_strcmp (name83 (bytes_of ''A'') [] @ 32 # bytes_of ''B'' @ replicate 19 0) (cstr ''A.B'') = Inr 0"
  by code_simp

theorem fat_strcmp_83_witness:
  "fat_strcmp (name83 (bytes_of ''LBOOT'') (bytes_of ''CFG'') @ replicate 21 0)
     (name_text (bytes_of ''LBOOT'') (bytes_of ''CFG'') @ 0 # []) = Inr 0"
  using fat_strcmp_83 [of "bytes_of ''LBOOT''" "bytes_of ''CFG''" "bytes_of ''LBOOT''" "bytes_of ''CFG''"
    "replicate 21 0" "[]"]
  by (simp add: name_part_def bytes_of_def)

text \<open>The data of the file system of a standard floppy.\<close>

definition example_fat_data :: fat_data where
  "example_fat_data = \<lparr>ft_sector_size = 512, ft_cluster_size = 512, ft_fat_offset = 512,
     ft_fat_size = 4608, ft_data_offset = 16896,
     ft_rootdir = \<lparr>fh_data = 0x70000, fh_first_cluster = 9728, fh_size = 0, fh_attr = 2\<rparr>,
     ft_cache_clust = [0, 0, 0, 0], ft_cache_rank = [0, 1, 2, 3], ft_cache_buf = 0x90000\<rparr>"

end
