(* ===== verification/Fat_Facts.thy ===== *)
theory Fat_Facts
  imports Fat_Names Storage_Bios
begin

text \<open>
  Correctness of the FAT12 file system of \<open>Fat\<close>: the cache of table sectors is coherent with the
  medium, a table entry read through it is the entry of the medium, clusters are followed as the
  table says, and a file read gives the bytes of its cluster chain. The client's side is the
  locale \<open>reliable_device\<close>, a storage device whose reads succeed while it is \<open>good\<close>.
\<close>

unbundle bit_operations_syntax

section \<open>Bytes and words\<close>

lemma load32_byte: "load32 m a AND 0x000000FF = ucast (m a)"
proof -
  have m: "(0xFF :: u32) = mask 8" by (simp add: mask_eq_exp_minus_1)
  show ?thesis unfolding m
    by (intro bit_word_eqI) (auto simp: load32_def bit_simps dest: bit_imp_le_length)
qed

lemma load32_half: "load32 m a AND 0x0000FFFF = ucast (load16 m a)"
proof -
  have m: "(0xFFFF :: u32) = mask 16" by (simp add: mask_eq_exp_minus_1)
  show ?thesis unfolding m
    by (intro bit_word_eqI) (auto simp: load32_def load16_def bit_simps dest: bit_imp_le_length)
qed

lemma or_byte: "ucast (b :: u8) OR push_bit 8 (ucast c) = (ucast b + 256 * ucast c :: u16)"
proof -
  have "ucast b AND push_bit 8 (ucast c) = (0 :: u16)"
    by (rule bit_word_eqI) (auto simp: bit_simps dest: bit_imp_le_length)
  then have "ucast b OR push_bit 8 (ucast c) = (ucast b + push_bit 8 (ucast c) :: u16)"
    by (simp add: disjunctive_add_eq_or)
  then show ?thesis by (simp add: push_bit_eq_mult mult.commute)
qed

lemma unat_bytes: "unat (ucast (b :: u8) OR push_bit 8 (ucast (c :: u8)) :: u16) = unat b + 256 * unat c"
proof -
  have b: "unat b < 256" "unat c < 256" using unsigned_less [of b] unsigned_less [of c] by simp_all
  have u: "unat (ucast b :: u16) = unat b" "unat (ucast c :: u16) = unat c"
    by simp_all
  have "unat (256 * ucast c :: u16) = 256 * unat c"
    using b by (simp add: unat_word_ariths u)
  moreover have "unat (ucast b + 256 * ucast c :: u16) = unat (ucast b :: u16) + unat (256 * ucast c :: u16)"
    using b by (intro unat_add_no_wrap) (simp add: u calculation)
  ultimately show ?thesis by (simp add: or_byte u)
qed

lemma unat_load16: "unat (load16 m a) = unat (m a) + 256 * unat (m (a + 1))"
  by (simp add: load16_def unat_bytes)

text \<open>The twelve bits of an entry out of the two bytes that hold it.\<close>

lemma unat_low12: "unat (ucast (e :: u16) AND 0xfff :: u32) = unat e mod 4096"
proof -
  have m: "(0xfff :: u32) = mask 12" by (simp add: mask_eq_exp_minus_1)
  show ?thesis
    unfolding m by (simp add: take_bit_eq_mod unat_mod_distrib flip: take_bit_eq_mask)
qed

text \<open>The entry \<open>n\<close> of the table at \<open>fo\<close> of a medium, and the cluster it leads to.\<close>

definition fat_entry_at :: "(nat \<Rightarrow> u8) \<Rightarrow> nat \<Rightarrow> nat \<Rightarrow> nat" where
  "fat_entry_at f fo n =
     (let a = fo + n * 3 div 2; v = unat (f a) + 256 * unat (f (a + 1))
      in if odd n then v div 16 else v mod 4096)"

lemma entry_bits:
  assumes "unat e = unat (f (fo + unat n * 3 div 2)) + 256 * unat (f (fo + unat n * 3 div 2 + 1))"
  shows "unat (ucast (if n AND 1 \<noteq> 0 then drop_bit 4 e else e :: u16) AND 0xfff :: u32) =
    fat_entry_at f fo (unat (n :: u32))"
proof -
  have "unat e < 65536" using unsigned_less [of e] by simp
  then have d: "unat e div 16 mod 4096 = unat e div 16" by simp
  have "unat (drop_bit 4 e) = unat e div 16" by (simp add: drop_bit_eq_div unat_div_distrib)
  then show ?thesis
    unfolding unat_low12 odd_and_1 fat_entry_at_def Let_def assms [symmetric] using d by simp
qed

section \<open>Geometry and invariants\<close>

abbreviation sector_bytes_of :: "fat_data \<Rightarrow> nat" where
  "sector_bytes_of fd \<equiv> unat (ft_sector_size fd)"

abbreviation cluster_bytes :: "fat_data \<Rightarrow> nat" where
  "cluster_bytes fd \<equiv> unat (ft_cluster_size fd)"

text \<open>The layout of a file system on a medium of \<open>cap\<close> bytes the driver can work with.\<close>

definition fat_geom :: "nat \<Rightarrow> fat_data \<Rightarrow> bool" where
  "fat_geom cap fd \<longleftrightarrow>
     0 < sector_bytes_of fd \<and> sector_bytes_of fd mod 512 = 0 \<and>
     0 < cluster_bytes fd \<and> cluster_bytes fd mod sector_bytes_of fd = 0 \<and>
     unat (ft_fat_offset fd) mod sector_bytes_of fd = 0 \<and>
     unat (ft_fat_offset fd) + unat (ft_fat_size fd) + cluster_bytes fd \<le> cap \<and>
     unat (fh_first_cluster (ft_rootdir fd)) \<le> unat (ft_data_offset fd) \<and>
     unat (ft_data_offset fd) \<le> cap \<and>
     length (ft_cache_clust fd) = FAT_CACHE_CNT \<and> length (ft_cache_rank fd) = FAT_CACHE_CNT"

text \<open>Every cached cluster that starts in the table or behind it is what the medium holds there.\<close>

definition cache_ok :: "('d \<Rightarrow> nat \<Rightarrow> u8) \<Rightarrow> fat_data \<Rightarrow> 'd world \<Rightarrow> bool" where
  "cache_ok img fd w \<longleftrightarrow> (\<forall>i < FAT_CACHE_CNT.
     unat (ft_fat_offset fd) \<le> unat (ft_cache_clust fd ! i) \<longrightarrow>
     mem_get (w_mem w) (cache_slot fd i) (cluster_bytes fd) =
       map (img (w_dev w)) [unat (ft_cache_clust fd ! i)..<unat (ft_cache_clust fd ! i) + cluster_bytes fd])"

definition cache_block :: "fat_data \<Rightarrow> u32 set" where
  "cache_block fd = block (ft_cache_buf fd) (FAT_CACHE_CNT * cluster_bytes fd)"

text \<open>What the table functions may assume of the buffer \<open>tmp\<close>, and what they keep.\<close>

definition fs_ready :: "('d \<Rightarrow> nat \<Rightarrow> u8) \<Rightarrow> nat \<Rightarrow> ('d \<Rightarrow> bool) \<Rightarrow> u32 \<Rightarrow> fat_data \<times> 'd world \<Rightarrow> bool" where
  "fs_ready img cap good tmp s \<longleftrightarrow> (case s of (fd, w) \<Rightarrow>
     fat_geom cap fd \<and> cache_ok img fd w \<and> good (w_dev w) \<and>
     unat tmp + cluster_bytes fd \<le> 0x10000 \<and> block tmp (cluster_bytes fd) \<inter> cache_block fd = {})"

definition same_fs :: "fat_data \<Rightarrow> fat_data \<Rightarrow> bool" where
  "same_fs fd fd' \<longleftrightarrow>
     fd' = fd\<lparr>ft_cache_clust := ft_cache_clust fd', ft_cache_rank := ft_cache_rank fd'\<rparr>"

definition fs_step :: "('d \<Rightarrow> nat \<Rightarrow> u8) \<Rightarrow> u32 \<Rightarrow> fat_data \<times> 'd world \<Rightarrow> fat_data \<times> 'd world \<Rightarrow> bool" where
  "fs_step img tmp s s' \<longleftrightarrow> (case (s, s') of ((fd, w), (fd', w')) \<Rightarrow>
     same_fs fd fd' \<and> img (w_dev w') = img (w_dev w) \<and> w_heap w' = w_heap w \<and> w_if w' = w_if w \<and>
     (\<forall>x. x \<notin> block tmp (cluster_bytes fd) \<union> cache_block fd \<longrightarrow> w_mem w' x = w_mem w x))"

lemma same_fs_simps:
  assumes "same_fs fd fd'"
  shows "ft_sector_size fd' = ft_sector_size fd" "ft_cluster_size fd' = ft_cluster_size fd"
    "ft_fat_offset fd' = ft_fat_offset fd" "ft_fat_size fd' = ft_fat_size fd"
    "ft_data_offset fd' = ft_data_offset fd" "ft_rootdir fd' = ft_rootdir fd"
    "ft_cache_buf fd' = ft_cache_buf fd" "cache_slot fd' i = cache_slot fd i"
    "cache_block fd' = cache_block fd"
  by (subst assms [unfolded same_fs_def]; simp add: cache_slot_def cache_block_def)+

lemma same_fs_refl [simp]: "same_fs fd fd"
  by (simp add: same_fs_def)

lemma same_fs_trans: "same_fs fd fd' \<Longrightarrow> same_fs fd' fd'' \<Longrightarrow> same_fs fd fd''"
  unfolding same_fs_def by (cases fd, cases fd', cases fd'') simp

lemma fs_step_refl [simp]: "fs_step img tmp s s"
  by (simp add: fs_step_def split: prod.splits)

lemma fs_step_trans: "fs_step img tmp s s' \<Longrightarrow> fs_step img tmp s' s'' \<Longrightarrow> fs_step img tmp s s''"
  by (auto simp: fs_step_def same_fs_simps intro: same_fs_trans split: prod.splits)

text \<open>
  The cluster after the one at the offset \<open>c\<close>, 0 at the end: the root directory is contiguous, the
  data clusters are chained by the table.
\<close>

definition cluster_number :: "fat_data \<Rightarrow> nat \<Rightarrow> nat" where
  "cluster_number fd c = (c - unat (ft_data_offset fd)) div cluster_bytes fd + 2"

definition next_cluster_at :: "fat_data \<Rightarrow> (nat \<Rightarrow> u8) \<Rightarrow> nat \<Rightarrow> nat" where
  "next_cluster_at fd f c =
     (if c < unat (ft_data_offset fd) then
        if c < unat (fh_first_cluster (ft_rootdir fd)) then 0
        else if c + cluster_bytes fd < unat (ft_data_offset fd) then c + cluster_bytes fd
        else 0
      else
        let e = fat_entry_at f (unat (ft_fat_offset fd)) (cluster_number fd c)
        in if 2 \<le> e \<and> e \<le> 0xff0 then unat (ft_data_offset fd) + (e - 2) * cluster_bytes fd else 0)"

text \<open>The entry of the cluster at \<open>c\<close> is inside the table.\<close>

definition entry_in_fat :: "fat_data \<Rightarrow> nat \<Rightarrow> bool" where
  "entry_in_fat fd c \<longleftrightarrow> unat (ft_data_offset fd) \<le> c \<longrightarrow>
     cluster_number fd c * 3 div 2 + 2 \<le> unat (ft_fat_size fd)"

text \<open>The clusters of a file that starts at \<open>c\<close>, and its bytes.\<close>

primrec chain_at :: "fat_data \<Rightarrow> (nat \<Rightarrow> u8) \<Rightarrow> nat \<Rightarrow> nat \<Rightarrow> nat" where
  "chain_at fd f c 0 = c"
| "chain_at fd f c (Suc k) = next_cluster_at fd f (chain_at fd f c k)"

definition file_byte :: "fat_data \<Rightarrow> (nat \<Rightarrow> u8) \<Rightarrow> nat \<Rightarrow> nat \<Rightarrow> u8" where
  "file_byte fd f c p = f (chain_at fd f c (p div cluster_bytes fd) + p mod cluster_bytes fd)"

definition cluster_ok :: "nat \<Rightarrow> fat_data \<Rightarrow> nat \<Rightarrow> bool" where
  "cluster_ok cap fd c \<longleftrightarrow> c \<noteq> 0 \<and> c mod 512 = 0 \<and> c + cluster_bytes fd \<le> cap \<and> entry_in_fat fd c"

definition chain_ok :: "nat \<Rightarrow> fat_data \<Rightarrow> (nat \<Rightarrow> u8) \<Rightarrow> nat \<Rightarrow> nat \<Rightarrow> bool" where
  "chain_ok cap fd f c n \<longleftrightarrow> (\<forall>k < n. cluster_ok cap fd (chain_at fd f c k))"

lemma chain_at_shift: "chain_at fd f c (Suc k) = chain_at fd f (next_cluster_at fd f c) k"
  by (induction k) simp_all

lemma chain_ok_Suc:
  "chain_ok cap fd f c (Suc n) \<longleftrightarrow>
    cluster_ok cap fd c \<and> chain_ok cap fd f (next_cluster_at fd f c) n"
  unfolding chain_ok_def
  by (auto simp: chain_at_shift simp del: chain_at.simps(2) split: nat.splits)
    (metis chain_at.simps(1) chain_at_shift less_Suc_eq_0_disj)+

lemma chain_ok_mono: "chain_ok cap fd f c n \<Longrightarrow> m \<le> n \<Longrightarrow> chain_ok cap fd f c m"
  by (simp add: chain_ok_def)

lemma file_byte_first: "p < cluster_bytes fd \<Longrightarrow> file_byte fd f c p = f (c + p)"
  by (simp add: file_byte_def)

lemma file_byte_next:
  assumes "0 < cluster_bytes fd"
  shows "file_byte fd f c (cluster_bytes fd + p) = file_byte fd f (next_cluster_at fd f c) p"
proof -
  have "(cluster_bytes fd + p) div cluster_bytes fd = Suc (p div cluster_bytes fd)"
    using assms by (subst div_add_self1) simp_all
  then show ?thesis by (simp only: file_byte_def chain_at_shift mod_add_self1)
qed

lemma same_fs_next: "same_fs fd fd' \<Longrightarrow> next_cluster_at fd' = next_cluster_at fd"
  by (intro ext) (simp add: next_cluster_at_def cluster_number_def same_fs_simps Let_def)

lemma same_fs_chain: "same_fs fd fd' \<Longrightarrow> chain_at fd' f c k = chain_at fd f c k"
  by (induction k) (simp_all add: same_fs_next)

lemma same_fs_chain_ok: "same_fs fd fd' \<Longrightarrow> chain_ok cap fd' f c n = chain_ok cap fd f c n"
  by (simp add: chain_ok_def cluster_ok_def entry_in_fat_def cluster_number_def same_fs_chain same_fs_simps)

lemma same_fs_file_byte: "same_fs fd fd' \<Longrightarrow> file_byte fd' f c = file_byte fd f c"
  by (intro ext) (simp add: file_byte_def same_fs_chain same_fs_simps)

text \<open>Steps that also write the blocks of a caller's buffer.\<close>

definition fs_write ::
  "('d \<Rightarrow> nat \<Rightarrow> u8) \<Rightarrow> u32 \<Rightarrow> u32 set \<Rightarrow> fat_data \<times> 'd world \<Rightarrow> fat_data \<times> 'd world \<Rightarrow> bool" where
  "fs_write img tmp B s s' \<longleftrightarrow> (case (s, s') of ((fd, w), (fd', w')) \<Rightarrow>
     same_fs fd fd' \<and> img (w_dev w') = img (w_dev w) \<and> w_heap w' = w_heap w \<and> w_if w' = w_if w \<and>
     (\<forall>x. x \<notin> block tmp (cluster_bytes fd) \<union> cache_block fd \<union> B \<longrightarrow> w_mem w' x = w_mem w x))"

lemma fs_write_step: "fs_step img tmp s s' \<Longrightarrow> fs_write img tmp B s s'"
  by (auto simp: fs_step_def fs_write_def split: prod.splits)

lemma fs_write_trans:
  assumes "fs_write img tmp A s s'" and "fs_write img tmp B s' s''" and "A \<subseteq> C" and "B \<subseteq> C"
  shows "fs_write img tmp C s s''"
proof -
  have "\<forall>x. x \<notin> C \<longrightarrow> x \<notin> A \<and> x \<notin> B" using assms(3,4) by blast
  with assms(1,2) show ?thesis
    by (auto simp: fs_write_def same_fs_simps intro: same_fs_trans split: prod.splits)
qed

section \<open>The cache\<close>

lemma cache_slot_eq: "cache_slot fd i = ft_cache_buf fd + of_nat (i * cluster_bytes fd)"
proof -
  have "(ucast (ft_cluster_size fd) :: u32) = of_nat (cluster_bytes fd)" by simp
  then show ?thesis unfolding cache_slot_def by (simp only: of_nat_mult)
qed

lemma cluster_bytes_less: "cluster_bytes fd < 65536"
  using unsigned_less [of "ft_cluster_size fd"] by simp

lemma slot_subset:
  assumes "i < FAT_CACHE_CNT"
  shows "block (cache_slot fd i) (cluster_bytes fd) \<subseteq> cache_block fd"
proof -
  have "i * cluster_bytes fd + cluster_bytes fd \<le> FAT_CACHE_CNT * cluster_bytes fd"
    using assms by (metis add.commute mult_Suc mult_le_mono1 Suc_leI)
  moreover have "FAT_CACHE_CNT * cluster_bytes fd \<le> 2 ^ 32"
    using cluster_bytes_less [of fd] by (simp add: FAT_CACHE_CNT_def)
  ultimately show ?thesis
    unfolding cache_block_def cache_slot_eq by (intro block_add_subset) auto
qed

lemma slots_disjoint:
  assumes "i < FAT_CACHE_CNT" and "j < FAT_CACHE_CNT" and "i \<noteq> j"
  shows "block (cache_slot fd i) (cluster_bytes fd) \<inter> block (cache_slot fd j) (cluster_bytes fd) = {}"
proof -
  let ?c = "cluster_bytes fd"
  have b: "k * ?c + ?c \<le> 2 ^ 32" if "k < FAT_CACHE_CNT" for k
  proof -
    have "k * ?c \<le> 3 * ?c" using that by (intro mult_le_mono1) (simp add: FAT_CACHE_CNT_def)
    moreover have "?c < 65536" by (rule cluster_bytes_less)
    ultimately have "k * ?c + ?c \<le> 4294967296" by linarith
    then show ?thesis by simp
  qed
  have d: "i * ?c + ?c \<le> j * ?c \<or> j * ?c + ?c \<le> i * ?c"
    using assms(3) by (metis add.commute linorder_neqE_nat mult_Suc mult_le_mono1 Suc_leI)
  have m: "x \<in> block (cache_slot fd k) ?c \<longleftrightarrow>
      k * ?c \<le> unat (x - ft_cache_buf fd) \<and> unat (x - ft_cache_buf fd) < k * ?c + ?c"
    if "k < FAT_CACHE_CNT" for k x
    unfolding cache_slot_eq by (rule in_block_add [OF b [OF that]])
  show ?thesis using d by (auto simp: m [OF assms(1)] m [OF assms(2)])
qed

lemma cache_find_Some:
  "cache_find cs c k = Some i \<Longrightarrow> k \<le> i \<and> i - k < length cs \<and> cs ! (i - k) = c"
proof (induction cs c k rule: cache_find.induct)
  case (2 x cs c k)
  then show ?case by (cases "x = c") (auto simp: nth_Cons' Suc_diff_le)
qed simp

lemma touch_same: "same_fs fd (fat_cache_touch fd i)"
  by (simp add: same_fs_def fat_cache_touch_def Let_def)

lemma touch_clust [simp]: "ft_cache_clust (fat_cache_touch fd i) = ft_cache_clust fd"
  by (simp add: fat_cache_touch_def Let_def)

lemma length_touch [simp]: "length (ft_cache_rank (fat_cache_touch fd i)) = FAT_CACHE_CNT"
  by (simp add: fat_cache_touch_def Let_def)

lemma oldest_entry_less: "oldest_entry r < FAT_CACHE_CNT"
proof -
  have "fold (\<lambda>i e. if r ! i > r ! e then i else e) is e < FAT_CACHE_CNT"
    if "e < FAT_CACHE_CNT" "\<forall>i \<in> set is. i < FAT_CACHE_CNT" for "is" e
    using that by (induction "is" arbitrary: e) auto
  then show ?thesis unfolding oldest_entry_def by (simp add: FAT_CACHE_CNT_def)
qed

text \<open>Reading a cached cluster.\<close>

lemma try_cache_hit:
  assumes rdy: "fs_ready img cap good tmp (fd, w)"
    and c: "unat (ft_fat_offset fd) \<le> unat clust"
    and h: "fat_try_cache fd tmp clust w = (True, fd', w')"
  shows "mem_get (w_mem w') tmp (cluster_bytes fd) =
      map (img (w_dev w)) [unat clust..<unat clust + cluster_bytes fd]"
    and "fs_ready img cap good tmp (fd', w')" and "fs_step img tmp (fd, w) (fd', w')"
proof -
  let ?n = "cluster_bytes fd"
  from h obtain i where i: "cache_find (ft_cache_clust fd) clust 0 = Some i"
    and fd': "fd' = (if ft_cache_rank fd ! i \<noteq> 0 then fat_cache_touch fd i else fd)"
    and w': "w' = w\<lparr>w_mem := mem_copy (w_mem w) tmp (cache_slot fd i) ?n\<rparr>"
    by (auto simp: fat_try_cache_def Let_def same_fs_simps [OF touch_same] split: option.splits if_splits)
  from rdy have g: "fat_geom cap fd" "cache_ok img fd w" "good (w_dev w)"
    "unat tmp + ?n \<le> 0x10000" "block tmp ?n \<inter> cache_block fd = {}"
    by (simp_all add: fs_ready_def)
  from cache_find_Some [OF i] have i4: "i < FAT_CACHE_CNT" "ft_cache_clust fd ! i = clust"
    using g(1) by (auto simp: fat_geom_def)
  note n = cluster_bytes_less [of fd]
  have dis: "block tmp ?n \<inter> block (cache_slot fd i) ?n = {}"
    using g(5) slot_subset [OF i4(1), of fd] by blast
  have m': "w_mem w' = mem_put (w_mem w) tmp (mem_get (w_mem w) (cache_slot fd i) ?n)"
    using n by (simp add: w' mem_copy_disjoint [OF dis])
  have out: "w_mem w' x = w_mem w x" if "x \<notin> block tmp ?n" for x
    unfolding m' using that by (intro mem_put_other) simp
  have same: "same_fs fd fd'" using fd' touch_same by simp
  have cl: "ft_cache_clust fd' = ft_cache_clust fd" using fd' by simp
  show "mem_get (w_mem w') tmp ?n = map (img (w_dev w)) [unat clust..<unat clust + ?n]"
    using mem_get_put [of "mem_get (w_mem w) (cache_slot fd i) ?n" "w_mem w" tmp] n
      g(2) i4 c by (simp add: m' cache_ok_def)
  have "cache_ok img fd' w'"
    unfolding cache_ok_def same_fs_simps [OF same] cl
  proof (intro allI impI)
    fix j
    assume j: "j < FAT_CACHE_CNT" and "unat (ft_fat_offset fd) \<le> unat (ft_cache_clust fd ! j)"
    then have "mem_get (w_mem w) (cache_slot fd j) ?n =
        map (img (w_dev w)) [unat (ft_cache_clust fd ! j)..<unat (ft_cache_clust fd ! j) + ?n]"
      using g(2) by (simp add: cache_ok_def)
    moreover have "mem_get (w_mem w') (cache_slot fd j) ?n = mem_get (w_mem w) (cache_slot fd j) ?n"
      by (rule mem_get_cong) (use out slot_subset [OF j, of fd] g(5) n in auto)
    ultimately show "mem_get (w_mem w') (cache_slot fd j) ?n =
        map (img (w_dev w')) [unat (ft_cache_clust fd ! j)..<unat (ft_cache_clust fd ! j) + ?n]"
      by (simp add: w')
  qed
  moreover have "fat_geom cap fd'"
    using g(1) fd' by (auto simp: fat_geom_def same_fs_simps [OF touch_same])
  ultimately show "fs_ready img cap good tmp (fd', w')"
    using g by (simp add: fs_ready_def same_fs_simps [OF same] w')
  show "fs_step img tmp (fd, w) (fd', w')"
    using same out by (auto simp: fs_step_def w' simp del: mem_copy.simps)
qed

text \<open>Storing a cluster that has just been read.\<close>

lemma add_cache_ok:
  assumes rdy: "fs_ready img cap good tmp (fd, w)"
    and c: "mem_get (w_mem w) tmp (cluster_bytes fd) =
      map (img (w_dev w)) [unat clust..<unat clust + cluster_bytes fd]"
    and h: "fat_add_cache fd tmp clust w = (fd', w')"
  shows "mem_get (w_mem w') tmp (cluster_bytes fd) = mem_get (w_mem w) tmp (cluster_bytes fd)"
    and "fs_ready img cap good tmp (fd', w')" and "fs_step img tmp (fd, w) (fd', w')"
proof -
  let ?n = "cluster_bytes fd" and ?e = "oldest_entry (ft_cache_rank fd)"
  let ?fd = "fd\<lparr>ft_cache_clust := (ft_cache_clust fd)[?e := clust]\<rparr>"
  have e: "?e < FAT_CACHE_CNT" by (rule oldest_entry_less)
  from h have fd': "fd' = fat_cache_touch ?fd ?e"
    and w': "w' = w\<lparr>w_mem := mem_copy (w_mem w) (cache_slot fd ?e) tmp ?n\<rparr>"
    by (auto simp: fat_add_cache_def Let_def cache_slot_def)
  from rdy have g: "fat_geom cap fd" "cache_ok img fd w" "good (w_dev w)"
    "unat tmp + ?n \<le> 0x10000" "block tmp ?n \<inter> cache_block fd = {}"
    by (simp_all add: fs_ready_def)
  note n = cluster_bytes_less [of fd]
  have dis: "block (cache_slot fd ?e) ?n \<inter> block tmp ?n = {}"
    using g(5) slot_subset [OF e, of fd] by blast
  have m': "w_mem w' = mem_put (w_mem w) (cache_slot fd ?e) (mem_get (w_mem w) tmp ?n)"
    using n by (simp add: w' mem_copy_disjoint [OF dis])
  have out: "w_mem w' x = w_mem w x" if "x \<notin> block (cache_slot fd ?e) ?n" for x
    unfolding m' using that by (intro mem_put_other) simp
  have cl: "ft_cache_clust fd' = (ft_cache_clust fd)[?e := clust]" by (simp add: fd')
  have same: "same_fs fd fd'"
  proof -
    have "same_fs fd ?fd" by (simp add: same_fs_def)
    then show ?thesis unfolding fd' by (rule same_fs_trans [OF _ touch_same])
  qed
  show "mem_get (w_mem w') tmp ?n = mem_get (w_mem w) tmp ?n"
    by (rule mem_get_cong) (use out dis n in auto)
  have l: "length (ft_cache_clust fd) = FAT_CACHE_CNT" using g(1) by (simp add: fat_geom_def)
  have "cache_ok img fd' w'"
    unfolding cache_ok_def same_fs_simps [OF same] cl
  proof (intro allI impI)
    fix j
    assume j: "j < FAT_CACHE_CNT"
      and o: "unat (ft_fat_offset fd) \<le> unat ((ft_cache_clust fd)[?e := clust] ! j)"
    show "mem_get (w_mem w') (cache_slot fd j) ?n = map (img (w_dev w'))
        [unat ((ft_cache_clust fd)[?e := clust] ! j)..<unat ((ft_cache_clust fd)[?e := clust] ! j) + ?n]"
    proof (cases "j = ?e")
      case True
      then show ?thesis
        using mem_get_put [of "mem_get (w_mem w) tmp ?n" "w_mem w" "cache_slot fd ?e"] n c e l
        by (simp add: m') (simp add: w')
    next
      case False
      then have "mem_get (w_mem w) (cache_slot fd j) ?n =
          map (img (w_dev w)) [unat (ft_cache_clust fd ! j)..<unat (ft_cache_clust fd ! j) + ?n]"
        using g(2) j o by (simp add: cache_ok_def)
      moreover have "mem_get (w_mem w') (cache_slot fd j) ?n = mem_get (w_mem w) (cache_slot fd j) ?n"
        by (rule mem_get_cong) (use out slots_disjoint [OF j e False, of fd] n in auto)
      ultimately show ?thesis using False by (simp add: w')
    qed
  qed
  moreover have "fat_geom cap fd'"
    using g(1) l unfolding fat_geom_def same_fs_simps [OF same] by (simp add: cl fd')
  ultimately show "fs_ready img cap good tmp (fd', w')"
    using g by (simp add: fs_ready_def same_fs_simps [OF same] w')
  show "fs_step img tmp (fd, w) (fd', w')"
    using same out slot_subset [OF e, of fd] by (auto simp: fs_step_def w' simp del: mem_copy.simps)
qed

lemma ready_mem:
  assumes "fs_ready img cap good tmp (fd, w)" and "\<And>x. x \<in> cache_block fd \<Longrightarrow> m x = w_mem w x"
  shows "fs_ready img cap good tmp (fd, w\<lparr>w_mem := m\<rparr>)"
proof -
  have "mem_get m (cache_slot fd i) (cluster_bytes fd) = mem_get (w_mem w) (cache_slot fd i) (cluster_bytes fd)"
    if "i < FAT_CACHE_CNT" for i
  proof (rule mem_get_cong)
    fix x
    assume "x \<in> block (cache_slot fd i) (cluster_bytes fd)"
    then show "m x = w_mem w x" using slot_subset [OF that, of fd] assms(2) by blast
  qed (use cluster_bytes_less [of fd] in simp)
  with assms(1) show ?thesis by (auto simp: fs_ready_def cache_ok_def)
qed

section \<open>The file system on a device that does not fail\<close>

context reliable_device begin

text \<open>A cluster read into the buffer.\<close>

lemma read_cluster:
  assumes rdy: "fs_ready img cap good tmp (fd, w)"
    and a: "unat addr mod 512 = 0" "unat addr + cluster_bytes fd \<le> cap"
  shows "\<exists>w'. rd tmp addr (ucast (ft_cluster_size fd)) w = Inr (ucast (ft_cluster_size fd), w') \<and>
    mem_get (w_mem w') tmp (cluster_bytes fd) =
      map (img (w_dev w)) [unat addr..<unat addr + cluster_bytes fd] \<and>
    fs_ready img cap good tmp (fd, w') \<and> fs_step img tmp (fd, w) (fd, w')"
proof -
  let ?n = "cluster_bytes fd"
  let ?sz = "ucast (ft_cluster_size fd) :: u32"
  have n: "unat ?sz = ?n"
    using cluster_bytes_less [of fd]
    by (simp add: unsigned_ucast_eq unsigned_take_bit_eq take_bit_nat_eq_self)
  from rdy have g: "fat_geom cap fd" "cache_ok img fd w" "good (w_dev w)"
    "unat tmp + ?n \<le> 0x10000" "block tmp ?n \<inter> cache_block fd = {}"
    by (simp_all add: fs_ready_def)
  have "?n mod 512 = 0"
    using g(1) unfolding fat_geom_def by (metis dvd_eq_mod_eq_0 dvd_trans)
  then have q: "request_ok cap tmp addr ?sz" using a g(4) by (simp only: request_ok_def n)
  obtain w' where r: "rd tmp addr ?sz w = Inr (?sz, w')" and g': "good (w_dev w')"
    using rd_good [OF g(3) q] by blast
  note F = rd_frame [OF q r, unfolded n] and D = rd_sz_data [OF q r, unfolded n]
  have "cache_ok img fd w'"
    unfolding cache_ok_def
  proof (intro allI impI)
    fix j
    assume j: "j < FAT_CACHE_CNT" and "unat (ft_fat_offset fd) \<le> unat (ft_cache_clust fd ! j)"
    then have "mem_get (w_mem w) (cache_slot fd j) ?n =
        map (img (w_dev w)) [unat (ft_cache_clust fd ! j)..<unat (ft_cache_clust fd ! j) + ?n]"
      using g(2) by (simp add: cache_ok_def)
    moreover have "mem_get (w_mem w') (cache_slot fd j) ?n = mem_get (w_mem w) (cache_slot fd j) ?n"
      by (rule mem_get_cong)
        (use F slot_subset [OF j, of fd] g(5) cluster_bytes_less [of fd] in auto)
    ultimately show "mem_get (w_mem w') (cache_slot fd j) ?n =
        map (img (w_dev w')) [unat (ft_cache_clust fd ! j)..<unat (ft_cache_clust fd ! j) + ?n]"
      using F by simp
  qed
  then have "fs_ready img cap good tmp (fd, w')" using g g' by (simp add: fs_ready_def)
  moreover have "fs_step img tmp (fd, w) (fd, w')" using F by (simp add: fs_step_def)
  ultimately show ?thesis using r D by blast
qed

text \<open>Bytes of the table at an offset, whether they come from the cache or from the medium.\<close>

lemma read_fat_data:
  assumes rdy: "fs_ready img cap good tmp (fd, w)"
    and o: "unat (ft_fat_offset fd) \<le> unat off" "unat off < 2 ^ 31"
    and c: "unat off - unat off mod sector_bytes_of fd + cluster_bytes fd \<le> cap"
  shows "\<exists>v fd' w'. fat_read_fat_data rd tmp off sz (fd, w) = Inr (v, fd', w') \<and>
    fs_ready img cap good tmp (fd', w') \<and> fs_step img tmp (fd, w) (fd', w') \<and>
    (sz = 1 \<longrightarrow> unat v = unat (img (w_dev w) (unat off))) \<and>
    (sz = 2 \<and> unat off mod sector_bytes_of fd + 2 \<le> cluster_bytes fd \<longrightarrow>
       unat v = unat (img (w_dev w) (unat off)) + 256 * unat (img (w_dev w) (unat off + 1)))"
proof -
  let ?n = "cluster_bytes fd" and ?ss = "sector_bytes_of fd"
  let ?r = "unat off mod ?ss"
  let ?ra = "off - of_int (sint off smod uint (ft_sector_size fd))"
  from rdy have g: "fat_geom cap fd" by (simp add: fs_ready_def)
  have ss: "0 < ?ss" "?ss mod 512 = 0" and fo: "unat (ft_fat_offset fd) mod ?ss = 0"
    and nss: "?n mod ?ss = 0" and n0: "0 < ?n"
    using g by (simp_all add: fat_geom_def)
  have ss0: "ft_sector_size fd \<noteq> 0" using ss(1) by auto
  have rss: "?r < ?ss" using ss(1) by simp
  have "?ss \<le> ?n" using nss n0 by (metis dvd_eq_mod_eq_0 dvd_imp_le)
  then have rn: "?r < ?n" using rss by linarith
  have "sint off smod uint (ft_sector_size fd) = int ?r"
  proof -
    have "uint (ft_sector_size fd) = int ?ss" by simp
    then show ?thesis
      using o(2) ss(1) by (simp only: sint_small int_smod_nonneg of_nat_0_le_iff of_nat_0_less_iff zmod_int)
  qed
  then have ra: "?ra = off - of_nat ?r" by (simp only: of_int_of_nat_eq)
  have r32: "unat (of_nat ?r :: u32) = ?r"
    using rn cluster_bytes_less [of fd] by (simp add: unsigned_of_nat take_bit_nat_eq_self)
  have ura: "unat ?ra = unat off - ?r"
    unfolding ra by (subst unat_sub_le) (simp_all only: word_le_nat_alt r32 mod_less_eq_dividend)
  have diff: "off - ?ra = of_nat ?r" unfolding ra by simp
  have mul: "unat off - ?r = unat off div ?ss * ?ss" by (simp add: minus_mod_eq_div_mult)
  have "unat (ft_fat_offset fd) div ?ss * ?ss = unat (ft_fat_offset fd)" using fo by auto
  then have fo_ra: "unat (ft_fat_offset fd) \<le> unat ?ra"
    unfolding ura mul using div_le_mono [OF o(1), of ?ss] by (metis mult_le_mono1)
  have al: "unat ?ra mod 512 = 0" unfolding ura mul using ss(2) by (metis dvd_eq_mod_eq_0 dvd_mult)
  have val: "(sz = 1 \<longrightarrow> unat v = unat (img (w_dev w) (unat off))) \<and>
      (sz = 2 \<and> ?r + 2 \<le> ?n \<longrightarrow>
         unat v = unat (img (w_dev w) (unat off)) + 256 * unat (img (w_dev w) (unat off + 1)))"
    if M: "mem_get (w_mem w1) tmp ?n = map (img (w_dev w)) [unat ?ra..<unat ?ra + ?n]"
      and v: "v = (let x = load32 (w_mem w1) (tmp + (off - ?ra))
         in if sz = 1 then x AND 0x000000FF else if sz = 2 then x AND 0x0000FFFF
            else if sz = 3 then x AND 0x00FFFFFF else if sz = 4 then x AND 0xFFFFFFFF
            else 0xFFFFFFFF)" for w1 v
  proof -
    have B: "w_mem w1 (tmp + of_nat k) = img (w_dev w) (unat ?ra + k)" if "k < ?n" for k
      using arg_cong [OF M, of "\<lambda>l. l ! k"] that by simp
    have b0: "w_mem w1 (tmp + of_nat ?r) = img (w_dev w) (unat off)"
      using B [OF rn] by (simp add: ura)
    have b1: "w_mem w1 (tmp + of_nat ?r + 1) = img (w_dev w) (unat off + 1)" if "?r + 2 \<le> ?n"
      using B [of "Suc ?r"] that by (simp add: ura add.commute add.left_commute)
    have u: "unat (ucast (x :: u8) :: u32) = unat x" "unat (ucast (y :: u16) :: u32) = unat y" for x y
      by simp_all
    show ?thesis
    proof (intro conjI impI)
      assume "sz = 1"
      then show "unat v = unat (img (w_dev w) (unat off))"
        unfolding v diff Let_def by (simp only: simp_thms if_True load32_byte u b0)
    next
      assume "sz = 2 \<and> ?r + 2 \<le> ?n"
      then show "unat v = unat (img (w_dev w) (unat off)) + 256 * unat (img (w_dev w) (unat off + 1))"
        unfolding v diff Let_def by (simp add: load32_half u unat_load16 b0 b1)
    qed
  qed
  show ?thesis
  proof (cases "fat_try_cache fd tmp ?ra w")
    case (fields hit fd1 w1)
    show ?thesis
    proof (cases hit)
      case True
      then have f: "fat_try_cache fd tmp ?ra w = (True, fd1, w1)" using fields by simp
      note H = try_cache_hit [OF rdy fo_ra f]
      have "fat_read_fat_data rd tmp off sz (fd, w) = Inr
          (let x = load32 (w_mem w1) (tmp + (off - ?ra))
           in if sz = 1 then x AND 0x000000FF else if sz = 2 then x AND 0x0000FFFF
              else if sz = 3 then x AND 0x00FFFFFF else if sz = 4 then x AND 0xFFFFFFFF
              else 0xFFFFFFFF, fd1, w1)"
        using ss0 f by (simp add: fat_read_fat_data_def Let_def)
      then show ?thesis using val [OF H(1) refl] H(2,3) by blast
    next
      case False
      then have same: "fd1 = fd" "w1 = w"
        using fields by (auto simp: fat_try_cache_def Let_def split: option.splits)
      from c have "unat ?ra + ?n \<le> cap" unfolding ura .
      from read_cluster [OF rdy al this] obtain w2 where
        r: "rd tmp ?ra (ucast (ft_cluster_size fd)) w = Inr (ucast (ft_cluster_size fd), w2)"
        "mem_get (w_mem w2) tmp ?n = map (img (w_dev w)) [unat ?ra..<unat ?ra + ?n]"
        "fs_ready img cap good tmp (fd, w2)" "fs_step img tmp (fd, w) (fd, w2)" by blast
      have dev: "img (w_dev w2) = img (w_dev w)" using r(4) by (simp add: fs_step_def)
      obtain fd3 w3 where a: "fat_add_cache fd tmp ?ra w2 = (fd3, w3)" by fastforce
      note A = add_cache_ok [OF r(3) r(2) [folded dev] a]
      have "fat_read_fat_data rd tmp off sz (fd, w) = Inr
          (let x = load32 (w_mem w3) (tmp + (off - ?ra))
           in if sz = 1 then x AND 0x000000FF else if sz = 2 then x AND 0x0000FFFF
              else if sz = 3 then x AND 0x00FFFFFF else if sz = 4 then x AND 0xFFFFFFFF
              else 0xFFFFFFFF, fd3, w3)"
        using ss0 fields False same r(1) a by (simp add: fat_read_fat_data_def Let_def)
      moreover have "mem_get (w_mem w3) tmp ?n = map (img (w_dev w)) [unat ?ra..<unat ?ra + ?n]"
        using A(1) r(2) by simp
      ultimately show ?thesis
        using val [OF _ refl, of w3] A(2) fs_step_trans [OF r(4) A(3)] by blast
    qed
  qed
qed

text \<open>An entry of the table.\<close>

lemma get_fat_entry:
  assumes rdy: "fs_ready img cap good tmp (fd, w)"
    and n: "unat n * 3 div 2 + 2 \<le> unat (ft_fat_size fd)"
  shows "\<exists>e fd' w'. fat_get_fat_entry rd tmp n (fd, w) = Inr (e, fd', w') \<and>
    fs_ready img cap good tmp (fd', w') \<and> fs_step img tmp (fd, w) (fd', w') \<and>
    unat e = fat_entry_at (img (w_dev w)) (unat (ft_fat_offset fd)) (unat n)"
proof -
  let ?k = "unat n * 3 div 2" and ?fo = "unat (ft_fat_offset fd)" and ?f = "img (w_dev w)"
  let ?off = "ft_fat_offset fd + n * 3 div 2"
  let ?ss = "sector_bytes_of fd" and ?cs = "cluster_bytes fd"
  from rdy have g: "fat_geom cap fd" by (simp add: fs_ready_def)
  have ss: "0 < ?ss" and cs: "0 < ?cs" "?cs mod ?ss = 0" and fits: "?fo + unat (ft_fat_size fd) + ?cs \<le> cap"
    using g by (simp_all add: fat_geom_def)
  have cap31: "cap < 2147483648" using cap_bound by simp
  have n3: "unat n * 3 < 4294967296" using n fits cap31 by linarith
  have "unat (n * 3) = unat n * 3" using n3 by (simp add: unat_word_ariths)
  then have k: "unat (n * 3 div 2) = ?k" by (simp add: unat_div_distrib)
  have off: "unat ?off = ?fo + ?k"
    using n fits cap31 by (subst unat_add_no_wrap) (simp_all add: k)
  have off1: "unat (?off + 1) = ?fo + ?k + 1"
    using n fits cap31 by (subst unat_add_no_wrap) (simp_all add: off)
  have lo: "?fo \<le> unat ?off" "unat ?off < 2 ^ 31" "?fo \<le> unat (?off + 1)" "unat (?off + 1) < 2 ^ 31"
    using n fits cap31 by (simp_all add: off off1)
  have in_cap: "x - x mod ?ss + ?cs \<le> cap" if "x \<le> ?fo + unat (ft_fat_size fd)" for x
    using that fits by linarith
  have c: "unat ?off - unat ?off mod ?ss + ?cs \<le> cap" "unat (?off + 1) - unat (?off + 1) mod ?ss + ?cs \<le> cap"
    by (rule in_cap; use n in \<open>simp add: off off1\<close>)+
  have smod: "sint ?off smod uint (ft_cluster_size fd) = int (unat ?off mod ?cs)"
  proof -
    have "uint (ft_cluster_size fd) = int ?cs" by simp
    then show ?thesis
      using lo(2) cs(1) by (simp only: sint_small int_smod_nonneg of_nat_0_le_iff of_nat_0_less_iff zmod_int)
  qed
  have ui: "uint (ft_cluster_size fd) = int ?cs" by simp
  have csn: "ft_cluster_size fd \<noteq> 0" "uint (ft_cluster_size fd) \<noteq> 0"
    subgoal using cs(1) by auto
    subgoal unfolding ui using cs(1) by linarith
    done
  have split: "sint ?off smod uint (ft_cluster_size fd) = uint (ft_cluster_size fd) - 1 \<longleftrightarrow>
      unat ?off mod ?cs = ?cs - 1"
  proof -
    have "uint (ft_cluster_size fd) = int ?cs" by simp
    then show ?thesis unfolding smod using cs(1) by linarith
  qed
  show ?thesis
  proof (cases "unat ?off mod ?cs = ?cs - 1")
    case True
    obtain v fd1 w1 where 1: "fat_read_fat_data rd tmp ?off 1 (fd, w) = Inr (v, fd1, w1)"
      "fs_ready img cap good tmp (fd1, w1)" "fs_step img tmp (fd, w) (fd1, w1)"
      "unat v = unat (?f (unat ?off))"
      using read_fat_data [OF rdy lo(1,2) c(1), of 1] by auto
    have same: "same_fs fd fd1" and dev: "img (w_dev w1) = ?f" using 1(3) by (simp_all add: fs_step_def)
    obtain v' fd2 w2 where 2: "fat_read_fat_data rd tmp (?off + 1) 1 (fd1, w1) = Inr (v', fd2, w2)"
      "fs_ready img cap good tmp (fd2, w2)" "fs_step img tmp (fd1, w1) (fd2, w2)"
      "unat v' = unat (?f (unat (?off + 1)))"
      using read_fat_data [OF 1(2), of "?off + 1" 1] lo(3,4) c(2) dev
      by (auto simp: same_fs_simps [OF same])
    have v: "v = ucast (?f (unat ?off))" "v' = ucast (?f (unat (?off + 1)))"
      by (rule word_unat_eq_iff [THEN iffD2]; simp add: 1(4) 2(4))+
    let ?e = "ucast (v OR push_bit 8 v') :: u16"
    have "?e = ucast (?f (unat ?off)) OR push_bit 8 (ucast (?f (unat (?off + 1))))"
      unfolding v by (rule bit_word_eqI) (auto simp: bit_simps)
    then have "unat ?e = unat (?f (?fo + ?k)) + 256 * unat (?f (?fo + ?k + 1))"
      using unat_bytes off off1 by simp
    note E = entry_bits [OF this]
    have "fat_get_fat_entry rd tmp n (fd, w) =
        Inr (ucast (if n AND 1 \<noteq> 0 then drop_bit 4 ?e else ?e :: u16) AND 0xfff, fd2, w2)"
      unfolding fat_get_fat_entry_def Let_def prod.case
      using csn split True 1(1) 2(1) by (simp only: if_True if_False bnd_Inr prod.case simp_thms)
    then show ?thesis using E 2(2) fs_step_trans [OF 1(3) 2(3)] by blast
  next
    case False
    have "unat ?off mod ?ss + 2 \<le> ?cs"
    proof (cases "?cs = ?ss")
      case True
      have "unat ?off mod ?cs < ?cs" using cs(1) by simp
      with False show ?thesis unfolding True by linarith
    next
      case ne: False
      obtain q where q: "?cs = ?ss * q" using cs(2) by auto
      then have "q \<noteq> 0" "q \<noteq> 1" using cs(1) ne by auto
      then have "2 * ?ss \<le> ?cs" using q by simp
      moreover have "unat ?off mod ?ss < ?ss" using ss by simp
      ultimately show ?thesis by linarith
    qed
    then obtain v fd1 w1 where 1: "fat_read_fat_data rd tmp ?off 2 (fd, w) = Inr (v, fd1, w1)"
      "fs_ready img cap good tmp (fd1, w1)" "fs_step img tmp (fd, w) (fd1, w1)"
      "unat v = unat (?f (unat ?off)) + 256 * unat (?f (unat ?off + 1))"
      using read_fat_data [OF rdy lo(1,2) c(1), of 2] by auto
    have "unat (?f (unat ?off)) < 256" "unat (?f (unat ?off + 1)) < 256"
      using unsigned_less [of "?f (unat ?off)"] unsigned_less [of "?f (unat ?off + 1)"] by simp_all
    then have "unat v < 65536" unfolding 1(4) by linarith
    then have "unat (ucast v :: u16) = unat (?f (?fo + ?k)) + 256 * unat (?f (?fo + ?k + 1))"
      using ucast_low_half(1) [of v] 1(4) off by simp
    note E = entry_bits [OF this]
    have "fat_get_fat_entry rd tmp n (fd, w) =
        Inr (ucast (if n AND 1 \<noteq> 0 then drop_bit 4 (ucast v) else ucast v :: u16) AND 0xfff, fd1, w1)"
      unfolding fat_get_fat_entry_def Let_def prod.case
      using csn split False 1(1) by (simp only: if_True if_False bnd_Inr prod.case simp_thms)
    then show ?thesis using E 1(2,3) by blast
  qed
qed

text \<open>Following the chain.\<close>

lemma sless_small:
  assumes "unat a < 2 ^ 31" and "unat b < 2 ^ 31"
  shows "(a :: u32) <s b \<longleftrightarrow> unat a < unat b"
  unfolding word_sless_alt sint_small [OF assms(1)] sint_small [OF assms(2)] by (rule of_nat_less_iff)

lemma get_next_cluster:
  assumes rdy: "fs_ready img cap good tmp (fd, w)"
    and c: "unat c \<le> cap" and e: "entry_in_fat fd (unat c)"
  shows "\<exists>r fd' w'. fat_get_next_cluster rd tmp c (fd, w) = Inr (r, fd', w') \<and>
    fs_ready img cap good tmp (fd', w') \<and> fs_step img tmp (fd, w) (fd', w') \<and>
    unat r = next_cluster_at fd (img (w_dev w)) (unat c)"
proof -
  let ?cs = "cluster_bytes fd" and ?do = "unat (ft_data_offset fd)"
    and ?ro = "unat (fh_first_cluster (ft_rootdir fd))"
  let ?c32 = "ucast (ft_cluster_size fd) :: u32"
  from rdy have g: "fat_geom cap fd" by (simp add: fs_ready_def)
  have cs: "0 < ?cs" "?cs < 65536" and d: "?ro \<le> ?do" "?do \<le> cap"
    using g cluster_bytes_less [of fd] by (simp_all add: fat_geom_def)
  have cap31: "cap + 65536 \<le> 2147483648" using cap_bound by simp
  have sm: "unat c < 2 ^ 31" "?do < 2 ^ 31" "?ro < 2 ^ 31" using c d cap31 by simp_all
  have sum: "unat (c + ?c32) = unat c + ?cs"
    using c cs cap31 by (subst unat_add_no_wrap) simp_all
  have s4: "unat (c + ?c32) < 2 ^ 31" using c cs cap31 sum by simp
  note lt = sless_small [OF sm(1,2)] sless_small [OF sm(1,3)] sless_small [OF s4 sm(2)]
  show ?thesis
  proof (cases "unat c < ?do")
    case True
    have "fat_get_next_cluster rd tmp c (fd, w) =
        Inr (if unat c < ?ro then 0 else if unat c + ?cs < ?do then c + ?c32 else 0, fd, w)"
      using True by (simp add: fat_get_next_cluster_def Let_def lt sum)
    then show ?thesis
      using rdy True by (intro exI [of _ "if unat c < ?ro then 0 else if unat c + ?cs < ?do then c + ?c32 else 0"])
        (auto simp: next_cluster_at_def sum)
  next
    case False
    let ?n = "cluster_number fd (unat c)"
    let ?n32 = "of_int (sint (c - ft_data_offset fd) sdiv sint ?c32) + 2 :: u32"
    have df: "unat (c - ft_data_offset fd) = unat c - ?do"
      using False by (intro unat_sub_le) (simp add: word_le_nat_alt)
    have s1: "sint (c - ft_data_offset fd) = int (unat c - ?do)"
    proof -
      have q: "unat (c - ft_data_offset fd) < 2 ^ 31" unfolding df using sm(1) by linarith
      show ?thesis unfolding sint_small [OF q] df by (rule refl)
    qed
    have s2: "sint ?c32 = int ?cs" using cs(2) by (subst sint_small) simp_all
    have "(of_int (sint (c - ft_data_offset fd) sdiv sint ?c32) :: u32) = of_nat ((unat c - ?do) div ?cs)"
      unfolding s1 s2 using cs(1)
      by (simp only: int_sdiv_nonneg of_nat_0_le_iff of_nat_0_less_iff of_int_of_nat_eq flip: zdiv_int)
    then have n32: "?n32 = of_nat ?n" by (simp add: cluster_number_def)
    have "(unat c - ?do) div ?cs \<le> unat c" by (meson diff_le_self div_le_dividend le_trans)
    then have nlt: "?n < 2 ^ LENGTH(32)" using sm(1) by (simp add: cluster_number_def)
    have un: "unat ?n32 = ?n" unfolding n32 by (simp only: unsigned_of_nat take_bit_nat_eq_self [OF nlt] of_nat_id)
    have "unat ?n32 * 3 div 2 + 2 \<le> unat (ft_fat_size fd)"
      using e False unfolding un entry_in_fat_def by simp
    from get_fat_entry [OF rdy this] obtain ent fd1 w1 where
      E: "fat_get_fat_entry rd tmp ?n32 (fd, w) = Inr (ent, fd1, w1)"
      "fs_ready img cap good tmp (fd1, w1)" "fs_step img tmp (fd, w) (fd1, w1)"
      "unat ent = fat_entry_at (img (w_dev w)) (unat (ft_fat_offset fd)) ?n"
      unfolding un by blast
    let ?r = "if ent \<ge> 0x002 \<and> ent \<le> 0xff0 then ft_data_offset fd + (ent - 2) * ?c32 else 0"
    have "?c32 \<noteq> 0" using cs(1) by (metis unat_0 unat_ucast_widen(3) less_irrefl)
    then have "fat_get_next_cluster rd tmp c (fd, w) = Inr (?r, fd1, w1)"
      using False E(1) by (simp add: fat_get_next_cluster_def Let_def lt)
    moreover have "unat ?r = next_cluster_at fd (img (w_dev w)) (unat c)"
    proof (cases "2 \<le> unat ent \<and> unat ent \<le> 0xff0")
      case True
      have e2: "unat (ent - 2) = unat ent - 2"
        using True by (subst unat_sub_le) (simp_all add: word_le_nat_alt)
      have "unat ent - 2 \<le> 4080" "?cs \<le> 65535" using True cs(2) by linarith+
      then have "(unat ent - 2) * ?cs \<le> 4080 * 65535" by (rule mult_le_mono)
      then have b: "(unat ent - 2) * ?cs \<le> 267382800" by simp
      have "unat ((ent - 2) * ?c32) = (unat ent - 2) * ?cs"
        using b by (simp add: unat_word_ariths e2)
      then have "unat (ft_data_offset fd + (ent - 2) * ?c32) = ?do + (unat ent - 2) * ?cs"
        using b sm(2) by (subst unat_add_no_wrap) simp_all
      with True False show ?thesis
        by (simp add: next_cluster_at_def Let_def E(4) [symmetric] word_le_nat_alt)
    next
      case F: False
      with False show ?thesis
        by (auto simp: next_cluster_at_def Let_def E(4) [symmetric] word_le_nat_alt)
    qed
    ultimately show ?thesis using E(2,3) by blast
  qed
qed

text \<open>The search of the cluster that holds an offset.\<close>

lemma seek:
  assumes "fs_ready img cap good tmp (fd, w)"
    and "chain_ok cap fd (img (w_dev w)) (unat c) (Suc (off div cluster_bytes fd))"
  shows "\<exists>c' fd' w'. fat_seek rd tmp (cluster_bytes fd) c (int off) (fd, w) =
      Inr (Some (c', int (off mod cluster_bytes fd)), fd', w') \<and>
    fs_ready img cap good tmp (fd', w') \<and> fs_step img tmp (fd, w) (fd', w') \<and>
    unat c' = chain_at fd (img (w_dev w)) (unat c) (off div cluster_bytes fd)"
  using assms
proof (induction "off div cluster_bytes fd" arbitrary: fd w c off)
  case 0
  then have cs: "0 < cluster_bytes fd" by (simp add: fs_ready_def fat_geom_def)
  then have off: "off < cluster_bytes fd" using 0(1) by (simp add: div_eq_0_iff)
  then have "\<not> int (cluster_bytes fd) \<le> int off" by (simp only: of_nat_le_iff not_le)
  then have "fat_seek rd tmp (cluster_bytes fd) c (int off) (fd, w) = Inr (Some (c, int off), fd, w)"
    using cs by (subst fat_seek.simps) (simp only: if_False not_gr_zero simp_thms gr_implies_not0)
  with 0(2) off show ?case by simp
next
  case (Suc k)
  let ?cs = "cluster_bytes fd" and ?f = "img (w_dev w)"
  have cs: "0 < ?cs" using Suc.prems(1) by (simp add: fs_ready_def fat_geom_def)
  have le: "?cs \<le> off" using Suc(2) cs by (metis div_less nat.distinct(1) not_le)
  have ck: "chain_ok cap fd ?f (unat c) (Suc (Suc k))" using Suc.prems(2) unfolding Suc(2) [symmetric] .
  then have c: "cluster_ok cap fd (unat c)"
    and ck': "chain_ok cap fd ?f (next_cluster_at fd ?f (unat c)) (Suc k)"
    using chain_ok_Suc [of cap fd ?f "unat c" "Suc k"] by blast+
  obtain r fd1 w1 where N: "fat_get_next_cluster rd tmp c (fd, w) = Inr (r, fd1, w1)"
    "fs_ready img cap good tmp (fd1, w1)" "fs_step img tmp (fd, w) (fd1, w1)"
    "unat r = next_cluster_at fd ?f (unat c)"
    using get_next_cluster [OF Suc.prems(1), of c] c by (auto simp: cluster_ok_def)
  have same: "same_fs fd fd1" and dev: "img (w_dev w1) = ?f" using N(3) by (simp_all add: fs_step_def)
  note S = same_fs_simps [OF same]
  have "cluster_ok cap fd (next_cluster_at fd ?f (unat c))" using ck' by (simp only: chain_ok_Suc)
  then have "unat r \<noteq> 0" unfolding N(4) by (simp only: cluster_ok_def not_False_eq_True)
  then have r0: "r \<noteq> 0" by auto
  have dv: "k = (off - ?cs) div cluster_bytes fd1"
    using Suc(2) le cs by (simp add: S le_div_geq)
  have ck1: "chain_ok cap fd1 (img (w_dev w1)) (unat r) (Suc ((off - ?cs) div cluster_bytes fd1))"
    unfolding dv [symmetric] same_fs_chain_ok [OF same] dev N(4) by (rule ck')
  obtain c' fd' w' where IH: "fat_seek rd tmp ?cs r (int (off - ?cs)) (fd1, w1) =
      Inr (Some (c', int ((off - ?cs) mod ?cs)), fd', w')"
    "fs_ready img cap good tmp (fd', w')" "fs_step img tmp (fd1, w1) (fd', w')"
    "unat c' = chain_at fd ?f (next_cluster_at fd ?f (unat c)) k"
    using Suc(1) [OF dv N(2) ck1] unfolding S same_fs_chain [OF same] dev N(4) dv [unfolded S, symmetric]
    by blast
  have "int off - int ?cs = int (off - ?cs)" using le by simp
  then have "fat_seek rd tmp ?cs c (int off) (fd, w) = fat_seek rd tmp ?cs r (int (off - ?cs)) (fd1, w1)"
  proof -
    have "int ?cs \<le> int off" using le by (simp only: of_nat_le_iff)
    moreover have "?cs \<noteq> 0" using cs by simp
    ultimately show ?thesis
      using N(1) r0 \<open>int off - int ?cs = int (off - ?cs)\<close>
      by (subst fat_seek.simps) (simp only: bnd_Inr prod.case if_True if_False)
  qed
  moreover have "(off - ?cs) mod ?cs = off mod ?cs" using le by (simp add: le_mod_geq)
  ultimately show ?case
    using IH fs_step_trans [OF N(3) IH(3)] Suc(2) [symmetric] by (simp add: chain_at_shift del: chain_at.simps(2))
qed

text \<open>
  One chunk of a read: a cluster is fetched and \<open>k\<close> bytes of it, from the byte \<open>r\<close> on, are copied
  to the caller's buffer.
\<close>

lemma read_chunk:
  assumes rdy: "fs_ready img cap good tmp (fd, w)" and c: "cluster_ok cap fd (unat c)"
    and k: "r + k \<le> cluster_bytes fd"
    and dis: "block b k \<inter> block tmp (cluster_bytes fd) = {}" "block b k \<inter> cache_block fd = {}"
  shows "\<exists>w1. rd tmp c (of_nat (cluster_bytes fd)) w = Inr (of_nat (cluster_bytes fd), w1) \<and>
    (let w2 = w1\<lparr>w_mem := mem_copy (w_mem w1) b (tmp + of_nat r) k\<rparr>
     in fs_ready img cap good tmp (fd, w2) \<and> fs_write img tmp (block b k) (fd, w) (fd, w2) \<and>
       mem_get (w_mem w2) b k = map (img (w_dev w)) [unat c + r..<unat c + r + k])"
proof -
  let ?cs = "cluster_bytes fd" and ?f = "img (w_dev w)"
  have "(of_nat ?cs :: u32) = ucast (ft_cluster_size fd)" by simp
  with read_cluster [OF rdy, of c] c obtain w1 where
    R: "rd tmp c (of_nat ?cs) w = Inr (of_nat ?cs, w1)"
    "mem_get (w_mem w1) tmp ?cs = map ?f [unat c..<unat c + ?cs]"
    "fs_ready img cap good tmp (fd, w1)" "fs_step img tmp (fd, w) (fd, w1)"
    by (auto simp only: cluster_ok_def)
  let ?m = "mem_copy (w_mem w1) b (tmp + of_nat r) k"
  note cs = cluster_bytes_less [of fd]
  have sub: "block (tmp + of_nat r) k \<subseteq> block tmp ?cs"
    using k cs by (intro block_add_subset) simp_all
  then have d: "block b k \<inter> block (tmp + of_nat r) k = {}" using dis(1) by blast
  have k32: "k \<le> 2 ^ 32" using k cs by simp
  have m: "?m = mem_put (w_mem w1) b (mem_get (w_mem w1) (tmp + of_nat r) k)"
    by (rule mem_copy_disjoint [OF d k32])
  have out: "?m x = w_mem w1 x" if "x \<notin> block b k" for x
    unfolding m using that by (intro mem_put_other) simp
  have "mem_get ?m b k = mem_get (w_mem w1) (tmp + of_nat r) k"
    unfolding m using mem_get_put [of "mem_get (w_mem w1) (tmp + of_nat r) k" "w_mem w1" b] k32 by simp
  also have "\<dots> = map ?f [unat c + r..<unat c + r + k]"
  proof (intro nth_equalityI)
    fix j
    assume "j < length (mem_get (w_mem w1) (tmp + of_nat r) k)"
    then have j: "j < k" by simp
    have "w_mem w1 (tmp + of_nat (r + j)) = ?f (unat c + (r + j))"
      using arg_cong [OF R(2), of "\<lambda>l. l ! (r + j)"] k j by simp
    with j show "mem_get (w_mem w1) (tmp + of_nat r) k ! j = map ?f [unat c + r..<unat c + r + k] ! j"
      by (simp add: add.assoc)
  qed simp
  finally have M: "mem_get ?m b k = map ?f [unat c + r..<unat c + r + k]" .
  have "fs_ready img cap good tmp (fd, w1\<lparr>w_mem := ?m\<rparr>)"
    by (rule ready_mem [OF R(3)]) (use out dis(2) in blast)
  moreover have "fs_write img tmp (block b k) (fd, w) (fd, w1\<lparr>w_mem := ?m\<rparr>)"
    using R(4) out by (auto simp: fs_write_def fs_step_def)
  ultimately show ?thesis using R(1) M by (simp add: Let_def)
qed

lemma read_loop_done: "0 < cs \<Longrightarrow> sz \<le> pos \<Longrightarrow> fat_read_loop rd tmp buf sz cs c off pos s = Inr (True, s)"
  by (subst fat_read_loop.simps) simp

lemma read_loop:
  assumes "fs_ready img cap good tmp (fd, w)" and "chain_ok cap fd (img (w_dev w)) (unat c) n"
    and "r + (sz - pos) \<le> n * cluster_bytes fd" and "r < cluster_bytes fd"
    and "r = 0 \<or> r + (sz - pos) \<le> cluster_bytes fd" and "sz < 2 ^ 32"
    and "block (buf + of_nat pos) (sz - pos) \<inter> block tmp (cluster_bytes fd) = {}"
    and "block (buf + of_nat pos) (sz - pos) \<inter> cache_block fd = {}"
  shows "\<exists>fd' w'. fat_read_loop rd tmp buf sz (cluster_bytes fd) c (int r) pos (fd, w) = Inr (True, fd', w') \<and>
    fs_ready img cap good tmp (fd', w') \<and>
    fs_write img tmp (block (buf + of_nat pos) (sz - pos)) (fd, w) (fd', w') \<and>
    mem_get (w_mem w') (buf + of_nat pos) (sz - pos) =
      map (file_byte fd (img (w_dev w)) (unat c)) [r..<r + (sz - pos)]"
  using assms
proof (induction n arbitrary: fd w c r pos)
  case 0
  then show ?case
    by (intro exI [of _ fd] exI [of _ w]) (simp add: read_loop_done fs_write_step)
next
  case (Suc n)
  let ?cs = "cluster_bytes fd" and ?f = "img (w_dev w)" and ?b = "buf + of_nat pos"
  let ?k = "sz - pos"
  have cs: "0 < ?cs" "?cs < 65536" using Suc.prems(4) cluster_bytes_less [of fd] by simp_all
  from Suc.prems(2) have c: "cluster_ok cap fd (unat c)"
    and ck: "chain_ok cap fd ?f (next_cluster_at fd ?f (unat c)) n"
    by (simp_all only: chain_ok_Suc)
  show ?case
  proof (cases "pos < sz")
    case False
    with Suc.prems cs show ?thesis
      by (intro exI [of _ fd] exI [of _ w]) (simp add: read_loop_done fs_write_step)
  next
    case True
    have room: "(of_int (int ?cs - int r) :: u32) = of_nat (?cs - r)"
      using Suc.prems(4) by (simp only: of_nat_diff [OF less_imp_le, symmetric] of_int_of_nat_eq)
    have uroom: "unat (of_nat (?cs - r) :: u32) = ?cs - r"
      using cs by (simp add: unsigned_of_nat take_bit_nat_eq_self)
    have uk: "unat (of_nat ?k :: u32) = ?k"
      using Suc.prems(6) by (simp add: unsigned_of_nat take_bit_nat_eq_self)
    have le: "(of_nat ?k :: u32) \<le> of_nat (?cs - r) \<longleftrightarrow> ?k \<le> ?cs - r"
      by (simp only: word_le_nat_alt uroom uk)
    show ?thesis
    proof (cases "?k \<le> ?cs - r")
      case short: True
      then have "r + ?k \<le> ?cs" using Suc.prems(4) by simp
      from read_chunk [OF Suc.prems(1) c this Suc.prems(7,8)] obtain w1 where
        C: "rd tmp c (of_nat ?cs) w = Inr (of_nat ?cs, w1)"
        "fs_ready img cap good tmp (fd, w1\<lparr>w_mem := mem_copy (w_mem w1) ?b (tmp + of_nat r) ?k\<rparr>)"
        "fs_write img tmp (block ?b ?k) (fd, w) (fd, w1\<lparr>w_mem := mem_copy (w_mem w1) ?b (tmp + of_nat r) ?k\<rparr>)"
        "mem_get (mem_copy (w_mem w1) ?b (tmp + of_nat r) ?k) ?b ?k = map ?f [unat c + r..<unat c + r + ?k]"
        by (auto simp: Let_def)
      let ?w2 = "w1\<lparr>w_mem := mem_copy (w_mem w1) ?b (tmp + of_nat r) ?k\<rparr>"
      have "?k \<le> ?cs" using short by simp
      then have fin: "sz \<le> pos + ?cs" by simp
      have cs0: "?cs \<noteq> 0" using cs(1) by simp
      have "fat_read_loop rd tmp buf sz ?cs c (int r) pos (fd, w) = Inr (True, fd, ?w2)"
        using True C(1) short le cs0
        by (subst fat_read_loop.simps)
          (simp only: if_False if_True prod.case bnd_Inr Let_def room of_int_of_nat_eq
            read_loop_done [OF cs(1) fin] not_True_eq_False simp_thms)
      moreover have "map ?f [unat c + r..<unat c + r + ?k] = map (file_byte fd ?f (unat c)) [r..<r + ?k]"
        using short Suc.prems(4) by (intro nth_equalityI) (auto simp: file_byte_first add.assoc)
      ultimately show ?thesis using C by auto
    next
      case long: False
      then have r0: "r = 0" using Suc.prems(5) by auto
      have kc: "?cs < ?k" using long r0 by simp
      have bsub: "block ?b ?cs \<subseteq> block ?b ?k" using kc by (intro block_mono) simp
      have d: "block ?b ?cs \<inter> block tmp ?cs = {}" "block ?b ?cs \<inter> cache_block fd = {}"
        using bsub Suc.prems(7,8) by blast+
      from read_chunk [OF Suc.prems(1) c _ d, of 0] obtain w1 where
        C: "rd tmp c (of_nat ?cs) w = Inr (of_nat ?cs, w1)"
        "fs_ready img cap good tmp (fd, w1\<lparr>w_mem := mem_copy (w_mem w1) ?b tmp ?cs\<rparr>)"
        "fs_write img tmp (block ?b ?cs) (fd, w) (fd, w1\<lparr>w_mem := mem_copy (w_mem w1) ?b tmp ?cs\<rparr>)"
        "mem_get (mem_copy (w_mem w1) ?b tmp ?cs) ?b ?cs = map ?f [unat c..<unat c + ?cs]"
        by (auto simp: Let_def)
      let ?w2 = "w1\<lparr>w_mem := mem_copy (w_mem w1) ?b tmp ?cs\<rparr>"
      have dev2: "img (w_dev ?w2) = ?f" using C(3) by (simp add: fs_write_def)
      obtain c3 fd3 w3 where N: "fat_get_next_cluster rd tmp c (fd, ?w2) = Inr (c3, fd3, w3)"
        "fs_ready img cap good tmp (fd3, w3)" "fs_step img tmp (fd, ?w2) (fd3, w3)"
        "unat c3 = next_cluster_at fd ?f (unat c)"
        using get_next_cluster [OF C(2), of c] c unfolding cluster_ok_def dev2 by auto
      have same: "same_fs fd fd3" and dev3: "img (w_dev w3) = ?f"
        using N(3) dev2 by (simp_all add: fs_step_def)
      note S = same_fs_simps [OF same]
      have n0: "n \<noteq> 0"
      proof
        assume "n = 0"
        with Suc.prems(3) kc show False by simp
      qed
      then obtain n' where n': "n = Suc n'" by (cases n) auto
      have "cluster_ok cap fd (next_cluster_at fd ?f (unat c))" using ck unfolding n' by (simp only: chain_ok_Suc)
      then have "unat c3 \<noteq> 0" unfolding N(4) by (simp only: cluster_ok_def not_False_eq_True)
      then have c30: "c3 \<noteq> 0" by auto
      have pos': "buf + of_nat (pos + ?cs) = ?b + of_nat ?cs" by (simp only: of_nat_add add.assoc)
      have rest: "sz - (pos + ?cs) = ?k - ?cs" by simp
      have kb: "?cs + (?k - ?cs) \<le> 2 ^ 32" using Suc.prems(6) kc by simp
      have bsub2: "block (buf + of_nat (pos + ?cs)) (sz - (pos + ?cs)) \<subseteq> block ?b ?k"
        unfolding pos' rest using kc kb by (intro block_add_subset) simp_all
      have d2: "block (buf + of_nat (pos + ?cs)) (sz - (pos + ?cs)) \<inter> block tmp ?cs = {}"
        "block (buf + of_nat (pos + ?cs)) (sz - (pos + ?cs)) \<inter> cache_block fd = {}"
        using bsub2 Suc.prems(7,8) by blast+
      have "\<exists>fd' w'. fat_read_loop rd tmp buf sz (cluster_bytes fd3) c3 (int 0) (pos + ?cs) (fd3, w3) = Inr (True, fd', w') \<and>
          fs_ready img cap good tmp (fd', w') \<and>
          fs_write img tmp (block (buf + of_nat (pos + ?cs)) (sz - (pos + ?cs))) (fd3, w3) (fd', w') \<and>
          mem_get (w_mem w') (buf + of_nat (pos + ?cs)) (sz - (pos + ?cs)) =
          map (file_byte fd3 (img (w_dev w3)) (unat c3)) [0..<0 + (sz - (pos + ?cs))]"
        by (rule Suc.IH [OF N(2)])
          (use ck N(4) dev3 d2 cs Suc.prems(3,6) r0 in
            \<open>simp_all only: S same_fs_chain_ok [OF same] simp_thms\<close>, simp)
      then obtain fd' w' where
        L: "fat_read_loop rd tmp buf sz ?cs c3 0 (pos + ?cs) (fd3, w3) = Inr (True, fd', w')"
        "fs_ready img cap good tmp (fd', w')"
        "fs_write img tmp (block (buf + of_nat (pos + ?cs)) (sz - (pos + ?cs))) (fd3, w3) (fd', w')"
        "mem_get (w_mem w') (buf + of_nat (pos + ?cs)) (sz - (pos + ?cs)) =
          map (file_byte fd ?f (next_cluster_at fd ?f (unat c))) [0..<sz - (pos + ?cs)]"
        unfolding S same_fs_file_byte [OF same] dev3 N(4) by auto
      have cs0: "?cs \<noteq> 0" using cs(1) by simp
      have nle: "\<not> (of_nat ?k :: u32) \<le> of_nat (?cs - r)" using long le by simp
      have eq: "fat_read_loop rd tmp buf sz ?cs c (int r) pos (fd, w) = Inr (True, fd', w')"
        using True C(1) nle cs0 N(1) c30 L(1)
        by (subst fat_read_loop.simps)
          (simp only: if_False if_True prod.case bnd_Inr Let_def r0 room [unfolded r0] uroom [unfolded r0 diff_zero] diff_zero
            not_True_eq_False simp_thms)
      have W: "fs_write img tmp (block ?b ?k) (fd, w) (fd', w')"
        by (rule fs_write_trans [OF C(3) fs_write_trans [OF fs_write_step [OF N(3)] L(3)]])
          (use bsub bsub2 in blast)+
      have "mem_get (w_mem w') ?b ?cs = mem_get (w_mem ?w2) ?b ?cs"
      proof (rule mem_get_cong)
        fix x
        assume x: "x \<in> block ?b ?cs"
        then have "x \<notin> block (buf + of_nat (pos + ?cs)) (sz - (pos + ?cs))"
          unfolding pos' rest using block_add_disjoint [OF order_refl kb, of ?b] by blast
        with x d show "w_mem w' x = w_mem ?w2 x"
          using L(3) N(3) unfolding fs_write_def fs_step_def S by (simp add: S) blast
      qed (use cs in simp)
      then have M1: "mem_get (w_mem w') ?b ?cs = map ?f [unat c..<unat c + ?cs]" using C(4) by simp
      have "mem_get (w_mem w') ?b ?k = mem_get (w_mem w') ?b ?cs @ mem_get (w_mem w') (?b + of_nat ?cs) (?k - ?cs)"
        using mem_get_add [of "w_mem w'" ?b ?cs "?k - ?cs"] kc by (simp only: le_add_diff_inverse less_imp_le)
      also have "\<dots> = map (file_byte fd ?f (unat c)) [0..<?k]"
      proof (intro nth_equalityI)
        fix j
        assume "j < length (mem_get (w_mem w') ?b ?cs @ mem_get (w_mem w') (?b + of_nat ?cs) (?k - ?cs))"
        then have j: "j < ?k" using kc by simp
        show "(mem_get (w_mem w') ?b ?cs @ mem_get (w_mem w') (?b + of_nat ?cs) (?k - ?cs)) ! j =
            map (file_byte fd ?f (unat c)) [0..<?k] ! j"
        proof (cases "j < ?cs")
          case True
          then show ?thesis using j by (simp only: nth_append length_mem_get M1 if_True) (simp add: file_byte_first)
        next
          case False
          then obtain i where i: "j = ?cs + i" by (metis le_iff_add not_less)
          have "mem_get (w_mem w') (?b + of_nat ?cs) (?k - ?cs) ! i =
              file_byte fd ?f (next_cluster_at fd ?f (unat c)) i"
            using L(4) i j unfolding pos' rest by simp
          then show ?thesis
            using i j by (simp only: nth_append length_mem_get) (simp add: file_byte_next [OF cs(1)])
        qed
      qed (use kc in simp)
      finally show ?thesis using eq L(2) W r0 by auto
    qed
  qed
qed

text \<open>The whole of a read, with the allocation of its buffer.\<close>

lemma chain_at_add: "chain_at fd f (chain_at fd f c q) k = chain_at fd f c (q + k)"
  by (induction k) simp_all

lemma file_byte_shift:
  assumes "0 < cluster_bytes fd"
  shows "file_byte fd f (chain_at fd f c q) p = file_byte fd f c (q * cluster_bytes fd + p)"
  using assms by (simp add: file_byte_def chain_at_add)

lemma file_read:
  assumes g: "fat_geom cap fd" "cache_ok img fd w" "good (w_dev w)" "heap_inv (w_heap w)"
    and past: "fh_attr file AND FS_FILEATTR_DIRECTORY \<noteq> 0 \<or> unat off + unat sz \<le> unat (fh_size file)"
    and off: "unat off < 2 ^ 31"
    and al: "alloc (w_heap w) (ucast (ft_cluster_size fd)) ALLOC_FLAG_16B = Inr (tmp, h1)"
    and cb: "\<forall>x \<in> cache_block fd. unat x \<notin> free_bytes (w_heap w)"
    and bb: "\<forall>x \<in> block buf (unat sz). unat x \<notin> free_bytes (w_heap w)"
    and bc: "block buf (unat sz) \<inter> cache_block fd = {}"
    and ch: "chain_ok cap fd (img (w_dev w)) (unat (fh_first_cluster file)) n"
    and n: "unat off div cluster_bytes fd < n" "unat off + unat sz \<le> n * cluster_bytes fd"
    and r: "unat off mod cluster_bytes fd = 0 \<or> unat off mod cluster_bytes fd + unat sz \<le> cluster_bytes fd"
  shows "\<exists>fd' w' h2. fat_file_read rd file buf sz off (fd, w) = Inr (sz, fd', w') \<and>
    mem_get (w_mem w') buf (unat sz) = map (file_byte fd (img (w_dev w)) (unat (fh_first_cluster file)))
      [unat off..<unat off + unat sz] \<and>
    same_fs fd fd' \<and> fat_geom cap fd' \<and> cache_ok img fd' w' \<and> good (w_dev w') \<and>
    img (w_dev w') = img (w_dev w) \<and> free h1 tmp = Inr h2 \<and> w_heap w' = h2 \<and> heap_inv h2 \<and>
    (\<forall>x. x \<notin> block buf (unat sz) \<union> cache_block fd \<and> unat x \<notin> free_bytes (w_heap w) \<longrightarrow>
       w_mem w' x = w_mem w x)"
proof -
  let ?cs = "cluster_bytes fd" and ?f = "img (w_dev w)" and ?c = "unat (fh_first_cluster file)"
  let ?q = "unat off div ?cs" and ?r = "unat off mod ?cs"
  let ?cs32 = "ucast (ft_cluster_size fd) :: u32"
  have cs: "0 < ?cs" "?cs < 65536" using g(1) cluster_bytes_less [of fd] by (simp_all add: fat_geom_def)
  have A: "heap_inv h1" "{unat tmp..<unat tmp + ?cs} \<subseteq> free_bytes (w_heap w)"
    "unat tmp + ?cs \<le> 0xFFFF"
    using alloc_spec [OF g(4) al] by (simp_all add: mrange_of_def mrange_16b_def ALLOC_FLAG_16B_def)
  have tb: "unat x \<in> free_bytes (w_heap w)" if "x \<in> block tmp ?cs" for x
  proof -
    have "unat tmp + ?cs \<le> 2 ^ 32" using A(3) by simp
    then show ?thesis using that A(2) block_interval [of tmp ?cs x] by auto
  qed
  let ?w1 = "w\<lparr>w_heap := h1\<rparr>"
  have rdy: "fs_ready img cap good tmp (fd, ?w1)"
    using g A(3) tb cb by (auto simp: fs_ready_def cache_ok_def)
  have q: "chain_ok cap fd (img (w_dev ?w1)) ?c (Suc ?q)"
    using chain_ok_mono [OF ch, of "Suc ?q"] n(1) by simp
  obtain c' fd1 w2 where K: "fat_seek rd tmp ?cs (fh_first_cluster file) (int (unat off)) (fd, ?w1) =
      Inr (Some (c', int ?r), fd1, w2)"
    "fs_ready img cap good tmp (fd1, w2)" "fs_step img tmp (fd, ?w1) (fd1, w2)"
    "unat c' = chain_at fd ?f ?c ?q"
    using seek [OF rdy q] by auto
  have same: "same_fs fd fd1" and dev: "img (w_dev w2) = ?f" using K(3) by (simp_all add: fs_step_def)
  note S = same_fs_simps [OF same]
  have ch': "chain_ok cap fd1 (img (w_dev w2)) (unat c') (n - ?q)"
    using ch unfolding same_fs_chain_ok [OF same] dev K(4) by (simp add: chain_ok_def chain_at_add)
  have len: "?r + (unat sz - 0) \<le> (n - ?q) * cluster_bytes fd1"
  proof -
    have "?q * ?cs + ?r = unat off" by (rule div_mult_mod_eq)
    then show ?thesis unfolding S diff_zero diff_mult_distrib using n(2) by linarith
  qed
  have dis: "block (buf + of_nat 0) (unat sz - 0) \<inter> block tmp (cluster_bytes fd1) = {}"
    "block (buf + of_nat 0) (unat sz - 0) \<inter> cache_block fd1 = {}"
    using bb tb bc by (auto simp: S)
  obtain fd2 w3 where L: "fat_read_loop rd tmp buf (unat sz) ?cs c' (int ?r) 0 (fd1, w2) = Inr (True, fd2, w3)"
    "fs_ready img cap good tmp (fd2, w3)"
    "fs_write img tmp (block buf (unat sz)) (fd1, w2) (fd2, w3)"
    "mem_get (w_mem w3) buf (unat sz) = map (file_byte fd1 (img (w_dev w2)) (unat c')) [?r..<?r + unat sz]"
    using read_loop [OF K(2) ch' len _ _ _ dis] r cs by (auto simp: S)
  have w3: "w_heap w3 = h1" "same_fs fd1 fd2" "img (w_dev w3) = ?f"
    using L(3) K(3) dev by (simp_all add: fs_write_def fs_step_def)
  obtain h2 where h2: "free h1 tmp = Inr h2" "heap_inv h2"
    using heap_alloc.fr_after_al [OF g(4) al] by blast
  let ?w4 = "w3\<lparr>w_heap := h2\<rparr>"
  have so: "sint off = int (unat off)" by (rule sint_small [OF off])
  have np: "\<not> (fh_attr file AND FS_FILEATTR_DIRECTORY = 0 \<and> off + sz > fh_size file)"
  proof -
    have "unat (off + sz) = unat off + unat sz" if "unat off + unat sz \<le> unat (fh_size file)"
    proof (rule unat_add_no_wrap)
      have "unat (fh_size file) < 2 ^ LENGTH(32)" by (rule unsigned_less)
      with that show "unat off + unat sz < 2 ^ LENGTH(32)" by linarith
    qed
    then show ?thesis using past by (auto simp: word_less_nat_alt)
  qed
  have "fat_file_read rd file buf sz off (fd, w) = Inr (sz, fd2, ?w4)"
    unfolding fat_file_read_def prod.case if_not_P [OF np] Let_def walloc_def al bnd_Inr so K(1)
      option.case L(1) wfree_def w3(1) h2(1) if_True by (rule refl)
  moreover have "mem_get (w_mem ?w4) buf (unat sz) = map (file_byte fd ?f ?c) [unat off..<unat off + unat sz]"
  proof -
    have "file_byte fd1 (img (w_dev w2)) (unat c') (?r + i) = file_byte fd ?f ?c (unat off + i)" for i
      unfolding same_fs_file_byte [OF same] dev K(4) file_byte_shift [OF cs(1)]
      by (simp add: add.assoc [symmetric])
    then show ?thesis using L(4) by (intro nth_equalityI) simp_all
  qed
  moreover have "same_fs fd fd2" by (rule same_fs_trans [OF same w3(2)])
  moreover have "fat_geom cap fd2" "cache_ok img fd2 ?w4" "good (w_dev ?w4)"
    using L(2) by (simp_all add: fs_ready_def cache_ok_def)
  moreover have "w_mem ?w4 x = w_mem w x"
    if "x \<notin> block buf (unat sz) \<union> cache_block fd" "unat x \<notin> free_bytes (w_heap w)" for x
    using that tb K(3) L(3) by (auto simp: fs_step_def fs_write_def S)
  ultimately show ?thesis
    using w3 h2 by (intro exI [of _ fd2] exI [of _ ?w4] exI [of _ h2]) simp
qed

end

section \<open>Properties\<close>

text \<open>
  C17: On a medium that reads without error and with a coherent cache, the table entry of a cluster
  is the twelve bits the medium holds for it, also when they are split across two clusters of the
  table; the cache stays coherent and nothing but the buffer and the cache is written.
\<close>

theorem fat_entry_correct:
  assumes "reliable_device rd img cap good" and "fs_ready img cap good tmp (fd, w)"
    and "unat n * 3 div 2 + 2 \<le> unat (ft_fat_size fd)"
  shows "\<exists>e fd' w'. fat_get_fat_entry rd tmp n (fd, w) = Inr (e, fd', w') \<and>
    unat e = fat_entry_at (img (w_dev w)) (unat (ft_fat_offset fd)) (unat n) \<and>
    fs_ready img cap good tmp (fd', w') \<and> fs_step img tmp (fd, w) (fd', w')"
  using reliable_device.get_fat_entry [OF assms] by blast

text \<open>
  C16: The next cluster is the following one inside the root directory, the cluster the table names
  in the data area, and 0 at the end of either.
\<close>

theorem fat_next_cluster_correct:
  assumes "reliable_device rd img cap good" and "fs_ready img cap good tmp (fd, w)"
    and "unat c \<le> cap" and "entry_in_fat fd (unat c)"
  shows "\<exists>r fd' w'. fat_get_next_cluster rd tmp c (fd, w) = Inr (r, fd', w') \<and>
    unat r = next_cluster_at fd (img (w_dev w)) (unat c) \<and>
    fs_ready img cap good tmp (fd', w') \<and> fs_step img tmp (fd, w) (fd', w')"
  using reliable_device.get_next_cluster [OF assms] by blast

text \<open>
  C15: A read of a file whose cluster chain is sound returns the size asked for and puts exactly the
  bytes of the file at that offset into the buffer, when it starts at a cluster boundary or stays
  inside one cluster. Its work buffer is freed again, the cache stays coherent, and no byte is
  written outside the buffer, the cache and memory that was free.
\<close>

theorem fat_file_read_correct:
  assumes dev: "reliable_device rd img cap good"
    and g: "fat_geom cap fd" "cache_ok img fd w" "good (w_dev w)" "heap_inv (w_heap w)"
    and past: "fh_attr file AND FS_FILEATTR_DIRECTORY \<noteq> 0 \<or> unat off + unat sz \<le> unat (fh_size file)"
    and off: "unat off < 2 ^ 31"
    and al: "alloc (w_heap w) (ucast (ft_cluster_size fd)) ALLOC_FLAG_16B = Inr (tmp, h1)"
    and cb: "\<forall>x \<in> cache_block fd. unat x \<notin> free_bytes (w_heap w)"
    and bb: "\<forall>x \<in> block buf (unat sz). unat x \<notin> free_bytes (w_heap w)"
    and bc: "block buf (unat sz) \<inter> cache_block fd = {}"
    and ch: "chain_ok cap fd (img (w_dev w)) (unat (fh_first_cluster file)) n"
    and n: "unat off div cluster_bytes fd < n" "unat off + unat sz \<le> n * cluster_bytes fd"
    and r: "unat off mod cluster_bytes fd = 0 \<or> unat off mod cluster_bytes fd + unat sz \<le> cluster_bytes fd"
  shows "\<exists>fd' w'. fat_file_read rd file buf sz off (fd, w) = Inr (sz, fd', w') \<and>
    mem_get (w_mem w') buf (unat sz) = map (file_byte fd (img (w_dev w)) (unat (fh_first_cluster file)))
      [unat off..<unat off + unat sz] \<and>
    fat_geom cap fd' \<and> cache_ok img fd' w' \<and> img (w_dev w') = img (w_dev w) \<and>
    free h1 tmp = Inr (w_heap w') \<and> heap_inv (w_heap w') \<and>
    (\<forall>x. x \<notin> block buf (unat sz) \<union> cache_block fd \<and> unat x \<notin> free_bytes (w_heap w) \<longrightarrow>
       w_mem w' x = w_mem w x)"
  using reliable_device.file_read [OF assms] by blast

text \<open>A medium with one file of two clusters, 2 and 3.\<close>

definition example_img :: "nat \<Rightarrow> u8" where
  "example_img n = (if n = 515 then 3 else if n = 516 then 0xF0 else if n = 517 then 0xFF else of_nat n)"

definition fat_world :: "floppy world" where
  "fat_world = \<lparr>w_mem = (\<lambda>_. 0), w_heap = example_heap, w_if = True,
     w_dev = \<lparr>fd_img = example_img, fd_fails = [], fd_pic = (\<lambda>_. 0xff)\<rparr>\<rparr>"

definition example_file :: file_hand where
  "example_file = \<lparr>fh_data = 0x70010, fh_first_cluster = 16896, fh_size = 600, fh_attr = 1\<rparr>"

lemma example_geom: "fat_geom floppy_cap example_fat_data"
  by (simp add: fat_geom_def example_fat_data_def floppy_cap_def FAT_CACHE_CNT_def)

lemma example_cache: "cache_ok fd_img example_fat_data fat_world"
  by (simp add: cache_ok_def example_fat_data_def FAT_CACHE_CNT_def nth_Cons')

lemma example_ready: "fs_ready fd_img floppy_cap (\<lambda>d. fd_fails d = []) 0x7000 (example_fat_data, fat_world)"
proof -
  have "block (0x7000 :: u32) 512 \<inter> block 0x90000 2048 = {}" by (intro block_disjointI) simp_all
  then have "block (0x7000 :: u32) (cluster_bytes example_fat_data) \<inter> cache_block example_fat_data = {}"
    by (simp add: cache_block_def example_fat_data_def FAT_CACHE_CNT_def)
  then show ?thesis
    using example_geom example_cache
    by (simp add: fs_ready_def fat_world_def) (simp add: example_fat_data_def)
qed

lemma example_chain: "chain_ok floppy_cap example_fat_data example_img 16896 2"
proof -
  have "next_cluster_at example_fat_data example_img 16896 = 17408"
    by (simp add: next_cluster_at_def example_fat_data_def cluster_number_def fat_entry_at_def
        example_img_def Let_def)
  then show ?thesis
    by (simp add: numeral_2_eq_2 chain_ok_Suc)
      (simp add: chain_ok_def cluster_ok_def example_fat_data_def floppy_cap_def entry_in_fat_def
        cluster_number_def)
qed

theorem fat_entry_correct_witness:
  "\<exists>e fd' w'. fat_get_fat_entry (bios_read floppy_hw floppy_data) 0x7000 2 (example_fat_data, fat_world) =
     Inr (e, fd', w') \<and> unat e = 3"
  using fat_entry_correct [OF good_floppy.reliable_device_axioms example_ready, of 2]
  by (auto simp: example_fat_data_def fat_world_def fat_entry_at_def example_img_def Let_def)

theorem fat_next_cluster_correct_witness:
  "\<exists>r fd' w'. fat_get_next_cluster (bios_read floppy_hw floppy_data) 0x7000 16896 (example_fat_data, fat_world) =
     Inr (r, fd', w') \<and> unat r = 17408"
proof -
  have "entry_in_fat example_fat_data 16896"
    by (simp add: entry_in_fat_def cluster_number_def example_fat_data_def)
  moreover have "next_cluster_at example_fat_data (fd_img (w_dev fat_world)) 16896 = 17408"
    by (simp add: next_cluster_at_def example_fat_data_def cluster_number_def fat_entry_at_def
        example_img_def Let_def fat_world_def)
  ultimately show ?thesis
    using fat_next_cluster_correct [OF good_floppy.reliable_device_axioms example_ready, of 16896]
    by (auto simp: floppy_cap_def)
qed

theorem fat_file_read_correct_witness:
  "\<exists>fd' w'. fat_file_read (bios_read floppy_hw floppy_data) example_file 0x100000 600 0
      (example_fat_data, fat_world) = Inr (600, fd', w') \<and>
    mem_get (w_mem w') 0x100000 600 = map (file_byte example_fat_data example_img 16896) [0..<600]"
proof -
  let ?fd = example_fat_data
  have cs: "(ucast (ft_cluster_size ?fd) :: u32) = 512" "cluster_bytes ?fd = 512"
    by (simp_all add: example_fat_data_def)
  have "isl (alloc example_heap 512 ALLOC_FLAG_16B) = False"
    unfolding example_heap_def by code_simp
  then obtain tmp h1 where "alloc example_heap 512 ALLOC_FLAG_16B = Inr (tmp, h1)"
    by (cases "alloc example_heap 512 ALLOC_FLAG_16B") auto
  then have al: "alloc (w_heap fat_world) (ucast (ft_cluster_size ?fd)) ALLOC_FLAG_16B = Inr (tmp, h1)"
    by (simp add: cs fat_world_def)
  have nf: "unat x \<notin> free_bytes (w_heap fat_world)" if "0x80000 \<le> unat x" for x :: u32
    using that example_heap(6) by (auto simp: fat_world_def)
  have c: "x \<in> cache_block ?fd \<longleftrightarrow> 0x90000 \<le> unat x \<and> unat x < 0x90800" for x
    using block_interval [of "0x90000" 2048 x]
    by (simp add: cache_block_def example_fat_data_def FAT_CACHE_CNT_def)
  have b: "x \<in> block 0x100000 (unat (600 :: u32)) \<longleftrightarrow> 0x100000 \<le> unat x \<and> unat x < 0x100258" for x :: u32
    using block_interval [of "0x100000" 600 x] by simp
  have "heap_inv (w_heap fat_world)" "fd_fails (w_dev fat_world) = []"
    using example_heap(1) by (simp_all add: fat_world_def)
  note R = fat_file_read_correct [OF good_floppy.reliable_device_axioms example_geom example_cache
      this(2,1) _ _ al, of example_file 0 600 "0x100000" 2]
  have "\<exists>fd' w'. fat_file_read (bios_read floppy_hw floppy_data) example_file 0x100000 600 0
      (example_fat_data, fat_world) = Inr (600, fd', w') \<and>
    mem_get (w_mem w') 0x100000 (unat (600 :: u32)) = map (file_byte ?fd (fd_img (w_dev fat_world))
      (unat (fh_first_cluster example_file))) [unat (0 :: u32)..<unat (0 :: u32) + unat (600 :: u32)]"
  proof -
    have "block 0x100000 (unat (600 :: u32)) \<inter> cache_block ?fd = {}" using b c by auto
    then show ?thesis using R nf c b example_chain cs by (auto simp: example_file_def fat_world_def)
  qed
  then show ?thesis by (simp add: example_file_def fat_world_def)
qed

end
