(* ===== verification/Config.thy ===== *)
theory Config
  imports Lib_String
begin

text \<open>
  The configuration parser of \<^verbatim>\<open>src/config/config.c\<close> and \<^verbatim>\<open>inc/config/config_types.h\<close>. The text is
  parsed in place: \<open>buf\<close> is the memory from the start of the file's buffer on, a \<open>char\<close> pointer
  into it is an index. The buffer has no terminator of its own, so \<open>buf\<close> is the text and whatever
  follows it in memory.
\<close>

section \<open>Data\<close>

text \<open>A string the configuration owns: its address and its bytes; \<open>None\<close> is the null pointer.\<close>

type_synonym cfg_string = "(u32 \<times> u8 list) option"

record config_module =
  cm_path :: cfg_string
  cm_name :: cfg_string
  cm_addr :: u32
  cm_size :: u32

record config_data =
  cd_version :: u8
  cd_kernel_path :: cfg_string
  cd_kernel_cmdline :: cfg_string
  cd_modules :: "config_module list"
  cd_modules_ptr :: u32
  cd_module_count :: u32

definition MAX_MODULES :: nat where "MAX_MODULES = 4"

definition sizeof_config_module :: u32 where "sizeof_config_module = 16"

definition config_module0 :: config_module where
  "config_module0 = \<lparr>cm_path = None, cm_name = None, cm_addr = 0, cm_size = 0\<rparr>"

definition config_data0 :: config_data where
  "config_data0 = \<lparr>cd_version = 0, cd_kernel_path = None, cd_kernel_cmdline = None,
     cd_modules = [], cd_modules_ptr = 0, cd_module_count = 0\<rparr>"

section \<open>Lines\<close>

definition CR :: u8 where "CR = 13"
definition LF :: u8 where "LF = 10"
definition EQ :: u8 where "EQ = 61"

definition strchr_at :: "u8 list \<Rightarrow> nat \<Rightarrow> u8 \<Rightarrow> nat option res" where
  "strchr_at buf i c = bnd (strchr (drop i buf) c) (\<lambda>r. Inr (map_option ((+) i) r))"

text \<open>The loop of \<open>_get_line\<close> that overwrites the line end.\<close>

function zero_eol :: "u8 list \<Rightarrow> nat \<Rightarrow> (u8 list \<times> nat) res" where
  "zero_eol buf e =
     (if e < length buf then
        if buf ! e = CR \<or> buf ! e = LF then zero_eol (buf[e := 0]) (Suc e) else Inr (buf, e)
      else Inl Fault)"
  by pat_completeness auto
termination by (relation "measure (\<lambda>(buf, e). length buf - e)") auto

declare zero_eol.simps [simp del]

text \<open>\<open>end_cr < end_lf\<close> is false when there is no line feed: the null pointer is the smallest.\<close>

definition line_end :: "nat option \<Rightarrow> nat option \<Rightarrow> nat option" where
  "line_end cr lf =
     (case cr of
        Some c \<Rightarrow> (case lf of Some l \<Rightarrow> if c < l then cr else lf | None \<Rightarrow> lf)
      | None \<Rightarrow> lf)"

definition get_line :: "u8 list \<Rightarrow> nat \<Rightarrow> nat option \<Rightarrow> (u8 list \<times> nat option) res" where
  "get_line buf str next =
     bnd (strchr_at buf str CR) (\<lambda>cr. bnd (strchr_at buf str LF) (\<lambda>lf.
       case line_end cr lf of
         Some e \<Rightarrow> bnd (zero_eol buf e) (\<lambda>(buf, e).
           Inr (buf, if buf ! e \<noteq> 0 then Some e else next))
       | None \<Rightarrow> Inr (buf, None)))"

section \<open>Settings\<close>

text \<open>\<open>alloc(val_len + 1)\<close> and \<open>strcpy\<close>; \<open>mem\<close> is the memory before.\<close>

definition copy_value :: "memory \<Rightarrow> heap \<Rightarrow> nat \<Rightarrow> u8 list \<Rightarrow> (cfg_string \<times> heap) res" where
  "copy_value mem h val_len val =
     bnd (alloc h (of_nat val_len + 1) 0) (\<lambda>(a, h).
       bnd (strcpy (mem_get mem a (val_len + 1)) val) (\<lambda>d. Inr (Some (a, d), h)))"

text \<open>
  The tests of the key in \<open>_config_parse\<close>; the boolean is false for the early return of -1.
\<close>

definition config_setting ::
  "memory \<Rightarrow> config_data \<Rightarrow> heap \<Rightarrow> u8 list \<Rightarrow> u8 list \<Rightarrow> nat \<Rightarrow> (bool \<times> config_data \<times> heap) res" where
  "config_setting mem cfg h key val val_len =
     bnd (strcmp key (cstr ''CFGVER'')) (\<lambda>r.
     if r = 0 then
       bnd (strtoul val 10) (\<lambda>(v, k).
         let cfg = cfg\<lparr>cd_version := ucast v\<rparr>
         in Inr (cd_version cfg = 1, cfg, h))
     else
       bnd (strcmp key (cstr ''KERNEL'')) (\<lambda>r.
       if r = 0 then
         bnd (copy_value mem h val_len val) (\<lambda>(s, h).
           Inr (True, cfg\<lparr>cd_kernel_path := s\<rparr>, h))
       else
         bnd (strcmp key (cstr ''CMDLINE'')) (\<lambda>r.
         if r = 0 then
           bnd (copy_value mem h val_len val) (\<lambda>(s, h).
             Inr (True, cfg\<lparr>cd_kernel_cmdline := s\<rparr>, h))
         else
           bnd (strcmp key (cstr ''MODULE'')) (\<lambda>r.
           if r = 0 then
             if cd_module_count cfg = of_nat MAX_MODULES then Inr (False, cfg, h)
             else
               bnd (copy_value mem h val_len val) (\<lambda>(s, h).
                 let i = unat (cd_module_count cfg)
                 in Inr (True, cfg\<lparr>cd_modules := (cd_modules cfg)[i :=
                        (cd_modules cfg ! i)\<lparr>cm_path := s, cm_name := s\<rparr>],
                      cd_module_count := cd_module_count cfg + 1\<rparr>, h))
           else Inr (True, cfg, h)))))"

text \<open>One line of \<open>_config_parse\<close> after \<open>_get_line\<close>: split it at the first equals sign.\<close>

definition config_line ::
  "memory \<Rightarrow> config_data \<Rightarrow> heap \<Rightarrow> u8 list \<Rightarrow> nat \<Rightarrow> (bool \<times> config_data \<times> heap \<times> u8 list) res" where
  "config_line mem cfg h buf line =
     bnd (strchr_at buf line EQ) (\<lambda>eq.
       case eq of
         None \<Rightarrow> Inr (True, cfg, h, buf)
       | Some e \<Rightarrow>
           let buf = buf[e := 0]; key = drop line buf; val = drop (e + 1) buf
           in bnd (strlen val) (\<lambda>val_len.
              bnd (config_setting mem cfg h key val val_len) (\<lambda>(ok, cfg, h).
                Inr (ok, cfg, h, buf))))"

section \<open>The loop over the lines\<close>

lemma strchr_at_Some:
  assumes "strchr_at buf i c = Inr (Some k)"
  shows "i \<le> k \<and> k < length buf \<and> buf ! k = c \<and> c \<noteq> 0"
proof -
  have A: "strchr s c = Inr (Some j) \<Longrightarrow> j < length s \<and> s ! j = c \<and> c \<noteq> 0" for s j
    by (induction s arbitrary: j) (auto simp: bnd_eq_Inr split: if_splits)
  obtain j where j: "strchr (drop i buf) c = Inr (Some j)" "k = i + j"
    using assms by (auto simp: strchr_at_def bnd_eq_Inr)
  from A [OF j(1)] j(2) show ?thesis by auto
qed

definition eol_count :: "u8 list \<Rightarrow> nat" where
  "eol_count buf = length (filter (\<lambda>c. c = CR \<or> c = LF) buf)"

lemma eol_count_zero:
  assumes "e < length buf"
  shows "eol_count (buf[e := 0]) = eol_count buf - (if buf ! e = CR \<or> buf ! e = LF then 1 else 0)"
    and "buf ! e = CR \<or> buf ! e = LF \<Longrightarrow> 0 < eol_count buf"
proof -
  have "buf = take e buf @ buf ! e # drop (Suc e) buf" using assms by (rule id_take_nth_drop)
  then have "eol_count buf = eol_count (take e buf @ buf ! e # drop (Suc e) buf)" by simp
  then show "eol_count (buf[e := 0]) = eol_count buf - (if buf ! e = CR \<or> buf ! e = LF then 1 else 0)"
    "buf ! e = CR \<or> buf ! e = LF \<Longrightarrow> 0 < eol_count buf"
    using assms by (auto simp: eol_count_def upd_conv_take_nth_drop CR_def LF_def)
qed

lemma zero_eol_step:
  "e < length buf \<Longrightarrow> buf ! e = CR \<or> buf ! e = LF \<Longrightarrow> zero_eol buf e = zero_eol (buf[e := 0]) (Suc e)"
  "e < length buf \<Longrightarrow> \<not> (buf ! e = CR \<or> buf ! e = LF) \<Longrightarrow> zero_eol buf e = Inr (buf, e)"
  "\<not> e < length buf \<Longrightarrow> zero_eol buf e = Inl Fault"
  by (subst zero_eol.simps, simp)+

lemma zero_eol_props:
  "zero_eol buf e = Inr (buf', e') \<Longrightarrow>
    length buf' = length buf \<and> e \<le> e' \<and> e' < length buf \<and>
    (if e' = e then buf' = buf else eol_count buf' < eol_count buf)"
proof (induction buf e arbitrary: buf' e' rule: zero_eol.induct)
  case (1 buf e)
  show ?case
  proof (cases "e < length buf \<and> (buf ! e = CR \<or> buf ! e = LF)")
    case True
    then have r: "zero_eol (buf[e := 0]) (Suc e) = Inr (buf', e')"
      using 1(2) zero_eol_step(1) [of e buf] by simp
    from True 1(1) [OF _ _ r] have "length buf' = length buf" "Suc e \<le> e'" "e' < length buf"
      "if e' = Suc e then buf' = buf[e := 0] else eol_count buf' < eol_count (buf[e := 0])" by auto
    moreover have "eol_count (buf[e := 0]) < eol_count buf"
      using eol_count_zero [of e buf] True by auto
    ultimately show ?thesis by (auto split: if_splits)
  next
    case False
    show ?thesis
    proof (cases "e < length buf")
      case True
      then have "Inr (buf, e) = (Inr (buf', e') :: (u8 list \<times> nat) res)"
        using 1(2) False zero_eol_step(2) [OF True] by auto
      then show ?thesis using True by auto
    qed (use 1(2) zero_eol_step(3) [of e buf] in auto)
  qed
qed

lemma get_line_props:
  assumes "get_line buf line next = Inr (buf', next')"
  shows "length buf' = length buf \<and>
    (next' = None \<or> (\<exists>k. next' = Some k \<and> line < k \<and> k < length buf) \<or>
     next' = next \<and> eol_count buf' < eol_count buf)"
proof -
  obtain cr lf where cl: "strchr_at buf line CR = Inr cr" "strchr_at buf line LF = Inr lf"
    using assms by (auto simp: get_line_def bnd_eq_Inr)
  show ?thesis
  proof (cases "line_end cr lf")
    case None
    with assms cl show ?thesis by (simp add: get_line_def)
  next
    case (Some e)
    then have e: "line \<le> e" "e < length buf" "buf ! e = CR \<or> buf ! e = LF"
      using cl by (auto simp: line_end_def dest!: strchr_at_Some split: option.splits if_splits)
    from Some assms cl obtain e' where z: "zero_eol buf e = Inr (buf', e')"
      and n: "next' = (if buf' ! e' \<noteq> 0 then Some e' else next)"
      by (auto simp: get_line_def bnd_eq_Inr split: prod.splits)
    have "zero_eol (buf[e := 0]) (Suc e) = Inr (buf', e')"
      using z zero_eol_step(1) [OF e(2,3)] by simp
    from zero_eol_props [OF this] have "e < e'" by simp
    with zero_eol_props [OF z] e(1) n show ?thesis by auto
  qed
qed

lemma config_line_buf:
  assumes "config_line mem cfg h buf line = Inr (r, cfg', h', buf')"
  shows "length buf' = length buf \<and> eol_count buf' \<le> eol_count buf"
proof -
  have "buf' = buf \<or> (\<exists>e. strchr_at buf line EQ = Inr (Some e) \<and> buf' = buf[e := 0])"
    using assms by (auto simp: config_line_def bnd_eq_Inr Let_def split: option.splits)
  then show ?thesis
    by (auto dest!: strchr_at_Some simp: eol_count_zero)
qed

text \<open>
  The loop \<open>while(line)\<close>. From the second line on, the variable \<open>next\<close> still points at the line
  itself when \<open>_get_line\<close> leaves it alone; before that it is null.
\<close>

function config_loop ::
  "memory \<Rightarrow> config_data \<Rightarrow> heap \<Rightarrow> u8 list \<Rightarrow> bool \<Rightarrow> nat \<Rightarrow> (int \<times> config_data \<times> heap) res" where
  "config_loop mem cfg h buf first line =
     bnd (get_line buf line (if first then None else Some line)) (\<lambda>(buf1, next).
     bnd (config_line mem cfg h buf1 line) (\<lambda>(ok, cfg, h, buf2).
       if \<not> ok then Inr (-1, cfg, h)
       else case next of
           None \<Rightarrow> Inr (0, cfg, h)
         | Some line \<Rightarrow> config_loop mem cfg h buf2 False line))"
  by pat_completeness auto
termination
proof (relation "inv_image (less_than <*lex*> less_than)
    (\<lambda>(mem, cfg, h, buf, first, line). (length buf - line, eol_count buf))", goal_cases)
  case 1
  show ?case by (intro wf_inv_image wf_lex_prod wf_less_than)
next
  case (2 mem cfg h buf first line x buf1 nx xa ok xb cfg' xc h' buf2 l)
  have l: "nx = Some l" using 2 by simp
  have g: "get_line buf line (if first then None else Some line) = Inr (buf1, Some l)"
    using 2 by simp
  have c: "config_line mem cfg h buf1 line = Inr (ok, cfg', h', buf2)" using 2 by simp
  from get_line_props [OF g] config_line_buf [OF c] show ?case by (auto split: if_splits)
qed

declare config_loop.simps [simp del]

definition config_parse ::
  "memory \<Rightarrow> config_data \<Rightarrow> heap \<Rightarrow> u8 list \<Rightarrow> (int \<times> config_data \<times> heap) res" where
  "config_parse mem cfg h cfgdata =
     bnd (alloc h (sizeof_config_module * of_nat MAX_MODULES) 0) (\<lambda>(a, h).
       config_loop mem (cfg\<lparr>cd_modules_ptr := a,
         cd_modules := replicate MAX_MODULES config_module0\<rparr>) h cfgdata True 0)"

section \<open>The text as lines\<close>

definition CFG_SEPS :: "u8 set" where "CFG_SEPS = {0, CR, LF}"

definition line_setting :: "u8 list \<Rightarrow> (u8 list \<times> u8 list) option" where
  "line_setting l =
     (if EQ \<in> set l then Some (takeWhile (\<lambda>c. c \<noteq> EQ) l, tl (dropWhile (\<lambda>c. c \<noteq> EQ) l)) else None)"

definition apply_line ::
  "memory \<Rightarrow> config_data \<Rightarrow> heap \<Rightarrow> u8 list \<Rightarrow> (bool \<times> config_data \<times> heap) res" where
  "apply_line mem cfg h l =
     (case line_setting l of
        None \<Rightarrow> Inr (True, cfg, h)
      | Some (k, v) \<Rightarrow> config_setting mem cfg h (k @ [0]) (v @ [0]) (length v))"

fun apply_lines ::
  "memory \<Rightarrow> config_data \<Rightarrow> heap \<Rightarrow> u8 list list \<Rightarrow> (int \<times> config_data \<times> heap) res" where
  "apply_lines mem cfg h [] = Inr (0, cfg, h)"
| "apply_lines mem cfg h (l # ls) =
     bnd (apply_line mem cfg h l) (\<lambda>(ok, cfg, h).
       if ok then apply_lines mem cfg h ls else Inr (-1, cfg, h))"

lemma line_setting_SomeE:
  assumes "line_setting l = Some (k, v)"
  shows "l = k @ EQ # v" and "EQ \<notin> set k"
proof -
  have e: "EQ \<in> set l" "k = takeWhile (\<lambda>c. c \<noteq> EQ) l" "v = tl (dropWhile (\<lambda>c. c \<noteq> EQ) l)"
    using assms by (auto simp: line_setting_def split: if_splits)
  then have "dropWhile (\<lambda>c. c \<noteq> EQ) l \<noteq> []" by (simp add: dropWhile_eq_Nil_conv)
  then have "dropWhile (\<lambda>c. c \<noteq> EQ) l = EQ # v"
    using e(3) hd_dropWhile [of "\<lambda>c. c \<noteq> EQ" l] by (cases "dropWhile (\<lambda>c. c \<noteq> EQ) l") auto
  then show "l = k @ EQ # v" using e(2) takeWhile_dropWhile_id [of "\<lambda>c. c \<noteq> EQ" l] by simp
  show "EQ \<notin> set k" using e(2) by (auto dest: set_takeWhileD)
qed

lemma strchr_app: "0 \<notin> set a \<Longrightarrow> c \<notin> set a \<Longrightarrow>
   strchr (a @ x # b) c =
     (if x = 0 then Inr None else if x = c then Inr (Some (length a))
      else bnd (strchr b c) (\<lambda>r. Inr (map_option (\<lambda>i. length a + Suc i) r)))"
proof (induction a)
  case (Cons y a)
  then show ?case
    by (auto simp: bnd_assoc comp_def option.map_comp cong: bnd_cong)
qed (auto simp: bnd_def split: sum.splits)

lemma strchr_total: "0 \<in> set s \<Longrightarrow> \<exists>r. strchr s c = Inr r"
  by (induction s) (auto simp: bnd_eq_Inr)

lemma strchr_finds: "0 \<notin> set a \<Longrightarrow> c \<in> set a \<Longrightarrow> \<exists>i < length a. strchr (a @ b) c = Inr (Some i)"
  by (induction a) auto

lemma strchr_at_app [simp]: "strchr_at (pre @ s) (length pre) c =
   bnd (strchr s c) (\<lambda>r. Inr (map_option ((+) (length pre)) r))"
  by (simp add: strchr_at_def)

lemma zero_eol_app:
  assumes "set e \<subseteq> {CR, LF}" and "x \<notin> {CR, LF}"
  shows "zero_eol (p @ e @ x # r) (length p) = Inr (p @ replicate (length e) 0 @ x # r, length p + length e)"
  using assms
proof (induction e arbitrary: p)
  case Nil
  then show ?case by (simp add: zero_eol_step(2))
next
  case (Cons y e)
  then have "zero_eol (p @ (y # e) @ x # r) (length p) = zero_eol ((p @ [0]) @ e @ x # r) (length (p @ [0]))"
    by (simp add: zero_eol_step(1))
  also have "\<dots> = Inr ((p @ [0]) @ replicate (length e) 0 @ x # r, length (p @ [0]) + length e)"
    by (rule Cons.IH) (use Cons.prems in auto)
  finally show ?case by simp
qed

lemma get_line_last:
  assumes "set l \<inter> CFG_SEPS = {}"
  shows "get_line (pre @ l @ 0 # rest) (length pre) next = Inr (pre @ l @ 0 # rest, None)"
  using assms by (auto simp: get_line_def CFG_SEPS_def strchr_app line_end_def)

lemma get_line_eol:
  assumes l: "set l \<inter> CFG_SEPS = {}" and e: "set e \<subseteq> {CR, LF}" "LF \<in> set e"
    and x: "x \<notin> {CR, LF}" "0 \<in> set (x # rest)"
  shows "get_line (pre @ l @ e @ x # rest) (length pre) next =
    Inr (pre @ l @ replicate (length e) 0 @ x # rest,
         if x \<noteq> 0 then Some (length (pre @ l @ e)) else next)"
proof -
  obtain y e' where ye: "e = y # e'" using e(2) by (cases e) auto
  have y: "y = CR \<or> y = LF" using e(1) ye by simp
  have sep: "0 \<notin> set l" "CR \<notin> set l" "LF \<notin> set l" "CR \<noteq> LF" "CR \<noteq> 0" "LF \<noteq> 0"
    using l by (auto simp: CFG_SEPS_def CR_def LF_def)
  have z: "0 \<notin> set e'" using e(1) ye sep by auto
  have "line_end cr lf = Some (length pre + length l)"
    if c: "strchr_at (pre @ l @ e @ x # rest) (length pre) CR = Inr cr"
      "strchr_at (pre @ l @ e @ x # rest) (length pre) LF = Inr lf" for cr lf
  proof (cases "y = CR")
    case True
    then have "LF \<in> set e'" using e(2) ye sep by auto
    from strchr_finds [OF z this, of "x # rest"] obtain i where
      "strchr (e' @ x # rest) LF = Inr (Some i)" by auto
    with c sep ye True show ?thesis by (auto simp: strchr_app line_end_def)
  next
    case False
    then have "y = LF" using y by simp
    with c sep ye show ?thesis
      by (auto simp: strchr_app line_end_def bnd_eq_Inr split: option.splits if_splits)
  qed
  moreover have "\<exists>cr. strchr_at (pre @ l @ e @ x # rest) (length pre) c = Inr cr" for c
    using strchr_total [of "l @ e @ x # rest" c] x(2) by (auto simp: bnd_eq_Inr)
  ultimately obtain cr lf where "strchr_at (pre @ l @ e @ x # rest) (length pre) CR = Inr cr"
      "strchr_at (pre @ l @ e @ x # rest) (length pre) LF = Inr lf"
      "line_end cr lf = Some (length pre + length l)" by metis
  moreover have "zero_eol (pre @ l @ e @ x # rest) (length pre + length l) =
      Inr (pre @ l @ replicate (length e) 0 @ x # rest, length (pre @ l @ e))"
    using zero_eol_app [OF e(1) x(1), of "pre @ l"] by simp
  ultimately show ?thesis
    by (simp add: get_line_def nth_append del: strchr_at_app)
qed

lemma strcmp_cut: "0 \<notin> set a \<Longrightarrow> strcmp (a @ 0 # r) b = strcmp (a @ [0]) b"
  by (induction a arbitrary: b; rename_tac b, case_tac b) auto

lemma strtoul_loop_cut: "0 \<notin> set a \<Longrightarrow> strtoul_loop (a @ 0 # r) b n k = strtoul_loop (a @ [0]) b n k"
  by (induction a arbitrary: n k) auto

lemma copy_value_eq:
  assumes "0 \<notin> set v"
  shows "copy_value mem h (length v) (v @ 0 # r) =
    bnd (alloc h (of_nat (length v) + 1) 0) (\<lambda>(a, h). Inr (Some (a, v @ [0]), h))"
proof -
  have "strcpy (mem_get mem a (length v + 1)) (v @ 0 # r) = Inr (v @ [0])" for a
    using strcpy_at_spec [OF assms, of 0 "mem_get mem a (length v + 1)" r] by (simp add: strcpy_def)
  then show ?thesis by (simp add: copy_value_def split_def)
qed

lemma config_setting_cut:
  assumes "0 \<notin> set k" and "0 \<notin> set v"
  shows "config_setting mem cfg h (k @ 0 # r) (v @ 0 # r') (length v) =
    config_setting mem cfg h (k @ [0]) (v @ [0]) (length v)"
  by (simp add: config_setting_def strcmp_cut [OF assms(1), of r] strtoul_def
      strtoul_loop_cut [OF assms(2), of r'] copy_value_eq [OF assms(2)] cong: if_cong)

text \<open>The buffer after the line: the equals sign is gone.\<close>

definition split_line :: "u8 list \<Rightarrow> u8 list" where
  "split_line l = (case line_setting l of None \<Rightarrow> l | Some (k, v) \<Rightarrow> k @ 0 # v)"

lemma length_split_line [simp]: "length (split_line l) = length l"
  using line_setting_SomeE [of l] by (cases "line_setting l") (auto simp: split_line_def)

lemma config_line_app:
  assumes "0 \<notin> set l"
  shows "config_line mem cfg h (pre @ l @ 0 # rest) (length pre) =
    bnd (apply_line mem cfg h l) (\<lambda>(ok, cfg, h). Inr (ok, cfg, h, pre @ split_line l @ 0 # rest))"
proof (cases "line_setting l")
  case None
  then have "EQ \<notin> set l" by (auto simp: line_setting_def split: if_splits)
  with None assms show ?thesis
    by (simp add: config_line_def strchr_app apply_line_def split_line_def)
next
  case (Some kv)
  obtain k v where kv: "kv = (k, v)" by (cases kv)
  with Some have l: "l = k @ EQ # v" "EQ \<notin> set k" by (auto dest: line_setting_SomeE)
  have z: "0 \<notin> set k" "0 \<notin> set v" using assms l by auto
  have ne: "EQ \<noteq> 0" by (simp add: EQ_def)
  have c: "strchr_at (pre @ l @ 0 # rest) (length pre) EQ = Inr (Some (length pre + length k))"
    using l z ne by (simp add: strchr_app)
  have "(pre @ l @ 0 # rest)[length pre + length k := 0] = pre @ k @ 0 # v @ 0 # rest"
    using l by (simp add: list_update_append)
  then have u: "(pre @ l @ 0 # rest)[length pre + length k := 0] = (pre @ k @ [0]) @ v @ 0 # rest" by simp
  have d: "drop (length pre) ((pre @ k @ [0]) @ v @ 0 # rest) = k @ 0 # (v @ 0 # rest)" 
    "drop (length pre + length k + 1) ((pre @ k @ [0]) @ v @ 0 # rest) = v @ 0 # rest" by simp_all
  show ?thesis
    unfolding config_line_def c bnd_Inr option.case Let_def u d strlen_app [OF z(2)]
      config_setting_cut [OF z, where r = "v @ 0 # rest" and r' = rest]
    by (simp add: apply_line_def split_line_def Some kv)
qed

definition config_text :: "(u8 list \<times> u8 list) list \<Rightarrow> u8 list \<Rightarrow> u8 list" where
  "config_text les l0 = concat (map (\<lambda>(l, e). l @ e) les) @ l0"

definition good_line :: "u8 list \<Rightarrow> bool" where
  "good_line l \<longleftrightarrow> set l \<inter> CFG_SEPS = {}"

definition good_eol :: "u8 list \<Rightarrow> bool" where
  "good_eol e \<longleftrightarrow> set e \<subseteq> {CR, LF} \<and> LF \<in> set e"

definition good_text :: "(u8 list \<times> u8 list) list \<Rightarrow> u8 list \<Rightarrow> bool" where
  "good_text les l0 \<longleftrightarrow>
     list_all (\<lambda>(l, e). l \<noteq> [] \<and> good_line l \<and> good_eol e) les \<and> good_line l0"

lemma good_line_0: "good_line l \<Longrightarrow> 0 \<notin> set l"
  by (auto simp: good_line_def CFG_SEPS_def)

lemma apply_line_no_EQ: "EQ \<notin> set l \<Longrightarrow> apply_line mem cfg h l = Inr (True, cfg, h)"
  by (simp add: apply_line_def line_setting_def)

lemma config_loop_last:
  assumes "good_line l"
  shows "config_loop mem cfg h (pre @ l @ 0 # rest) first (length pre) =
    apply_lines mem cfg h [l]"
proof -
  have "set l \<inter> CFG_SEPS = {}" using assms by (simp add: good_line_def)
  from get_line_last [OF this, of pre rest "if first then None else Some (length pre)"]
  show ?thesis
    by (subst config_loop.simps)
      (auto simp: config_line_app [OF good_line_0 [OF assms]] bnd_assoc split_def intro!: bnd_cong)
qed

lemma config_text_start:
  assumes "good_text les l0"
  obtains x r where "config_text les l0 @ 0 # rest = x # r" "x \<notin> {CR, LF}" "0 \<in> set (x # r)"
    "x = 0 \<longleftrightarrow> les = [] \<and> l0 = []"
proof -
  have z: "0 \<in> set (config_text les l0 @ 0 # rest)" by simp
  show thesis
  proof (cases les)
    case Nil
    show thesis
    proof (cases l0)
      case Nil': Nil
      show thesis
        by (rule that [of 0 rest]) (simp_all add: Nil Nil' config_text_def CR_def LF_def)
    next
      case (Cons y l)
      then have "y \<noteq> 0" "y \<notin> {CR, LF}"
        using assms by (auto simp: good_text_def good_line_def CFG_SEPS_def)
      with Cons Nil show thesis by (intro that [of y "l @ 0 # rest"]) (auto simp: config_text_def)
    qed
  next
    case (Cons le les')
    obtain y l e where le: "le = (y # l, e)" "y \<noteq> 0" "y \<notin> {CR, LF}"
      using assms Cons
      by (cases le; rename_tac l e; case_tac l) (auto simp: good_text_def good_line_def CFG_SEPS_def)
    have "config_text les l0 @ 0 # rest = y # (l @ e @ config_text les' l0 @ 0 # rest)"
      by (simp add: Cons le config_text_def)
    then show thesis using le z Cons by (intro that [of y]) auto
  qed
qed

lemma split_line_key:
  assumes "good_line l"
  shows "split_line l = (case line_setting l of None \<Rightarrow> l | Some (k, v) \<Rightarrow> k @ 0 # v)"
    and "good_line (case line_setting l of None \<Rightarrow> l | Some (k, v) \<Rightarrow> k)"
    and "EQ \<notin> set (case line_setting l of None \<Rightarrow> l | Some (k, v) \<Rightarrow> k)"
proof -
  obtain k v where kv: "line_setting l = Some (k, v) \<Longrightarrow> l = k @ EQ # v \<and> EQ \<notin> set k"
    "line_setting l = None \<or> line_setting l = Some (k, v)"
    using line_setting_SomeE [of l] by (metis not_Some_eq surj_pair)
  show "split_line l = (case line_setting l of None \<Rightarrow> l | Some (k, v) \<Rightarrow> k @ 0 # v)"
    by (simp add: split_line_def)
  show "good_line (case line_setting l of None \<Rightarrow> l | Some (k, v) \<Rightarrow> k)"
    using kv assms by (auto simp: good_line_def)
  show "EQ \<notin> set (case line_setting l of None \<Rightarrow> l | Some (k, v) \<Rightarrow> k)"
    using kv(2)
  proof
    assume "line_setting l = None"
    then show ?thesis by (auto simp: line_setting_def split: if_splits)
  qed (use kv(1) in auto)
qed

lemma config_loop_text:
  assumes "good_text les l0"
  shows "config_loop mem cfg h (pre @ config_text les l0 @ 0 # rest) first (length pre) =
    apply_lines mem cfg h (map fst les @ [l0])"
  using assms
proof (induction les arbitrary: pre cfg h first)
  case Nil
  then show ?case
    using config_loop_last [of l0] by (simp add: good_text_def config_text_def)
next
  case (Cons le les)
  obtain l e where le: "le = (l, e)" by (cases le)
  have g: "good_text les l0" "good_line l" "set e \<subseteq> {CR, LF}" "LF \<in> set e" "0 \<notin> set l"
    "set l \<inter> CFG_SEPS = {}"
    using Cons.prems le good_line_0 by (auto simp: good_text_def good_eol_def good_line_def)
  obtain x r where t: "config_text les l0 @ 0 # rest = x # r" "x \<notin> {CR, LF}" "0 \<in> set (x # r)"
    "x = 0 \<longleftrightarrow> les = [] \<and> l0 = []" using config_text_start [OF g(1)] by blast
  let ?next = "if first then None else Some (length pre)"
  let ?rest = "replicate (length e - 1) 0 @ x # r"
  let ?pre = "pre @ split_line l @ replicate (length e) 0"
  have e: "replicate (length e) 0 = 0 # replicate (length e - 1) (0 :: u8)"
    using g(4) by (cases e) auto
  have n: "0 < length e" using g(4) by auto
  have gl: "get_line (pre @ l @ e @ x # r) (length pre) ?next = Inr (pre @ l @ 0 # ?rest,
      if x \<noteq> 0 then Some (length ?pre) else ?next)"
    using get_line_eol [OF g(6,3,4) t(2,3), of pre ?next] e n by simp
  have start: "pre @ config_text (le # les) l0 @ 0 # rest = pre @ l @ e @ x # r"
    using t(1) by (simp add: config_text_def le)
  have step: "config_loop mem cfg h (pre @ config_text (le # les) l0 @ 0 # rest) first (length pre) =
    bnd (apply_line mem cfg h l) (\<lambda>(ok, cfg, h).
      if ok then
        (case if x \<noteq> 0 then Some (length ?pre) else ?next of
           None \<Rightarrow> Inr (0, cfg, h)
         | Some line \<Rightarrow> config_loop mem cfg h (?pre @ x # r) False line)
      else Inr (-1, cfg, h))"
    unfolding start
    by (subst config_loop.simps, subst gl, simp only: bnd_Inr prod.case config_line_app [OF g(5)])
      (auto simp: bnd_assoc split_def e intro!: bnd_cong split: option.splits)
  show ?case
  proof (cases "x = 0")
    case False
    have A: "config_loop mem cfg h (?pre @ x # r) False (length ?pre) =
        apply_lines mem cfg h (map fst les @ [l0])" for cfg h
      unfolding t(1) [symmetric] by (rule Cons.IH [OF g(1)])
    have n: "(if x \<noteq> 0 then Some (length ?pre) else ?next) = Some (length ?pre)"
      using False by simp
    show ?thesis unfolding step n option.case A by (simp add: le)
  next
    case True
    define k where "k = (case line_setting l of None \<Rightarrow> l | Some (k, v) \<Rightarrow> k)"
    define s where "s = (case line_setting l of None \<Rightarrow> [] | Some (k, v) \<Rightarrow> v @ [0])"
    have sl: "split_line l @ 0 # ?rest = k @ 0 # (s @ ?rest)" and gk: "good_line k" "EQ \<notin> set k"
      using split_line_key [OF g(2)] by (auto simp: k_def s_def split: option.splits)
    have "?pre @ x # r = pre @ k @ 0 # (s @ ?rest)" using sl e by simp
    then have A: "config_loop mem cfg h (?pre @ x # r) False (length pre) = Inr (0, cfg, h)" for cfg h
      using config_loop_last [OF gk(1)] apply_line_no_EQ [OF gk(2)] by simp
    have n: "(if x \<noteq> 0 then Some (length ?pre) else ?next) = ?next" using True by simp
    have z: "les = []" "l0 = []" using True t(4) by auto
    have "bnd (apply_line mem cfg h l) (\<lambda>(ok, cfg, h). if ok then (case ?next of None \<Rightarrow> Inr (0, cfg, h)
         | Some line \<Rightarrow> config_loop mem cfg h (?pre @ x # r) False line) else Inr (-1, cfg, h)) =
      apply_lines mem cfg h [l, []]"
      by (cases first; simp only: A option.case if_True if_False)
        (auto simp: apply_line_no_EQ split_def intro!: bnd_cong)
    then show ?thesis unfolding step n by (simp add: le z)
  qed
qed

section \<open>What the settings mean\<close>

text \<open>The version, the kernel path, the command line and the module paths a text asks for.\<close>

type_synonym cfg_spec = "u8 \<times> u8 list option \<times> u8 list option \<times> u8 list list"

definition version_value :: "u8 list \<Rightarrow> u8" where
  "version_value v = (case strtoul (v @ [0]) 10 of Inl _ \<Rightarrow> 0 | Inr (n, _) \<Rightarrow> ucast n)"

fun spec_setting :: "cfg_spec \<Rightarrow> u8 list \<times> u8 list \<Rightarrow> bool \<times> cfg_spec" where
  "spec_setting (n, k, c, ms) (key, val) =
     (if key = bytes_of ''CFGVER'' then (version_value val = 1, version_value val, k, c, ms)
      else if key = bytes_of ''KERNEL'' then (True, n, Some val, c, ms)
      else if key = bytes_of ''CMDLINE'' then (True, n, k, Some val, ms)
      else if key = bytes_of ''MODULE'' then
        if length ms = MAX_MODULES then (False, n, k, c, ms) else (True, n, k, c, ms @ [val])
      else (True, n, k, c, ms))"

fun spec_lines :: "cfg_spec \<Rightarrow> u8 list list \<Rightarrow> bool \<times> cfg_spec" where
  "spec_lines s [] = (True, s)"
| "spec_lines s (l # ls) =
     (case line_setting l of
        None \<Rightarrow> spec_lines s ls
      | Some kv \<Rightarrow> (case spec_setting s kv of (ok, s) \<Rightarrow> if ok then spec_lines s ls else (False, s)))"

text \<open>A string of the configuration is the terminated string \<open>v\<close>.\<close>

definition holds :: "cfg_string \<Rightarrow> u8 list option \<Rightarrow> bool" where
  "holds s v \<longleftrightarrow> map_option snd s = map_option (\<lambda>v. v @ [0]) v"

fun cfg_is :: "config_data \<Rightarrow> cfg_spec \<Rightarrow> bool" where
  "cfg_is cfg (n, k, c, ms) \<longleftrightarrow>
     cd_version cfg = n \<and> holds (cd_kernel_path cfg) k \<and> holds (cd_kernel_cmdline cfg) c \<and>
     unat (cd_module_count cfg) = length ms \<and> length ms \<le> MAX_MODULES \<and>
     length (cd_modules cfg) = MAX_MODULES \<and>
     list_all2 (\<lambda>m v. holds (cm_path m) (Some v) \<and> cm_name m = cm_path m)
       (take (length ms) (cd_modules cfg)) ms"

lemma alloc_Inl: "alloc h sz fl = Inl e \<Longrightarrow> e = Panic"
proof -
  have c: "claim_entry h i st sz = Inl e \<Longrightarrow> e = Panic" for h i st sz e
    by (auto simp: claim_entry_def claim_front_def claim_back_def add_alloc_def bnd_eq_Inl Let_def
        split: if_splits option.splits)
  have f: "find_free_here h sz fl mr = Inl e \<Longrightarrow> e = Panic" for h sz fl mr e
    by (auto simp: find_free_here_def dest: c split: option.splits)
  have t: "alloc_table_block h = Inl e \<Longrightarrow> e = Panic" for h e
    by (auto simp: alloc_table_block_def bnd_eq_Inl dest: f split: if_splits)
  have g: "find_free h sz fl mr = Inl e \<Longrightarrow> e = Panic" for mr
  proof (induction h sz fl mr rule: find_free.induct)
    case (1 h sz fl mr)
    then show ?case
      by (subst (asm) find_free.simps) (auto simp: bnd_eq_Inl dest: f t split: if_splits)
  qed
  then show "alloc h sz fl = Inl e \<Longrightarrow> e = Panic"
    by (auto simp: alloc_def bnd_eq_Inl split: if_splits)
qed

lemma strtoul_total: "0 \<in> set s \<Longrightarrow> \<exists>n k. strtoul s b = Inr (n, k)"
proof -
  have "0 \<in> set s \<Longrightarrow> \<exists>n k. strtoul_loop s b r i = Inr (n, k)" for r i
    by (induction s arbitrary: r i) auto
  then show "0 \<in> set s \<Longrightarrow> \<exists>n k. strtoul s b = Inr (n, k)" by (simp add: strtoul_def)
qed

lemma strcmp_literal:
  assumes "0 \<notin> set k" and "0 \<notin> set (bytes_of s)"
  shows "\<exists>r. strcmp (k @ [0]) (cstr s) = Inr r \<and> (r = 0 \<longleftrightarrow> k = bytes_of s)"
  using strcmp_app [OF assms, of "[]" "[]"] by (auto simp: cstr_def)

lemma literals [simp]:
  "0 \<notin> set (bytes_of ''CFGVER'')" "0 \<notin> set (bytes_of ''KERNEL'')"
  "0 \<notin> set (bytes_of ''CMDLINE'')" "0 \<notin> set (bytes_of ''MODULE'')"
  by (simp_all add: bytes_of_def)

lemma config_setting_spec:
  assumes z: "0 \<notin> set k" "0 \<notin> set v" and i: "cfg_is cfg s" and inv: "heap_inv h"
  shows "case config_setting mem cfg h (k @ [0]) (v @ [0]) (length v) of
      Inl e \<Rightarrow> e = Panic
    | Inr (ok, cfg', h') \<Rightarrow> heap_grown h h' \<and>
        (case spec_setting s (k, v) of (ok', s') \<Rightarrow> ok = ok' \<and> cfg_is cfg' s')"
proof -
  obtain n kp c ms where s: "s = (n, kp, c, ms)" by (cases s)
  obtain r1 where r1: "strcmp (k @ [0]) (cstr ''CFGVER'') = Inr r1" "r1 = 0 \<longleftrightarrow> k = bytes_of ''CFGVER''"
    using strcmp_literal [OF z(1)] literals by blast
  obtain r2 where r2: "strcmp (k @ [0]) (cstr ''KERNEL'') = Inr r2" "r2 = 0 \<longleftrightarrow> k = bytes_of ''KERNEL''"
    using strcmp_literal [OF z(1)] literals by blast
  obtain r3 where r3: "strcmp (k @ [0]) (cstr ''CMDLINE'') = Inr r3" "r3 = 0 \<longleftrightarrow> k = bytes_of ''CMDLINE''"
    using strcmp_literal [OF z(1)] literals by blast
  obtain r4 where r4: "strcmp (k @ [0]) (cstr ''MODULE'') = Inr r4" "r4 = 0 \<longleftrightarrow> k = bytes_of ''MODULE''"
    using strcmp_literal [OF z(1)] literals by blast
  note eval = config_setting_def r1(1) r2(1) r3(1) r4(1) bnd_Inr
  have cv: "copy_value mem h (length v) (v @ [0]) =
      bnd (alloc h (of_nat (length v) + 1) 0) (\<lambda>(a, h). Inr (Some (a, v @ [0]), h))"
    using copy_value_eq [OF z(2), of mem h "[]"] by simp
  have copied: "case bnd (copy_value mem h (length v) (v @ [0])) (\<lambda>(s, h). Inr (True, f s, h)) of
      Inl e \<Rightarrow> e = Panic
    | Inr (ok, cfg', h') \<Rightarrow> heap_grown h h' \<and>
        (case spec_setting s (k, v) of (ok', s') \<Rightarrow> ok = ok' \<and> cfg_is cfg' s')"
    if "\<And>a. cfg_is (f (Some (a, v @ [0]))) s'" "spec_setting s (k, v) = (True, s')" for f s'
    using that alloc_Inl [of h "of_nat (length v) + 1" 0] heap_grown_alloc [OF inv, of "of_nat (length v) + 1" 0]
    by (cases "alloc h (of_nat (length v) + 1) 0") (auto simp: cv)
  consider (ver) "r1 = 0" | (ker) "r1 \<noteq> 0" "r2 = 0" | (cmd) "r1 \<noteq> 0" "r2 \<noteq> 0" "r3 = 0"
    | (full) "r1 \<noteq> 0" "r2 \<noteq> 0" "r3 \<noteq> 0" "r4 = 0" "length ms = MAX_MODULES"
    | (mdl) "r1 \<noteq> 0" "r2 \<noteq> 0" "r3 \<noteq> 0" "r4 = 0" "length ms \<noteq> MAX_MODULES"
    | (other) "r1 \<noteq> 0" "r2 \<noteq> 0" "r3 \<noteq> 0" "r4 \<noteq> 0" by blast
  then show ?thesis
  proof cases
    case ver
    obtain m j where m: "strtoul (v @ [0]) 10 = Inr (m, j)" using strtoul_total [of "v @ [0]" 10] by auto
    then show ?thesis using ver r1 i inv s by (auto simp: eval version_value_def)
  next
    case ker
    then have "spec_setting s (k, v) = (True, n, Some v, c, ms)" using r1 r2 s by simp
    with copied [of "\<lambda>s. cfg\<lparr>cd_kernel_path := s\<rparr>" "(n, Some v, c, ms)"] ker i s show ?thesis
      unfolding eval by (simp add: holds_def)
  next
    case cmd
    then have "spec_setting s (k, v) = (True, n, kp, Some v, ms)" using r1 r2 r3 s by auto
    with copied [of "\<lambda>s. cfg\<lparr>cd_kernel_cmdline := s\<rparr>" "(n, kp, Some v, ms)"] cmd i s show ?thesis
      unfolding eval by (simp add: holds_def)
  next
    case full
    then have "cd_module_count cfg = of_nat MAX_MODULES" using i s by (simp add: word_unat_eq_iff MAX_MODULES_def)
    from full this show ?thesis using r1 r2 r3 r4 i s inv unfolding eval by (auto simp del: take_all take_all_iff)
  next
    case mdl
    then have l: "length ms < MAX_MODULES" "unat (cd_module_count cfg) = length ms" using i s by auto
    then have c: "cd_module_count cfg \<noteq> of_nat MAX_MODULES"
      by (auto simp: MAX_MODULES_def)
    have u: "unat (cd_module_count cfg + 1) = length ms + 1"
      using l by (subst unat_add_no_wrap) (auto simp: MAX_MODULES_def)
    let ?f = "\<lambda>s. let i = unat (cd_module_count cfg) in cfg\<lparr>cd_modules := (cd_modules cfg)[i :=
                        (cd_modules cfg ! i)\<lparr>cm_path := s, cm_name := s\<rparr>],
                      cd_module_count := cd_module_count cfg + 1\<rparr>"
    have "cfg_is (?f (Some (a, v @ [0]))) (n, kp, c, ms @ [v])" for a
      using i s l u by (auto simp: holds_def Let_def take_Suc_conv_app_nth intro!: list_all2_appendI)
    moreover have "spec_setting s (k, v) = (True, n, kp, c, ms @ [v])" using mdl r1 r2 r3 r4 s by auto
    ultimately have "case bnd (copy_value mem h (length v) (v @ [0])) (\<lambda>(s, h). Inr (True, ?f s, h)) of
      Inl e \<Rightarrow> e = Panic
    | Inr (ok, cfg', h') \<Rightarrow> heap_grown h h' \<and>
        (case spec_setting s (k, v) of (ok', s') \<Rightarrow> ok = ok' \<and> cfg_is cfg' s')" by (rule copied)
    with c mdl show ?thesis unfolding eval Let_def by simp
  next
    case other
    then show ?thesis using r1 r2 r3 r4 i inv s by (simp add: eval)
  qed
qed

lemma apply_line_spec:
  assumes "0 \<notin> set l" and "cfg_is cfg s" and "heap_inv h"
  shows "case apply_line mem cfg h l of
      Inl e \<Rightarrow> e = Panic
    | Inr (ok, cfg', h') \<Rightarrow> heap_grown h h' \<and>
        (case (case line_setting l of None \<Rightarrow> (True, s) | Some kv \<Rightarrow> spec_setting s kv) of
           (ok', s') \<Rightarrow> ok = ok' \<and> cfg_is cfg' s')"
proof (cases "line_setting l")
  case None
  then show ?thesis using assms by (simp add: apply_line_def)
next
  case (Some kv)
  obtain k v where kv: "kv = (k, v)" by (cases kv)
  with Some have "l = k @ EQ # v" by (auto dest: line_setting_SomeE)
  then have "0 \<notin> set k" "0 \<notin> set v" using assms(1) by auto
  from config_setting_spec [OF this assms(2,3)] show ?thesis
    unfolding apply_line_def Some kv option.case prod.case .
qed

lemma apply_lines_spec:
  assumes "\<forall>l \<in> set ls. 0 \<notin> set l" and "cfg_is cfg s" and "heap_inv h"
  shows "case apply_lines mem cfg h ls of
      Inl e \<Rightarrow> e = Panic
    | Inr (r, cfg', h') \<Rightarrow> heap_grown h h' \<and>
        (case spec_lines s ls of (ok, s') \<Rightarrow> r = (if ok then 0 else -1) \<and> cfg_is cfg' s')"
  using assms
proof (induction ls arbitrary: cfg s h)
  case (Cons l ls)
  then have l: "0 \<notin> set l" by simp
  note A = apply_line_spec [OF l Cons.prems(2,3), of mem]
  show ?case
  proof (cases "apply_line mem cfg h l")
    case (Inl e)
    with A show ?thesis by simp
  next
    case (Inr p)
    obtain ok cfg' h' where p: "p = (ok, cfg', h')" by (cases p)
    obtain ok' s' where s: "(case line_setting l of None \<Rightarrow> (True, s) | Some kv \<Rightarrow> spec_setting s kv) = (ok', s')"
      by (cases "case line_setting l of None \<Rightarrow> (True, s) | Some kv \<Rightarrow> spec_setting s kv")
    have B: "ok = ok'" "cfg_is cfg' s'" "heap_grown h h'" "heap_inv h'"
      using A Inr p s by (auto simp: heap_grown_def)
    have sp: "spec_lines s (l # ls) = (if ok' then spec_lines s' ls else (False, s'))"
      using s by (cases "line_setting l") auto
    show ?thesis
      unfolding sp using Inr p B Cons.IH [OF _ B(2,4)] Cons.prems(1)
      by (auto split: sum.splits prod.splits dest: heap_grown_trans)
  qed
qed simp

lemma config_parse_spec:
  assumes "heap_inv h" and "good_text les l0"
  shows "case config_parse mem config_data0 h (config_text les l0 @ 0 # rest) of
      Inl e \<Rightarrow> e = Panic
    | Inr (r, cfg, h') \<Rightarrow> heap_grown h h' \<and>
        (case spec_lines (0, None, None, []) (map fst les @ [l0]) of
           (ok, s) \<Rightarrow> r = (if ok then 0 else -1) \<and> cfg_is cfg s)"
proof (cases "alloc h (sizeof_config_module * of_nat MAX_MODULES) 0")
  case (Inl e)
  then show ?thesis using alloc_Inl by (auto simp: config_parse_def)
next
  case (Inr p)
  obtain a h1 where p: "p = (a, h1)" by (cases p)
  let ?cfg = "config_data0\<lparr>cd_modules_ptr := a, cd_modules := replicate MAX_MODULES config_module0\<rparr>"
  have g: "heap_grown h h1" and inv: "heap_inv h1"
    using heap_grown_alloc [OF assms(1)] Inr p by (simp_all add: heap_grown_def)
  have i: "cfg_is ?cfg (0, None, None, [])"
    by (simp add: config_data0_def holds_def)
  have z: "\<forall>l \<in> set (map fst les @ [l0]). 0 \<notin> set l"
    using assms(2) good_line_0 by (auto simp: good_text_def list_all_iff)
  have c: "config_parse mem config_data0 h (config_text les l0 @ 0 # rest) =
      apply_lines mem ?cfg h1 (map fst les @ [l0])"
    using config_loop_text [OF assms(2), of mem ?cfg h1 "[]" rest True] Inr p
    by (simp add: config_parse_def)
  show ?thesis unfolding c using apply_lines_spec [OF z i inv, of mem] heap_grown_trans [OF g]
    by (auto split: sum.splits prod.splits)
qed

text \<open>
  C19: A text of lines ended by carriage returns and a line feed, in any number, the last one also
  by nothing, is read as its settings in order: the kernel path, the command line and the paths of
  up to four modules are terminated copies on the heap, later settings replace earlier ones, lines
  without an equals sign and unknown keys are skipped, and the result is -1 exactly when a version
  other than 1 or a fifth module comes up. Whatever follows the terminator is not read. The only
  other outcome is the panic of an exhausted heap.
\<close>

theorem config_parse_settings:
  assumes "heap_inv h" and "good_text les l0"
  shows "case config_parse mem config_data0 h (config_text les l0 @ 0 # rest) of
      Inl e \<Rightarrow> e = Panic
    | Inr (r, cfg, h') \<Rightarrow> heap_grown h h' \<and>
        (case spec_lines (0, None, None, []) (map fst les @ [l0]) of
           (ok, s) \<Rightarrow> r = (if ok then 0 else -1) \<and> cfg_is cfg s)"
  by (rule config_parse_spec [OF assms])

theorem config_parse_settings_witness:
  "\<exists>cfg h'. config_parse (\<lambda>_. 0) config_data0 example_heap
       (bytes_of ''CFGVER=1'' @ [CR, LF, LF] @ bytes_of ''KERNEL=/K'' @ [LF] @
        bytes_of ''MODULE=/M'' @ [0, 7]) = Inr (0, cfg, h') \<and>
     cfg_is cfg (1, Some (bytes_of ''/K''), None, [bytes_of ''/M''])"
proof -
  let ?t = "bytes_of ''CFGVER=1'' @ [CR, LF, LF] @ bytes_of ''KERNEL=/K'' @ [LF] @ bytes_of ''MODULE=/M''"
  let ?les = "[(bytes_of ''CFGVER=1'', [CR, LF, LF]), (bytes_of ''KERNEL=/K'', [LF])]"
  have g: "good_text ?les (bytes_of ''MODULE=/M'')"
    unfolding good_text_def good_line_def good_eol_def CFG_SEPS_def by code_simp
  have t: "config_text ?les (bytes_of ''MODULE=/M'') = ?t" by (simp add: config_text_def)
  have e: "isl (config_parse (\<lambda>_. 0) config_data0 example_heap (?t @ [0, 7])) = False"
    unfolding example_heap_def by code_simp
  have s: "spec_lines (0, None, None, []) (map fst ?les @ [bytes_of ''MODULE=/M'']) =
     (True, 1, Some (bytes_of ''/K''), None, [bytes_of ''/M''])" by code_simp
  from config_parse_settings [OF example_heap(1) g, of "\<lambda>_. 0" "[7]"] e s t show ?thesis
    by (auto split: sum.splits prod.splits)
qed

end
