(* ===== verification/Vga.thy ===== *)
theory Vga
  imports Lib_String
begin

text \<open>
  The text-mode driver of \<^verbatim>\<open>src/io/vga.c\<close>. The video memory is the list of the 16-bit cells from
  \<^verbatim>\<open>0xB8000\<close> on; a cell outside it is a \<open>Fault\<close>. What a sequence of writes leaves on the screen is
  compared with an endless roll of paper that never scrolls.
\<close>

unbundle bit_operations_syntax

section \<open>The driver\<close>

record vga_state =
  vs_vidmem :: "u16 list"
  vs_color_fg :: u8
  vs_color_bg :: u8
  vs_res_x :: u8
  vs_res_y :: u8
  vs_pos_x :: u8
  vs_pos_y :: u8

text \<open>The first argument is \<^verbatim>\<open>CONFIG_STATUSBAR\<close>.\<close>

definition vga_state0 :: "bool \<Rightarrow> u16 list \<Rightarrow> vga_state" where
  "vga_state0 statusbar vm =
     \<lparr>vs_vidmem = vm, vs_color_fg = 0x07, vs_color_bg = 0x00, vs_res_x = 80,
      vs_res_y = (if statusbar then 24 else 25), vs_pos_x = 0, vs_pos_y = 0\<rparr>"

text \<open>\<open>memset\<close> to zero and \<open>memmove\<close>, on whole cells.\<close>

definition clear_cells :: "u16 list \<Rightarrow> nat \<Rightarrow> nat \<Rightarrow> u16 list res" where
  "clear_cells vm i n =
     (if i + n \<le> length vm then Inr (take i vm @ replicate n 0 @ drop (i + n) vm) else Inl Fault)"

definition move_cells :: "u16 list \<Rightarrow> nat \<Rightarrow> nat \<Rightarrow> nat \<Rightarrow> u16 list res" where
  "move_cells vm d s n =
     (if d + n \<le> length vm \<and> s + n \<le> length vm
      then Inr (take d vm @ take n (drop s vm) @ drop (d + n) vm) else Inl Fault)"

definition put_cell :: "u16 list \<Rightarrow> nat \<Rightarrow> u16 \<Rightarrow> u16 list res" where
  "put_cell vm i c = (if i < length vm then Inr (vm[i := c]) else Inl Fault)"

definition vga_clear :: "vga_state \<Rightarrow> vga_state res" where
  "vga_clear s =
     bnd (clear_cells (vs_vidmem s) 0 (unat (vs_res_x s) * unat (vs_res_y s)))
       (\<lambda>vm. Inr (s\<lparr>vs_vidmem := vm\<rparr>))"

definition vga_init :: "vga_state \<Rightarrow> (int \<times> vga_state) res" where
  "vga_init s = bnd (vga_clear s) (\<lambda>s. Inr (0, s))"

text \<open>The character is signed: from 0x80 on its sign fills the colour bits.\<close>

definition VCHAR :: "u8 \<Rightarrow> u8 \<Rightarrow> u8 \<Rightarrow> u16" where
  "VCHAR ch fg bg = scast ch OR push_bit 8 (ucast fg) OR push_bit 12 (ucast bg)"

definition vga_place_char :: "vga_state \<Rightarrow> u8 \<Rightarrow> u8 \<Rightarrow> u8 \<Rightarrow> vga_state res" where
  "vga_place_char s x y ch =
     bnd (put_cell (vs_vidmem s) (unat y * unat (vs_res_x s) + unat x)
            (VCHAR ch (vs_color_fg s) (vs_color_bg s)))
       (\<lambda>vm. Inr (s\<lparr>vs_vidmem := vm\<rparr>))"

definition vga_scroll :: "vga_state \<Rightarrow> vga_state res" where
  "vga_scroll s =
     (let rx = unat (vs_res_x s); ry = unat (vs_res_y s)
      in bnd (move_cells (vs_vidmem s) 0 rx (rx * (ry - 1))) (\<lambda>vm.
         bnd (clear_cells vm (rx * (ry - 1)) rx) (\<lambda>vm.
           Inr (s\<lparr>vs_vidmem := vm\<rparr>))))"

definition vga_advance :: "vga_state \<Rightarrow> vga_state res" where
  "vga_advance s =
     (let s = (if vs_pos_x s \<ge> vs_res_x s then s\<lparr>vs_pos_x := 0, vs_pos_y := vs_pos_y s + 1\<rparr> else s)
      in if vs_pos_y s \<ge> vs_res_y s then vga_scroll (s\<lparr>vs_pos_y := vs_res_y s - 1\<rparr>) else Inr s)"

definition vga_putchar :: "vga_state \<Rightarrow> u8 \<Rightarrow> vga_state res" where
  "vga_putchar s ch =
     bnd (if ch = 10 then Inr (s\<lparr>vs_pos_x := 0, vs_pos_y := vs_pos_y s + 1\<rparr>)
          else bnd (vga_place_char s (vs_pos_x s) (vs_pos_y s) ch)
                 (\<lambda>s. Inr (s\<lparr>vs_pos_x := vs_pos_x s + 1\<rparr>)))
       vga_advance"

fun vga_put_all :: "vga_state \<Rightarrow> u8 list \<Rightarrow> vga_state res" where
  "vga_put_all s [] = Inr s"
| "vga_put_all s (c # cs) = bnd (vga_putchar s c) (\<lambda>s. vga_put_all s cs)"

text \<open>\<open>data\<close> is the object behind the pointer, of which \<open>sz\<close> bytes are written.\<close>

definition vga_write :: "vga_state \<Rightarrow> u8 list \<Rightarrow> nat \<Rightarrow> (nat \<times> vga_state) res" where
  "vga_write s data sz =
     (if sz \<le> length data then bnd (vga_put_all s (take sz data)) (\<lambda>s. Inr (sz, s)) else Inl Fault)"

section \<open>The status bar\<close>

text \<open>The two loops over the bar, which starts at the cell \<open>b\<close>; \<open>rx\<close> is its width.\<close>

fun bar_text :: "u16 list \<Rightarrow> nat \<Rightarrow> nat \<Rightarrow> nat \<Rightarrow> u8 list \<Rightarrow> (u16 list \<times> nat) res" where
  "bar_text vm b rx pos [] = Inl Fault"
| "bar_text vm b rx pos (c # cs) =
     (if c \<noteq> 0 \<and> pos < rx then
        bnd (put_cell vm (b + pos) (VCHAR c 0x0 0x7)) (\<lambda>vm. bar_text vm b rx (Suc pos) cs)
      else Inr (vm, pos))"

function bar_fill :: "u16 list \<Rightarrow> nat \<Rightarrow> nat \<Rightarrow> nat \<Rightarrow> u16 list res" where
  "bar_fill vm b rx pos =
     (if pos < rx then bnd (put_cell vm (b + pos) (VCHAR 32 0x0 0x7)) (\<lambda>vm. bar_fill vm b rx (Suc pos))
      else Inr vm)"
  by pat_completeness auto
termination by (relation "measure (\<lambda>(vm, b, rx, pos). rx - pos)") auto

declare bar_fill.simps [simp del]

definition vga_status :: "vga_state \<Rightarrow> u8 list \<Rightarrow> vga_state res" where
  "vga_status s str =
     (let rx = unat (vs_res_x s); b = rx * unat (vs_res_y s)
      in bnd (put_cell (vs_vidmem s) (b + 1) (VCHAR 32 0x0 0x7)) (\<lambda>vm.
         bnd (bar_text vm b rx 2 str) (\<lambda>(vm, pos).
         bnd (bar_fill vm b rx pos) (\<lambda>vm. Inr (s\<lparr>vs_vidmem := vm\<rparr>)))))"

datatype working_status = NOTWORKING | WORKING | ERROR

definition spinner :: "u8 list" where "spinner = bytes_of ''|/-'' @ [92]"

definition vga_working :: "vga_state \<Rightarrow> u32 \<Rightarrow> working_status \<Rightarrow> (vga_state \<times> u32) res" where
  "vga_working s spinner_pos status =
     (let spinner_pos = (if spinner_pos \<ge> of_nat (length spinner) then 0 else spinner_pos);
          b = unat (vs_res_x s) * unat (vs_res_y s);
          put = (\<lambda>c sp. bnd (put_cell (vs_vidmem s) b c) (\<lambda>vm. Inr (s\<lparr>vs_vidmem := vm\<rparr>, sp)))
      in case status of
           NOTWORKING \<Rightarrow> put (VCHAR 32 0x0 0x7) spinner_pos
         | WORKING \<Rightarrow> put (VCHAR (spinner ! unat spinner_pos) 0x0 0x7) (spinner_pos + 1)
         | ERROR \<Rightarrow> put (VCHAR 33 0x4 0x7) spinner_pos)"

section \<open>Cells\<close>

lemma vchar_high: "VCHAR 0x80 0x07 0x00 = 0xFF80"
  unfolding VCHAR_def by code_simp

section \<open>The screen shows the end of the paper\<close>

text \<open>Rows of \<open>w\<close> cells already full, the newest last, and the row being written.\<close>

type_synonym paper = "u16 list list \<times> u16 list"

definition pad_row :: "nat \<Rightarrow> u16 list \<Rightarrow> u16 list" where
  "pad_row w r = r @ replicate (w - length r) 0"

fun paper_put :: "nat \<Rightarrow> (u8 \<Rightarrow> u16) \<Rightarrow> paper \<Rightarrow> u8 \<Rightarrow> paper" where
  "paper_put w cell (rows, cur) c =
     (if c = 10 then (rows @ [pad_row w cur], [])
      else if Suc (length cur) = w then (rows @ [cur @ [cell c]], [])
      else (rows, cur @ [cell c]))"

fun paper_end :: "nat \<Rightarrow> nat \<Rightarrow> paper \<Rightarrow> u16 list list" where
  "paper_end w h (rows, cur) =
     (let tp = drop (Suc (length rows) - h) rows
      in tp @ [pad_row w cur] @ replicate (h - Suc (length tp)) (replicate w 0))"

definition vga_ok :: "vga_state \<Rightarrow> bool" where
  "vga_ok s \<longleftrightarrow> 0 < unat (vs_res_x s) \<and> unat (vs_res_x s) < 255 \<and> 0 < unat (vs_res_y s) \<and>
     unat (vs_res_y s) < 255 \<and> unat (vs_res_x s) * unat (vs_res_y s) \<le> length (vs_vidmem s)"

text \<open>
  \<open>displays s p bar\<close>: the cells are the end of the paper \<open>p\<close> and behind it \<open>bar\<close>, and the cursor is
  where the paper is written next.
\<close>

fun displays :: "vga_state \<Rightarrow> paper \<Rightarrow> u16 list \<Rightarrow> bool" where
  "displays s (rows, cur) bar \<longleftrightarrow>
     (let w = unat (vs_res_x s); h = unat (vs_res_y s); tp = drop (Suc (length rows) - h) rows
      in vga_ok s \<and> (\<forall>r \<in> set rows. length r = w) \<and> length cur < w \<and>
         unat (vs_pos_x s) = length cur \<and> unat (vs_pos_y s) = length tp \<and> length tp < h \<and>
         vs_vidmem s = concat tp @ cur @ replicate (w * (h - length tp) - length cur) 0 @ bar)"

lemma displays_screen:
  assumes "displays s p bar"
  shows "vs_vidmem s = concat (paper_end (unat (vs_res_x s)) (unat (vs_res_y s)) p) @ bar"
proof -
  obtain rows cur where p: "p = (rows, cur)" by (cases p)
  define w where "w = unat (vs_res_x s)"
  define h where "h = unat (vs_res_y s)"
  define tp where "tp = drop (Suc (length rows) - h) rows"
  have a: "length cur < w" "length tp < h"
    "vs_vidmem s = concat tp @ cur @ replicate (w * (h - length tp) - length cur) 0 @ bar"
    using assms p by (auto simp: Let_def w_def h_def tp_def)
  obtain k where k: "h - length tp = Suc k" using a(2) by (metis Suc_diff_Suc)
  have "w * (h - length tp) - length cur = (w - length cur) + k * w"
    using a(1) k by (simp add: mult.commute)
  moreover have "concat (replicate k (replicate w 0)) = replicate (k * w) (0 :: u16)"
    by (induction k) (auto simp: replicate_add)
  moreover have "h - Suc (length tp) = k" using k by simp
  ultimately show ?thesis using a(3) p
    by (simp add: Let_def pad_row_def replicate_add flip: w_def h_def tp_def)
qed

lemma concat_same_length: "\<forall>r \<in> set rs. length r = w \<Longrightarrow> length (concat rs) = length rs * w"
  by (induction rs) auto

definition cell_of :: "vga_state \<Rightarrow> u8 \<Rightarrow> u16" where
  "cell_of s c = VCHAR c (vs_color_fg s) (vs_color_bg s)"

definition same_mode :: "vga_state \<Rightarrow> vga_state \<Rightarrow> bool" where
  "same_mode s s' \<longleftrightarrow> vs_res_x s' = vs_res_x s \<and> vs_res_y s' = vs_res_y s \<and>
     vs_color_fg s' = vs_color_fg s \<and> vs_color_bg s' = vs_color_bg s"

lemma same_mode_cell: "same_mode s s' \<Longrightarrow> cell_of s' = cell_of s"
  by (auto simp: same_mode_def cell_of_def)

text \<open>The end of a row: the cursor is one row further down, at its start.\<close>

lemma displays_new_row:
  assumes ok: "vga_ok s" and w: "w = unat (vs_res_x s)" and h: "h = unat (vs_res_y s)"
    and rows: "\<forall>r \<in> set rows. length r = w" "length row = w"
    and tp: "tp = drop (Suc (length rows) - h) rows"
    and y: "unat (vs_pos_y s) = Suc (length tp)" "length tp < h" and x: "vs_pos_x s = 0"
    and vm: "vs_vidmem s = concat tp @ row @ replicate (w * (h - Suc (length tp))) 0 @ bar"
  shows "\<exists>s'. vga_advance s = Inr s' \<and> displays s' (rows @ [row], []) bar \<and>
    same_mode s s'"
proof -
  have pos: "0 < w" "0 < h" "h < 255" "\<not> vs_res_x s \<le> vs_pos_x s"
    using ok w h x by (auto simp: vga_ok_def word_le_nat_alt)
  define s1 where "s1 = s"
  have tps: "\<forall>r \<in> set tp. length r = w" using rows tp by (auto dest: in_set_dropD)
  show ?thesis
  proof (cases "Suc (length tp) < h")
    case True
    then have ny: "\<not> vs_res_y s \<le> vs_pos_y s" using y h by (simp add: word_le_nat_alt)
    have "length rows < h \<or> Suc (length tp) = h"
      using tp pos by (auto simp: not_less)
    then have l: "Suc (length rows) < h" "tp = rows" using True tp by auto
    then have t': "Suc (Suc (length rows)) - h = 0" by simp
    have "displays s (rows @ [row], []) bar"
      using ok rows y x vm pos True t' l by (simp add: Let_def flip: w h)
    moreover have "vga_advance s = Inr s" using pos ny by (simp add: vga_advance_def)
    ultimately show ?thesis by (auto simp: same_mode_def)
  next
    case False
    then have e: "h = Suc (length tp)" using y by simp
    then have ge: "vs_res_y s \<le> vs_pos_y s" using y h by (simp add: word_le_nat_alt)
    define t2 where "t2 = tl (tp @ [row])"
    have t2: "length t2 = length tp" "\<forall>r \<in> set t2. length r = w"
      using tps rows by (auto simp: t2_def dest!: list.set_sel(2) [rotated])
    have vm1: "vs_vidmem s = concat (tp @ [row]) @ bar" using vm e by simp
    obtain r0 where r0: "tp @ [row] = r0 # t2" "length r0 = w"
    proof -
      have A: "\<forall>r \<in> set (tp @ [row]). length r = w" using tps rows by auto
      obtain r0 t where "tp @ [row] = r0 # t" by (cases "tp @ [row]") auto
      with A show ?thesis by (intro that [of r0]) (auto simp: t2_def)
    qed
    have c2: "length (concat t2) = w * (h - 1)"
      using concat_same_length [OF t2(2)] t2(1) e by simp
    have m: "move_cells (vs_vidmem s) 0 w (w * (h - 1)) = Inr (concat t2 @ drop (w * (h - 1)) (vs_vidmem s))"
      using r0 c2 by (simp add: move_cells_def vm1)
    have v2: "length (vs_vidmem s) = w * (h - 1) + w + length bar"
      using r0 c2 by (simp add: vm1)
    have v3: "drop (w * (h - 1) + w) (vs_vidmem s) = bar"
    proof -
      have "vs_vidmem s = (r0 @ concat t2) @ bar" using vm1 r0 by simp
      moreover have "length (r0 @ concat t2) = w * (h - 1) + w" using r0 c2 by simp
      ultimately show ?thesis by (metis append_eq_conv_conj)
    qed
    have c: "clear_cells (concat t2 @ drop (w * (h - 1)) (vs_vidmem s)) (w * (h - 1)) w =
        Inr (concat t2 @ replicate w 0 @ bar)"
      using c2 v2 v3 by (simp add: clear_cells_def add.commute)
    let ?s = "s\<lparr>vs_pos_y := vs_res_y s - 1, vs_vidmem := concat t2 @ replicate w 0 @ bar\<rparr>"
    have "vga_advance s = Inr ?s"
      using pos ge m c by (simp add: vga_advance_def vga_scroll_def flip: w h)
    moreover have "displays ?s (rows @ [row], []) bar"
    proof -
      have "vs_res_y s \<noteq> 0" using pos h by auto
      then have y': "unat (vs_res_y s - 1) = length t2" using e h t2 by (simp add: unat_minus_1)
      define k where "k = Suc (length rows) - h"
      have lt: "length tp \<le> length rows" unfolding tp by simp
      have k: "k \<le> length rows" "Suc (length (rows @ [row])) - h = Suc k"
        using pos lt e unfolding k_def by simp_all
      have "drop (Suc k) (rows @ [row]) = tl (drop k (rows @ [row]))" by (simp only: drop_Suc tl_drop)
      also have "\<dots> = t2" using k(1) by (simp add: t2_def tp k_def)
      finally have D: "drop (Suc (length (rows @ [row])) - h) (rows @ [row]) = t2" by (simp only: k(2))
      have "vga_ok ?s" using ok c2 v2 e by (simp add: vga_ok_def flip: w h)
      moreover have W: "unat (vs_res_x ?s) = w" "unat (vs_res_y ?s) = h" by (simp_all add: w h)
      ultimately show ?thesis
        unfolding displays.simps Let_def W D using rows x y' t2 pos e by simp
    qed
    ultimately show ?thesis by (auto simp: same_mode_def)
  qed
qed

lemma displays_putchar:
  assumes "displays s p bar"
  shows "\<exists>s'. vga_putchar s c = Inr s' \<and>
    displays s' (paper_put (unat (vs_res_x s)) (cell_of s) p c) bar \<and> same_mode s s'"
proof -
  obtain rows cur where p: "p = (rows, cur)" by (cases p)
  define w where w: "w = unat (vs_res_x s)"
  define h where h: "h = unat (vs_res_y s)"
  define tp where tp: "tp = drop (Suc (length rows) - h) rows"
  have a: "length cur < w" "length tp < h" "vga_ok s" "\<forall>r \<in> set rows. length r = w"
    "unat (vs_pos_x s) = length cur" "unat (vs_pos_y s) = length tp"
    "vs_vidmem s = concat tp @ cur @ replicate (w * (h - length tp) - length cur) 0 @ bar"
    using assms p by (auto simp: Let_def w h tp)
  have b: "w < 255" "h < 255" using a(3) w h by (auto simp: vga_ok_def)
  have tpw: "\<forall>r \<in> set tp. length r = w" using a(4) tp by (auto dest: in_set_dropD)
  have ct: "length (concat tp) = length tp * w" by (rule concat_same_length [OF tpw])
  obtain k where k: "h - length tp = Suc k" using a(2) by (metis Suc_diff_Suc)
  have kk: "h - Suc (length tp) = k" using k by simp
  have n: "w * (h - length tp) - length cur = (w - length cur) + w * k" using a(1) k by simp
  have y1: "unat (vs_pos_y s + 1) = Suc (length tp)"
    using a(2,6) b by (subst unat_add_no_wrap) auto
  show ?thesis
  proof (cases "c = 10")
    case True
    let ?s = "s\<lparr>vs_pos_x := 0, vs_pos_y := vs_pos_y s + 1\<rparr>"
    have ok: "vga_ok ?s" and W: "w = unat (vs_res_x ?s)" "h = unat (vs_res_y ?s)"
      using a(3) by (simp_all add: vga_ok_def w h)
    have l: "length (pad_row w cur) = w" using a(1) by (simp add: pad_row_def)
    have vm: "vs_vidmem ?s = concat tp @ pad_row w cur @ replicate (w * (h - Suc (length tp))) 0 @ bar"
      using a(7) unfolding n kk by (simp add: pad_row_def replicate_add)
    have "unat (vs_pos_y ?s) = Suc (length tp)" "vs_pos_x ?s = 0" using y1 by simp_all
    note R = displays_new_row [OF ok W a(4) l tp this(1) a(2) this(2) vm]
    from R show ?thesis using True p by (auto simp: vga_putchar_def same_mode_def simp flip: w)
  next
    case False
    let ?c = "cell_of s c"
    have i: "unat (vs_pos_y s) * unat (vs_res_x s) + unat (vs_pos_x s) = length (concat tp @ cur)"
      using a ct by (simp flip: w)
    have r: "replicate (w * (h - length tp) - length cur) (0 :: u16) =
        0 # replicate (w - Suc (length cur) + w * k) 0" using a(1) n by (simp flip: replicate_Suc)
    have "put_cell (vs_vidmem s) (length (concat tp @ cur)) ?c =
        Inr (concat tp @ cur @ ?c # replicate (w - Suc (length cur) + w * k) 0 @ bar)"
      unfolding a(7) r by (simp add: put_cell_def list_update_append)
    then have pl: "vga_place_char s (vs_pos_x s) (vs_pos_y s) c = Inr (s\<lparr>vs_vidmem :=
        concat tp @ cur @ ?c # replicate (w - Suc (length cur) + w * k) 0 @ bar\<rparr>)"
      unfolding vga_place_char_def i by (simp add: cell_of_def)
    have x1: "unat (vs_pos_x s + 1) = Suc (length cur)"
      using a(1,5) b by (subst unat_add_no_wrap) auto
    let ?s = "s\<lparr>vs_vidmem := concat tp @ (cur @ [?c]) @ replicate (w - Suc (length cur) + w * k) 0 @ bar,
        vs_pos_x := vs_pos_x s + 1\<rparr>"
    have pc: "vga_putchar s c = vga_advance ?s"
      using False pl by (simp add: vga_putchar_def)
    have len: "length (vs_vidmem ?s) = length (vs_vidmem s)" unfolding a(7) r by simp
    have ok: "vga_ok ?s" using a(3) len unfolding vga_ok_def by simp
    show ?thesis
    proof (cases "Suc (length cur) = w")
      case full: True
      let ?t = "?s\<lparr>vs_pos_x := 0, vs_pos_y := vs_pos_y s + 1\<rparr>"
      have "vs_res_x s \<le> vs_pos_x s + 1" using x1 full w by (simp add: word_le_nat_alt)
      moreover have "\<not> vs_res_x s \<le> 0" using a(1) w by (simp add: word_le_nat_alt)
      ultimately have "vga_advance ?s = vga_advance ?t" by (simp add: vga_advance_def)
      moreover have "vga_ok ?t" "w = unat (vs_res_x ?t)" "h = unat (vs_res_y ?t)"
          "unat (vs_pos_y ?t) = Suc (length tp)" "vs_pos_x ?t = 0" "length (cur @ [?c]) = w"
        using ok y1 full by (simp_all add: vga_ok_def w h)
      moreover have "vs_vidmem ?t = concat tp @ (cur @ [?c]) @ replicate (w * (h - Suc (length tp))) 0 @ bar"
        using full unfolding kk by simp
      ultimately have "vga_advance ?s = vga_advance ?t" "\<exists>s'. vga_advance ?t = Inr s' \<and>
          displays s' (rows @ [cur @ [?c]], []) bar \<and> same_mode ?t s'"
        using displays_new_row [of ?t w h rows "cur @ [?c]" tp bar] a(2,4) tp by blast+
      then show ?thesis using full False p pc by (auto simp: same_mode_def simp flip: w)
    next
      case part: False
      then have "\<not> vs_res_x s \<le> vs_pos_x s + 1" using x1 a(1) w by (simp add: word_le_nat_alt)
      moreover have "\<not> vs_res_y s \<le> vs_pos_y s" using a(2,6) h by (simp add: word_le_nat_alt)
      ultimately have "vga_advance ?s = Inr ?s" by (simp add: vga_advance_def)
      moreover have "displays ?s (rows, cur @ [?c]) bar"
      proof -
        have W: "unat (vs_res_x ?s) = w" "unat (vs_res_y ?s) = h" by (simp_all add: w h)
        show ?thesis
          unfolding displays.simps Let_def W tp [symmetric] using ok a part x1 n by simp
      qed
      moreover have "same_mode s ?s" by (simp add: same_mode_def)
      ultimately show ?thesis using part False p pc by (auto simp flip: w)
    qed
  qed
qed

lemma displays_put_all:
  assumes "displays s p bar"
  shows "\<exists>s'. vga_put_all s cs = Inr s' \<and> same_mode s s' \<and>
    displays s' (foldl (paper_put (unat (vs_res_x s)) (cell_of s)) p cs) bar"
  using assms
proof (induction cs arbitrary: s p)
  case (Cons c cs)
  from displays_putchar [OF Cons.prems, of c] obtain s1 where s1: "vga_putchar s c = Inr s1"
    "displays s1 (paper_put (unat (vs_res_x s)) (cell_of s) p c) bar" "same_mode s s1" by blast
  from Cons.IH [OF s1(2)] obtain s2 where s2: "vga_put_all s1 cs = Inr s2" "same_mode s1 s2"
    "displays s2 (foldl (paper_put (unat (vs_res_x s1)) (cell_of s1))
       (paper_put (unat (vs_res_x s)) (cell_of s) p c) cs) bar" by blast
  have "same_mode s s2" "vs_res_x s1 = vs_res_x s" using s1(3) s2(2) by (simp_all add: same_mode_def)
  with s1 s2 same_mode_cell [OF s1(3)] show ?case by simp
qed (auto simp: same_mode_def)

text \<open>A sequence of calls of the driver's \<open>write\<close>, each with a whole buffer.\<close>

fun vga_writes :: "vga_state \<Rightarrow> u8 list list \<Rightarrow> vga_state res" where
  "vga_writes s [] = Inr s"
| "vga_writes s (d # ds) = bnd (vga_write s d (length d)) (\<lambda>(n, s). vga_writes s ds)"

lemma displays_writes:
  assumes "displays s p bar"
  shows "\<exists>s'. vga_writes s ds = Inr s' \<and> same_mode s s' \<and>
    displays s' (foldl (paper_put (unat (vs_res_x s)) (cell_of s)) p (concat ds)) bar"
  using assms
proof (induction ds arbitrary: s p)
  case (Cons d ds)
  from displays_put_all [OF Cons.prems, of d] obtain s1 where s1: "vga_put_all s d = Inr s1"
    "same_mode s s1" "displays s1 (foldl (paper_put (unat (vs_res_x s)) (cell_of s)) p d) bar" by blast
  from Cons.IH [OF s1(3)] obtain s2 where "vga_writes s1 ds = Inr s2" "same_mode s1 s2"
    "displays s2 (foldl (paper_put (unat (vs_res_x s1)) (cell_of s1))
       (foldl (paper_put (unat (vs_res_x s)) (cell_of s)) p d) (concat ds)) bar" by blast
  with s1 same_mode_cell [OF s1(2)] show ?case
    by (simp add: vga_write_def same_mode_def)
qed (auto simp: same_mode_def)

lemma vga_init_displays:
  assumes "vga_ok s" and "vs_pos_x s = 0" and "vs_pos_y s = 0"
    and "n = unat (vs_res_x s) * unat (vs_res_y s)"
  shows "\<exists>s'. vga_init s = Inr (0, s') \<and> same_mode s s' \<and> displays s' ([], []) (drop n (vs_vidmem s))"
proof -
  let ?s = "s\<lparr>vs_vidmem := replicate n 0 @ drop n (vs_vidmem s)\<rparr>"
  have "vga_init s = Inr (0, ?s)"
    using assms by (simp add: vga_init_def vga_clear_def clear_cells_def vga_ok_def)
  moreover have "displays ?s ([], []) (drop n (vs_vidmem s))"
    using assms by (simp add: Let_def vga_ok_def)
  ultimately show ?thesis by (auto simp: same_mode_def)
qed

lemma take_Suc_update: "i < length xs \<Longrightarrow> take (Suc i) (xs[i := c]) = take i xs @ [c]"
  by (simp add: take_Suc_conv_app_nth)

lemma bar_text_spec:
  assumes "0 \<notin> set str" and "b + rx \<le> length vm" and "pos \<le> rx"
  shows "bar_text vm b rx pos (str @ 0 # r) =
    Inr (take (b + pos) vm @ map (\<lambda>c. VCHAR c 0 7) (take (rx - pos) str) @
           drop (b + pos + length (take (rx - pos) str)) vm,
         pos + length (take (rx - pos) str))"
  using assms
proof (induction str arbitrary: vm pos)
  case (Cons c str)
  show ?case
  proof (cases "pos < rx")
    case True
    let ?vm = "vm[b + pos := VCHAR c 0 7]"
    from True have t: "take (rx - pos) (c # str) = c # take (rx - Suc pos) str"
      by (metis Suc_diff_Suc take_Suc_Cons)
    have "bar_text vm b rx pos ((c # str) @ 0 # r) = bar_text ?vm b rx (Suc pos) (str @ 0 # r)"
      using True Cons.prems by (simp add: put_cell_def)
    also have "\<dots> = Inr (take (b + Suc pos) ?vm @ map (\<lambda>c. VCHAR c 0 7) (take (rx - Suc pos) str) @
           drop (b + Suc pos + length (take (rx - Suc pos) str)) ?vm,
         Suc pos + length (take (rx - Suc pos) str))"
      by (rule Cons.IH) (use Cons.prems True in auto)
    also have "take (b + Suc pos) ?vm = take (b + pos) vm @ [VCHAR c 0 7]"
      using True Cons.prems take_Suc_update [of "b + pos" vm] by simp
    finally show ?thesis using t by simp
  qed (use Cons.prems in simp)
qed simp

lemma bar_fill_spec:
  assumes "b + rx \<le> length vm" and "pos \<le> rx"
  shows "bar_fill vm b rx pos =
    Inr (take (b + pos) vm @ replicate (rx - pos) (VCHAR 32 0 7) @ drop (b + rx) vm)"
  using assms
proof (induction vm b rx pos rule: bar_fill.induct)
  case (1 vm b rx pos)
  show ?case
  proof (cases "pos < rx")
    case True
    let ?vm = "vm[b + pos := VCHAR 32 0 7]"
    have "bar_fill vm b rx pos = bar_fill ?vm b rx (Suc pos)"
      using True 1(2) by (subst bar_fill.simps) (simp add: put_cell_def)
    also have "\<dots> = Inr (take (b + Suc pos) ?vm @ replicate (rx - Suc pos) (VCHAR 32 0 7) @ drop (b + rx) ?vm)"
      by (rule 1(1)) (use True 1(2) in \<open>auto simp: put_cell_def\<close>)
    also have "take (b + Suc pos) ?vm = take (b + pos) vm @ [VCHAR 32 0 7]"
      using True 1(2) take_Suc_update [of "b + pos" vm] by simp
    finally show ?thesis
      using True by (simp flip: Suc_diff_Suc [OF True])
  next
    case False
    then have "pos = rx" using 1(3) by simp
    then show ?thesis by (subst bar_fill.simps) simp
  qed
qed

lemma vga_spins:
  assumes "unat (vs_res_x s) * unat (vs_res_y s) < length (vs_vidmem s)" and "n < 4"
  shows "vga_working s n WORKING =
    Inr (s\<lparr>vs_vidmem := (vs_vidmem s)[unat (vs_res_x s) * unat (vs_res_y s) :=
      VCHAR (spinner ! unat n) 0 7]\<rparr>, n + 1)"
    and "vga_working s 4 WORKING = vga_working s 0 WORKING"
proof -
  have "\<not> n \<ge> of_nat (length spinner)" using assms(2) by (simp add: spinner_def bytes_of_def not_le)
  then show "vga_working s n WORKING =
    Inr (s\<lparr>vs_vidmem := (vs_vidmem s)[unat (vs_res_x s) * unat (vs_res_y s) :=
      VCHAR (spinner ! unat n) 0 7]\<rparr>, n + 1)"
    using assms(1) by (simp add: vga_working_def put_cell_def Let_def)
  show "vga_working s 4 WORKING = vga_working s 0 WORKING"
    by (simp add: vga_working_def spinner_def bytes_of_def)
qed

text \<open>
  C20: After \<open>vga_init\<close>, any sequence of writes leaves on the screen the end of an endless roll of
  80-column paper with everything written so far on it: lines break after 80 characters and at
  line feeds, and the last 24 rows (25 without a status bar) are shown, in white on black. No
  write is out of bounds and the cells behind the text, the status bar among them, are untouched.
\<close>

theorem vga_shows_output:
  assumes "2000 \<le> length vm"
  shows "let h = if statusbar then 24 else 25 in
    \<exists>s s'. vga_init (vga_state0 statusbar vm) = Inr (0, s) \<and> vga_writes s ds = Inr s' \<and>
      vs_vidmem s' =
        concat (paper_end 80 h (foldl (paper_put 80 (\<lambda>c. VCHAR c 7 0)) ([], []) (concat ds))) @
        drop (80 * h) vm"
proof -
  let ?s = "vga_state0 statusbar vm"
  define h :: nat where "h = (if statusbar then 24 else 25)"
  have f: "unat (vs_res_x ?s) = 80" "unat (vs_res_y ?s) = h" "vs_vidmem ?s = vm" "vs_pos_x ?s = 0"
    "vs_pos_y ?s = 0" "cell_of ?s = (\<lambda>c. VCHAR c 7 0)"
    by (simp_all add: vga_state0_def h_def cell_of_def fun_eq_iff)
  have "vga_ok ?s" using assms f by (auto simp: vga_ok_def h_def)
  from vga_init_displays [OF this f(4,5) refl] obtain s where s: "vga_init ?s = Inr (0, s)"
    "same_mode ?s s" "displays s ([], []) (drop (80 * h) vm)" unfolding f(1,2,3) by blast
  have g: "unat (vs_res_x s) = 80" "unat (vs_res_y s) = h" "cell_of s = (\<lambda>c. VCHAR c 7 0)"
    using s(2) f same_mode_cell [OF s(2)] by (auto simp: same_mode_def)
  from displays_writes [OF s(3), of ds] obtain s' where s': "vga_writes s ds = Inr s'" "same_mode s s'"
    "displays s' (foldl (paper_put 80 (\<lambda>c. VCHAR c 7 0)) ([], []) (concat ds)) (drop (80 * h) vm)"
    unfolding g by blast
  have "unat (vs_res_x s') = 80" "unat (vs_res_y s') = h" using s'(2) g by (simp_all add: same_mode_def)
  with displays_screen [OF s'(3)] s(1) s'(1) show ?thesis unfolding Let_def h_def [symmetric] by metis
qed

theorem vga_shows_output_witness:
  "\<exists>s s'. vga_init (vga_state0 True (replicate 2000 5)) = Inr (0, s) \<and>
     vga_writes s [bytes_of ''a'', bytes_of ''b'' @ [10, 99]] = Inr s' \<and>
     take 2 (vs_vidmem s') = [0x0761, 0x0762] \<and> vs_vidmem s' ! 80 = 0x0763 \<and> length (vs_vidmem s') = 2000"
proof -
  define vm where "vm = replicate 2000 (5 :: u16)"
  have l: "2000 \<le> length vm" "length vm = 2000" by (simp_all add: vm_def)
  let ?ds = "[bytes_of ''a'', bytes_of ''b'' @ [10, 99]]"
  let ?p = "foldl (paper_put 80 (\<lambda>c. VCHAR c 7 0)) ([], []) (concat ?ds)"
  have p: "?p = ([0x0761 # 0x0762 # replicate 78 0], [0x0763])"
    unfolding VCHAR_def by code_simp
  have e: "paper_end 80 24 ?p =
     (0x0761 # 0x0762 # replicate 78 0) # (0x0763 # replicate 79 0) # replicate 22 (replicate 80 0)"
    unfolding p by (simp add: pad_row_def)
  from vga_shows_output [OF l(1), of True ?ds] obtain s s' where
    s: "vga_init (vga_state0 True vm) = Inr (0, s)" "vga_writes s ?ds = Inr s'" and
    v: "vs_vidmem s' = concat (paper_end 80 24 ?p) @ drop (80 * 24) vm" by (auto simp: Let_def)
  have "length (vs_vidmem s') = 2000" "take 2 (vs_vidmem s') = [0x0761, 0x0762]" "vs_vidmem s' ! 80 = 0x0763"
    unfolding v e using l(2) by (simp_all add: concat_same_length [where w = 80] nth_append)
  with s show ?thesis unfolding vm_def by blast
qed

text \<open>
  C21: The status message fills the row below the text from its second cell on, black on white: a
  space, the message cut at the width of the screen, and spaces up to it. The first cell, which
  belongs to the activity icon, and all other cells are kept, and so is the cursor.
\<close>

theorem vga_status_bar:
  assumes "str_at str p" and "2 \<le> unat (vs_res_x s)"
    and "unat (vs_res_x s) * (unat (vs_res_y s) + 1) \<le> length (vs_vidmem s)"
  shows "let w = unat (vs_res_x s); b = w * unat (vs_res_y s) in
    vga_status s p = Inr (s\<lparr>vs_vidmem := take (b + 1) (vs_vidmem s) @
      map (\<lambda>c. VCHAR c 0 7) (32 # take (w - 2) str @ replicate (w - 2 - length str) 32) @
      drop (b + w) (vs_vidmem s)\<rparr>)"
proof -
  define w where w: "w = unat (vs_res_x s)"
  define b where b: "b = w * unat (vs_res_y s)"
  let ?vm = "vs_vidmem s"
  have l: "2 \<le> w" "b + w \<le> length ?vm" using assms(2,3) by (simp_all add: w b)
  obtain r where p: "p = str @ 0 # r" "0 \<notin> set str" using assms(1) by (rule str_at_cases)
  let ?vm1 = "?vm[b + 1 := VCHAR 32 0 7]"
  have 1: "put_cell ?vm (b + 1) (VCHAR 32 0 7) = Inr ?vm1" using l by (simp add: put_cell_def)
  let ?t = "take (w - 2) str"
  let ?vm2 = "take (b + 2) ?vm1 @ map (\<lambda>c. VCHAR c 0 7) ?t @ drop (b + 2 + length ?t) ?vm1"
  have 2: "bar_text ?vm1 b w 2 p = Inr (?vm2, 2 + length ?t)"
    using bar_text_spec [of str b w ?vm1 2 r] p l by simp
  have 3: "bar_fill ?vm2 b w (2 + length ?t) = Inr (take (b + (2 + length ?t)) ?vm2 @
      replicate (w - (2 + length ?t)) (VCHAR 32 0 7) @ drop (b + w) ?vm2)"
    by (rule bar_fill_spec) (use l in auto)
  have "take (b + 2) ?vm1 = take (b + 1) ?vm @ [VCHAR 32 0 7]"
    using take_Suc_update [of "b + 1" ?vm] l by simp
  moreover have "take (b + (2 + length ?t)) ?vm2 = take (b + 2) ?vm1 @ map (\<lambda>c. VCHAR c 0 7) ?t"
    using l by simp
  moreover have "Suc (Suc (w + b - 2)) = b + w" using l by simp
  then have "drop (b + w) ?vm2 = drop (b + w) ?vm" using l by simp
  moreover have "w - (2 + length ?t) = w - 2 - length str" by simp
  ultimately show ?thesis using 1 2 3
    by (simp add: vga_status_def Let_def flip: w b)
qed

theorem vga_status_bar_witness:
  "\<exists>s. vga_status (vga_state0 True (replicate 2000 7)) (cstr ''boot'') = Inr s \<and>
     take 7 (drop 1920 (vs_vidmem s)) = [7, 0x7020, 0x7062, 0x706F, 0x706F, 0x7074, 0x7020]"
proof -
  define vm where "vm = replicate 2000 (7 :: u16)"
  have f: "unat (vs_res_x (vga_state0 True vm)) = 80" "unat (vs_res_y (vga_state0 True vm)) = 24"
    "vs_vidmem (vga_state0 True vm) = vm" by (simp_all add: vga_state0_def)
  have c: "map (\<lambda>c. VCHAR c 0 7) (32 # take 78 (bytes_of ''boot'') @ replicate 74 32) =
      [0x7020, 0x7062, 0x706F, 0x706F, 0x7074, 0x7020] @ replicate 73 0x7020"
    unfolding VCHAR_def by code_simp
  have d: "drop 1920 (take 1921 vm @ ys) = 7 # ys" for ys by (simp add: vm_def)
  from vga_status_bar [OF example_str_at(1), of "vga_state0 True vm"] obtain s where
    "vga_status (vga_state0 True vm) (cstr ''boot'') = Inr s"
    "vs_vidmem s = take 1921 vm @
       map (\<lambda>c. VCHAR c 0 7) (32 # take 78 (bytes_of ''boot'') @ replicate 74 32) @ drop 2000 vm"
    unfolding f Let_def by (simp add: vm_def bytes_of_def)
  then show ?thesis unfolding vm_def [symmetric] c by (simp add: d del: drop_append take_append)
qed

end
