(* ===== verification/Output.thy ===== *)
theory Output
  imports Vga
begin

text \<open>
  The formatted output of \<^verbatim>\<open>src/io/output.c\<close>. The buffer \<open>_print\<close> writes is the list of the
  characters so far; the variable arguments are the list of those still to come, each with the
  type it was passed with, and reading one with another type is a \<open>Fault\<close>.
\<close>

unbundle bit_operations_syntax

section \<open>Division\<close>

text \<open>\<open>__builtin_clzll\<close> of a number that is not zero.\<close>

fun clz_from :: "nat \<Rightarrow> u64 \<Rightarrow> nat" where
  "clz_from 0 w = 0"
| "clz_from (Suc n) w = (if bit w n then 0 else Suc (clz_from n w))"

definition clz64 :: "u64 \<Rightarrow> nat" where "clz64 w = clz_from 64 w"

text \<open>The loop runs for \<open>shift\<close> from its start down to 0, which is \<open>n\<close> times.\<close>

fun udiv_loop :: "nat \<Rightarrow> u64 \<Rightarrow> u64 \<Rightarrow> u64 \<Rightarrow> u64 \<times> u64" where
  "udiv_loop 0 a b q = (q, a)"
| "udiv_loop (Suc n) a b q =
     (let q = push_bit 1 q;
          (a, q) = (if a \<ge> b then (a - b, q OR 1) else (a, q))
      in udiv_loop n a (drop_bit 1 b) q)"

definition udiv64 :: "u64 \<Rightarrow> u64 \<Rightarrow> (u64 \<times> u64) res" where
  "udiv64 a b =
     (if a < 0x100000000 then
        let a = (ucast a :: u32); b = (ucast b :: u32)
        in if b = 0 then Inl Fault else Inr (ucast (a div b), ucast (a mod b))
      else if b > a then Inr (0, a)
      else
        let shift = int (clz64 (b OR 1)) - int (clz64 (a OR 1))
        in Inr (udiv_loop (nat (shift + 1)) a (push_bit (nat shift) b) 0))"

text \<open>The number of leading zeros bounds a number from both sides.\<close>

lemma bit_word_nat: "bit (w :: 'w::len word) n \<longleftrightarrow> odd (unat w div 2 ^ n)"
proof -
  have "bit w n \<longleftrightarrow> bit (unat w) n"
    by (metis bit_unsigned_iff possible_bit_nat)
  then show ?thesis by (simp only: bit_iff_odd)
qed

lemma clz_from_bounds:
  assumes "unat w < 2 ^ n" and "n \<le> 64" and "w \<noteq> 0"
  shows "clz_from n w < n \<and> 2 ^ (n - 1 - clz_from n w) \<le> unat w \<and> unat w < 2 ^ (n - clz_from n w)"
  using assms
proof (induction n)
  case 0
  then show ?case by (simp add: unat_eq_zero)
next
  case (Suc n)
  show ?case
  proof (cases "bit w n")
    case True
    then have "odd (unat w div 2 ^ n)" by (simp add: bit_word_nat)
    then have "2 ^ n \<le> unat w" by (cases "unat w < 2 ^ n") auto
    then show ?thesis using True Suc.prems by simp
  next
    case False
    have "unat w < 2 ^ n"
    proof (rule ccontr)
      assume "\<not> unat w < 2 ^ n"
      then have "unat w div 2 ^ n = 1" using Suc.prems(1)
        by (intro div_nat_eqI) auto
      then have "bit w n" by (simp add: bit_word_nat)
      with False show False by simp
    qed
    then show ?thesis using Suc False by auto
  qed
qed

lemma unat_push_bit:
  assumes "unat (w :: 'w::len word) * 2 ^ n < 2 ^ LENGTH('w)"
  shows "unat (push_bit n w) = unat w * 2 ^ n"
proof -
  have "unat (push_bit n w) = take_bit LENGTH('w) (push_bit n (unat w))" by (rule unsigned_push_bit_eq)
  then show ?thesis using assms by (simp add: push_bit_eq_mult take_bit_nat_eq_self)
qed

lemma udiv_loop_spec:
  assumes "0 < b0" and "n \<noteq> 0 \<Longrightarrow> unat b = b0 * 2 ^ (n - 1)" and "unat a < b0 * 2 ^ n"
    and "unat q * 2 ^ n + unat a div b0 < 2 ^ 64"
  shows "case udiv_loop n a b q of (q', a') \<Rightarrow>
    unat q' = unat q * 2 ^ n + unat a div b0 \<and> unat a' = unat a mod b0"
  using assms
proof (induction n arbitrary: a b q)
  case (Suc n)
  have b: "unat b = b0 * 2 ^ n" using Suc.prems(2) by simp
  let ?q = "push_bit 1 q"
  have "unat q * 2 \<le> unat q * 2 ^ Suc n" by simp
  then have q2: "unat q * 2 < 2 ^ 64" using Suc.prems(4) by linarith
  then have q: "unat ?q = unat q * 2" using unat_push_bit [of q 1] by simp
  have q': "unat (q * 2) = unat q * 2" using q by (simp add: push_bit_eq_mult)
  have next_b: "n \<noteq> 0 \<Longrightarrow> unat (drop_bit 1 b) = b0 * 2 ^ (n - 1)"
  proof -
    have "unat (drop_bit 1 b) = unat b div 2"
      by (simp add: drop_bit_eq_div unat_div_distrib)
    then show "n \<noteq> 0 \<Longrightarrow> unat (drop_bit 1 b) = b0 * 2 ^ (n - 1)" using b by (cases n) simp_all
  qed
  show ?case
  proof (cases "b \<le> a")
    case True
    then have le: "b0 * 2 ^ n \<le> unat a" and sub: "unat (a - b) = unat a - b0 * 2 ^ n"
      using b unat_sub_le [OF True] by (simp_all add: word_le_nat_alt)
    have d: "unat a div b0 = 2 ^ n + (unat a - b0 * 2 ^ n) div b0"
      and m: "(unat a - b0 * 2 ^ n) mod b0 = unat a mod b0"
      using le Suc.prems(1) by (auto simp: le_iff_add)
    have e: "?q OR 1 = ?q + 1" by (simp add: or_one_eq push_bit_eq_mult)
    have "unat (?q + 1) = unat q * 2 + 1"
    proof (subst unat_add_no_wrap)
      have "even (2 ^ 64 :: nat)" by simp
      then show "unat ?q + unat (1 :: u64) < 2 ^ LENGTH(64)" using q q2 by simp
    qed (simp only: q unat_1)
    then have q1: "unat (?q OR 1) = unat q * 2 + 1" by (simp only: e)
    have "case udiv_loop n (a - b) (drop_bit 1 b) (?q OR 1) of (q', a') \<Rightarrow>
        unat q' = unat (?q OR 1) * 2 ^ n + unat (a - b) div b0 \<and> unat a' = unat (a - b) mod b0"
    proof (rule Suc.IH [OF Suc.prems(1) next_b])
      show "unat (a - b) < b0 * 2 ^ n" using Suc.prems(3) sub le by simp
      show "unat (?q OR 1) * 2 ^ n + unat (a - b) div b0 < 2 ^ 64"
        using Suc.prems(4) unfolding q1 sub d by (simp add: algebra_simps)
    qed
    then show ?thesis using True d m unfolding q1 sub
      by (simp add: Let_def algebra_simps split: prod.splits)
  next
    case False
    then have lt: "unat a < b0 * 2 ^ n" using b by (simp add: word_le_nat_alt not_le)
    have "case udiv_loop n a (drop_bit 1 b) ?q of (q', a') \<Rightarrow>
        unat q' = unat ?q * 2 ^ n + unat a div b0 \<and> unat a' = unat a mod b0"
      by (rule Suc.IH [OF Suc.prems(1) next_b lt])
        (use Suc.prems(4) in \<open>simp_all add: q' algebra_simps\<close>)
    then show ?thesis using False by (simp add: Let_def q' algebra_simps split: prod.splits)
  qed
qed simp

lemma unat_or_1: "unat (w OR 1 :: u64) = unat w + (if even (unat w) then 1 else 0)"
proof -
  have "odd w \<longleftrightarrow> odd (unat w)" using bit_word_nat [of w 0] by (simp add: bit_0)
  then have e: "w OR 1 = w + of_bool (even (unat w))" by (simp add: or_one_eq)
  show ?thesis
  proof (cases "even (unat w)")
    case True
    have "unat w < 2 ^ 64" using unsigned_less [of w] by simp
    moreover have "unat w + 1 \<noteq> 2 ^ 64"
    proof
      assume "unat w + 1 = 2 ^ 64"
      then have "even (unat w + 1)" by simp
      with True show False by simp
    qed
    ultimately have "unat w + 1 < 2 ^ 64" by linarith
    then have "unat (w + 1) = unat w + 1" by (subst unat_add_no_wrap) simp_all
    with True e show ?thesis by simp
  qed (use e in simp)
qed

lemma clz_msb:
  assumes "w \<noteq> 0"
  defines "c \<equiv> clz64 (w OR 1)"
  shows "c < 64 \<and> 2 ^ (63 - c) \<le> unat w \<and> unat w < 2 ^ (64 - c)"
proof -
  have w: "0 < unat w" using assms by (simp add: unat_gt_0)
  have "unat (w OR 1) < 2 ^ 64" using unsigned_less [of "w OR 1"] by simp
  moreover have "w OR 1 \<noteq> 0" using unat_or_1 [of w] w by auto
  ultimately have c: "c < 64" "2 ^ (63 - c) \<le> unat (w OR 1)" "unat (w OR 1) < 2 ^ (64 - c)"
    using clz_from_bounds [of "w OR 1" 64] by (simp_all add: c_def clz64_def)
  moreover have "2 ^ (63 - c) \<le> unat w"
  proof (cases "even (unat w)")
    case True
    then have "2 ^ (63 - c) \<le> unat w + 1" using c unat_or_1 [of w] by simp
    moreover have "2 ^ (63 - c) \<noteq> unat w + 1"
    proof
      assume e: "2 ^ (63 - c) = unat w + 1"
      with True have "odd ((2 :: nat) ^ (63 - c))" by simp
      then have "63 - c = 0" by (metis even_power even_numeral gr0I)
      with e w show False by simp
    qed
    ultimately show ?thesis by linarith
  qed (use c unat_or_1 [of w] in simp)
  moreover have "unat w \<le> unat (w OR 1)" using unat_or_1 [of w] by simp
  ultimately show ?thesis by linarith
qed

text \<open>
  The division of 64-bit numbers by a divisor of 32 bits, or of a dividend of more than 32 bits
  by any divisor; a small dividend with a large divisor is divided by its low half.
\<close>

lemma udiv64_spec:
  assumes "b \<noteq> 0" and "unat b < 2 ^ 32 \<or> 2 ^ 32 \<le> unat a"
  shows "udiv64 a b = Inr (a div b, a mod b)"
proof (cases "a < 0x100000000")
  case True
  then have l: "unat a < 2 ^ 32" "unat b < 2 ^ 32" using assms(2) by (auto simp: word_less_nat_alt)
  have u: "unat (ucast a :: u32) = unat a" "unat (ucast b :: u32) = unat b"
    using l by (simp_all add: unsigned_ucast_eq unsigned_take_bit_eq take_bit_nat_eq_self)
  have "(ucast b :: u32) \<noteq> 0" using u(2) assms(1) by (metis unat_0 unat_eq_zero)
  moreover have "ucast ((ucast a :: u32) div ucast b) = a div b" "ucast ((ucast a :: u32) mod ucast b) = a mod b"
    by (simp_all add: word_unat_eq_iff unat_ucast_up unat_div_distrib unat_mod_distrib u)
  ultimately show ?thesis using True by (simp add: udiv64_def Let_def)
next
  case big: False
  show ?thesis
  proof (cases "b > a")
    case True
    then have "unat a < unat b" by (simp add: word_less_nat_alt)
    then have "a div b = 0" "a mod b = a"
      by (simp_all add: word_unat_eq_iff unat_div_distrib unat_mod_distrib)
    then show ?thesis using True big by (simp add: udiv64_def)
  next
    case False
    then have le: "unat b \<le> unat a" by (simp add: word_le_nat_alt not_less)
    have a0: "a \<noteq> 0" using le assms(1) by (metis unat_eq_zero le_zero_eq)
    let ?ca = "clz64 (a OR 1)" let ?cb = "clz64 (b OR 1)"
    note A = clz_msb [OF a0] and B = clz_msb [OF assms(1)]
    have c: "?ca \<le> ?cb"
    proof (rule ccontr)
      assume "\<not> ?ca \<le> ?cb"
      then have "64 - ?ca \<le> 63 - ?cb" using A by linarith
      then have "(2 :: nat) ^ (64 - ?ca) \<le> 2 ^ (63 - ?cb)" by (intro power_increasing) auto
      with A B le show False by linarith
    qed
    define s where "s = ?cb - ?ca"
    have s: "nat (int ?cb - int ?ca) = s" "nat (int ?cb - int ?ca + 1) = Suc s" using c by (auto simp: s_def)
    have e: "64 - ?cb + s = 64 - ?ca" using c B by (simp add: s_def)
    have f: "63 - ?cb + Suc s = 64 - ?ca"
      using c conjunct1 [OF A] conjunct1 [OF B] unfolding s_def by arith
    have "unat b * 2 ^ s < 2 ^ (64 - ?cb) * 2 ^ s" using B by simp
    also have "\<dots> = 2 ^ (64 - ?ca)" by (simp add: e flip: power_add)
    also have "\<dots> \<le> 2 ^ 64" by (intro power_increasing) auto
    finally have b1: "unat (push_bit s b) = unat b * 2 ^ s" by (intro unat_push_bit) simp
    have "(2 :: nat) ^ (64 - ?ca) = 2 ^ (63 - ?cb) * 2 ^ Suc s" by (simp only: f flip: power_add)
    also have "\<dots> \<le> unat b * 2 ^ Suc s" using B by (intro mult_right_mono) auto
    finally have a1: "unat a < unat b * 2 ^ Suc s" using A by linarith
    have "unat a div unat b \<le> unat a" by simp
    also have "\<dots> < 2 ^ 64" using unsigned_less [of a] by simp
    finally have "case udiv_loop (Suc s) a (push_bit s b) 0 of (q', a') \<Rightarrow>
        unat q' = unat a div unat b \<and> unat a' = unat a mod unat b"
      using udiv_loop_spec [of "unat b" "Suc s" "push_bit s b" a 0] b1 a1 assms(1)
      by (simp add: unat_gt_0)
    then show ?thesis using big False s
      by (auto simp: udiv64_def Let_def word_unat_eq_iff unat_div_distrib unat_mod_distrib
          simp del: udiv_loop.simps split: prod.splits)
  qed
qed

section \<open>Integers\<close>

definition PRINTFLAG_UNSIGNED :: u32 where "PRINTFLAG_UNSIGNED = push_bit 0 1"
definition PRINTFLAG_PADZERO :: u32 where "PRINTFLAG_PADZERO = push_bit 1 1"
definition PRINTFLAG_POSSIGN :: u32 where "PRINTFLAG_POSSIGN = push_bit 2 1"
definition PRINTFLAG_POSSPACE :: u32 where "PRINTFLAG_POSSPACE = push_bit 3 1"
definition PRINTFLAG_UPPERCASE :: u32 where "PRINTFLAG_UPPERCASE = push_bit 4 1"
definition PRINTFLAG_LEFTALIGN :: u32 where "PRINTFLAG_LEFTALIGN = push_bit 5 1"

definition print_nums :: "u32 \<Rightarrow> u8 list" where
  "print_nums flags =
     (if flags AND PRINTFLAG_UPPERCASE \<noteq> 0 then bytes_of ''0123456789ABCDEF''
      else bytes_of ''0123456789abcdef'')"

text \<open>
  The digits into \<open>ans\<close>, the lowest first; \<open>ans\<close> has 25 characters, and \<open>nums\<close> sixteen besides
  its terminator.
\<close>

function print_digits :: "u8 list \<Rightarrow> u8 \<Rightarrow> u64 \<Rightarrow> u8 list \<Rightarrow> u8 list res" where
  "print_digits nums base num ans =
     (if num \<noteq> 0 then
        bnd (udiv64 num (ucast base)) (\<lambda>(num, rem).
          if length ans < 25 \<and> unat rem < length nums
          then print_digits nums base num (ans @ [nums ! unat rem]) else Inl Fault)
      else Inr ans)"
  by pat_completeness auto
termination by (relation "measure (\<lambda>(nums, base, num, ans). 25 - length ans)") auto

declare print_digits.simps [simp del]

definition print_int :: "u64 \<Rightarrow> u8 \<Rightarrow> u8 \<Rightarrow> u32 \<Rightarrow> u8 list res" where
  "print_int num base pad flags =
     (let neg = (flags AND PRINTFLAG_UNSIGNED = 0 \<and> num AND push_bit 63 1 \<noteq> 0);
          num = (if neg then NOT num + 1 else num)
      in bnd (print_digits (print_nums flags) base num []) (\<lambda>ans.
           let ans = (if ans = [] then bytes_of ''0'' else ans);
               sign = (if neg then bytes_of ''-''
                       else if flags AND PRINTFLAG_POSSIGN \<noteq> 0 then bytes_of ''+''
                       else if flags AND PRINTFLAG_POSSPACE \<noteq> 0 then bytes_of '' ''
                       else []);
               p = int (unat pad) - int (length ans);
               p = (if p > 0 then nat p else 0);
               padc = (if flags AND PRINTFLAG_PADZERO \<noteq> 0 then bytes_of ''0'' else bytes_of '' '')
           in Inr (sign @ concat (replicate p padc) @ rev ans)))"

section \<open>The format\<close>

text \<open>\<open>_get_dec\<close>: the number and the rest of the string behind it; the sum is an \<open>int\<close>.\<close>

fun get_dec_from :: "int \<Rightarrow> u8 list \<Rightarrow> (int \<times> u8 list) res" where
  "get_dec_from n [] = Inl Fault"
| "get_dec_from n (c # cs) =
     (if sint c \<ge> 48 \<and> sint c \<le> 57 then
        let n = n * 10 + (sint c - 48)
        in if n \<le> 2147483647 then get_dec_from n cs else Inl Fault
      else Inr (n, c # cs))"

definition get_dec :: "u8 list \<Rightarrow> (int \<times> u8 list) res" where "get_dec s = get_dec_from 0 s"

text \<open>
  A variable argument: a word (an \<open>int\<close>, \<open>unsigned\<close> or \<open>long\<close>), a pointer to a string, a
  \<open>long long\<close> or a \<open>double\<close>.
\<close>

datatype va_item = VWord u32 | VPtr u32 "u8 list" | VLong u64 | VDouble

fun va_word :: "va_item list \<Rightarrow> (u32 \<times> va_item list) res" where
  "va_word (VWord w # va) = Inr (w, va)"
| "va_word (VPtr p s # va) = Inr (p, va)"
| "va_word _ = Inl Fault"

fun va_long :: "va_item list \<Rightarrow> (u64 \<times> va_item list) res" where
  "va_long (VLong w # va) = Inr (w, va)"
| "va_long _ = Inl Fault"

fun va_double :: "va_item list \<Rightarrow> va_item list res" where
  "va_double (VDouble # va) = Inr va"
| "va_double _ = Inl Fault"

text \<open>\<open>None\<close> is the null pointer.\<close>

fun va_string :: "va_item list \<Rightarrow> (u8 list option \<times> va_item list) res" where
  "va_string (VPtr p s # va) = Inr (if p = 0 then None else Some s, va)"
| "va_string (VWord w # va) = (if w = 0 then Inr (None, va) else Inl Fault)"
| "va_string _ = Inl Fault"

definition get_arg :: "va_item list \<Rightarrow> int \<Rightarrow> (u64 \<times> va_item list) res" where
  "get_arg va sz =
     (if sz = -2 then bnd (va_word va) (\<lambda>(w, va). Inr (ucast (w AND 0xFF), va))
      else if sz = -1 then bnd (va_word va) (\<lambda>(w, va). Inr (ucast (w AND 0xFFFF), va))
      else if sz = 0 then bnd (va_word va) (\<lambda>(w, va). Inr (ucast (w AND 0xFFFFFFFF), va))
      else if sz = 1 then bnd (va_word va) (\<lambda>(w, va). Inr (scast w, va))
      else if sz = 2 then va_long va
      else Inr (0, va))"

definition sign_extend :: "u64 \<Rightarrow> int \<Rightarrow> u64" where
  "sign_extend val sz =
     (if sz = -2 then scast (ucast val :: u8)
      else if sz = -1 then scast (ucast val :: u16)
      else if sz = 0 then scast (ucast val :: u32)
      else if sz = 1 then scast (ucast val :: u32)
      else val)"

record fmt_spec =
  f_in_spec :: bool
  f_size :: int
  f_width :: u32
  f_precision :: u32
  f_flags :: u32

definition fmt_spec0 :: fmt_spec where
  "fmt_spec0 = \<lparr>f_in_spec = False, f_size = 0, f_width = 0, f_precision = 0, f_flags = 0\<rparr>"

text \<open>
  The cases of the switch of \<open>_print\<close> that only change the state of the directive, by the
  character; \<open>None\<close> for all others.
\<close>

definition fmt_modifier :: "u8 \<Rightarrow> fmt_spec \<Rightarrow> fmt_spec option" where
  "fmt_modifier c f =
     (if c = of_char CHR ''l'' then Some (if f_size f < 2 then f\<lparr>f_size := f_size f + 1\<rparr> else f)
      else if c = of_char CHR ''L'' then Some (f\<lparr>f_size := 1\<rparr>)
      else if c = of_char CHR ''h'' then Some (if f_size f > -2 then f\<lparr>f_size := f_size f - 1\<rparr> else f)
      else if c \<in> {of_char CHR ''z'', of_char CHR ''j'', of_char CHR ''t''} then Some (f\<lparr>f_size := 0\<rparr>)
      else if c = of_char CHR ''+'' then Some (f\<lparr>f_flags := f_flags f OR PRINTFLAG_POSSIGN\<rparr>)
      else if c = of_char CHR '' '' then Some (f\<lparr>f_flags := f_flags f OR PRINTFLAG_POSSPACE\<rparr>)
      else if c = of_char CHR ''-'' then Some (f\<lparr>f_flags := f_flags f OR PRINTFLAG_LEFTALIGN\<rparr>)
      else if c = of_char CHR ''0'' then Some (f\<lparr>f_flags := f_flags f OR PRINTFLAG_PADZERO\<rparr>)
      else None)"

text \<open>
  The conversions of the switch: the characters written, by how much \<open>nchars\<close> grows, and the
  arguments left; \<open>None\<close> for a character that is none of them.
\<close>

definition fmt_integer :: "u8 \<Rightarrow> u8 \<Rightarrow> fmt_spec \<Rightarrow> va_item list \<Rightarrow> (u8 list \<times> int \<times> va_item list) res" where
  "fmt_integer c base f va =
     bnd (get_arg va (f_size f)) (\<lambda>(arg, va).
       let signed = (c = of_char CHR ''d'' \<or> c = of_char CHR ''i'');
           arg = (if signed then sign_extend arg (f_size f) else arg);
           flags = (if signed then f_flags f else f_flags f OR PRINTFLAG_UNSIGNED);
           flags = (if c = of_char CHR ''X'' then flags OR PRINTFLAG_UPPERCASE else flags);
           width = (if c = of_char CHR ''p'' \<and> f_width f = 0 then 8 else f_width f)
       in bnd (print_int arg base (ucast width) flags) (\<lambda>out.
            Inr (out, int (length out), va)))"

definition fmt_string :: "fmt_spec \<Rightarrow> va_item list \<Rightarrow> (u8 list \<times> int \<times> va_item list) res" where
  "fmt_string f va =
     bnd (va_string va) (\<lambda>(s, va).
       let precision = (if f_precision f = 0 then 0xFFFFFFFF else f_precision f);
           s = (case s of None \<Rightarrow> cstr ''(null)'' | Some s \<Rightarrow> s)
       in bnd (strlen s) (\<lambda>n. Inr (take (unat precision) (take n s), int n, va)))"

definition fmt_convert :: "u8 \<Rightarrow> fmt_spec \<Rightarrow> va_item list \<Rightarrow> (u8 list \<times> int \<times> va_item list) res option" where
  "fmt_convert c f va =
     (if c \<in> {of_char CHR ''u'', of_char CHR ''d'', of_char CHR ''i''} then Some (fmt_integer c 10 f va)
      else if c \<in> {of_char CHR ''f'', of_char CHR ''F'', of_char CHR ''e'', of_char CHR ''E'',
                   of_char CHR ''g'', of_char CHR ''G''} then
        Some (bnd (va_double va) (\<lambda>va. Inr ([], 0, va)))
      else if c \<in> {of_char CHR ''X'', of_char CHR ''x''} then Some (fmt_integer c 16 f va)
      else if c = of_char CHR ''o'' then Some (fmt_integer c 8 f va)
      else if c = of_char CHR ''s'' then Some (fmt_string f va)
      else if c = of_char CHR ''c'' then
        Some (bnd (va_word va) (\<lambda>(w, va). Inr ([ucast w], 1, va)))
      else if c = of_char CHR ''p'' then Some (fmt_integer c 16 f va)
      else if c \<in> {of_char CHR ''a'', of_char CHR ''A''} then
        Some (bnd (va_double va) (\<lambda>va. Inr ([], 0, va)))
      else if c = of_char CHR ''n'' then Some (bnd (va_word va) (\<lambda>(w, va). Inr ([], 0, va)))
      else None)"

definition FMT_SPEC :: u8 where "FMT_SPEC = of_char CHR ''%''"

lemma get_dec_from_length: "get_dec_from n s = Inr (m, r) \<Longrightarrow> length r \<le> length s"
  by (induction n s rule: get_dec_from.induct) (auto simp: Let_def split: if_splits)

lemma get_dec_length:
  assumes "get_dec (c # s) = Inr (m, r)" and "sint c \<ge> 48" "sint c \<le> 57"
  shows "length r \<le> length s"
  using assms get_dec_from_length by (auto simp: get_dec_def Let_def split: if_splits)

function print_loop :: "u8 list \<Rightarrow> va_item list \<Rightarrow> fmt_spec \<Rightarrow> u8 list \<Rightarrow> int \<Rightarrow> (u8 list \<times> int) res" where
  "print_loop [] va f out nchars = Inl Fault"
| "print_loop (c # fmt) va f out nchars =
     (if c = 0 then Inr (out, nchars)
      else if \<not> f_in_spec f then
        if c = FMT_SPEC then print_loop fmt va (f\<lparr>f_in_spec := True\<rparr>) out nchars
        else print_loop fmt va f (out @ [c]) (nchars + 1)
      else if c = FMT_SPEC then
        print_loop fmt va (f\<lparr>f_in_spec := False\<rparr>) (out @ [FMT_SPEC]) (nchars + 1)
      else if sint c \<ge> 49 \<and> sint c \<le> 57 then
        bnd (get_dec (c # fmt)) (\<lambda>(n, rest).
          print_loop rest va (f\<lparr>f_width := ucast (of_int n :: u8)\<rparr>) out nchars)
      else if c = of_char CHR ''.'' then
        bnd (get_dec fmt) (\<lambda>(n, rest).
          print_loop rest va (f\<lparr>f_precision := ucast (of_int n :: u8)\<rparr>) out nchars)
      else case fmt_modifier c f of
          Some f \<Rightarrow> print_loop fmt va f out nchars
        | None \<Rightarrow>
            (case fmt_convert c f va of
               Some r \<Rightarrow> bnd r (\<lambda>(s, n, va). print_loop fmt va fmt_spec0 (out @ s) (nchars + n))
             | None \<Rightarrow> print_loop fmt va f out nchars))"
  by pat_completeness auto
termination
  by (relation "measure (\<lambda>(fmt, va, f, out, nchars). length fmt)")
    (auto simp: get_dec_def dest!: get_dec_from_length dest: get_dec_length [unfolded get_dec_def])

declare print_loop.simps [simp del]

definition print :: "u8 list \<Rightarrow> va_item list \<Rightarrow> (u8 list \<times> int) res" where
  "print format va = print_loop format va fmt_spec0 [] 0"

section \<open>Output devices\<close>

text \<open>
  A device of state \<open>'d\<close>; \<open>None\<close> is a null function pointer. The current device may be absent.
\<close>

record 'd output_hand =
  oh_write :: "'d \<Rightarrow> u8 list \<Rightarrow> nat \<Rightarrow> (nat \<times> 'd) res"
  oh_status :: "('d \<Rightarrow> u8 list \<Rightarrow> 'd res) option"
  oh_working :: "('d \<Rightarrow> working_status \<Rightarrow> 'd res) option"

type_synonym 'd output_dev = "'d output_hand option"

definition putchar :: "'d output_dev \<Rightarrow> 'd \<Rightarrow> u8 \<Rightarrow> 'd res" where
  "putchar cur d ch =
     (case cur of None \<Rightarrow> Inr d | Some hand \<Rightarrow> bnd (oh_write hand d [ch] 1) (\<lambda>(n, d). Inr d))"

definition puts :: "'d output_dev \<Rightarrow> 'd \<Rightarrow> u8 list \<Rightarrow> 'd res" where
  "puts cur d str =
     (case cur of
        None \<Rightarrow> Inr d
      | Some hand \<Rightarrow> bnd (strlen str) (\<lambda>n. bnd (oh_write hand d str n) (\<lambda>(n, d). Inr d)))"

text \<open>\<open>_printf_buff\<close> has 1024 characters, the terminator included.\<close>

definition print_buff :: "u8 list \<Rightarrow> va_item list \<Rightarrow> (u8 list \<times> int) res" where
  "print_buff fmt va =
     bnd (print fmt va) (\<lambda>(out, n). if length out < 1024 then Inr (out @ [0], n) else Inl Fault)"

definition printf :: "'d output_dev \<Rightarrow> 'd \<Rightarrow> u8 list \<Rightarrow> va_item list \<Rightarrow> (int \<times> 'd) res" where
  "printf cur d fmt va =
     bnd (print_buff fmt va) (\<lambda>(buff, ret). bnd (puts cur d buff) (\<lambda>d. Inr (ret, d)))"

text \<open>The first argument is \<^verbatim>\<open>CONFIG_STATUSBAR\<close>.\<close>

definition status_working :: "bool \<Rightarrow> 'd output_dev \<Rightarrow> 'd \<Rightarrow> working_status \<Rightarrow> 'd res" where
  "status_working statusbar cur d status =
     (case (if statusbar then Option.bind cur oh_working else None) of
        Some working \<Rightarrow> working d status
      | None \<Rightarrow> if status = WORKING then putchar cur d (of_char CHR ''.'') else Inr d)"

definition print_status :: "bool \<Rightarrow> 'd output_dev \<Rightarrow> 'd \<Rightarrow> u8 list \<Rightarrow> va_item list \<Rightarrow> 'd res" where
  "print_status statusbar cur d fmt va =
     bnd (print_buff fmt va) (\<lambda>(buff, ret).
       case (if statusbar then Option.bind cur oh_status else None) of
         Some status \<Rightarrow> status d buff
       | None \<Rightarrow> bnd (puts cur d buff) (\<lambda>d. putchar cur d 10))"

text \<open>What \<open>_panic\<close> does to the device before it halts for ever.\<close>

definition panic_output :: "bool \<Rightarrow> 'd output_dev \<Rightarrow> 'd \<Rightarrow> u8 list \<Rightarrow> va_item list \<Rightarrow> 'd res" where
  "panic_output statusbar cur d fmt va =
     bnd (print_buff fmt va) (\<lambda>(buff, ret).
       bnd (puts cur d buff) (\<lambda>d. status_working statusbar cur d ERROR))"

definition PRINTHEX_ROWSZ :: nat where "PRINTHEX_ROWSZ = 24"

text \<open>The inner loop from \<open>j\<close> on, \<open>k\<close> turns before the end of the row.\<close>

fun print_hex_row :: "'d output_dev \<Rightarrow> 'd \<Rightarrow> u8 list \<Rightarrow> nat \<Rightarrow> nat \<Rightarrow> nat \<Rightarrow> nat \<Rightarrow> 'd res" where
  "print_hex_row cur d bytes len i j 0 = Inr d"
| "print_hex_row cur d bytes len i j (Suc k) =
     (if j + i < len then
        if i + j < length bytes then
          bnd (printf cur d (cstr ''%02x '') [VWord (ucast (bytes ! (i + j)))])
            (\<lambda>(n, d). print_hex_row cur d bytes len i (Suc j) k)
        else Inl Fault
      else Inr d)"

function print_hex_rows :: "'d output_dev \<Rightarrow> 'd \<Rightarrow> u8 list \<Rightarrow> nat \<Rightarrow> nat \<Rightarrow> 'd res" where
  "print_hex_rows cur d bytes len i =
     (if i < len then
        bnd (print_hex_row cur d bytes len i 0 PRINTHEX_ROWSZ) (\<lambda>d.
        bnd (printf cur d [10, 0] []) (\<lambda>(n, d).
          print_hex_rows cur d bytes len (i + PRINTHEX_ROWSZ)))
      else Inr d)"
  by pat_completeness auto
termination by (relation "measure (\<lambda>(cur, d, bytes, len, i). len - i)") (auto simp: PRINTHEX_ROWSZ_def)

declare print_hex_rows.simps [simp del]

definition print_hex :: "'d output_dev \<Rightarrow> 'd \<Rightarrow> u8 list \<Rightarrow> nat \<Rightarrow> 'd res" where
  "print_hex cur d data len = print_hex_rows cur d data len 0"

text \<open>The handle \<open>vga_init\<close> fills in, with the position of the spinner beside the driver's state.\<close>

definition vga_output :: "bool \<Rightarrow> (vga_state \<times> u32) output_hand" where
  "vga_output statusbar =
     \<lparr>oh_write = \<lambda>(s, sp) data sz. bnd (vga_write s data sz) (\<lambda>(n, s). Inr (n, (s, sp))),
      oh_status = if statusbar then Some (\<lambda>(s, sp) str. bnd (vga_status s str) (\<lambda>s. Inr (s, sp))) else None,
      oh_working = if statusbar then Some (\<lambda>(s, sp) st. vga_working s sp st) else None\<rparr>"

section \<open>Numbers as digits\<close>

function digits_rev :: "nat \<Rightarrow> nat \<Rightarrow> nat list" where
  "digits_rev b n = (if 2 \<le> b \<and> 0 < n then n mod b # digits_rev b (n div b) else [])"
  by pat_completeness auto
termination by (relation "measure snd") auto

declare digits_rev.simps [simp del]

text \<open>The digits of a number, the highest first; \<open>[0]\<close> for zero.\<close>

definition digits :: "nat \<Rightarrow> nat \<Rightarrow> nat list" where
  "digits b n = (if n = 0 then [0] else rev (digits_rev b n))"

lemma digits_rev_0 [simp]: "digits_rev b 0 = []"
  by (simp add: digits_rev.simps)

lemma digits_rev_less: "2 \<le> b \<Longrightarrow> d \<in> set (digits_rev b n) \<Longrightarrow> d < b"
proof (induction b n rule: digits_rev.induct)
  case (1 b n)
  then show ?case by (cases "0 < n") (auto simp: digits_rev.simps [of b n])
qed

lemma horner_digits: "2 \<le> b \<Longrightarrow> horner b 0 (rev (digits_rev b n)) = n"
proof (induction b n rule: digits_rev.induct)
  case (1 b n)
  then show ?case by (cases "0 < n") (auto simp: digits_rev.simps [of b n] horner_def)
qed

lemma last_digits_rev: "2 \<le> b \<Longrightarrow> 0 < n \<Longrightarrow> digits_rev b n \<noteq> [] \<and> last (digits_rev b n) \<noteq> 0"
proof (induction b n rule: digits_rev.induct)
  case (1 b n)
  show ?case
  proof (cases "n div b = 0")
    case True
    then have "n < b" using 1(2) by (simp add: div_eq_0_iff)
    then show ?thesis using True 1(2,3) by (simp add: digits_rev.simps [of b n])
  next
    case False
    then have "0 < n div b" by simp
    then show ?thesis using 1 by (simp add: digits_rev.simps [of b n])
  qed
qed

lemma length_digits_rev: "n < b ^ k \<Longrightarrow> length (digits_rev b n) \<le> k"
proof (induction k arbitrary: n)
  case (Suc k)
  then have "n div b < b ^ k" by (simp add: less_mult_imp_div_less mult.commute)
  with Suc.IH show ?case by (subst digits_rev.simps) simp
qed (simp add: digits_rev.simps)

lemma print_digits_spec:
  assumes "2 \<le> unat base" and "unat base \<le> length nums" and "unat num < unat base ^ k"
    and "length ans + k \<le> 25"
  shows "print_digits nums base num ans =
    Inr (ans @ map (\<lambda>d. nums ! d) (digits_rev (unat base) (unat num)))"
  using assms
proof (induction k arbitrary: num ans)
  case 0
  then have "num = 0" by (simp add: unat_eq_zero)
  then show ?case by (simp add: print_digits.simps)
next
  case (Suc k)
  show ?case
  proof (cases "num = 0")
    case True
    then show ?thesis by (simp add: print_digits.simps)
  next
    case False
    let ?b = "ucast base :: u64"
    have b: "unat ?b = unat base" by (simp add: unat_ucast_up)
    have "unat base < 256" using unsigned_less [of base] by simp
    then have "udiv64 num ?b = Inr (num div ?b, num mod ?b)"
      using Suc.prems(1) b by (intro udiv64_spec) auto
    moreover have q: "unat (num div ?b) = unat num div unat base" "unat (num mod ?b) = unat num mod unat base"
      using b by (simp_all add: unat_div_distrib unat_mod_distrib)
    moreover have m: "unat num mod unat base < unat base" using Suc.prems(1) by (intro mod_less_divisor) simp
    then have m: "unat num mod unat base < length nums" using Suc.prems(2) by linarith
    ultimately have "print_digits nums base num ans =
        print_digits nums base (num div ?b) (ans @ [nums ! (unat num mod unat base)])"
      using False Suc.prems(4) by (subst print_digits.simps) simp
    also have "\<dots> = Inr ((ans @ [nums ! (unat num mod unat base)]) @
        map (\<lambda>d. nums ! d) (digits_rev (unat base) (unat (num div ?b))))"
    proof (rule Suc.IH [OF Suc.prems(1,2)])
      show "unat (num div ?b) < unat base ^ k"
        using Suc.prems(3) by (simp add: q less_mult_imp_div_less mult.commute)
    qed (use Suc.prems(4) in simp)
    also have "\<dots> = Inr (ans @ map (\<lambda>d. nums ! d) (digits_rev (unat base) (unat num)))"
      using False Suc.prems(1) q(1) by (simp add: digits_rev.simps [of _ "unat num"] unat_gt_0)
    finally show ?thesis .
  qed
qed

lemma sint_uint_64: "sint (w :: u64) = uint w - (if bit w 63 then 2 ^ 64 else 0)"
proof -
  have "sint w = signed_take_bit 63 (uint w)" by (simp add: sint_uint)
  also have "\<dots> = take_bit 64 (uint w) - 2 ^ 64 * of_bool (bit (uint w) 63)"
    using signed_take_bit_eq_take_bit_minus [of 63 "uint w"] by simp
  also have "take_bit 64 (uint w) = uint w"
    using unsigned_less [of w, where ?'a = int] by (intro take_bit_int_eq_self) (auto simp del: unsigned_less)
  finally show ?thesis by (simp add: bit_uint_iff)
qed

lemma print_int_negative:
  "(num :: u64) AND push_bit 63 1 \<noteq> 0 \<longleftrightarrow> sint num < 0"
  "sint num < 0 \<Longrightarrow> unat (NOT num + 1) = nat (- sint num)"
  "\<not> sint num < 0 \<Longrightarrow> unat num = nat (sint num)"
proof -
  have u: "0 \<le> uint num" "uint num < 2 ^ 64" using unsigned_less [of num, where ?'a = int] by auto
  have b: "sint num < 0 \<longleftrightarrow> bit num 63" using sint_uint_64 [of num] u by auto
  have "num AND push_bit 63 1 \<noteq> 0 \<longleftrightarrow> bit num 63"
    by (simp only: bit_iff_and_push_bit_not_eq_0)
  then show "num AND push_bit 63 1 \<noteq> 0 \<longleftrightarrow> sint num < 0" using b by simp
  show "unat (NOT num + 1) = nat (- sint num)" if n: "sint num < 0"
  proof -
    have "num \<noteq> 0" using n by auto
    moreover have "NOT num + 1 = - num" by (simp add: minus_eq_not_plus_1)
    moreover have "unat num \<noteq> 0" using \<open>num \<noteq> 0\<close> by (simp add: unat_eq_zero)
    ultimately have "unat (NOT num + 1) = 2 ^ 64 - unat num"
      using unat_sub_if_size [of 0 num] by (simp add: word_size)
    moreover have "- sint num = 2 ^ 64 - uint num" using n b sint_uint_64 [of num] by simp
    moreover have "nat (2 ^ 64 - uint num) = nat (2 ^ 64) - nat (uint num)"
      using u by (intro nat_diff_distrib) simp_all
    ultimately show ?thesis by simp
  qed
  show "unat num = nat (sint num)" if "\<not> sint num < 0"
    using that b sint_uint_64 [of num] by simp
qed

lemma length_print_nums [simp]: "length (print_nums flags) = 16"
  by (simp add: print_nums_def bytes_of_def)

text \<open>What \<open>_print_int\<close> writes: sign, padding and digits.\<close>

definition int_text :: "int \<Rightarrow> nat \<Rightarrow> nat \<Rightarrow> u32 \<Rightarrow> u8 list" where
  "int_text v base pad flags =
     (let ds = map (\<lambda>d. print_nums flags ! d) (digits base (nat \<bar>v\<bar>));
          sign = (if v < 0 then bytes_of ''-'' else if flags AND PRINTFLAG_POSSIGN \<noteq> 0 then bytes_of ''+''
                  else if flags AND PRINTFLAG_POSSPACE \<noteq> 0 then bytes_of '' '' else []);
          padc = (if flags AND PRINTFLAG_PADZERO \<noteq> 0 then bytes_of ''0'' else bytes_of '' '')
      in sign @ concat (replicate (pad - length ds) padc) @ ds)"

lemma print_int_text:
  assumes "base \<in> {8, 10, 16}"
  shows "print_int num base pad flags =
    Inr (int_text (if flags AND PRINTFLAG_UNSIGNED = 0 then sint num else uint num) (unat base) (unat pad) flags)"
proof -
  let ?neg = "flags AND PRINTFLAG_UNSIGNED = 0 \<and> num AND push_bit 63 1 \<noteq> 0"
  let ?v = "if flags AND PRINTFLAG_UNSIGNED = 0 then sint num else uint num"
  define m where "m = (if ?neg then NOT num + 1 else num)"
  have um: "unat m = nat \<bar>?v\<bar>" and neg: "?neg \<longleftrightarrow> ?v < 0"
  proof -
    have "nat \<bar>uint num\<bar> = unat num" by simp
    with print_int_negative [of num] show "unat m = nat \<bar>?v\<bar>" unfolding m_def by (simp only: split: if_split) simp
    show "?neg \<longleftrightarrow> ?v < 0" using print_int_negative(1) [of num] by simp
  qed
  have "unat m < 2 ^ 64" using unsigned_less [of m] by simp
  also have "(2 :: nat) ^ 64 \<le> 8 ^ 22" by simp
  also have "(8 :: nat) ^ 22 \<le> unat base ^ 22" using assms by (intro power_mono) auto
  finally have b: "unat m < unat base ^ 22" .
  have B: "2 \<le> unat base" "unat base \<le> 16" using assms by auto
  have d: "print_digits (print_nums flags) base m [] =
      Inr (map (\<lambda>d. print_nums flags ! d) (digits_rev (unat base) (nat \<bar>?v\<bar>)))"
    using print_digits_spec [OF B(1) _ b, of "print_nums flags" "[]"] B(2) unfolding um by simp
  have z: "(if map f (digits_rev B n) = [] then bytes_of ''0'' else map f (digits_rev B n)) =
      rev (map f (digits B n))" if "f 0 = of_char CHR ''0''" "2 \<le> B" for f :: "nat \<Rightarrow> u8" and B n
    using that last_digits_rev [of B n] by (auto simp: digits_def rev_map bytes_of_def)
  have f0: "print_nums flags ! 0 = of_char CHR ''0''" by (simp add: print_nums_def bytes_of_def)
  have p: "(if int a - int b > 0 then nat (int a - int b) else 0) = a - b" for a b by auto
  have m: "(if ?v < 0 then NOT num + 1 else num) = m" unfolding m_def neg ..
  show ?thesis
    unfolding print_int_def Let_def neg m d bnd_Inr z [of "\<lambda>d. print_nums flags ! d", OF f0 B(1)]
      int_text_def p rev_rev_ident length_rev ..
qed

lemma digits_props:
  assumes "2 \<le> b"
  shows "horner b 0 (digits b n) = n" "d \<in> set (digits b n) \<Longrightarrow> d < b" "digits b n \<noteq> []"
    "0 < n \<Longrightarrow> digits b n ! 0 \<noteq> 0" "n < b ^ k \<Longrightarrow> 0 < k \<Longrightarrow> length (digits b n) \<le> k"
proof -
  show "horner b 0 (digits b n) = n"
    using horner_digits [OF assms, of n] by (simp add: digits_def horner_def)
  show "d \<in> set (digits b n) \<Longrightarrow> d < b"
    using digits_rev_less [OF assms, of d n] assms by (auto simp: digits_def split: if_splits)
  show "digits b n \<noteq> []" using last_digits_rev [OF assms, of n] by (auto simp: digits_def)
  show "0 < n \<Longrightarrow> digits b n ! 0 \<noteq> 0"
    using last_digits_rev [OF assms, of n] by (auto simp: digits_def rev_nth last_conv_nth)
  show "n < b ^ k \<Longrightarrow> 0 < k \<Longrightarrow> length (digits b n) \<le> k"
    using length_digits_rev [of n b k] by (auto simp: digits_def)
qed

section \<open>The language of formats\<close>

text \<open>
  A format is a sequence of plain text, doubled percent signs and directives: modifiers (length
  and flags), a width, a precision and the conversion.
\<close>

datatype piece = Text "u8 list" | Percent | Conv "u8 list" "nat option" "nat option" u8

definition decimal :: "nat \<Rightarrow> u8 list" where
  "decimal n = map (\<lambda>d. of_nat (48 + d)) (digits 10 n)"

fun render :: "piece \<Rightarrow> u8 list" where
  "render (Text s) = s"
| "render Percent = [FMT_SPEC, FMT_SPEC]"
| "render (Conv ms w p c) =
     FMT_SPEC # ms @ (case w of None \<Rightarrow> [] | Some n \<Rightarrow> decimal n) @
     (case p of None \<Rightarrow> [] | Some n \<Rightarrow> of_char CHR ''.'' # decimal n) @ [c]"

definition conversions :: "u8 list" where "conversions = bytes_of ''udifFeEgGxXoscpaAn''"

definition modifiers :: "u8 list" where "modifiers = bytes_of ''lLhzjt+ -0''"

fun good_piece :: "piece \<Rightarrow> bool" where
  "good_piece (Text s) \<longleftrightarrow> 0 \<notin> set s \<and> FMT_SPEC \<notin> set s"
| "good_piece Percent \<longleftrightarrow> True"
| "good_piece (Conv ms w p c) \<longleftrightarrow> set ms \<subseteq> set modifiers \<and>
     (case w of None \<Rightarrow> True | Some n \<Rightarrow> 0 < n \<and> n < 256) \<and> (case p of None \<Rightarrow> True | Some n \<Rightarrow> n < 256) \<and>
     c \<in> set conversions"

definition modify :: "fmt_spec \<Rightarrow> u8 \<Rightarrow> fmt_spec" where
  "modify f m = (case fmt_modifier m f of None \<Rightarrow> f | Some f \<Rightarrow> f)"

definition directive :: "u8 list \<Rightarrow> nat option \<Rightarrow> nat option \<Rightarrow> fmt_spec" where
  "directive ms w p =
     (let f = foldl modify (fmt_spec0\<lparr>f_in_spec := True\<rparr>) ms;
          f = (case w of None \<Rightarrow> f | Some n \<Rightarrow> f\<lparr>f_width := of_nat n\<rparr>)
      in case p of None \<Rightarrow> f | Some n \<Rightarrow> f\<lparr>f_precision := of_nat n\<rparr>)"

definition convert :: "u8 \<Rightarrow> fmt_spec \<Rightarrow> va_item list \<Rightarrow> (u8 list \<times> int \<times> va_item list) res" where
  "convert c f va = (case fmt_convert c f va of None \<Rightarrow> Inr ([], 0, va) | Some r \<Rightarrow> r)"

text \<open>Each piece adds its text; the directives take their arguments in order.\<close>

fun run_pieces :: "piece list \<Rightarrow> va_item list \<Rightarrow> u8 list \<Rightarrow> int \<Rightarrow> (u8 list \<times> int) res" where
  "run_pieces [] va out n = Inr (out, n)"
| "run_pieces (Text s # ps) va out n = run_pieces ps va (out @ s) (n + int (length s))"
| "run_pieces (Percent # ps) va out n = run_pieces ps va (out @ [FMT_SPEC]) (n + 1)"
| "run_pieces (Conv ms w p c # ps) va out n =
     bnd (convert c (directive ms w p) va) (\<lambda>(s, k, va). run_pieces ps va (out @ s) (n + k))"

lemma print_loop_text:
  assumes "0 \<notin> set s" and "FMT_SPEC \<notin> set s" and "\<not> f_in_spec f"
  shows "print_loop (s @ r) va f out n = print_loop r va f (out @ s) (n + int (length s))"
  using assms
proof (induction s arbitrary: out n)
  case (Cons c s)
  then show ?case by (subst append_Cons, subst print_loop.simps) (auto simp: algebra_simps)
qed simp

lemma modifier_char:
  assumes "m \<in> set modifiers"
  shows "m \<noteq> 0" "m \<noteq> FMT_SPEC" "\<not> (sint m \<ge> 49 \<and> sint m \<le> 57)" "m \<noteq> of_char CHR ''.''"
    "\<exists>f'. fmt_modifier m f = Some f' \<and> f_in_spec f' = f_in_spec f"
proof -
  have "list_all (\<lambda>m. m \<noteq> 0 \<and> m \<noteq> FMT_SPEC \<and> \<not> (sint m \<ge> 49 \<and> sint m \<le> 57) \<and> m \<noteq> of_char CHR ''.'') modifiers"
    by code_simp
  then show "m \<noteq> 0" "m \<noteq> FMT_SPEC" "\<not> (sint m \<ge> 49 \<and> sint m \<le> 57)" "m \<noteq> of_char CHR ''.''"
    using assms by (auto simp: list_all_iff)
  show "\<exists>f'. fmt_modifier m f = Some f' \<and> f_in_spec f' = f_in_spec f"
    using assms by (auto simp: modifiers_def bytes_of_def fmt_modifier_def)
qed

lemma conversion_char:
  assumes "c \<in> set conversions"
  shows "c \<noteq> 0" "c \<noteq> FMT_SPEC" "\<not> (sint c \<ge> 49 \<and> sint c \<le> 57)" "c \<noteq> of_char CHR ''.''"
    "\<not> (sint c \<ge> 48 \<and> sint c \<le> 57)" "fmt_modifier c f = None" "\<exists>r. fmt_convert c f va = Some r"
proof -
  have "list_all (\<lambda>c. c \<noteq> 0 \<and> c \<noteq> FMT_SPEC \<and> \<not> (sint c \<ge> 48 \<and> sint c \<le> 57) \<and> c \<noteq> of_char CHR ''.'') conversions"
    by code_simp
  then show "c \<noteq> 0" "c \<noteq> FMT_SPEC" "\<not> (sint c \<ge> 49 \<and> sint c \<le> 57)" "c \<noteq> of_char CHR ''.''"
    "\<not> (sint c \<ge> 48 \<and> sint c \<le> 57)" using assms by (auto simp: list_all_iff)
  show "fmt_modifier c f = None"
    using assms by (auto simp: conversions_def bytes_of_def fmt_modifier_def)
  show "\<exists>r. fmt_convert c f va = Some r"
    using assms by (auto simp: conversions_def bytes_of_def fmt_convert_def)
qed

lemma print_loop_modifiers:
  assumes "set ms \<subseteq> set modifiers" and "f_in_spec f"
  shows "print_loop (ms @ r) va f out n = print_loop r va (foldl modify f ms) out n \<and>
    f_in_spec (foldl modify f ms)"
  using assms
proof (induction ms arbitrary: f)
  case (Cons m ms)
  then have m: "m \<in> set modifiers" by simp
  obtain f' where f': "fmt_modifier m f = Some f'" "f_in_spec f' = f_in_spec f"
    using modifier_char(5) [OF m] by blast
  have "print_loop ((m # ms) @ r) va f out n = print_loop (ms @ r) va f' out n"
    using modifier_char [OF m] f' Cons.prems by (subst append_Cons, subst print_loop.simps) auto
  with Cons.IH [of f'] Cons.prems f' show ?case by (simp add: modify_def)
qed simp

lemma get_dec_decimal:
  assumes "n < 256" and "\<not> (sint c \<ge> 48 \<and> sint c \<le> 57)"
  shows "get_dec (decimal n @ c # r) = Inr (int n, c # r)"
proof -
  have G: "get_dec_from (int m) (map (\<lambda>d. of_nat (48 + d)) ds @ c # r) = Inr (int (horner 10 m ds), c # r)"
    if "\<forall>d \<in> set ds. d < 10" "horner 10 m ds < 256" for m ds
    using that
  proof (induction ds arbitrary: m)
    case Nil
    then show ?case using assms(2) by (auto simp: horner_def)
  next
    case (Cons d ds)
    have s: "sint (of_nat (48 + d) :: u8) = 48 + int d"
      using Cons.prems(1) sint_of_nat_u8 [of "48 + d"] by simp
    have mono: "m' \<le> horner 10 m' ds" for m' :: nat
    proof (induction ds arbitrary: m')
      case (Cons a ds)
      have "m' \<le> m' * 10 + a" by simp
      also have "\<dots> \<le> horner 10 (m' * 10 + a) ds" by (rule Cons.IH)
      finally show ?case by (simp add: horner_def)
    qed (simp add: horner_def)
    have h: "horner 10 m (d # ds) = horner 10 (m * 10 + d) ds" by (simp add: horner_def)
    have "m * 10 + d < 256" using mono [of "m * 10 + d"] Cons.prems(2) h by linarith
    with Cons.IH [of "m * 10 + d"] Cons.prems h s show ?case by (simp add: Let_def)
  qed
  show ?thesis
    using G [of "digits 10 n" 0] digits_props(1) [of 10 n] digits_props(2) [of 10 _ n] assms(1)
    by (simp add: get_dec_def decimal_def)
qed

lemma decimal_Cons:
  assumes "0 < n"
  shows "\<exists>c s. decimal n = c # s \<and> sint c \<ge> 49 \<and> sint c \<le> 57"
proof -
  obtain d ds where d: "digits 10 n = d # ds" using digits_props(3) [of 10 n] by (cases "digits 10 n") auto
  have "d < 10" "d \<noteq> 0"
    using digits_props(2) [of 10 d n] digits_props(4) [of 10 n] d assms by simp_all
  moreover from this have "sint (of_nat (48 + d) :: u8) = 48 + int d" by (intro trans [OF sint_of_nat_u8]) auto
  ultimately show ?thesis using d by (simp add: decimal_def)
qed

lemma print_loop_piece:
  assumes "good_piece p"
  shows "print_loop (render p @ r) va fmt_spec0 out n =
    bnd (case p of Text s \<Rightarrow> Inr (s, int (length s), va) | Percent \<Rightarrow> Inr ([FMT_SPEC], 1, va)
         | Conv ms w p c \<Rightarrow> convert c (directive ms w p) va)
      (\<lambda>(s, k, va). print_loop r va fmt_spec0 (out @ s) (n + k))"
proof (cases p)
  case (Text s)
  then show ?thesis using assms print_loop_text [of s fmt_spec0] by (simp add: fmt_spec0_def)
next
  case Percent
  have "FMT_SPEC \<noteq> 0" by (simp add: FMT_SPEC_def)
  then show ?thesis using Percent by (simp add: print_loop.simps fmt_spec0_def)
next
  case (Conv ms w pr c)
  let ?f0 = "fmt_spec0\<lparr>f_in_spec := True\<rparr>"
  let ?P = "case pr of None \<Rightarrow> [] | Some n \<Rightarrow> of_char CHR ''.'' # decimal n"
  let ?W = "case w of None \<Rightarrow> [] | Some n \<Rightarrow> decimal n"
  have g: "set ms \<subseteq> set modifiers" "case w of None \<Rightarrow> True | Some n \<Rightarrow> 0 < n \<and> n < 256"
    "case pr of None \<Rightarrow> True | Some n \<Rightarrow> n < 256" "c \<in> set conversions"
    using assms Conv by simp_all
  note cc = conversion_char [OF g(4)]
  have ne: "FMT_SPEC \<noteq> 0" by (simp add: FMT_SPEC_def)
  define f1 where "f1 = foldl modify ?f0 ms"
  define f2 where "f2 = (case w of None \<Rightarrow> f1 | Some n \<Rightarrow> f1\<lparr>f_width := of_nat n\<rparr>)"
  define f3 where "f3 = (case pr of None \<Rightarrow> f2 | Some n \<Rightarrow> f2\<lparr>f_precision := of_nat n\<rparr>)"
  have s0: "print_loop (render p @ r) va fmt_spec0 out n = print_loop (ms @ ?W @ ?P @ c # r) va ?f0 out n"
    using Conv ne by (simp add: print_loop.simps fmt_spec0_def)
  have s1: "print_loop (ms @ ?W @ ?P @ c # r) va ?f0 out n = print_loop (?W @ ?P @ c # r) va f1 out n"
    and i1: "f_in_spec f1"
    using print_loop_modifiers [OF g(1), of ?f0 "?W @ ?P @ c # r" va out n] by (simp_all add: f1_def)
  have cast: "ucast (of_int (int k) :: u8) = (of_nat k :: u32)" if "k < 256" for k
    using that by (simp add: word_unat_eq_iff unat_ucast_up unsigned_of_nat take_bit_nat_eq_self)
  have dot: "of_char CHR ''.'' \<noteq> (0 :: u8)" "of_char CHR ''.'' \<noteq> FMT_SPEC"
    "\<not> (sint (of_char CHR ''.'' :: u8) \<ge> 48 \<and> sint (of_char CHR ''.'' :: u8) \<le> 57)"
    by (simp_all add: FMT_SPEC_def)
  obtain x xs where X: "?P @ c # r = x # xs" "\<not> (sint x \<ge> 48 \<and> sint x \<le> 57)"
    using cc(5) dot(3) by (cases pr) auto
  have s2: "print_loop (?W @ ?P @ c # r) va f1 out n = print_loop (?P @ c # r) va f2 out n"
  proof (cases w)
    case (Some k)
    with g(2) have k: "0 < k" "k < 256" by auto
    from decimal_Cons [OF k(1)] obtain y ys where y: "decimal k = y # ys" "sint y \<ge> 49 \<and> sint y \<le> 57" by blast
    have "y \<noteq> 0" "y \<noteq> FMT_SPEC" using y(2) by (auto simp: FMT_SPEC_def)
    moreover have "get_dec (y # ys @ x # xs) = Inr (int k, x # xs)"
      using get_dec_decimal [OF k(2) X(2), of xs] y(1) by simp
    ultimately have "print_loop (y # ys @ x # xs) va f1 out n =
        print_loop (x # xs) va (f1\<lparr>f_width := of_nat k\<rparr>) out n"
      using i1 y(2) cast [OF k(2)] by (subst print_loop.simps) simp
    then show ?thesis using Some y(1) X(1) by (simp add: f2_def)
  qed (simp add: f2_def)
  have i2: "f_in_spec f2" using i1 by (simp add: f2_def split: option.splits)
  have s3: "print_loop (?P @ c # r) va f2 out n = print_loop (c # r) va f3 out n"
  proof (cases pr)
    case (Some k)
    with g(3) have k: "k < 256" by auto
    have "print_loop (of_char CHR ''.'' # decimal k @ c # r) va f2 out n =
        print_loop (c # r) va (f2\<lparr>f_precision := of_nat k\<rparr>) out n"
      using i2 dot cast [OF k] get_dec_decimal [OF k cc(5), of r] by (subst print_loop.simps) simp
    then show ?thesis using Some by (simp add: f3_def)
  qed (simp add: f3_def)
  have i3: "f_in_spec f3" using i2 by (simp add: f3_def split: option.splits)
  obtain q where q: "fmt_convert c f3 va = Some q" using cc(7) by blast
  have "print_loop (c # r) va f3 out n =
      bnd q (\<lambda>(s, k, va). print_loop r va fmt_spec0 (out @ s) (n + k))"
    using cc(1-4,6) i3 q by (subst print_loop.simps) auto
  moreover have "f3 = directive ms w pr"
    unfolding directive_def f3_def f2_def f1_def Let_def ..
  ultimately show ?thesis using Conv s0 s1 s2 s3 q by (simp add: convert_def)
qed

lemma print_loop_pieces:
  assumes "list_all good_piece ps"
  shows "print_loop (concat (map render ps) @ 0 # r) va fmt_spec0 out n = run_pieces ps va out n"
  using assms
proof (induction ps arbitrary: va out n)
  case Nil
  then show ?case by (simp add: print_loop.simps)
next
  case (Cons p ps)
  then show ?case
    using print_loop_piece [of p "concat (map render ps) @ 0 # r" va out n] by (cases p) simp_all
qed

lemma int_text_digits:
  assumes "2 \<le> base" and "base \<le> 16"
  shows "length (int_text v base pad flags) \<le> 1 + max pad (length (digits base (nat \<bar>v\<bar>)))"
proof -
  have c: "length (concat (replicate n (bytes_of [ch]))) = n" for n ch
    by (induction n) (auto simp: bytes_of_def)
  show "length (int_text v base pad flags) \<le> 1 + max pad (length (digits base (nat \<bar>v\<bar>)))"
    using c by (auto simp: int_text_def Let_def bytes_of_def)
qed

lemma print_int_length:
  assumes "base \<in> {8, 10, 16}" and "print_int num base pad flags = Inr out"
  shows "length out \<le> 1 + max (unat pad) 22"
proof -
  let ?v = "if flags AND PRINTFLAG_UNSIGNED = 0 then sint num else uint num"
  have B: "2 \<le> unat base" "unat base \<le> 16" "8 \<le> unat base" using assms(1) by auto
  have "\<bar>?v\<bar> < 2 ^ 64"
    using unsigned_less [of num, where ?'a = int] sint_greater_eq [of num] sint_less [of num]
    by (auto simp: abs_if)
  then have "nat \<bar>?v\<bar> < 2 ^ 64" by (simp add: nat_less_iff)
  also have "(2 :: nat) ^ 64 \<le> 8 ^ 22" by simp
  also have "(8 :: nat) ^ 22 \<le> unat base ^ 22" using B by (intro power_mono) auto
  finally have "length (digits (unat base) (nat \<bar>?v\<bar>)) \<le> 22" by (rule digits_props(5) [OF B(1)]) simp
  with int_text_digits(1) [OF B(1,2), of ?v "unat pad" flags] print_int_text [OF assms(1), of num pad flags] assms(2)
  show ?thesis by auto
qed

text \<open>The value an integer directive prints for an argument word, by its length modifier.\<close>

definition is_signed :: "u8 \<Rightarrow> bool" where
  "is_signed c \<longleftrightarrow> c = of_char CHR ''d'' \<or> c = of_char CHR ''i''"

definition arg_value :: "u8 \<Rightarrow> int \<Rightarrow> u32 \<Rightarrow> int" where
  "arg_value c sz w =
     (if is_signed c then
        if sz = -2 then sint (ucast w :: u8) else if sz = -1 then sint (ucast w :: u16) else sint w
      else if sz = -2 then uint (ucast w :: u8) else if sz = -1 then uint (ucast w :: u16) else uint w)"

definition conv_base :: "u8 \<Rightarrow> u8" where
  "conv_base c =
     (if c \<in> {of_char CHR ''u'', of_char CHR ''d'', of_char CHR ''i''} then 10
      else if c = of_char CHR ''o'' then 8 else 16)"

lemma masks: "(0xFF :: u32) = mask 8" "(0xFFFF :: u32) = mask 16" "(0xFFFFFFFF :: u32) = mask 32"
  by (simp_all add: mask_eq_exp_minus_1)

lemma low_bits:
  "(ucast (w AND 0xFF) :: u64) = ucast (ucast w :: u8)"
  "(ucast (w AND 0xFFFF) :: u64) = ucast (ucast w :: u16)"
  "(w :: u32) AND 0xFFFFFFFF = w"
  unfolding masks by (rule bit_word_eqI; auto simp: bit_simps)+

lemma wide_values:
  "uint (ucast (b :: u8) :: u64) = uint b" "uint (ucast (h :: u16) :: u64) = uint h"
  "uint (ucast (w :: u32) :: u64) = uint w"
  "sint (scast b :: u64) = sint b" "sint (scast h :: u64) = sint h" "sint (scast w :: u64) = sint w"
  "(ucast (ucast b :: u64) :: u8) = b" "(ucast (ucast h :: u64) :: u16) = h" "(ucast (ucast w :: u64) :: u32) = w"
  by (simp_all add: uint_up_ucast sint_up_scast is_up source_size target_size) (rule bit_word_eqI; auto simp: bit_simps)+

lemma fmt_integer_word:
  assumes "f_size f \<in> {-2, -1, 0}" and "f_flags f AND PRINTFLAG_UNSIGNED = 0" and "base \<in> {8, 10, 16}"
    and "flags = (if is_signed c then f_flags f else f_flags f OR PRINTFLAG_UNSIGNED)"
    and "flags' = (if c = of_char CHR ''X'' then flags OR PRINTFLAG_UPPERCASE else flags)"
    and "width = (if c = of_char CHR ''p'' \<and> f_width f = 0 then 8 else f_width f)"
  shows "fmt_integer c base f (VWord w # va) =
    (let t = int_text (arg_value c (f_size f) w) (unat base) (unat (ucast width :: u8)) flags'
     in Inr (t, int (length t), va))"
proof -
  define arg where "arg = (if f_size f = -2 then ucast (ucast w :: u8) else if f_size f = -1
    then ucast (ucast w :: u16) else ucast w :: u64)"
  have g: "get_arg (VWord w # va) (f_size f) = Inr (arg, va)"
    using assms(1) by (auto simp: get_arg_def arg_def low_bits)
  define arg' where "arg' = (if is_signed c then sign_extend arg (f_size f) else arg)"
  have u: "PRINTFLAG_UNSIGNED \<noteq> 0" "PRINTFLAG_UNSIGNED AND PRINTFLAG_UNSIGNED = PRINTFLAG_UNSIGNED"
    "PRINTFLAG_UPPERCASE AND PRINTFLAG_UNSIGNED = 0"
    by (simp_all add: PRINTFLAG_UNSIGNED_def PRINTFLAG_UPPERCASE_def)
  have fl: "flags' AND PRINTFLAG_UNSIGNED = 0 \<longleftrightarrow> is_signed c"
    using assms(2) u unfolding assms(4,5)
    by (simp add: bit.conj_disj_distrib2)
  have v: "(if flags' AND PRINTFLAG_UNSIGNED = 0 then sint arg' else uint arg') = arg_value c (f_size f) w"
    using assms(1) unfolding fl arg'_def arg_def arg_value_def sign_extend_def
    by (auto simp: wide_values)
  have "fmt_integer c base f (VWord w # va) = bnd (print_int arg' base (ucast width) flags')
     (\<lambda>out. Inr (out, int (length out), va))"
    unfolding fmt_integer_def g assms(4,5,6) arg'_def by (simp add: Let_def is_signed_def)
  then show ?thesis unfolding print_int_text [OF assms(3)] v by (simp add: Let_def)
qed

lemma int_text_unsigned: "int_text v base pad (flags OR PRINTFLAG_UNSIGNED) = int_text v base pad flags"
proof -
  have "PRINTFLAG_UNSIGNED AND PRINTFLAG_POSSIGN = 0" "PRINTFLAG_UNSIGNED AND PRINTFLAG_POSSPACE = 0"
    "PRINTFLAG_UNSIGNED AND PRINTFLAG_PADZERO = 0" "PRINTFLAG_UNSIGNED AND PRINTFLAG_UPPERCASE = 0"
    by (simp_all add: PRINTFLAG_UNSIGNED_def PRINTFLAG_POSSIGN_def PRINTFLAG_POSSPACE_def
        PRINTFLAG_PADZERO_def PRINTFLAG_UPPERCASE_def)
  then show ?thesis by (simp add: int_text_def print_nums_def bit.conj_disj_distrib2)
qed

section \<open>Properties\<close>

text \<open>
  C25: The shift-and-subtract division gives quotient and remainder of 64-bit numbers whenever the
  divisor has at most 32 bits or the dividend has more, so for every base the printer uses.
\<close>

theorem udiv64_divides:
  assumes "b \<noteq> 0" and "unat b < 2 ^ 32 \<or> 2 ^ 32 \<le> unat a"
  shows "udiv64 a b = Inr (a div b, a mod b)"
  by (rule udiv64_spec [OF assms])

theorem udiv64_divides_witness: "udiv64 1099511627783 10 = Inr (109951162778, 3)"
  using udiv64_divides [of 10 1099511627783] by simp

text \<open>
  C22: A format is interpreted piece by piece: text is copied, a doubled percent sign is one, and
  a directive with any length modifiers and flags, a width and a precision below 256 makes its
  conversion of the next arguments; no state is left over from one directive to the next, and
  nothing behind the terminator is read.
\<close>

theorem print_formats:
  assumes "list_all good_piece ps"
  shows "print (concat (map render ps) @ 0 # r) va = run_pieces ps va [] 0"
  unfolding print_def by (rule print_loop_pieces [OF assms])

theorem print_formats_witness:
  "print (bytes_of ''a%%%+08d%.2s'' @ [0, 9]) [VWord (-17), VPtr 1 (cstr ''xyz'')] =
     Inr (bytes_of ''a%-00000017xy'', 14)"
proof -
  let ?ps = "[Text (bytes_of ''a''), Percent, Conv (bytes_of ''+0'') (Some 8) None (of_char CHR ''d''),
    Conv [] None (Some 2) (of_char CHR ''s'')]"
  have g: "list_all good_piece ?ps"
    by (simp add: bytes_of_def FMT_SPEC_def modifiers_def conversions_def)
  have "concat (map render ?ps) = bytes_of ''a%%%+08d%.2s''"
    by (simp add: bytes_of_def decimal_def digits_def digits_rev.simps FMT_SPEC_def)
  moreover have "run_pieces ?ps [VWord (-17), VPtr 1 (cstr ''xyz'')] [] 0 =
      Inr (bytes_of ''a%-00000017xy'', 14)"
    by code_simp
  ultimately show ?thesis using print_formats [OF g, of "[9]" "[VWord (-17), VPtr 1 (cstr ''xyz'')]"] by simp
qed

text \<open>
  C23: The integer directives with up to two \<open>h\<close> print the low 8, 16 or all 32 bits of their
  argument, two's complement for \<open>d\<close> and \<open>i\<close> and unsigned for the others, with the digits of its
  absolute value in base 10, 16 or 8 and no leading zero, behind the sign and the padding up to
  the width.
\<close>

theorem print_integers:
  assumes "c \<in> set (bytes_of ''udixXop'')" and "f_size f \<in> {-2, -1, 0}"
    and "f_flags f AND PRINTFLAG_UNSIGNED = 0"
  shows "let v = arg_value c (f_size f) w; base = unat (conv_base c);
      pad = unat (ucast (if c = of_char CHR ''p'' \<and> f_width f = 0 then 8 else f_width f) :: u8);
      t = int_text v base pad (if c = of_char CHR ''X'' then f_flags f OR PRINTFLAG_UPPERCASE else f_flags f);
      ds = digits base (nat \<bar>v\<bar>)
    in fmt_convert c f (VWord w # va) = Some (Inr (t, int (length t), va)) \<and>
       horner base 0 ds = nat \<bar>v\<bar> \<and> list_all (\<lambda>d. d < base) ds \<and> (ds = [0] \<or> ds ! 0 \<noteq> 0)"
proof -
  have B: "conv_base c \<in> {8, 10, 16}" "2 \<le> unat (conv_base c)" by (auto simp: conv_base_def)
  have k: "fmt_convert c f (VWord w # va) = Some (fmt_integer c (conv_base c) f (VWord w # va))"
    using assms(1) by (auto simp: fmt_convert_def conv_base_def bytes_of_def)
  have "digits (unat (conv_base c)) n = [0] \<or> digits (unat (conv_base c)) n ! 0 \<noteq> 0" for n
    using digits_props(4) [OF B(2), of n] by (cases "n = 0") (auto simp: digits_def)
  moreover have "PRINTFLAG_UNSIGNED OR PRINTFLAG_UPPERCASE = PRINTFLAG_UPPERCASE OR PRINTFLAG_UNSIGNED"
    by (rule or.commute)
  then have "(flags OR PRINTFLAG_UNSIGNED) OR PRINTFLAG_UPPERCASE =
      (flags OR PRINTFLAG_UPPERCASE) OR PRINTFLAG_UNSIGNED" for flags by (simp only: or.assoc)
  ultimately show ?thesis
    using digits_props(1,2) [OF B(2)] int_text_unsigned
    unfolding k fmt_integer_word [OF assms(2,3) B(1) refl refl refl]
    by (auto simp: Let_def list_all_iff)
qed

theorem print_integers_witness:
  "fmt_convert (of_char CHR ''d'') fmt_spec0 [VWord (-17)] = Some (Inr (bytes_of ''-17'', 3, []))"
proof -
  have "int_text (-17) 10 0 0 = bytes_of ''-17''"
    by (simp add: int_text_def digits_def digits_rev.simps print_nums_def bytes_of_def)
  then show ?thesis
    using print_integers [of "of_char CHR ''d''" fmt_spec0 "-17" "[]"]
    by (simp add: bytes_of_def fmt_spec0_def arg_value_def is_signed_def conv_base_def Let_def)
qed

text \<open>
  C24: No integer directive writes more than 256 characters, whatever the number, the width and
  the flags, and \<open>_print_int\<close> never leaves its 25-character buffer.
\<close>

theorem print_int_bounded:
  assumes "base \<in> {8, 10, 16}"
  shows "\<exists>out. print_int num base pad flags = Inr out \<and> length out \<le> 256 \<and> unat pad \<le> length out"
proof -
  obtain out where out: "print_int num base pad flags = Inr out"
    using print_int_text [OF assms] by blast
  have "unat pad < 256" using unsigned_less [of pad] by simp
  with print_int_length [OF assms out] have "length out \<le> 256" by simp
  moreover have "length (concat (replicate n (bytes_of [ch]))) = n" for n ch
    by (induction n) (auto simp: bytes_of_def)
  then have "unat pad \<le> length out"
    using out print_int_text [OF assms, of num pad flags] by (auto simp: int_text_def Let_def)
  ultimately show ?thesis using out by blast
qed

theorem print_int_bounded_witness:
  "\<exists>out. print_int (-1) 8 255 PRINTFLAG_POSSIGN = Inr out \<and> length out \<le> 256 \<and> 255 \<le> length out"
  using print_int_bounded [of 8 "-1" 255 PRINTFLAG_POSSIGN] by simp



text \<open>Limits of the printer: a \<open>long\<close> printed unsigned is first sign-extended to 64 bits.\<close>

lemma print_long_unsigned:
  "print (cstr ''%lu'') [VWord 0x80000000] = Inr (bytes_of ''18446744071562067968'', 20)"
  by code_simp

lemma print_left_align_ignored: "print (cstr ''%-4u'') [VWord 7] = Inr (bytes_of ''   7'', 4)"
  by code_simp

lemma print_precision_count: "print (cstr ''%.2s'') [VPtr 1 (cstr ''xyz'')] = Inr (bytes_of ''xy'', 3)"
  by code_simp

end
