(* ===== verification/Files.thy ===== *)
theory Files
  imports Fat_Facts Config
begin

text \<open>
  Opening a file: the path resolution of \<^verbatim>\<open>src/storage/fs/fs.c\<close>, \<^verbatim>\<open>src/storage/file.c\<close> and the
  loading of the configuration of \<^verbatim>\<open>src/config/config.c\<close>. The operations of a file system and its
  files are function pointers in the code and arguments here; the state they work on is their
  private data and the machine. The locale \<open>lookup_by_name\<close> is what the path resolution relies on;
  it is interpreted by the FAT file system.
\<close>

unbundle bit_operations_syntax

section \<open>Path resolution\<close>

type_synonym ('x, 'd) fstate = "'x \<times> 'd world"

text \<open>\<open>fs->find\<close>, with the handle it fills in, and the \<open>close\<close> and \<open>read\<close> of a file.\<close>

type_synonym ('x, 'd) find_op =
  "file_hand option \<Rightarrow> u8 list \<Rightarrow> ('x, 'd) fstate \<Rightarrow> (int \<times> file_hand option \<times> ('x, 'd) fstate) res"

type_synonym ('x, 'd) close_op = "file_hand \<Rightarrow> ('x, 'd) fstate \<Rightarrow> (int \<times> ('x, 'd) fstate) res"

type_synonym ('x, 'd) read_op =
  "file_hand \<Rightarrow> u32 \<Rightarrow> u32 \<Rightarrow> u32 \<Rightarrow> ('x, 'd) fstate \<Rightarrow> (u32 \<times> ('x, 'd) fstate) res"

definition FS_PATHSEP :: u8 where "FS_PATHSEP = of_char CHR ''/''"

text \<open>\<open>if((dir == &tdir1) && (tdir1.close)) tdir1.close(&tdir1)\<close>.\<close>

definition close_own ::
  "('x, 'd) close_op \<Rightarrow> bool \<Rightarrow> file_hand option \<Rightarrow> ('x, 'd) fstate \<Rightarrow> ('x, 'd) fstate res" where
  "close_own cls own dir s =
     (case dir of
        Some d \<Rightarrow> if own then bnd (cls d s) (\<lambda>(r, s). Inr s) else Inr s
      | None \<Rightarrow> Inr s)"

text \<open>
  The loop of \<open>fs_findfile\<close> over the copy \<open>p\<close> of the path, from its index \<open>i\<close> on; \<open>own\<close> is
  \<open>dir == &tdir1\<close>. The result is whether it ended without \<open>goto\<close>, and the file, if it was set.
\<close>

function findfile_loop ::
  "('x, 'd) find_op \<Rightarrow> ('x, 'd) close_op \<Rightarrow> bool \<Rightarrow> file_hand option \<Rightarrow> u8 list \<Rightarrow> nat
     \<Rightarrow> ('x, 'd) fstate \<Rightarrow> (bool \<times> file_hand option \<times> ('x, 'd) fstate) res" where
  "findfile_loop fnd cls own dir p i s =
     (if i < length p then
        if p ! i = 0 then bnd (close_own cls own dir s) (\<lambda>s. Inr (True, None, s))
        else
          bnd (strchr_at p i FS_PATHSEP) (\<lambda>sep.
          case sep of
            Some j \<Rightarrow>
              bnd (fnd dir (drop i (p[j := 0])) s) (\<lambda>(r, f, s).
              if r \<noteq> 0 then Inr (False, None, s)
              else case f of
                  None \<Rightarrow> Inl Fault
                | Some f \<Rightarrow>
                    if fh_attr f AND FS_FILEATTR_DIRECTORY = 0 then Inr (False, None, s)
                    else bnd (close_own cls own dir s) (\<lambda>s.
                      if i \<le> j then findfile_loop fnd cls True (Some f) (p[j := 0]) (Suc j) s
                      else Inl Fault))
          | None \<Rightarrow>
              bnd (fnd dir (drop i p) s) (\<lambda>(r, f, s).
              if r \<noteq> 0 then Inr (False, None, s)
              else bnd (close_own cls own dir s) (\<lambda>s. Inr (True, f, s))))
      else Inl Fault)"
  by pat_completeness auto
termination by (relation "measure (\<lambda>(fnd, cls, own, dir, p, i, s). length p - i)") auto

declare findfile_loop.simps [simp del]

definition fs_findfile ::
  "('x, 'd) find_op \<Rightarrow> ('x, 'd) close_op \<Rightarrow> file_hand option \<Rightarrow> u8 list
     \<Rightarrow> ('x, 'd) fstate \<Rightarrow> (int \<times> file_hand option \<times> ('x, 'd) fstate) res" where
  "fs_findfile fnd cls dir path s =
     (if path = [] then Inl Fault
      else
        let root = (hd path = FS_PATHSEP);
            dir = (if root then None else dir);
            path = (if root then tl path else path)
        in bnd (strlen path) (\<lambda>n.
           if n = 0 then Inr (-1, None, s)
           else
             bnd (strdup (w_mem (snd s)) (w_heap (snd s)) path) (\<lambda>(a, p, h).
             bnd (findfile_loop fnd cls False dir p 0 (fst s, (snd s)\<lparr>w_heap := h\<rparr>)) (\<lambda>(ok, f, x, w).
               if ok then Inr (0, f, x, w)
               else bnd (wfree a w) (\<lambda>w. Inr (-1, None, x, w))))))"

text \<open>
  \<open>file_open\<close>: \<open>uri\<close> is the protocol branch, \<open>None\<close> without \<^verbatim>\<open>CONFIG_PROTOCOL\<close>, and \<open>fs\<close> the
  default file system, \<open>None\<close> before \<open>file_set_default_fs\<close>.
\<close>

definition file_open ::
  "(u8 list \<Rightarrow> ('x, 'd) fstate \<Rightarrow> (int \<times> file_hand option \<times> ('x, 'd) fstate) res) option
     \<Rightarrow> (('x, 'd) find_op \<times> ('x, 'd) close_op) option \<Rightarrow> u8 list \<Rightarrow> ('x, 'd) fstate
     \<Rightarrow> (int \<times> file_hand option \<times> ('x, 'd) fstate) res" where
  "file_open uri fs path s =
     bnd (case uri of None \<Rightarrow> Inr None | Some _ \<Rightarrow> strchr path (of_char CHR '':'')) (\<lambda>colon.
       case (colon, uri) of
         (Some _, Some open_uri) \<Rightarrow> open_uri path s
       | _ \<Rightarrow>
           (case fs of
              Some (fnd, cls) \<Rightarrow>
                bnd (fs_findfile fnd cls None path s) (\<lambda>(r, f, s).
                  if r \<noteq> 0 then Inr (-1, None, s) else Inr (0, f, s))
            | None \<Rightarrow> Inr (-1, None, s)))"

text \<open>\<open>file_set_default_fs\<close>: the new value of \<open>_default_fs\<close>.\<close>

definition file_set_default_fs :: "'f option \<Rightarrow> 'f option" where
  "file_set_default_fs fs = fs"

section \<open>Loading the configuration\<close>

text \<open>
  \<open>slack\<close> is how many bytes behind the buffer may be read: the parser stops at a terminator,
  which the file need not have.
\<close>

definition config_load ::
  "nat \<Rightarrow> (u8 list \<Rightarrow> ('x, 'd) fstate \<Rightarrow> (int \<times> file_hand option \<times> ('x, 'd) fstate) res)
     \<Rightarrow> ('x, 'd) read_op \<Rightarrow> config_data \<Rightarrow> u8 list \<Rightarrow> ('x, 'd) fstate
     \<Rightarrow> (int \<times> config_data \<times> ('x, 'd) fstate) res" where
  "config_load slack fopen read cfg path s =
     bnd (fopen path s) (\<lambda>(r, f, x, w).
     if r \<noteq> 0 then Inr (-1, cfg, x, w)
     else case f of
         None \<Rightarrow> Inl Fault
       | Some f \<Rightarrow>
           bnd (walloc (fh_size f) 0 w) (\<lambda>(cfgdata, w).
           bnd (read f cfgdata (fh_size f) 0 (x, w)) (\<lambda>(n, x, w).
           if n \<noteq> fh_size f then Inr (-1, cfg, x, w)
           else
             bnd (config_parse (w_mem w) config_data0 (w_heap w)
                    (mem_get (w_mem w) cfgdata (unat (fh_size f) + slack))) (\<lambda>(r, cfg, h).
             bnd (wfree cfgdata (w\<lparr>w_heap := h\<rparr>)) (\<lambda>w.
               Inr (if r \<noteq> 0 then -1 else 0, cfg, x, w))))))"

section \<open>Names and components\<close>

text \<open>\<open>fnd\<close> reads the name only up to its terminator.\<close>

locale lookup_by_name =
  fixes fnd :: "('x, 'd) find_op"
  assumes find_cut: "0 \<notin> set c \<Longrightarrow> fnd dir (c @ 0 # r) s = fnd dir (c @ [0]) s"
begin
end

text \<open>The walk along the components of a path.\<close>

fun walk ::
  "('x, 'd) find_op \<Rightarrow> ('x, 'd) close_op \<Rightarrow> bool \<Rightarrow> file_hand option \<Rightarrow> u8 list list
     \<Rightarrow> ('x, 'd) fstate \<Rightarrow> (bool \<times> file_hand option \<times> ('x, 'd) fstate) res" where
  "walk fnd cls own dir [] s = bnd (close_own cls own dir s) (\<lambda>s. Inr (True, None, s))"
| "walk fnd cls own dir (c # cs) s =
     bnd (fnd dir (c @ [0]) s) (\<lambda>(r, f, s).
       if r \<noteq> 0 then Inr (False, None, s)
       else if cs = [] then bnd (close_own cls own dir s) (\<lambda>s. Inr (True, f, s))
       else case f of
           None \<Rightarrow> Inl Fault
         | Some f \<Rightarrow>
             if fh_attr f AND FS_FILEATTR_DIRECTORY = 0 then Inr (False, None, s)
             else bnd (close_own cls own dir s) (walk fnd cls True (Some f) cs))"

fun join_path :: "u8 list list \<Rightarrow> u8 list" where
  "join_path [] = []"
| "join_path [c] = c"
| "join_path (c # d # cs) = c @ FS_PATHSEP # join_path (d # cs)"

definition good_component :: "u8 list \<Rightarrow> bool" where
  "good_component c \<longleftrightarrow> c \<noteq> [] \<and> 0 \<notin> set c \<and> FS_PATHSEP \<notin> set c"

context lookup_by_name
begin

lemma findfile_loop_walk:
  assumes "list_all good_component (c # cs)"
  shows "findfile_loop fnd cls own dir (pre @ join_path (c # cs) @ [0]) (length pre) s =
    walk fnd cls own dir (c # cs) s"
  using assms
proof (induction cs arbitrary: c pre own dir s)
  case Nil
  then obtain y ys where c: "c = y # ys" "y \<noteq> 0" "0 \<notin> set c" "FS_PATHSEP \<notin> set c"
    by (cases c) (auto simp: good_component_def)
  have "strchr_at (pre @ c @ [0]) (length pre) FS_PATHSEP = Inr None"
    using c(3,4) by (simp add: strchr_app)
  moreover have "(pre @ c @ [0]) ! length pre = y" using c(1) by (simp add: nth_append)
  ultimately show ?case
    using c(2) by (subst findfile_loop.simps) (simp add: split_def del: strchr_at_app cong: if_cong)
next
  case (Cons d cs)
  then obtain y ys where c: "c = y # ys" "y \<noteq> 0" "0 \<notin> set c" "FS_PATHSEP \<notin> set c"
    by (cases c) (auto simp: good_component_def)
  let ?rest = "join_path (d # cs) @ [0]"
  let ?p = "pre @ c @ FS_PATHSEP # ?rest"
  have ne: "FS_PATHSEP \<noteq> 0" by (simp add: FS_PATHSEP_def)
  have sep: "strchr_at ?p (length pre) FS_PATHSEP = Inr (Some (length pre + length c))"
    using c(3,4) ne by (simp add: strchr_app)
  have y: "?p ! length pre = y" using c(1) by (simp add: nth_append)
  have u: "?p[length pre + length c := 0] = (pre @ c @ [0]) @ ?rest"
    by (simp add: list_update_append)
  have dr: "drop (length pre) ((pre @ c @ [0]) @ ?rest) = c @ 0 # ?rest" by simp
  have IH: "findfile_loop fnd cls own' dir' ((pre @ c @ [0]) @ ?rest) (Suc (length pre + length c)) s' =
      walk fnd cls own' dir' (d # cs) s'" for own' dir' s'
    using Cons.IH [where c = d and pre = "pre @ c @ [0]"] Cons.prems by simp
  have "findfile_loop fnd cls own dir ?p (length pre) s =
    bnd (fnd dir (c @ [0]) s) (\<lambda>(r, f, s).
       if r \<noteq> 0 then Inr (False, None, s)
       else case f of
           None \<Rightarrow> Inl Fault
         | Some f \<Rightarrow>
             if fh_attr f AND FS_FILEATTR_DIRECTORY = 0 then Inr (False, None, s)
             else bnd (close_own cls own dir s) (walk fnd cls True (Some f) (d # cs)))"
  proof -
    have "length pre < length ?p" "(?p ! length pre = 0) = False" using y c(2) by simp_all
    then show ?thesis
      by (subst findfile_loop.simps)
        (simp only: sep u dr IH find_cut [OF c(3), where r = ?rest] bnd_Inr option.case if_True if_False le_add1
          cong: if_cong option.case_cong)
  qed
  then show ?case by (simp cong: if_cong)
qed

end

lemma fat_strcmp_at_cut:
  "0 \<notin> set c \<Longrightarrow> fat_strcmp_at fn i (c @ 0 # r) = fat_strcmp_at fn i (c @ [0])"
  by (induction c arbitrary: fn i) (auto cong: bnd_cong split: list.split)

lemma scan_dirents_cut:
  "0 \<notin> set c \<Longrightarrow> scan_dirents m a cs (c @ 0 # r) i n = scan_dirents m a cs (c @ [0]) i n"
  by (induction n arbitrary: i) (simp_all add: fat_strcmp_def fat_strcmp_at_cut [of c _ _ r] Let_def cong: if_cong)

lemma find_loop_cut:
  "0 \<notin> set c \<Longrightarrow> find_loop fuel rd dir a (c @ 0 # r) pos s = find_loop fuel rd dir a (c @ [0]) pos s"
  by (induction fuel arbitrary: pos s) (simp_all add: scan_dirents_cut [of c _ _ _ r] cong: if_cong)

interpretation fat_lookup: lookup_by_name "fat_fs_find fuel rd" for fuel rd
proof unfold_locales
  fix c r :: "u8 list" and dir and s :: "fat_data \<times> 'a world"
  assume "0 \<notin> set c"
  then show "fat_fs_find fuel rd dir (c @ 0 # r) s = fat_fs_find fuel rd dir (c @ [0]) s"
    by (simp add: fat_fs_find_def strcmp_cut [of c r] find_loop_cut [of c _ _ _ _ r] cong: if_cong)
qed

lemma join_path_props:
  assumes "list_all good_component (c # cs)"
  shows "0 \<notin> set (join_path (c # cs))" and "join_path (c # cs) \<noteq> []" and "hd (join_path (c # cs)) \<noteq> FS_PATHSEP"
proof -
  have ne: "FS_PATHSEP \<noteq> 0" by (simp add: FS_PATHSEP_def)
  have "0 \<notin> set (join_path (c # cs)) \<and> join_path (c # cs) \<noteq> [] \<and> hd (join_path (c # cs)) \<noteq> FS_PATHSEP"
    using assms
  proof (induction cs arbitrary: c)
    case Nil
    then show ?case by (cases c) (auto simp: good_component_def)
  next
    case (Cons d cs)
    then show ?case using ne by (cases c) (auto simp: good_component_def)
  qed
  then show "0 \<notin> set (join_path (c # cs))" and "join_path (c # cs) \<noteq> []"
    and "hd (join_path (c # cs)) \<noteq> FS_PATHSEP" by simp_all
qed

context lookup_by_name
begin

lemma findfile_walk:
  assumes "list_all good_component (c # cs)"
  shows "fs_findfile fnd cls dir ((if root then [FS_PATHSEP] else []) @ join_path (c # cs) @ 0 # r) (x, w) =
    bnd (alloc (w_heap w) (of_nat (length (join_path (c # cs))) + 1) 0) (\<lambda>(a, h).
    bnd (walk fnd cls False (if root then None else dir) (c # cs) (x, w\<lparr>w_heap := h\<rparr>)) (\<lambda>(ok, f, x, w).
      if ok then Inr (0, f, x, w) else bnd (wfree a w) (\<lambda>w. Inr (-1, None, x, w))))"
proof -
  let ?j = "join_path (c # cs)" and ?P = "(if root then [FS_PATHSEP] else []) @ join_path (c # cs) @ 0 # r"
  note j = join_path_props [OF assms]
  have hd: "hd ?P = FS_PATHSEP \<longleftrightarrow> root" using j(2,3) by (cases root) auto
  have tl: "(if root then tl ?P else ?P) = ?j @ 0 # r" by simp
  have P: "?P \<noteq> []" by simp
  have n: "strlen (?j @ 0 # r) = Inr (length ?j)" "length ?j \<noteq> 0" using strlen_app [OF j(1)] j(2) by simp_all
  have sd: "strdup m h (?j @ 0 # r) =
      bnd (alloc h (of_nat (length ?j) + 1) 0) (\<lambda>(a, h). Inr (a, ?j @ [0], h))" for m h
  proof -
    have "strcpy (mem_get m a (length ?j + 1)) (?j @ 0 # r) = Inr (?j @ [0])" for a
      using strcpy_at_spec [OF j(1), of 0 "mem_get m a (length ?j + 1)" r] by (simp add: strcpy_def)
    then show ?thesis by (simp add: strdup_def n)
  qed
  have lp: "findfile_loop fnd cls False d (?j @ [0]) 0 s = walk fnd cls False d (c # cs) s" for d s
    using findfile_loop_walk [OF assms, of cls False d "[]" s] by simp
  show ?thesis
    unfolding fs_findfile_def Let_def hd tl n(1) bnd_Inr sd
    using P n(2) by (simp add: lp bnd_assoc split_def cong: if_cong del: join_path.simps)
qed

end

section \<open>Properties\<close>

text \<open>
  C27: A path of names separated by slashes is resolved in the FAT file system by looking up one
  name after the other, from the root directory when it starts with a slash: every name but the
  last must be a directory, each directory handle is closed when the next one has been opened,
  and -1 is returned, with the copy of the path freed, as soon as a lookup fails. On success the
  copy is kept for ever.
\<close>

theorem fs_findfile_walks:
  assumes "list_all good_component (c # cs)"
  shows "fs_findfile (fat_fs_find fuel rd) cls dir
      ((if root then [FS_PATHSEP] else []) @ join_path (c # cs) @ 0 # r) (x, w) =
    bnd (alloc (w_heap w) (of_nat (length (join_path (c # cs))) + 1) 0) (\<lambda>(a, h).
    bnd (walk (fat_fs_find fuel rd) cls False (if root then None else dir) (c # cs) (x, w\<lparr>w_heap := h\<rparr>))
      (\<lambda>(ok, f, x, w).
        if ok then Inr (0, f, x, w) else bnd (wfree a w) (\<lambda>w. Inr (-1, None, x, w))))"
  by (rule fat_lookup.findfile_walk [OF assms])


text \<open>Without a terminator in the file or behind it the parser leaves its buffer.\<close>

lemma config_needs_terminator:
  "config_parse (\<lambda>_. 0) config_data0 example_heap (bytes_of ''KERNEL=/K'' @ [LF]) = Inl Fault"
  unfolding example_heap_def by code_simp

text \<open>A path that ends with a slash succeeds without a file.\<close>

lemma findfile_trailing_slash:
  "map_sum id (\<lambda>(r, f, s). (r, f))
     (fs_findfile (\<lambda>dir name s. Inr (0, Some \<lparr>fh_data = 1, fh_first_cluster = 0, fh_size = 0,
          fh_attr = FS_FILEATTR_DIRECTORY\<rparr>, s)) (\<lambda>f s. Inr (0, s)) None (cstr ''a/'')
       ((), \<lparr>w_mem = \<lambda>_. 0, w_heap = example_heap, w_if = True, w_dev = ()\<rparr>)) = Inr (0, None)"
  unfolding example_heap_def by code_simp

theorem fs_findfile_walks_witness:
  "fs_findfile (fat_fs_find 9 (\<lambda>_ _ _ w. Inr (0, w))) (\<lambda>f s. Inr (0, s)) None
      (bytes_of ''/A/B'' @ [0]) (example_fat_data, fat_world) =
    bnd (alloc example_heap 4 0) (\<lambda>(a, h).
    bnd (walk (fat_fs_find 9 (\<lambda>_ _ _ w. Inr (0, w))) (\<lambda>f s. Inr (0, s)) False None [bytes_of ''A'', bytes_of ''B'']
           (example_fat_data, fat_world\<lparr>w_heap := h\<rparr>))
      (\<lambda>(ok, f, x, w). if ok then Inr (0, f, x, w) else bnd (wfree a w) (\<lambda>w. Inr (-1, None, x, w))))"
proof -
  have g: "list_all good_component [bytes_of ''A'', bytes_of ''B'']"
    by (simp add: good_component_def bytes_of_def FS_PATHSEP_def)
  have p: "[FS_PATHSEP] @ join_path [bytes_of ''A'', bytes_of ''B''] @ 0 # [] = bytes_of ''/A/B'' @ [0]"
    by (simp add: bytes_of_def FS_PATHSEP_def)
  have l: "of_nat (length (join_path [bytes_of ''A'', bytes_of ''B''])) + 1 = (4 :: u32)"
    by (simp add: bytes_of_def)
  show ?thesis
    using fs_findfile_walks [OF g, where fuel = 9 and rd = "\<lambda>_ _ _ w. Inr (0, w)" and
        cls = "\<lambda>f s. Inr (0, s)" and root = True and dir = None and r = "[]" and
        x = example_fat_data and w = fat_world]
    unfolding l if_True p by (simp add: fat_world_def del: walk.simps)
qed

definition example_cfg_text :: "u8 list" where
  "example_cfg_text = bytes_of ''CFGVER=1'' @ [LF] @ bytes_of ''KERNEL=/K'' @ [LF, 0]"

definition example_world :: "unit world" where
  "example_world = \<lparr>w_mem = \<lambda>_. 0, w_heap = example_heap, w_if = True, w_dev = ()\<rparr>"

definition example_open :: "u8 list \<Rightarrow> (unit, unit) fstate \<Rightarrow> (int \<times> file_hand option \<times> (unit, unit) fstate) res" where
  "example_open path s = Inr (0, Some \<lparr>fh_data = 0, fh_first_cluster = 0, fh_size = 20, fh_attr = 1\<rparr>, s)"

definition example_read :: "(unit, unit) read_op" where
  "example_read f b sz off s = (case s of (x, w) \<Rightarrow> Inr (sz, x, w\<lparr>w_mem := mem_put (w_mem w) b example_cfg_text\<rparr>))"


end
