(* ===== verification/File_Source.thy ===== *)
theory File_Source
  imports Files
begin

text \<open>
  What the loader relies on when it reads a file into memory, as a locale: the bytes arrive, and
  nothing is touched but the buffer, the driver's own memory and memory that was free. The FAT file
  system on any reliable device provides it.
\<close>

section \<open>A file as a source of bytes\<close>

text \<open>The addresses an operation that reads into \<open>B\<close> may change.\<close>

definition reachable :: "u32 set \<Rightarrow> heap \<Rightarrow> u32 set" where
  "reachable own h = own \<union> {a. unat a \<in> free_bytes h}"

lemma reachable_mono: "heap_grown h h' \<Longrightarrow> reachable own h' \<subseteq> reachable own h"
  by (auto simp: reachable_def heap_grown_def)

locale file_source =
  fixes rd :: "('x, 'd) read_op"
    and f :: file_hand
    and inv :: "('x, 'd) fstate \<Rightarrow> bool"
    and own :: "u32 set"
    and contents :: "nat \<Rightarrow> u8"
    and readable :: "nat \<Rightarrow> nat \<Rightarrow> bool"
  assumes rd_spec: "inv (x, w) \<Longrightarrow> readable (unat off) (unat sz) \<Longrightarrow>
      block b (unat sz) \<inter> reachable own (w_heap w) = {} \<Longrightarrow>
      (case rd f b sz off (x, w) of
         Inl e \<Rightarrow> e = Panic
       | Inr (n, x', w') \<Rightarrow> n = sz \<and> inv (x', w') \<and> heap_grown (w_heap w) (w_heap w') \<and>
           mem_get (w_mem w') b (unat sz) = map contents [unat off..<unat off + unat sz] \<and>
           (\<forall>a. a \<notin> block b (unat sz) \<union> reachable own (w_heap w) \<longrightarrow> w_mem w' a = w_mem w a))"
    and inv_heap: "inv (x, w) \<Longrightarrow> heap_inv (w_heap w) \<and> own \<inter> {a. unat a \<in> free_bytes (w_heap w)} = {}"
    and inv_frame: "inv (x, w) \<Longrightarrow> heap_inv (w_heap w') \<Longrightarrow> own \<inter> {a. unat a \<in> free_bytes (w_heap w')} = {} \<Longrightarrow>
      (\<forall>a \<in> own. w_mem w' a = w_mem w a) \<Longrightarrow> w_dev w' = w_dev w \<Longrightarrow> inv (x, w')"
begin

lemma inv_grown:
  assumes "inv (x, w)" and "heap_grown (w_heap w) (w_heap w')"
    and "\<forall>a \<in> own. w_mem w' a = w_mem w a" and "w_dev w' = w_dev w"
  shows "inv (x, w')"
  using assms inv_heap [OF assms(1)] by (intro inv_frame [of x w w']) (auto simp: heap_grown_def)

lemma inv_alloc:
  assumes "inv (x, w)" and "walloc sz fl w = Inr (p, w')"
  shows "inv (x, w')" and "heap_grown (w_heap w) (w_heap w')" and "w_mem w' = w_mem w"
    and "w_dev w' = w_dev w" and "block p (unat sz) \<inter> reachable own (w_heap w') = {}"
    and "block p (unat sz) \<subseteq> reachable own (w_heap w)" and "block p (unat sz) \<inter> own = {}"
    and "unat p + unat sz \<le> 2 ^ 31" and "p \<noteq> 0"
proof -
  obtain h where h: "alloc (w_heap w) sz fl = Inr (p, h)" "w' = w\<lparr>w_heap := h\<rparr>"
    using assms(2) by (auto simp: walloc_def res_simps split: prod.splits)
  note i = inv_heap [OF assms(1)]
  show g: "heap_grown (w_heap w) (w_heap w')" using heap_grown_alloc h i by simp
  show "w_mem w' = w_mem w" "w_dev w' = w_dev w" using h(2) by simp_all
  then show "inv (x, w')" using inv_grown [OF assms(1) g] by simp
  note A = heap_alloc.al_avail [OF conjunct1 [OF i] h(1)]
  have lt: "b < 2 ^ 31" if "b \<in> free_bytes (w_heap w)" for b
    using that i by (force simp: heap_inv_def regions_ok_def free_bytes_def free_bytes_of_def heap_top_def)
  have z: "0 < unat sz"
    using heap_alloc.live_avail heap_alloc.al_inv heap_alloc.al_live i h(1) by blast
  then have "unat p + unat sz - 1 \<in> free_bytes (w_heap w)" using A by auto
  with lt z show le: "unat p + unat sz \<le> 2 ^ 31" by fastforce
  have b: "a \<in> block p (unat sz) \<longleftrightarrow> unat a \<in> {unat p..<unat p + unat sz}" for a
    using le by (auto simp: block_interval)
  show "block p (unat sz) \<subseteq> reachable own (w_heap w)" using A b by (auto simp: reachable_def)
  show "block p (unat sz) \<inter> own = {}" using A b i by auto
  then show "block p (unat sz) \<inter> reachable own (w_heap w') = {}"
    using A b h(2) by (auto simp: reachable_def)
  show "p \<noteq> 0" using alloc_spec [OF conjunct1 [OF i] h(1)] by blast
qed

end

section \<open>The FAT file system as a source\<close>

definition fat_inv ::
  "('d \<Rightarrow> nat \<Rightarrow> u8) \<Rightarrow> nat \<Rightarrow> ('d \<Rightarrow> bool) \<Rightarrow> fat_data \<Rightarrow> (nat \<Rightarrow> u8) \<Rightarrow> (fat_data, 'd) fstate \<Rightarrow> bool" where
  "fat_inv img cap good fd0 disk s \<longleftrightarrow> (case s of (fd, w) \<Rightarrow>
     same_fs fd0 fd \<and> fat_geom cap fd \<and> cache_ok img fd w \<and> good (w_dev w) \<and> img (w_dev w) = disk \<and>
     heap_inv (w_heap w) \<and> cache_block fd0 \<inter> {a. unat a \<in> free_bytes (w_heap w)} = {})"

definition fat_readable :: "nat \<Rightarrow> fat_data \<Rightarrow> (nat \<Rightarrow> u8) \<Rightarrow> file_hand \<Rightarrow> nat \<Rightarrow> nat \<Rightarrow> bool" where
  "fat_readable cap fd disk file off sz \<longleftrightarrow> (\<exists>n.
     chain_ok cap fd disk (unat (fh_first_cluster file)) n \<and> off < 2 ^ 31 \<and>
     (fh_attr file AND FS_FILEATTR_DIRECTORY \<noteq> 0 \<or> off + sz \<le> unat (fh_size file)) \<and>
     off div cluster_bytes fd < n \<and> off + sz \<le> n * cluster_bytes fd \<and>
     (off mod cluster_bytes fd = 0 \<or> off mod cluster_bytes fd + sz \<le> cluster_bytes fd))"

lemma cache_ok_cong:
  assumes "cache_ok img fd w" and "\<forall>a \<in> cache_block fd. w_mem w' a = w_mem w a" and "w_dev w' = w_dev w"
  shows "cache_ok img fd w'"
proof -
  have "mem_get (w_mem w') (cache_slot fd i) (cluster_bytes fd) = mem_get (w_mem w) (cache_slot fd i) (cluster_bytes fd)"
    if "i < FAT_CACHE_CNT" for i
    by (rule mem_get_cong) (use assms(2) slot_subset [OF that, of fd] cluster_bytes_less [of fd] in auto)
  then show ?thesis using assms(1,3) by (simp add: cache_ok_def)
qed

lemma same_fs_cache_block: "same_fs fd fd' \<Longrightarrow> cache_block fd' = cache_block fd"
  by (simp add: cache_block_def same_fs_simps)

sublocale reliable_device \<subseteq> fat_file: file_source "fat_file_read rd" f "fat_inv img cap good fd0 disk"
    "cache_block fd0" "file_byte fd0 disk (unat (fh_first_cluster f))" "fat_readable cap fd0 disk f"
  for f fd0 disk
proof
  fix x :: fat_data and w :: "'d world" and off sz b :: u32
  assume I: "fat_inv img cap good fd0 disk (x, w)" and R: "fat_readable cap fd0 disk f (unat off) (unat sz)"
    and B: "block b (unat sz) \<inter> reachable (cache_block fd0) (w_heap w) = {}"
  have i: "same_fs fd0 x" "fat_geom cap x" "cache_ok img x w" "good (w_dev w)" "img (w_dev w) = disk"
    "heap_inv (w_heap w)" "cache_block fd0 \<inter> {a. unat a \<in> free_bytes (w_heap w)} = {}"
    using I by (simp_all add: fat_inv_def)
  note S = same_fs_simps [OF i(1)] and cb = same_fs_cache_block [OF i(1)]
  obtain n where n: "chain_ok cap x (img (w_dev w)) (unat (fh_first_cluster f)) n" "unat off < 2 ^ 31"
    "fh_attr f AND FS_FILEATTR_DIRECTORY \<noteq> 0 \<or> unat off + unat sz \<le> unat (fh_size f)"
    "unat off div cluster_bytes x < n" "unat off + unat sz \<le> n * cluster_bytes x"
    "unat off mod cluster_bytes x = 0 \<or> unat off mod cluster_bytes x + unat sz \<le> cluster_bytes x"
    using R i(5) S by (auto simp: fat_readable_def same_fs_chain_ok [OF i(1)])
  have d: "\<forall>a \<in> cache_block x. unat a \<notin> free_bytes (w_heap w)"
    "\<forall>a \<in> block b (unat sz). unat a \<notin> free_bytes (w_heap w)" "block b (unat sz) \<inter> cache_block x = {}"
    using i(7) B cb by (auto simp: reachable_def)
  show "case fat_file_read rd f b sz off (x, w) of
      Inl e \<Rightarrow> e = Panic
    | Inr (n, x', w') \<Rightarrow> n = sz \<and> fat_inv img cap good fd0 disk (x', w') \<and> heap_grown (w_heap w) (w_heap w') \<and>
        mem_get (w_mem w') b (unat sz) =
          map (file_byte fd0 disk (unat (fh_first_cluster f))) [unat off..<unat off + unat sz] \<and>
        (\<forall>a. a \<notin> block b (unat sz) \<union> reachable (cache_block fd0) (w_heap w) \<longrightarrow> w_mem w' a = w_mem w a)"
  proof (cases "alloc (w_heap w) (ucast (ft_cluster_size x)) ALLOC_FLAG_16B")
    case (Inl e)
    then have e: "e = Panic" using alloc_Inl by blast
    have "fat_file_read rd f b sz off (x, w) = Inl Panic"
      using Inl e by (simp add: fat_file_read_def walloc_def Let_def)
    then show ?thesis by simp
  next
    case (Inr p)
    obtain tmp h1 where al: "alloc (w_heap w) (ucast (ft_cluster_size x)) ALLOC_FLAG_16B = Inr (tmp, h1)"
      using Inr by (cases p) auto
    obtain fd' w' h2 where F: "fat_file_read rd f b sz off (x, w) = Inr (sz, fd', w')"
      "mem_get (w_mem w') b (unat sz) = map (file_byte x (img (w_dev w)) (unat (fh_first_cluster f)))
        [unat off..<unat off + unat sz]"
      "same_fs x fd'" "fat_geom cap fd'" "cache_ok img fd' w'" "good (w_dev w')" "img (w_dev w') = img (w_dev w)"
      "free h1 tmp = Inr h2" "w_heap w' = h2" "heap_inv h2"
      "\<forall>a. a \<notin> block b (unat sz) \<union> cache_block x \<and> unat a \<notin> free_bytes (w_heap w) \<longrightarrow> w_mem w' a = w_mem w a"
      using file_read [OF i(2,3,4,6) n(3,2) al d n(1,4,5,6)] by blast
    have g: "heap_grown (w_heap w) h2" using heap_grown_scratch [OF i(6) al F(8)] .
    have "fat_inv img cap good fd0 disk (fd', w')"
      using same_fs_trans [OF i(1) F(3)] F(4-7,9,10) i(5,7) g by (auto simp: fat_inv_def heap_grown_def)
    then show ?thesis
      using F g i(5) cb by (auto simp: reachable_def same_fs_file_byte [OF i(1)])
  qed
next
  fix x :: fat_data and w :: "'d world"
  assume "fat_inv img cap good fd0 disk (x, w)"
  then show "heap_inv (w_heap w) \<and> cache_block fd0 \<inter> {a. unat a \<in> free_bytes (w_heap w)} = {}"
    by (simp add: fat_inv_def)
next
  fix x :: fat_data and w w' :: "'d world"
  assume "fat_inv img cap good fd0 disk (x, w)" "heap_inv (w_heap w')"
    "cache_block fd0 \<inter> {a. unat a \<in> free_bytes (w_heap w')} = {}"
    "\<forall>a \<in> cache_block fd0. w_mem w' a = w_mem w a" "w_dev w' = w_dev w"
  then show "fat_inv img cap good fd0 disk (x, w')"
    using cache_ok_cong [of img x w w'] same_fs_cache_block [of fd0 x] by (auto simp: fat_inv_def)
qed

context reliable_device
begin

lemma fat_source:
  "file_source (fat_file_read rd) f (fat_inv img cap good fd0 disk) (cache_block fd0)
     (file_byte fd0 disk (unat (fh_first_cluster f))) (fat_readable cap fd0 disk f)"
  by (rule fat_file.file_source_axioms)

end

text \<open>The file system on the example diskette, for any of its files.\<close>

interpretation floppy_file: file_source "fat_file_read (bios_read floppy_hw floppy_data)" f
    "fat_inv fd_img floppy_cap (\<lambda>d. fd_fails d = []) fd0 disk" "cache_block fd0"
    "file_byte fd0 disk (unat (fh_first_cluster f))" "fat_readable floppy_cap fd0 disk f"
  for f fd0 disk
  by (rule good_floppy.fat_file.file_source_axioms)

end
