(* ===== verification/Stores.thy ===== *)
theory Stores
  imports Prelude
begin

text \<open>
  Little-endian stores into the memory, what a load sees after them, and loads of fields from
  equal runs of bytes.
\<close>

unbundle bit_operations_syntax

definition le16 :: "u16 \<Rightarrow> u8 list" where
  "le16 v = [ucast v, ucast (drop_bit 8 v)]"

definition le32 :: "u32 \<Rightarrow> u8 list" where
  "le32 v = [ucast v, ucast (drop_bit 8 v), ucast (drop_bit 16 v), ucast (drop_bit 24 v)]"

definition le64 :: "u64 \<Rightarrow> u8 list" where
  "le64 v = le32 (ucast v) @ le32 (ucast (drop_bit 32 v))"

definition store8 :: "memory \<Rightarrow> u32 \<Rightarrow> u8 \<Rightarrow> memory" where
  "store8 m a v = mem_put m a [v]"

definition store16 :: "memory \<Rightarrow> u32 \<Rightarrow> u16 \<Rightarrow> memory" where
  "store16 m a v = mem_put m a (le16 v)"

definition store32 :: "memory \<Rightarrow> u32 \<Rightarrow> u32 \<Rightarrow> memory" where
  "store32 m a v = mem_put m a (le32 v)"

definition store64 :: "memory \<Rightarrow> u32 \<Rightarrow> u64 \<Rightarrow> memory" where
  "store64 m a v = mem_put m a (le64 v)"

lemma length_le [simp]: "length (le16 v) = 2" "length (le32 x) = 4" "length (le64 y) = 8"
  by (simp_all add: le16_def le32_def le64_def)

text \<open>A load depends on the bytes of its field only.\<close>

lemma load8_get: "load8 m a = mem_get m a 1 ! 0"
  by (simp add: load8_def)

lemma load16_get: "load16 m a = ucast (mem_get m a 2 ! 0) OR push_bit 8 (ucast (mem_get m a 2 ! 1))"
  by (simp add: load16_def)

lemma load32_get:
  "load32 m a = ucast (mem_get m a 4 ! 0) OR push_bit 8 (ucast (mem_get m a 4 ! 1)) OR
     push_bit 16 (ucast (mem_get m a 4 ! 2)) OR push_bit 24 (ucast (mem_get m a 4 ! 3))"
  by (simp add: load32_def)

lemma loads_eqI:
  "mem_get m a 1 = mem_get m' b 1 \<Longrightarrow> load8 m a = load8 m' b"
  "mem_get m a 2 = mem_get m' b 2 \<Longrightarrow> load16 m a = load16 m' b"
  "mem_get m a 4 = mem_get m' b 4 \<Longrightarrow> load32 m a = load32 m' b"
  by (simp_all only: load8_get load16_get load32_get)

lemma mem_get_part:
  assumes "mem_get m a n = mem_get m' b n" and "k + l \<le> n"
  shows "mem_get m (a + of_nat k) l = mem_get m' (b + of_nat k) l"
proof (rule nth_equalityI)
  fix i
  assume i: "i < length (mem_get m (a + of_nat k) l)"
  have "mem_get m a n ! (k + i) = mem_get m' b n ! (k + i)" using assms(1) by simp
  then show "mem_get m (a + of_nat k) l ! i = mem_get m' (b + of_nat k) l ! i"
    using i assms(2) by (simp add: add.assoc)
qed simp

lemma loads_part:
  assumes "mem_get m a n = mem_get m' b n"
  shows "k + 1 \<le> n \<Longrightarrow> load8 m (a + of_nat k) = load8 m' (b + of_nat k)"
    and "k + 2 \<le> n \<Longrightarrow> load16 m (a + of_nat k) = load16 m' (b + of_nat k)"
    and "k + 4 \<le> n \<Longrightarrow> load32 m (a + of_nat k) = load32 m' (b + of_nat k)"
  using mem_get_part [OF assms] by (auto intro!: loads_eqI)

lemma load32_le32: "mem_get m a 4 = le32 v \<Longrightarrow> load32 m a = v"
  unfolding load32_get le32_def
proof (simp, intro bit_word_eqI)
  fix n :: nat
  consider "n < 8" | "8 \<le> n" "n < 16" | "16 \<le> n" "n < 24" | "24 \<le> n" by linarith
  then show "bit (ucast (ucast v :: u8) OR push_bit 8 (ucast (ucast (drop_bit 8 v) :: u8)) OR
      push_bit 16 (ucast (ucast (drop_bit 16 v) :: u8)) OR push_bit 24 (ucast (ucast (drop_bit 24 v) :: u8)) :: u32) n =
    bit v n" if "n < LENGTH(32)"
    using that by cases (auto simp: bit_simps)
qed

lemma load16_le16: "mem_get m a 2 = le16 v \<Longrightarrow> load16 m a = v"
  unfolding load16_get le16_def
  by (simp, intro bit_word_eqI) (auto simp: bit_simps)

lemma load_store [simp]:
  "load32 (store32 m a v) a = v" "load16 (store16 m a h) a = h" "load8 (store8 m a b) a = b"
  using mem_get_put [of "le32 v" m a] mem_get_put [of "le16 h" m a] mem_get_put [of "[b]" m a]
  by (simp_all add: store32_def store16_def store8_def load32_le32 load16_le16 load8_get)

lemma store_other:
  "x \<notin> block a 1 \<Longrightarrow> store8 m a b x = m x" "x \<notin> block a 2 \<Longrightarrow> store16 m a h x = m x"
  "x \<notin> block a 4 \<Longrightarrow> store32 m a v x = m x" "x \<notin> block a 8 \<Longrightarrow> store64 m a q x = m x"
  by (simp_all add: store8_def store16_def store32_def store64_def mem_put_other)

lemma mem_get_other:
  assumes "\<And>x. x \<in> block a n \<Longrightarrow> m' x = m x" and "n \<le> 2 ^ 32"
  shows "mem_get m' a n = mem_get m a n"
  using assms by (rule mem_get_cong)

end
