(* ===== verification/Elf.thy ===== *)
theory Elf
  imports File_Source Stores
begin

text \<open>
  The executable handle of \<^verbatim>\<open>inc/exec/exec.h\<close> and the loaders of \<^verbatim>\<open>src/exec/fmt/elf.c\<close> and
  \<^verbatim>\<open>src/exec/fmt/flat.c\<close>, with the structures of \<^verbatim>\<open>inc/exec/fmt/elf_types.h\<close>. The headers of the
  file are read into heap blocks and stay there, so the loops read them from the memory they
  load segments into.
\<close>

unbundle bit_operations_syntax

section \<open>Executables\<close>

datatype exec_filefmt = EXEC_FILEFMT_NONE | EXEC_FILEFMT_FLAT | EXEC_FILEFMT_ELF

text \<open>
  The function pointers \<open>prepare\<close> and \<open>load\<close> are set together; \<open>ex_ops\<close> is the format whose
  functions they are, \<open>EXEC_FILEFMT_NONE\<close> for null pointers. \<open>ex_multiboot\<close> is an address or 0.
\<close>

record exec_hand =
  ex_fmt :: exec_filefmt
  ex_data :: u32
  ex_data_begin :: u32
  ex_data_end :: u32
  ex_entrypoint :: u32
  ex_multiboot :: u32
  ex_file :: file_hand
  ex_ops :: exec_filefmt

section \<open>ELF structures\<close>

definition ELF_IDENT :: u32 where "ELF_IDENT = 0x464c457f"
definition ELF_CLASS_32BIT :: u8 where "ELF_CLASS_32BIT = 0x01"
definition ELF_DATA_LITTLEENDIAN :: u8 where "ELF_DATA_LITTLEENDIAN = 0x01"
definition ELF_MACHINE_X86 :: u16 where "ELF_MACHINE_X86 = 0x0003"
definition ELF_TYPE_EXEC :: u16 where "ELF_TYPE_EXEC = 0x0002"
definition HOST_ELF_CLASS :: u8 where "HOST_ELF_CLASS = ELF_CLASS_32BIT"
definition HOST_ELF_MACHINE :: u16 where "HOST_ELF_MACHINE = ELF_MACHINE_X86"
definition ELF_PHDR_TYPE_LOAD :: u32 where "ELF_PHDR_TYPE_LOAD = 0x00000001"

text \<open>\<open>elf_header_t\<close> with the 32-bit arm of its union; its size is that of the 64-bit arm.\<close>

record elf_header =
  eh_magic :: u32
  eh_class :: u8
  eh_data :: u8
  eh_type :: u16
  eh_machine :: u16
  eh_version :: u32
  eh_entry :: u32
  eh_phoff :: u32
  eh_shoff :: u32
  eh_flags :: u32
  eh_ehsize :: u16
  eh_phentsize :: u16
  eh_phnum :: u16

definition sizeof_elf_header :: u32 where "sizeof_elf_header = 64"

definition elf_header_at :: "memory \<Rightarrow> u32 \<Rightarrow> elf_header" where
  "elf_header_at m a =
     \<lparr>eh_magic = load32 m (a + 0), eh_class = load8 m (a + 4), eh_data = load8 m (a + 5),
      eh_type = load16 m (a + 16), eh_machine = load16 m (a + 18), eh_version = load32 m (a + 20),
      eh_entry = load32 m (a + 24), eh_phoff = load32 m (a + 28), eh_shoff = load32 m (a + 32),
      eh_flags = load32 m (a + 36), eh_ehsize = load16 m (a + 40), eh_phentsize = load16 m (a + 42),
      eh_phnum = load16 m (a + 44)\<rparr>"

record elf32_phdr =
  ph_type :: u32
  ph_offset :: u32
  ph_vaddr :: u32
  ph_paddr :: u32
  ph_filesz :: u32
  ph_memsz :: u32
  ph_flags :: u32
  ph_align :: u32

definition sizeof_elf32_phdr :: nat where "sizeof_elf32_phdr = 32"

definition elf32_phdr_at :: "memory \<Rightarrow> u32 \<Rightarrow> elf32_phdr" where
  "elf32_phdr_at m a =
     \<lparr>ph_type = load32 m (a + 0), ph_offset = load32 m (a + 4), ph_vaddr = load32 m (a + 8),
      ph_paddr = load32 m (a + 12), ph_filesz = load32 m (a + 16), ph_memsz = load32 m (a + 20),
      ph_flags = load32 m (a + 24), ph_align = load32 m (a + 28)\<rparr>"

text \<open>\<open>exec_elf_data_t\<close>, a heap block of two pointers.\<close>

definition sizeof_exec_elf_data :: u32 where "sizeof_exec_elf_data = 8"

definition edata_ehdr :: "memory \<Rightarrow> u32 \<Rightarrow> u32" where "edata_ehdr m edata = load32 m edata"
definition edata_phdr :: "memory \<Rightarrow> u32 \<Rightarrow> u32" where "edata_phdr m edata = load32 m (edata + 4)"

section \<open>The ELF loader\<close>

definition exec_elf_test :: "memory \<Rightarrow> u32 \<Rightarrow> bool" where
  "exec_elf_test m first_chunk \<longleftrightarrow> load32 m first_chunk = ELF_IDENT"

definition exec_elf_init :: "exec_hand \<Rightarrow> 'd world \<Rightarrow> (int \<times> exec_hand \<times> 'd world) res" where
  "exec_elf_init exec w =
     (let exec = exec\<lparr>ex_ops := EXEC_FILEFMT_ELF, ex_data_begin := 0xFFFFFFFF\<rparr>
      in bnd (walloc sizeof_exec_elf_data 0 w) (\<lambda>(edata, w).
           Inr (0, exec\<lparr>ex_data := edata\<rparr>,
             w\<lparr>w_mem := mem_put (w_mem w) edata (replicate (unat sizeof_exec_elf_data) 0)\<rparr>)))"

text \<open>\<open>&edata->phdr[i]\<close>.\<close>

definition edata_phdr_at :: "memory \<Rightarrow> u32 \<Rightarrow> nat \<Rightarrow> elf32_phdr" where
  "edata_phdr_at m edata i =
     elf32_phdr_at m (edata_phdr m edata + of_nat (i * sizeof_elf32_phdr))"

definition edata_phnum :: "memory \<Rightarrow> u32 \<Rightarrow> nat" where
  "edata_phnum m edata = unat (eh_phnum (elf_header_at m (edata_ehdr m edata)))"

lemma edata_phnum_less: "edata_phnum m edata < 65536"
  using unsigned_less [of "eh_phnum (elf_header_at m (edata_ehdr m edata))"] by (simp add: edata_phnum_def)

definition elf_phdr_check :: "memory \<Rightarrow> u32 \<Rightarrow> int" where
  "elf_phdr_check m edata =
     (if list_ex (\<lambda>i. let phdr = edata_phdr_at m edata i in
           ph_type phdr = ELF_PHDR_TYPE_LOAD \<and> ph_vaddr phdr < 0x100000) [0..<edata_phnum m edata]
      then -1 else 0)"

text \<open>The labels \<open>elf_prep_fail_1\<close> and \<open>elf_prep_fail_2\<close>.\<close>

definition elf_prep_fail_1 ::
  "exec_hand \<Rightarrow> ('x, 'd) fstate \<Rightarrow> (int \<times> exec_hand \<times> ('x, 'd) fstate) res" where
  "elf_prep_fail_1 exec s =
     (case s of (x, w) \<Rightarrow>
        bnd (wfree (edata_ehdr (w_mem w) (ex_data exec)) w) (\<lambda>w.
        bnd (wfree (ex_data exec) w) (\<lambda>w. Inr (-1, exec, x, w))))"

definition elf_prep_fail_2 ::
  "exec_hand \<Rightarrow> ('x, 'd) fstate \<Rightarrow> (int \<times> exec_hand \<times> ('x, 'd) fstate) res" where
  "elf_prep_fail_2 exec s =
     (case s of (x, w) \<Rightarrow>
        bnd (wfree (edata_phdr (w_mem w) (ex_data exec)) w) (\<lambda>w. elf_prep_fail_1 exec (x, w)))"

text \<open>\<open>_elf_prepare\<close> from the reading of the program headers on.\<close>

definition elf_prepare_phdrs ::
  "('x, 'd) read_op \<Rightarrow> exec_hand \<Rightarrow> ('x, 'd) fstate \<Rightarrow> (int \<times> exec_hand \<times> ('x, 'd) fstate) res" where
  "elf_prepare_phdrs rd exec s =
     (case s of (x, w) \<Rightarrow>
      let edata = ex_data exec;
          h = elf_header_at (w_mem w) (edata_ehdr (w_mem w) edata);
          phdr_tot_size = ucast (eh_phentsize h) * ucast (eh_phnum h)
      in bnd (walloc phdr_tot_size 0 w) (\<lambda>(phdr, w).
         let w = w\<lparr>w_mem := store32 (w_mem w) (edata + 4) phdr\<rparr>
         in bnd (rd (ex_file exec) phdr phdr_tot_size
              (eh_phoff (elf_header_at (w_mem w) (edata_ehdr (w_mem w) edata))) (x, w))
              (\<lambda>(n, x, w).
            if n \<noteq> phdr_tot_size then elf_prep_fail_2 exec (x, w)
            else if elf_phdr_check (w_mem w) edata \<noteq> 0 then elf_prep_fail_2 exec (x, w)
            else
              Inr (0, exec\<lparr>ex_entrypoint :=
                  eh_entry (elf_header_at (w_mem w) (edata_ehdr (w_mem w) edata))\<rparr>, x, w))))"

definition elf_prepare ::
  "('x, 'd) read_op \<Rightarrow> exec_hand \<Rightarrow> ('x, 'd) fstate \<Rightarrow> (int \<times> exec_hand \<times> ('x, 'd) fstate) res" where
  "elf_prepare rd exec s =
     (case s of (x, w) \<Rightarrow>
      let edata = ex_data exec
      in bnd (walloc sizeof_elf_header 0 w) (\<lambda>(ehdr, w).
         let w = w\<lparr>w_mem := store32 (w_mem w) edata ehdr\<rparr>
         in bnd (rd (ex_file exec) ehdr sizeof_elf_header 0 (x, w)) (\<lambda>(n, x, w).
            if n \<noteq> sizeof_elf_header then elf_prep_fail_1 exec (x, w)
            else
              let h = elf_header_at (w_mem w) (edata_ehdr (w_mem w) edata)
              in if eh_class h \<noteq> HOST_ELF_CLASS \<or> eh_data h \<noteq> ELF_DATA_LITTLEENDIAN \<or>
                   eh_machine h \<noteq> HOST_ELF_MACHINE then elf_prep_fail_1 exec (x, w)
                 else if eh_type h \<noteq> ELF_TYPE_EXEC then elf_prep_fail_1 exec (x, w)
                 else if eh_entry h < 0x100000 then elf_prep_fail_1 exec (x, w)
                 else elf_prepare_phdrs rd exec (x, w))))"

text \<open>
  The body of the loop of \<open>_elf_load_phdr\<close> for a segment to load: the result is whether it went on.
  The fields of the program header are read again after the segment has been read.
\<close>

definition elf_load_segment ::
  "('x, 'd) read_op \<Rightarrow> nat \<Rightarrow> exec_hand \<Rightarrow> ('x, 'd) fstate \<Rightarrow> (bool \<times> exec_hand \<times> ('x, 'd) fstate) res" where
  "elf_load_segment rd i exec s =
     (let p = edata_phdr_at (w_mem (snd s)) (ex_data exec) i;
          exec = (if ph_paddr p < ex_data_begin exec then exec\<lparr>ex_data_begin := ph_paddr p\<rparr> else exec);
          exec = (if ph_paddr p + ph_memsz p > ex_data_end exec
                  then exec\<lparr>ex_data_end := ph_paddr p + ph_memsz p\<rparr> else exec)
      in bnd (if ph_filesz p \<noteq> 0
              then bnd (rd (ex_file exec) (ph_paddr p) (ph_filesz p) (ph_offset p) s) (\<lambda>(n, x, w).
                Inr (n = ph_filesz (edata_phdr_at (w_mem w) (ex_data exec) i), x, w))
              else Inr (True, s)) (\<lambda>(ok, x, w).
         if \<not> ok then Inr (False, exec, x, w)
         else
           let p = edata_phdr_at (w_mem w) (ex_data exec) i
           in Inr (True, exec, x,
             if ph_filesz p < ph_memsz p
             then w\<lparr>w_mem := mem_put (w_mem w) (ph_paddr p + ph_filesz p)
                      (replicate (unat (ph_memsz p - ph_filesz p)) 0)\<rparr>
             else w)))"

function elf_load_phdr ::
  "('x, 'd) read_op \<Rightarrow> nat \<Rightarrow> exec_hand \<Rightarrow> ('x, 'd) fstate \<Rightarrow> (int \<times> exec_hand \<times> ('x, 'd) fstate) res" where
  "elf_load_phdr rd i exec s =
     (let m = w_mem (snd s)
      in if i < edata_phnum m (ex_data exec) then
           if ph_type (edata_phdr_at m (ex_data exec) i) = ELF_PHDR_TYPE_LOAD then
             bnd (elf_load_segment rd i exec s) (\<lambda>(ok, exec, s).
               if ok then elf_load_phdr rd (Suc i) exec s else Inr (-1, exec, s))
           else elf_load_phdr rd (Suc i) exec s
         else Inr (0, exec, s))"
  by pat_completeness auto
termination
proof (relation "measure (\<lambda>(rd, i, exec, s). 65536 - i)", goal_cases)
  case (2 rd i exec s m a b c d)
  then show ?case using edata_phnum_less [of m "ex_data exec"] by simp
next
  case (3 rd i exec s m)
  then show ?case using edata_phnum_less [of m "ex_data exec"] by simp
qed simp

declare elf_load_phdr.simps [simp del]

definition elf_load ::
  "('x, 'd) read_op \<Rightarrow> exec_hand \<Rightarrow> ('x, 'd) fstate \<Rightarrow> (int \<times> exec_hand \<times> ('x, 'd) fstate) res" where
  "elf_load rd exec s =
     bnd (elf_load_phdr rd 0 exec s) (\<lambda>(r, exec, x, w).
       if r \<noteq> 0 then
         let edata = ex_data exec
         in bnd (wfree (edata_phdr (w_mem w) edata) w) (\<lambda>w.
            bnd (wfree (edata_ehdr (w_mem w) edata) w) (\<lambda>w.
            bnd (wfree edata w) (\<lambda>w. Inr (-1, exec, x, w))))
       else Inr (0, exec, x, w))"

section \<open>The flat loader\<close>

definition exec_flat_init :: "exec_hand \<Rightarrow> int \<times> exec_hand" where
  "exec_flat_init exec = (0, exec\<lparr>ex_ops := EXEC_FILEFMT_FLAT\<rparr>)"

definition flat_prepare :: "exec_hand \<Rightarrow> int" where
  "flat_prepare exec =
     (if ex_entrypoint exec < 0x10000 \<or> ex_data_begin exec < 0x10000 then -1 else 0)"

definition flat_load :: "exec_hand \<Rightarrow> int" where
  "flat_load exec = 0"

end
