(* ===== verification/Elf_Facts.thy ===== *)
theory Elf_Facts
  imports Elf
begin

text \<open>
  What loading an ELF file means, on the bytes of the file alone, and the proofs that the loader
  does it for every file source: the header checks decide as they should, every segment ends up at
  its address followed by its zeros, and nothing else is written.
\<close>

unbundle bit_operations_syntax

section \<open>An ELF file\<close>

text \<open>The bytes of a file as a memory that starts at 0.\<close>

definition file_image :: "(nat \<Rightarrow> u8) \<Rightarrow> memory" where
  "file_image c a = c (unat a)"

definition file_ehdr :: "(nat \<Rightarrow> u8) \<Rightarrow> elf_header" where
  "file_ehdr c = elf_header_at (file_image c) 0"

definition file_phnum :: "(nat \<Rightarrow> u8) \<Rightarrow> nat" where
  "file_phnum c = unat (eh_phnum (file_ehdr c))"

definition phdr_bytes :: "(nat \<Rightarrow> u8) \<Rightarrow> nat" where
  "phdr_bytes c = unat (eh_phentsize (file_ehdr c)) * file_phnum c"

definition file_phdr :: "(nat \<Rightarrow> u8) \<Rightarrow> nat \<Rightarrow> elf32_phdr" where
  "file_phdr c i = elf32_phdr_at (file_image c) (eh_phoff (file_ehdr c) + of_nat (i * sizeof_elf32_phdr))"

text \<open>The segments to load from the \<open>i\<close>th program header on.\<close>

definition segments_from :: "(nat \<Rightarrow> u8) \<Rightarrow> nat \<Rightarrow> elf32_phdr list" where
  "segments_from c i = filter (\<lambda>p. ph_type p = ELF_PHDR_TYPE_LOAD) (map (file_phdr c) [i..<file_phnum c])"

abbreviation file_segments :: "(nat \<Rightarrow> u8) \<Rightarrow> elf32_phdr list" where
  "file_segments c \<equiv> segments_from c 0"

definition elf_header_ok :: "(nat \<Rightarrow> u8) \<Rightarrow> bool" where
  "elf_header_ok c \<longleftrightarrow>
     eh_class (file_ehdr c) = 1 \<and> eh_data (file_ehdr c) = 1 \<and> eh_machine (file_ehdr c) = 3 \<and>
     eh_type (file_ehdr c) = 2 \<and> 0x100000 \<le> eh_entry (file_ehdr c)"

definition elf_accepts :: "(nat \<Rightarrow> u8) \<Rightarrow> bool" where
  "elf_accepts c \<longleftrightarrow>
     elf_header_ok c \<and> list_all (\<lambda>p. 0x100000 \<le> ph_vaddr p) (file_segments c)"

definition segment_block :: "elf32_phdr \<Rightarrow> u32 set" where
  "segment_block p = block (ph_paddr p) (unat (ph_memsz p))"

definition segment_bytes :: "(nat \<Rightarrow> u8) \<Rightarrow> elf32_phdr \<Rightarrow> u8 list" where
  "segment_bytes c p =
     map c [unat (ph_offset p)..<unat (ph_offset p) + unat (ph_filesz p)] @
     replicate (unat (ph_memsz p) - unat (ph_filesz p)) 0"

definition segment_loaded :: "(nat \<Rightarrow> u8) \<Rightarrow> memory \<Rightarrow> elf32_phdr \<Rightarrow> bool" where
  "segment_loaded c m p \<longleftrightarrow> mem_get m (ph_paddr p) (unat (ph_memsz p)) = segment_bytes c p"

text \<open>A segment that fits the memory and can be read from the file.\<close>

definition segment_fits :: "(nat \<Rightarrow> nat \<Rightarrow> bool) \<Rightarrow> elf32_phdr \<Rightarrow> bool" where
  "segment_fits readable p \<longleftrightarrow>
     ph_filesz p \<le> ph_memsz p \<and> unat (ph_paddr p) + unat (ph_memsz p) < 2 ^ 32 \<and>
     (ph_filesz p \<noteq> 0 \<longrightarrow> readable (unat (ph_offset p)) (unat (ph_filesz p)))"

lemma segments_from_step:
  "i < file_phnum c \<Longrightarrow> segments_from c i =
     (if ph_type (file_phdr c i) = ELF_PHDR_TYPE_LOAD then file_phdr c i # segments_from c (Suc i)
      else segments_from c (Suc i))"
  by (simp add: segments_from_def upt_conv_Cons)

lemma segments_from_end: "file_phnum c \<le> i \<Longrightarrow> segments_from c i = []"
  by (simp add: segments_from_def)

section \<open>The headers in memory\<close>

lemma get_image:
  assumes "mem_get m a n = map c [off..<off + n]" and "off + n \<le> 2 ^ 32"
  shows "mem_get m a n = mem_get (file_image c) (of_nat off) n"
proof (unfold assms(1), rule nth_equalityI)
  fix i
  assume "i < length (map c [off..<off + n])"
  moreover from this have "unat (of_nat off + of_nat i :: u32) = off + i"
    using assms(2) by (simp flip: of_nat_add add: unsigned_of_nat take_bit_nat_eq_self)
  ultimately show "map c [off..<off + n] ! i = mem_get (file_image c) (of_nat off) n ! i"
    by (simp add: file_image_def)
qed simp

lemma elf_header_at_eq:
  assumes "mem_get m a 64 = mem_get m' b 64"
  shows "elf_header_at m a = elf_header_at m' b"
proof -
  note L = loads_part [OF assms]
  show ?thesis
    using L(1) [of 4] L(1) [of 5] L(2) [of 16] L(2) [of 18] L(3) [of 20] L(3) [of 24] L(3) [of 28] L(3) [of 32]
      L(3) [of 36] L(2) [of 40] L(2) [of 42] L(2) [of 44] L(3) [of 0]
    by (simp add: elf_header_at_def)
qed

lemma elf32_phdr_at_eq:
  assumes "mem_get m a 32 = mem_get m' b 32"
  shows "elf32_phdr_at m a = elf32_phdr_at m' b"
proof -
  note L = loads_part(3) [OF assms]
  show ?thesis
    using L [of 0] L [of 4] L [of 8] L [of 12] L [of 16] L [of 20] L [of 24] L [of 28]
    by (simp add: elf32_phdr_at_def)
qed

text \<open>The tables of the loader hold the headers of the file.\<close>

definition elf_tables :: "(nat \<Rightarrow> u8) \<Rightarrow> memory \<Rightarrow> u32 \<Rightarrow> bool" where
  "elf_tables c m edata \<longleftrightarrow>
     mem_get m (edata_ehdr m edata) 64 = map c [0..<64] \<and>
     mem_get m (edata_phdr m edata) (phdr_bytes c) =
       map c [unat (eh_phoff (file_ehdr c))..<unat (eh_phoff (file_ehdr c)) + phdr_bytes c]"

definition table_area :: "(nat \<Rightarrow> u8) \<Rightarrow> memory \<Rightarrow> u32 \<Rightarrow> u32 set" where
  "table_area c m edata =
     block edata 8 \<union> block (edata_ehdr m edata) 64 \<union> block (edata_phdr m edata) (phdr_bytes c)"

text \<open>The program headers follow each other without gaps, and their table does not wrap.\<close>

definition phdrs_packed :: "(nat \<Rightarrow> u8) \<Rightarrow> bool" where
  "phdrs_packed c \<longleftrightarrow> unat (eh_phentsize (file_ehdr c)) = sizeof_elf32_phdr \<and>
     unat (eh_phoff (file_ehdr c)) + phdr_bytes c \<le> 2 ^ 32"

lemma unat_u32_le [simp]: "unat (x :: u32) \<le> 4294967296" "unat x - n \<le> 4294967296"
  using unat_u32_less [of x] by (simp_all del: unat_u32_less)

lemma unat_u16_less: "unat (x :: u16) < 65536"
  using unsigned_less [of x] by simp

lemma phdr_bytes_less: "phdr_bytes c < 2 ^ 32"
proof -
  have "phdr_bytes c \<le> 65535 * 65535"
    unfolding phdr_bytes_def file_phnum_def
    using unat_u16_less [of "eh_phentsize (file_ehdr c)"] unat_u16_less [of "eh_phnum (file_ehdr c)"]
    by (intro mult_le_mono) linarith+
  then show ?thesis by simp
qed

lemma ehdr_in_memory:
  assumes "mem_get m a 64 = map c [0..<64]"
  shows "elf_header_at m a = file_ehdr c"
proof -
  have "mem_get m a 64 = mem_get (file_image c) 0 64" using get_image [of m a 64 c 0] assms by simp
  then show ?thesis unfolding file_ehdr_def by (rule elf_header_at_eq)
qed

lemma tables_phnum: "elf_tables c m edata \<Longrightarrow> edata_phnum m edata = file_phnum c"
  using ehdr_in_memory [of m "edata_ehdr m edata" c] by (simp add: elf_tables_def edata_phnum_def file_phnum_def)

lemma tables_phdr:
  assumes "elf_tables c m edata" and "phdrs_packed c" and "i < file_phnum c"
  shows "edata_phdr_at m edata i = file_phdr c i"
proof -
  let ?off = "unat (eh_phoff (file_ehdr c))"
  have "Suc i * 32 \<le> file_phnum c * 32" using assms(3) by (intro mult_le_mono1) simp
  then have "i * sizeof_elf32_phdr + 32 \<le> phdr_bytes c"
    using assms(2) by (simp add: phdrs_packed_def phdr_bytes_def sizeof_elf32_phdr_def)
  moreover have "mem_get m (edata_phdr m edata) (phdr_bytes c) =
      mem_get (file_image c) (of_nat ?off) (phdr_bytes c)"
    using assms(1,2) by (intro get_image) (simp_all add: elf_tables_def phdrs_packed_def)
  ultimately have "mem_get m (edata_phdr m edata + of_nat (i * sizeof_elf32_phdr)) 32 =
      mem_get (file_image c) (of_nat ?off + of_nat (i * sizeof_elf32_phdr)) 32"
    by (intro mem_get_part)
  then have "edata_phdr_at m edata i = elf32_phdr_at (file_image c) (of_nat ?off + of_nat (i * sizeof_elf32_phdr))"
    unfolding edata_phdr_at_def by (rule elf32_phdr_at_eq)
  then show ?thesis by (simp add: file_phdr_def)
qed

lemma tables_frame:
  assumes "\<And>a. a \<in> table_area c m edata \<Longrightarrow> m' a = m a"
  shows "edata_ehdr m' edata = edata_ehdr m edata" and "edata_phdr m' edata = edata_phdr m edata"
    and "table_area c m' edata = table_area c m edata" and "elf_tables c m' edata = elf_tables c m edata"
proof -
  have "mem_get m' edata 8 = mem_get m edata 8"
    by (rule mem_get_other) (use assms in \<open>auto simp: table_area_def\<close>)
  from loads_part(3) [OF this, of 0] loads_part(3) [OF this, of 4]
  show e: "edata_ehdr m' edata = edata_ehdr m edata" and p: "edata_phdr m' edata = edata_phdr m edata"
    by (simp_all add: edata_ehdr_def edata_phdr_def)
  show "table_area c m' edata = table_area c m edata" by (simp add: table_area_def e p)
  have "mem_get m' (edata_ehdr m edata) 64 = mem_get m (edata_ehdr m edata) 64"
    by (rule mem_get_other) (use assms in \<open>auto simp: table_area_def\<close>)
  moreover have "mem_get m' (edata_phdr m edata) (phdr_bytes c) = mem_get m (edata_phdr m edata) (phdr_bytes c)"
    by (rule mem_get_other) (use assms phdr_bytes_less [of c] in \<open>auto simp: table_area_def\<close>)
  ultimately show "elf_tables c m' edata = elf_tables c m edata" by (simp add: elf_tables_def e p)
qed

section \<open>Loading the segments\<close>

definition extend_range :: "elf32_phdr \<Rightarrow> exec_hand \<Rightarrow> exec_hand" where
  "extend_range p exec = exec\<lparr>ex_data_begin := min (ph_paddr p) (ex_data_begin exec),
     ex_data_end := max (ph_paddr p + ph_memsz p) (ex_data_end exec)\<rparr>"

lemma extend_range_simps [simp]:
  "ex_data (extend_range p exec) = ex_data exec" "ex_file (extend_range p exec) = ex_file exec"
  "ex_entrypoint (extend_range p exec) = ex_entrypoint exec"
  by (simp_all add: extend_range_def)

lemma extend_range_code:
  "(let exec = (if ph_paddr p < ex_data_begin exec then exec\<lparr>ex_data_begin := ph_paddr p\<rparr> else exec)
    in if ph_paddr p + ph_memsz p > ex_data_end exec then exec\<lparr>ex_data_end := ph_paddr p + ph_memsz p\<rparr> else exec) =
   extend_range p exec"
  by (auto simp: extend_range_def min_def max_def)

lemma range_fold:
  "ex_data_begin (fold extend_range ps exec) = fold (\<lambda>p. min (ph_paddr p)) ps (ex_data_begin exec)"
  "ex_data_end (fold extend_range ps exec) = fold (\<lambda>p. max (ph_paddr p + ph_memsz p)) ps (ex_data_end exec)"
  "ex_entrypoint (fold extend_range ps exec) = ex_entrypoint exec"
  "ex_file (fold extend_range ps exec) = ex_file exec" "ex_multiboot (fold extend_range ps exec) = ex_multiboot exec"
  "ex_ops (fold extend_range ps exec) = ex_ops exec" "ex_fmt (fold extend_range ps exec) = ex_fmt exec"
  "ex_data (fold extend_range ps exec) = ex_data exec"
  by (induction ps arbitrary: exec) (simp_all add: extend_range_def)

lemma elf_load_ok:
  assumes "elf_load_phdr rd 0 exec s = Inr (0, exec', s')"
  shows "elf_load rd exec s = Inr (0, exec', s')"
  using assms by (cases s') (simp add: elf_load_def)

lemma phdr_check:
  assumes "elf_tables c m edata" and "phdrs_packed c"
  shows "elf_phdr_check m edata = (if list_all (\<lambda>p. 0x100000 \<le> ph_vaddr p) (file_segments c) then 0 else -1)"
proof -
  have "list_ex (\<lambda>i. let p = edata_phdr_at m edata i in ph_type p = ELF_PHDR_TYPE_LOAD \<and> ph_vaddr p < 0x100000)
      [0..<edata_phnum m edata] \<longleftrightarrow> \<not> list_all (\<lambda>p. 0x100000 \<le> ph_vaddr p) (file_segments c)"
    using tables_phdr [OF assms]
    by (auto simp: tables_phnum [OF assms(1)] segments_from_def list_ex_iff list_all_iff Let_def not_less)
  then show ?thesis by (simp add: elf_phdr_check_def)
qed

context file_source
begin

lemma load_segment:
  assumes I: "inv (x, w)" and f: "ex_file exec = f"
    and T: "elf_tables c (w_mem w) (ex_data exec)" "phdrs_packed c" "i < file_phnum c"
    and A: "table_area c (w_mem w) (ex_data exec) \<inter> reachable own (w_heap w) = {}"
    and p: "p = file_phdr c i" "segment_fits readable p" and c: "c = contents"
    and S: "segment_block p \<inter> (reachable own (w_heap w) \<union> table_area c (w_mem w) (ex_data exec)) = {}"
  shows "case elf_load_segment rd i exec (x, w) of
      Inl e \<Rightarrow> e = Panic
    | Inr (ok, exec', x', w') \<Rightarrow> ok \<and> exec' = extend_range p exec \<and> inv (x', w') \<and>
        heap_grown (w_heap w) (w_heap w') \<and> segment_loaded c (w_mem w') p \<and>
        (\<forall>a. a \<notin> segment_block p \<union> reachable own (w_heap w) \<longrightarrow> w_mem w' a = w_mem w a)"
proof -
  let ?e = "ex_data exec"
  have P: "edata_phdr_at (w_mem w) ?e i = p" using tables_phdr [OF T] p(1) by simp
  have le: "unat (ph_filesz p) \<le> unat (ph_memsz p)" using p(2) by (simp add: segment_fits_def word_le_nat_alt)
  have sub: "block (ph_paddr p) (unat (ph_filesz p)) \<subseteq> segment_block p"
    unfolding segment_block_def by (rule block_mono [OF le])
  text \<open>The read of the file's part.\<close>
  let ?r = "if ph_filesz p \<noteq> 0
     then bnd (rd f (ph_paddr p) (ph_filesz p) (ph_offset p) (x, w)) (\<lambda>(n, x, w).
            Inr (n = ph_filesz (edata_phdr_at (w_mem w) ?e i), x, w))
     else Inr (True, x, w)"
  have R: "case ?r of Inl e \<Rightarrow> e = Panic
    | Inr (ok, x', w') \<Rightarrow> ok \<and> inv (x', w') \<and> heap_grown (w_heap w) (w_heap w') \<and>
        edata_phdr_at (w_mem w') ?e i = p \<and>
        mem_get (w_mem w') (ph_paddr p) (unat (ph_filesz p)) =
          map c [unat (ph_offset p)..<unat (ph_offset p) + unat (ph_filesz p)] \<and>
        (\<forall>a. a \<notin> segment_block p \<union> reachable own (w_heap w) \<longrightarrow> w_mem w' a = w_mem w a)"
  proof (cases "ph_filesz p = 0")
    case True
    then show ?thesis using I P inv_heap [OF I] by simp
  next
    case False
    then have rb: "readable (unat (ph_offset p)) (unat (ph_filesz p))" using p(2) by (simp add: segment_fits_def)
    have b: "block (ph_paddr p) (unat (ph_filesz p)) \<inter> reachable own (w_heap w) = {}" using S sub by blast
    have "edata_phdr_at (w_mem w') ?e i = p" if "\<forall>a. a \<notin> block (ph_paddr p) (unat (ph_filesz p)) \<union>
        reachable own (w_heap w) \<longrightarrow> w_mem w' a = w_mem w a" for w' :: "'d world"
    proof -
      have "w_mem w' a = w_mem w a" if "a \<in> table_area c (w_mem w) ?e" for a
        using that \<open>\<forall>a. _ a\<close> A S sub by blast
      then have "elf_tables c (w_mem w') ?e" using tables_frame(4) T(1) by metis
      then show ?thesis using tables_phdr T p(1) by blast
    qed
    then show ?thesis
      using rd_spec [OF I rb b] False sub c by (auto split: sum.splits) 
  qed
  have E: "elf_load_segment rd i exec (x, w) = bnd ?r (\<lambda>(ok, x, w).
      if \<not> ok then Inr (False, extend_range p exec, x, w)
      else let p' = edata_phdr_at (w_mem w) ?e i
        in Inr (True, extend_range p exec, x, if ph_filesz p' < ph_memsz p'
          then w\<lparr>w_mem := mem_put (w_mem w) (ph_paddr p' + ph_filesz p')
            (replicate (unat (ph_memsz p' - ph_filesz p')) 0)\<rparr> else w))"
    unfolding elf_load_segment_def snd_conv P extend_range_code [unfolded Let_def] Let_def
    by (simp add: f cong: if_cong)
  show ?thesis
  proof (cases ?r)
    case (Inl e)
    then show ?thesis using R unfolding E by simp
  next
    case (Inr q)
    obtain ok x' w' where q: "q = (ok, x', w')" by (cases q)
    have r: ok "inv (x', w')" "heap_grown (w_heap w) (w_heap w')" "edata_phdr_at (w_mem w') ?e i = p"
      "mem_get (w_mem w') (ph_paddr p) (unat (ph_filesz p)) =
         map c [unat (ph_offset p)..<unat (ph_offset p) + unat (ph_filesz p)]"
      "\<forall>a. a \<notin> segment_block p \<union> reachable own (w_heap w) \<longrightarrow> w_mem w' a = w_mem w a"
      using R Inr q by simp_all
    let ?z = "replicate (unat (ph_memsz p) - unat (ph_filesz p)) (0 :: u8)"
    let ?w2 = "w'\<lparr>w_mem := mem_put (w_mem w') (ph_paddr p + ph_filesz p) ?z\<rparr>"
    have d: "unat (ph_memsz p - ph_filesz p) = unat (ph_memsz p) - unat (ph_filesz p)"
      using le by (simp add: unat_sub_le word_le_nat_alt)
    have same: "(if ph_filesz p < ph_memsz p then ?w2 else w') = ?w2"
      using le by (auto simp: word_less_nat_alt not_less)
    have F: "elf_load_segment rd i exec (x, w) = Inr (True, extend_range p exec, x', ?w2)"
      unfolding E Inr q using r(1) by (simp only: bnd_Inr prod.case r(4) Let_def d same not_True_eq_False if_False)
    have zb: "block (ph_paddr p + ph_filesz p) (length ?z) \<subseteq> segment_block p"
      and zd: "block (ph_paddr p) (unat (ph_filesz p)) \<inter> block (ph_paddr p + ph_filesz p) (length ?z) = {}"
      using le block_add_subset [of "unat (ph_filesz p)" "length ?z" "unat (ph_memsz p)" "ph_paddr p"]
        block_add_disjoint [of "unat (ph_filesz p)" "unat (ph_filesz p)" "length ?z" "ph_paddr p"]
      by (simp_all add: segment_block_def)
    have o2: "w_mem ?w2 a = w_mem w' a" if "a \<notin> block (ph_paddr p + ph_filesz p) (length ?z)" for a
      using mem_put_other [OF that] by simp
    then have o: "w_mem ?w2 a = w_mem w' a" if "a \<notin> segment_block p" for a
      using that zb by blast
    have "inv (x', ?w2)"
      using o S inv_heap [OF r(2)] by (intro inv_frame [OF r(2)]) (auto simp: reachable_def)
    moreover have "segment_loaded c (w_mem ?w2) p"
    proof -
      have "mem_get (w_mem ?w2) (ph_paddr p) (unat (ph_filesz p)) = mem_get (w_mem w') (ph_paddr p) (unat (ph_filesz p))"
      proof (rule mem_get_other)
        fix a
        assume "a \<in> block (ph_paddr p) (unat (ph_filesz p))"
        then show "w_mem ?w2 a = w_mem w' a" using zd by (intro o2) blast
      qed simp
      moreover have "mem_get (w_mem ?w2) (ph_paddr p + of_nat (unat (ph_filesz p))) (length ?z) = ?z"
        using mem_get_put [of ?z "w_mem w'" "ph_paddr p + ph_filesz p"] by simp
      ultimately show ?thesis
        using mem_get_add [of "w_mem ?w2" "ph_paddr p" "unat (ph_filesz p)" "length ?z"] le r(5)
        by (simp add: segment_loaded_def segment_bytes_def)
    qed
    ultimately show ?thesis using F r(3,6) o by simp
  qed
qed

lemma load_phdr:
  assumes I: "inv (x, w)" and f: "ex_file exec = f" and c: "c = contents"
    and T: "elf_tables c (w_mem w) (ex_data exec)" "phdrs_packed c"
    and A: "table_area c (w_mem w) (ex_data exec) \<inter> reachable own (w_heap w) = {}"
    and fits: "list_all (segment_fits readable) (segments_from c i)"
    and S: "\<And>p. p \<in> set (segments_from c i) \<Longrightarrow>
      segment_block p \<inter> (reachable own (w_heap w) \<union> table_area c (w_mem w) (ex_data exec)) = {}"
    and D: "sorted_wrt (\<lambda>p q. segment_block p \<inter> segment_block q = {}) (segments_from c i)"
  shows "case elf_load_phdr rd i exec (x, w) of
      Inl e \<Rightarrow> e = Panic
    | Inr (r, exec', x', w') \<Rightarrow> r = 0 \<and> exec' = fold extend_range (segments_from c i) exec \<and> inv (x', w') \<and>
        heap_grown (w_heap w) (w_heap w') \<and> list_all (segment_loaded c (w_mem w')) (segments_from c i) \<and>
        (\<forall>a. a \<notin> (\<Union>p \<in> set (segments_from c i). segment_block p) \<union> reachable own (w_heap w) \<longrightarrow>
           w_mem w' a = w_mem w a)"
  using I f T A fits S D
proof (induction "file_phnum c - i" arbitrary: i exec x w)
  case 0
  then have "\<not> i < edata_phnum (w_mem w) (ex_data exec)" by (simp add: tables_phnum)
  moreover have "segments_from c i = []" using 0(1) by (simp add: segments_from_end)
  ultimately show ?case using 0(2) inv_heap [OF 0(2)] by (simp add: elf_load_phdr.simps)
next
  case (Suc n)
  let ?e = "ex_data exec" and ?p = "file_phdr c i"
  have i: "i < file_phnum c" and n: "n = file_phnum c - Suc i" using Suc.hyps(2) by simp_all
  have L: "elf_load_phdr rd i exec (x, w) =
      (if ph_type ?p = ELF_PHDR_TYPE_LOAD
       then bnd (elf_load_segment rd i exec (x, w)) (\<lambda>(ok, exec, s).
         if ok then elf_load_phdr rd (Suc i) exec s else Inr (-1, exec, s))
       else elf_load_phdr rd (Suc i) exec (x, w))"
    using i tables_phnum [OF Suc.prems(3)] tables_phdr [OF Suc.prems(3,4) i]
    by (subst elf_load_phdr.simps) simp
  note st = segments_from_step [OF i]
  show ?case
  proof (cases "ph_type ?p = ELF_PHDR_TYPE_LOAD")
    case False
    then have st: "segments_from c i = segments_from c (Suc i)" using st by simp
    have "elf_load_phdr rd i exec (x, w) = elf_load_phdr rd (Suc i) exec (x, w)" using False by (simp add: L)
    then show ?thesis using Suc.hyps(1) [OF n Suc.prems(1-5)] Suc.prems(6-8) unfolding st by simp
  next
    case True
    then have st: "segments_from c i = ?p # segments_from c (Suc i)" using st by simp
    note p = load_segment [OF Suc.prems(1,2,3,4) i Suc.prems(5) refl _ c, unfolded st]
    have pf: "segment_fits readable ?p" and ps: "segment_block ?p \<inter> (reachable own (w_heap w) \<union>
        table_area c (w_mem w) ?e) = {}" using Suc.prems(6,7) by (simp_all add: st)
    note seg = load_segment [OF Suc.prems(1,2,3,4) i Suc.prems(5) refl pf c ps]
    show ?thesis
    proof (cases "elf_load_segment rd i exec (x, w)")
      case (Inl e)
      then show ?thesis using seg True by (simp add: L)
    next
      case (Inr q)
      obtain ok exec1 x1 w1 where q: "q = (ok, exec1, x1, w1)" by (cases q)
      have r: ok "exec1 = extend_range ?p exec" "inv (x1, w1)" "heap_grown (w_heap w) (w_heap w1)"
        "segment_loaded c (w_mem w1) ?p"
        "\<forall>a. a \<notin> segment_block ?p \<union> reachable own (w_heap w) \<longrightarrow> w_mem w1 a = w_mem w a"
        using seg Inr q by simp_all
      have same: "w_mem w1 a = w_mem w a" if "a \<in> table_area c (w_mem w) ?e" for a
        using that r(6) Suc.prems(5) ps by blast
      note fr = tables_frame [of c "w_mem w" ?e "w_mem w1", OF same]
      note re = reachable_mono [OF r(4), of own]
      have IH: "case elf_load_phdr rd (Suc i) exec1 (x1, w1) of
          Inl e \<Rightarrow> e = Panic
        | Inr (r, exec', x', w') \<Rightarrow> r = 0 \<and> exec' = fold extend_range (segments_from c (Suc i)) exec1 \<and> inv (x', w') \<and>
            heap_grown (w_heap w1) (w_heap w') \<and> list_all (segment_loaded c (w_mem w')) (segments_from c (Suc i)) \<and>
            (\<forall>a. a \<notin> (\<Union>p \<in> set (segments_from c (Suc i)). segment_block p) \<union> reachable own (w_heap w1) \<longrightarrow>
               w_mem w' a = w_mem w1 a)"
      proof (rule Suc.hyps(1) [OF n r(3)])
        show "segment_block p \<inter> (reachable own (w_heap w1) \<union> table_area c (w_mem w1) (ex_data exec1)) = {}"
          if "p \<in> set (segments_from c (Suc i))" for p
          using Suc.prems(7) [of p] that re fr(3) r(2) by (simp add: st) blast
      qed (use r(2) fr re Suc.prems(2-6,8) in \<open>auto simp: st\<close>)
      have keep: "segment_loaded c (w_mem w') ?p"
        if "\<forall>a. a \<notin> (\<Union>p \<in> set (segments_from c (Suc i)). segment_block p) \<union> reachable own (w_heap w1) \<longrightarrow>
               w_mem w' a = w_mem w1 a" for w' :: "'d world"
      proof -
        have "mem_get (w_mem w') (ph_paddr ?p) (unat (ph_memsz ?p)) = mem_get (w_mem w1) (ph_paddr ?p) (unat (ph_memsz ?p))"
        proof (rule mem_get_other)
          fix a
          assume "a \<in> block (ph_paddr ?p) (unat (ph_memsz ?p))"
          then have "a \<in> segment_block ?p" by (simp add: segment_block_def)
          moreover have "\<forall>q \<in> set (segments_from c (Suc i)). segment_block ?p \<inter> segment_block q = {}"
            using Suc.prems(8) by (simp add: st)
          ultimately have "a \<notin> (\<Union>p \<in> set (segments_from c (Suc i)). segment_block p) \<union> reachable own (w_heap w1)"
            using ps re by blast
          then show "w_mem w' a = w_mem w1 a" using that by blast
        qed simp
        then show ?thesis using r(5) by (simp add: segment_loaded_def)
      qed
      show ?thesis
        using IH keep r(1,2,6) heap_grown_trans [OF r(4)] re Inr q True
        by (auto simp: L st split: sum.splits)
    qed
  qed
qed

section \<open>Preparing the tables\<close>

text \<open>
  The situation of \<open>_elf_prepare\<close> once the file header is in memory: \<open>edata\<close> was allocated in the heap
  \<open>h0\<close>, the header block in the heap of \<open>w0\<close>.
\<close>

definition header_read ::
  "heap \<Rightarrow> 'd world \<Rightarrow> exec_hand \<Rightarrow> u32 \<Rightarrow> ('x, 'd) fstate \<Rightarrow> bool" where
  "header_read h0 w0 exec ehdr s \<longleftrightarrow> (case s of (x, w) \<Rightarrow>
     inv (x, w) \<and> heap_inv h0 \<and> own \<inter> {a. unat a \<in> free_bytes h0} = {} \<and> ex_file exec = f \<and>
     (\<exists>h1. alloc h0 8 0 = Inr (ex_data exec, h1) \<and> heap_grown h1 (w_heap w0)) \<and>
     heap_inv (w_heap w0) \<and> (\<exists>h2. alloc (w_heap w0) 64 0 = Inr (ehdr, h2) \<and> heap_grown h2 (w_heap w)) \<and>
     block (ex_data exec) 8 \<inter> reachable own (w_heap w0) = {} \<and>
     block ehdr 64 \<subseteq> reachable own (w_heap w0) \<and> block ehdr 64 \<inter> reachable own (w_heap w) = {} \<and>
     edata_ehdr (w_mem w) (ex_data exec) = ehdr \<and> mem_get (w_mem w) ehdr 64 = map contents [0..<64])"

lemma fail_1:
  assumes "header_read h0 w0 exec ehdr (x, w)"
  shows "\<exists>h. elf_prep_fail_1 exec (x, w) = Inr (-1, exec, x, w\<lparr>w_heap := h\<rparr>) \<and>
    inv (x, w\<lparr>w_heap := h\<rparr>) \<and> heap_grown h0 h"
proof -
  obtain h1 h2 where a: "heap_inv h0" "alloc h0 8 0 = Inr (ex_data exec, h1)" "heap_grown h1 (w_heap w0)"
    "heap_inv (w_heap w0)" "alloc (w_heap w0) 64 0 = Inr (ehdr, h2)" "heap_grown h2 (w_heap w)"
    "inv (x, w)" "own \<inter> {a. unat a \<in> free_bytes h0} = {}" "edata_ehdr (w_mem w) (ex_data exec) = ehdr"
    using assms by (auto simp: header_read_def)
  obtain h3 where h3: "free (w_heap w) ehdr = Inr h3" "heap_grown (w_heap w0) h3"
    using heap_grown_free [OF a(4,5,6)] by blast
  obtain h4 where h4: "free h3 (ex_data exec) = Inr h4" "heap_grown h0 h4"
    using heap_grown_free [OF a(1,2) heap_grown_trans [OF a(3) h3(2)]] by blast
  have "inv (x, w\<lparr>w_heap := h4\<rparr>)"
    using h4(2) a(8) by (intro inv_frame [OF a(7)]) (auto simp: heap_grown_def)
  then show ?thesis using h3 h4 a(9) by (auto simp: elf_prep_fail_1_def wfree_def)
qed

lemma prepare_phdrs:
  assumes H: "header_read h0 w0 exec ehdr (x, w)" and c: "c = contents" and K: "phdrs_packed c"
    and R: "readable (unat (eh_phoff (file_ehdr c))) (phdr_bytes c)"
  shows "case elf_prepare_phdrs rd exec (x, w) of
      Inl e \<Rightarrow> e = Panic
    | Inr (r, exec', x', w') \<Rightarrow> inv (x', w') \<and>
        (\<forall>a. a \<notin> block (ex_data exec) 8 \<union> reachable own (w_heap w0) \<longrightarrow> w_mem w' a = w_mem w a) \<and>
        (if list_all (\<lambda>p. 0x100000 \<le> ph_vaddr p) (file_segments c)
         then r = 0 \<and> exec' = exec\<lparr>ex_entrypoint := eh_entry (file_ehdr c)\<rparr> \<and> heap_grown (w_heap w0) (w_heap w') \<and>
           elf_tables c (w_mem w') (ex_data exec) \<and>
           table_area c (w_mem w') (ex_data exec) \<inter> reachable own (w_heap w') = {} \<and>
           table_area c (w_mem w') (ex_data exec) \<subseteq> block (ex_data exec) 8 \<union> reachable own (w_heap w0)
         else r = -1 \<and> exec' = exec \<and> heap_grown h0 (w_heap w'))"
proof -
  let ?e = "ex_data exec" and ?tot = "ucast (eh_phentsize (file_ehdr c)) * ucast (eh_phnum (file_ehdr c)) :: u32"
  have I: "inv (x, w)" and f: "ex_file exec = f" and g0: "heap_inv (w_heap w0)"
    and eb: "block ?e 8 \<inter> reachable own (w_heap w0) = {}"
    and hb: "block ehdr 64 \<subseteq> reachable own (w_heap w0)" "block ehdr 64 \<inter> reachable own (w_heap w) = {}"
    and hp: "edata_ehdr (w_mem w) ?e = ehdr" "mem_get (w_mem w) ehdr 64 = map c [0..<64]"
    using H c by (auto simp: header_read_def)
  have g: "heap_grown (w_heap w0) (w_heap w)"
    using H heap_grown_alloc [OF g0] heap_grown_trans by (simp add: header_read_def) blast
  have tot: "unat ?tot = phdr_bytes c"
    using phdr_bytes_less [of c] by (simp add: phdr_bytes_def file_phnum_def unat_word_ariths)
  have hd: "elf_header_at (w_mem w) ehdr = file_ehdr c" by (rule ehdr_in_memory [OF hp(2)])
  have E: "elf_prepare_phdrs rd exec (x, w) = bnd (walloc ?tot 0 w) (\<lambda>(phdr, w).
         let w = w\<lparr>w_mem := store32 (w_mem w) (?e + 4) phdr\<rparr>
         in bnd (rd f phdr ?tot (eh_phoff (elf_header_at (w_mem w) (edata_ehdr (w_mem w) ?e))) (x, w))
              (\<lambda>(n, x, w).
            if n \<noteq> ?tot then elf_prep_fail_2 exec (x, w)
            else if elf_phdr_check (w_mem w) ?e \<noteq> 0 then elf_prep_fail_2 exec (x, w)
            else Inr (0, exec\<lparr>ex_entrypoint := eh_entry (elf_header_at (w_mem w) (edata_ehdr (w_mem w) ?e))\<rparr>, x, w)))"
    by (simp add: elf_prepare_phdrs_def hp(1) hd f Let_def)
  show ?thesis
  proof (cases "walloc ?tot 0 w")
    case (Inl e)
    then show ?thesis using alloc_Inl by (simp add: E) (auto simp: walloc_def res_simps)
  next
    case (Inr q)
    obtain phdr w1 where q: "walloc ?tot 0 w = Inr (phdr, w1)" using Inr by (cases q) auto
    note A = inv_alloc [OF I q, unfolded tot]
    let ?w2 = "w1\<lparr>w_mem := store32 (w_mem w1) (?e + 4) phdr\<rparr>"
    have sub: "block (?e + 4) 4 \<subseteq> block ?e 8" using block_add_subset [of 4 4 8 ?e] by simp
    have o: "w_mem ?w2 a = w_mem w a" if "a \<notin> block (?e + 4) 4" for a
      using that A(3) by (simp add: store_other)
    have r0: "reachable own (w_heap w) \<subseteq> reachable own (w_heap w0)" by (rule reachable_mono [OF g])
    have r1: "reachable own (w_heap w1) \<subseteq> reachable own (w_heap w)" by (rule reachable_mono [OF A(2)])
    have "own \<subseteq> reachable own (w_heap w0)" by (simp add: reachable_def)
    then have "\<forall>a \<in> own. w_mem ?w2 a = w_mem w1 a" using sub eb o unfolding A(3) by blast
    then have I2: "inv (x, ?w2)"
      using inv_heap [OF A(1)] by (intro inv_frame [OF A(1)]) simp_all
    have eh: "block ?e 8 \<inter> block ehdr 64 = {}" using eb hb(1) by blast
    have dis: "block ?e 4 \<inter> block (?e + 4) 4 = {}" using block_add_disjoint [of 4 4 4 ?e] by simp
    have "mem_get (w_mem ?w2) ?e 4 = mem_get (w_mem w) ?e 4"
      by (rule mem_get_other) (use dis o in blast, simp)
    from loads_eqI(3) [OF this] have e1: "edata_ehdr (w_mem ?w2) ?e = ehdr" using hp(1) by (simp add: edata_ehdr_def)
    have e2: "edata_phdr (w_mem ?w2) ?e = phdr" by (simp add: edata_phdr_def)
    have e3: "mem_get (w_mem ?w2) ehdr 64 = map c [0..<64]"
      unfolding hp(2) [symmetric] by (rule mem_get_other) (use sub eh o in blast, simp)
    let ?r = "rd f phdr ?tot (eh_phoff (file_ehdr c)) (x, ?w2)"
    have F: "elf_prepare_phdrs rd exec (x, w) = bnd ?r (\<lambda>(n, x, w).
            if n \<noteq> ?tot then elf_prep_fail_2 exec (x, w)
            else if elf_phdr_check (w_mem w) ?e \<noteq> 0 then elf_prep_fail_2 exec (x, w)
            else Inr (0, exec\<lparr>ex_entrypoint := eh_entry (elf_header_at (w_mem w) (edata_ehdr (w_mem w) ?e))\<rparr>, x, w))"
      unfolding E q by (simp add: Let_def) (simp only: e1 [simplified] ehdr_in_memory [OF e3, simplified])
    note S = rd_spec [of x ?w2 "eh_phoff (file_ehdr c)" ?tot phdr, unfolded tot, OF I2 R]
    have pb: "block phdr (phdr_bytes c) \<inter> reachable own (w_heap ?w2) = {}" using A(5) by simp
    show ?thesis
    proof (cases ?r)
      case (Inl e)
      then show ?thesis using S [OF pb] by (simp add: F)
    next
      case (Inr q')
      obtain n x' w' where q': "?r = Inr (n, x', w')" using Inr by (cases q') auto
      have s: "n = ?tot" "inv (x', w')" "heap_grown (w_heap w1) (w_heap w')"
        "mem_get (w_mem w') phdr (phdr_bytes c) =
          map c [unat (eh_phoff (file_ehdr c))..<unat (eh_phoff (file_ehdr c)) + phdr_bytes c]"
        "\<forall>a. a \<notin> block phdr (phdr_bytes c) \<union> reachable own (w_heap w1) \<longrightarrow> w_mem w' a = w_mem ?w2 a"
        using S [OF pb] q' c by auto
      have kept: "w_mem w' a = w_mem ?w2 a" if "a \<in> block ?e 8 \<union> block ehdr 64" for a
        using that s(5) A(6) r0 r1 eb hb(2) by blast
      have t: "edata_ehdr (w_mem w') ?e = ehdr" "edata_phdr (w_mem w') ?e = phdr"
        "mem_get (w_mem w') ehdr 64 = map c [0..<64]"
      proof -
        have "mem_get (w_mem w') ?e 8 = mem_get (w_mem ?w2) ?e 8"
          by (rule mem_get_other) (use kept in blast, simp)
        from loads_part(3) [OF this, of 0] loads_part(3) [OF this, of 4]
        show "edata_ehdr (w_mem w') ?e = ehdr" "edata_phdr (w_mem w') ?e = phdr"
          using e1 e2 by (simp_all add: edata_ehdr_def edata_phdr_def)
        show "mem_get (w_mem w') ehdr 64 = map c [0..<64]"
          unfolding e3 [symmetric] by (rule mem_get_other) (use kept in blast, simp)
      qed
      have tab: "elf_tables c (w_mem w') ?e" using t s(4) by (simp add: elf_tables_def)
      have area: "table_area c (w_mem w') ?e = block ?e 8 \<union> block ehdr 64 \<union> block phdr (phdr_bytes c)"
        by (simp add: table_area_def t)
      have fr: "w_mem w' a = w_mem w a" if "a \<notin> block ?e 8 \<union> reachable own (w_heap w0)" for a
      proof -
        have "a \<notin> block phdr (phdr_bytes c) \<union> reachable own (w_heap w1)" "a \<notin> block (?e + 4) 4"
          using that A(6) r0 r1 sub by blast+
        then show ?thesis using s(5) o by metis
      qed
      have r2: "reachable own (w_heap w') \<subseteq> reachable own (w_heap w1)" by (rule reachable_mono [OF s(3)])
      show ?thesis
      proof (cases "list_all (\<lambda>p. 0x100000 \<le> ph_vaddr p) (file_segments c)")
        case True
        then have "elf_prepare_phdrs rd exec (x, w) =
            Inr (0, exec\<lparr>ex_entrypoint := eh_entry (file_ehdr c)\<rparr>, x', w')"
          using q' s(1) t ehdr_in_memory [OF t(3)] by (simp add: F phdr_check [OF tab K])
        moreover have "table_area c (w_mem w') ?e \<inter> reachable own (w_heap w') = {}"
          using r0 r1 r2 eb hb(2) A(5) by (simp add: area) blast
        moreover have "table_area c (w_mem w') ?e \<subseteq> block ?e 8 \<union> reachable own (w_heap w0)"
          using hb(1) A(6) r0 by (simp add: area) blast
        moreover have "heap_grown (w_heap w0) (w_heap w')"
          by (rule heap_grown_trans [OF g heap_grown_trans [OF A(2) s(3)]])
        ultimately show ?thesis using True s(2) tab fr by simp
      next
        case False
        have al: "alloc (w_heap w) ?tot 0 = Inr (phdr, w_heap w1)"
          using q by (auto simp: walloc_def res_simps split: prod.splits)
        obtain h3 where h3: "free (w_heap w') phdr = Inr h3" "heap_grown (w_heap w) h3"
          using heap_grown_free [OF _ al s(3)] inv_heap [OF I] by blast
        have r3: "reachable own h3 \<subseteq> reachable own (w_heap w)" by (rule reachable_mono [OF h3(2)])
        have "inv (x', w'\<lparr>w_heap := h3\<rparr>)"
          using h3(2) inv_heap [OF I] by (intro inv_frame [OF s(2)]) (auto simp: heap_grown_def)
        then have "header_read h0 w0 exec ehdr (x', w'\<lparr>w_heap := h3\<rparr>)"
          using H t r3 heap_grown_trans [OF _ h3(2)] c by (auto simp: header_read_def)
        from fail_1 [OF this] show ?thesis
          using False q' s(1) h3(1) t(2) fr
          by (auto simp: F phdr_check [OF tab K] elf_prep_fail_2_def wfree_def)
      qed
    qed
  qed
qed

lemma prepare:
  assumes I: "inv (x, w)" and f: "ex_file exec = f" and c: "c = contents"
    and h0: "heap_inv h0" "own \<inter> {a. unat a \<in> free_bytes h0} = {}"
      "alloc h0 8 0 = Inr (ex_data exec, h1)" "heap_grown h1 (w_heap w)"
    and eb: "block (ex_data exec) 8 \<inter> reachable own (w_heap w) = {}"
    and R: "readable 0 64"
      "elf_header_ok c \<Longrightarrow> phdrs_packed c \<and> readable (unat (eh_phoff (file_ehdr c))) (phdr_bytes c)"
  shows "case elf_prepare rd exec (x, w) of
      Inl e \<Rightarrow> e = Panic
    | Inr (r, exec', x', w') \<Rightarrow> inv (x', w') \<and>
        (\<forall>a. a \<notin> block (ex_data exec) 8 \<union> reachable own (w_heap w) \<longrightarrow> w_mem w' a = w_mem w a) \<and>
        (if elf_accepts c
         then r = 0 \<and> exec' = exec\<lparr>ex_entrypoint := eh_entry (file_ehdr c)\<rparr> \<and> heap_grown (w_heap w) (w_heap w') \<and>
           elf_tables c (w_mem w') (ex_data exec) \<and>
           table_area c (w_mem w') (ex_data exec) \<inter> reachable own (w_heap w') = {} \<and>
           table_area c (w_mem w') (ex_data exec) \<subseteq> block (ex_data exec) 8 \<union> reachable own (w_heap w)
         else r = -1 \<and> exec' = exec \<and> heap_grown h0 (w_heap w'))"
proof -
  let ?e = "ex_data exec"
  have u64: "unat sizeof_elf_header = 64" by (simp add: sizeof_elf_header_def)
  show ?thesis
  proof (cases "walloc sizeof_elf_header 0 w")
    case (Inl e)
    then have "e = Panic" using alloc_Inl by (auto simp: walloc_def res_simps)
    then show ?thesis using Inl by (simp add: elf_prepare_def)
  next
    case (Inr q)
    obtain ehdr w1 where q: "walloc sizeof_elf_header 0 w = Inr (ehdr, w1)" using Inr by (cases q) auto
    note A = inv_alloc [OF I q, unfolded u64]
    have al: "alloc (w_heap w) 64 0 = Inr (ehdr, w_heap w1)"
      using q by (auto simp: walloc_def res_simps sizeof_elf_header_def split: prod.splits)
    let ?w2 = "w1\<lparr>w_mem := store32 (w_mem w1) ?e ehdr\<rparr>"
    have sub: "block ?e 4 \<subseteq> block ?e 8" by (rule block_mono) simp
    have o: "w_mem ?w2 a = w_mem w a" if "a \<notin> block ?e 4" for a
      using that A(3) by (simp add: store_other)
    have r1: "reachable own (w_heap w1) \<subseteq> reachable own (w_heap w)" by (rule reachable_mono [OF A(2)])
    have "own \<subseteq> reachable own (w_heap w)" by (simp add: reachable_def)
    then have "\<forall>a \<in> own. w_mem ?w2 a = w_mem w1 a" using sub eb o unfolding A(3) by blast
    then have I2: "inv (x, ?w2)"
      using inv_heap [OF A(1)] by (intro inv_frame [OF A(1)]) simp_all
    have hb: "block ehdr 64 \<inter> reachable own (w_heap ?w2) = {}" using A(5) by simp
    let ?r = "rd f ehdr sizeof_elf_header 0 (x, ?w2)"
    note S = rd_spec [of x ?w2 0 sizeof_elf_header ehdr, unfolded u64, OF I2 _ hb]
    have F: "elf_prepare rd exec (x, w) = bnd ?r (\<lambda>(n, x, w).
            if n \<noteq> sizeof_elf_header then elf_prep_fail_1 exec (x, w)
            else
              let h = elf_header_at (w_mem w) (edata_ehdr (w_mem w) ?e)
              in if eh_class h \<noteq> HOST_ELF_CLASS \<or> eh_data h \<noteq> ELF_DATA_LITTLEENDIAN \<or>
                   eh_machine h \<noteq> HOST_ELF_MACHINE then elf_prep_fail_1 exec (x, w)
                 else if eh_type h \<noteq> ELF_TYPE_EXEC then elf_prep_fail_1 exec (x, w)
                 else if eh_entry h < 0x100000 then elf_prep_fail_1 exec (x, w)
                 else elf_prepare_phdrs rd exec (x, w))"
      by (simp add: elf_prepare_def f q Let_def)
    show ?thesis
    proof (cases ?r)
      case (Inl e)
      then show ?thesis using S R(1) by (simp add: F)
    next
      case (Inr q')
      obtain n x' w' where q': "?r = Inr (n, x', w')" using Inr by (cases q') auto
      have s: "n = sizeof_elf_header" "inv (x', w')" "heap_grown (w_heap w1) (w_heap w')"
        "mem_get (w_mem w') ehdr 64 = map c [0..<64]"
        "\<forall>a. a \<notin> block ehdr 64 \<union> reachable own (w_heap w1) \<longrightarrow> w_mem w' a = w_mem ?w2 a"
        using S R(1) q' c by auto
      have "edata_ehdr (w_mem w') ?e = edata_ehdr (w_mem ?w2) ?e"
      proof -
        have "mem_get (w_mem w') ?e 4 = mem_get (w_mem ?w2) ?e 4"
          by (rule mem_get_other) (use s(5) eb sub A(6) r1 in blast, simp)
        from loads_eqI(3) [OF this] show ?thesis by (simp add: edata_ehdr_def)
      qed
      then have e: "edata_ehdr (w_mem w') ?e = ehdr" by (simp add: edata_ehdr_def)
      have hd: "elf_header_at (w_mem w') ehdr = file_ehdr c" by (rule ehdr_in_memory [OF s(4)])
      have H: "header_read h0 w exec ehdr (x', w')"
        unfolding header_read_def prod.case
        using s e h0 f eb al inv_heap [OF I] A(5,6) reachable_mono [OF s(3), of own] c by blast
      have fr: "w_mem w' a = w_mem w a" if "a \<notin> block ?e 8 \<union> reachable own (w_heap w)" for a
      proof -
        have "a \<notin> block ehdr 64 \<union> reachable own (w_heap w1)" "a \<notin> block ?e 4"
          using that A(6) r1 sub by blast+
        then show ?thesis using s(5) o by metis
      qed
      have F2: "elf_prepare rd exec (x, w) =
          (if elf_header_ok c then elf_prepare_phdrs rd exec (x', w') else elf_prep_fail_1 exec (x', w'))"
        using q' s(1) by (auto simp: F e hd elf_header_ok_def Let_def HOST_ELF_CLASS_def ELF_CLASS_32BIT_def
            ELF_DATA_LITTLEENDIAN_def HOST_ELF_MACHINE_def ELF_MACHINE_X86_def ELF_TYPE_EXEC_def not_less)
      show ?thesis
      proof (cases "elf_header_ok c")
        case True
        then show ?thesis
          using prepare_phdrs [OF H c, OF R(2) [THEN conjunct1] R(2) [THEN conjunct2]] fr
          by (auto simp: F2 elf_accepts_def split: sum.splits)
      next
        case False
        then show ?thesis using fail_1 [OF H] fr by (auto simp: F2 elf_accepts_def)
      qed
    qed
  qed
qed

lemma init_elf:
  assumes I: "inv (x, w)" and i: "exec_elf_init exec0 w = Inr (r, exec, w1)"
  shows "r = 0" and "inv (x, w1)" and "alloc (w_heap w) 8 0 = Inr (ex_data exec, w_heap w1)"
    and "heap_grown (w_heap w) (w_heap w1)"
    and "block (ex_data exec) 8 \<inter> reachable own (w_heap w1) = {}"
    and "block (ex_data exec) 8 \<subseteq> reachable own (w_heap w)"
    and "a \<notin> reachable own (w_heap w) \<Longrightarrow> w_mem w1 a = w_mem w a"
    and "exec = exec0\<lparr>ex_ops := EXEC_FILEFMT_ELF, ex_data_begin := 0xFFFFFFFF, ex_data := ex_data exec\<rparr>"
proof -
  obtain e w' where q: "walloc 8 0 w = Inr (e, w')"
    and x: "exec = exec0\<lparr>ex_ops := EXEC_FILEFMT_ELF, ex_data_begin := 0xFFFFFFFF, ex_data := e\<rparr>"
    and w1: "w1 = w'\<lparr>w_mem := mem_put (w_mem w') e (replicate 8 0)\<rparr>" and "r = 0"
    using i by (auto simp: exec_elf_init_def res_simps sizeof_exec_elf_data_def Let_def split: prod.splits)
  have e: "ex_data exec = e" by (simp add: x)
  have u8: "unat (8 :: u32) = 8" by simp
  note A = inv_alloc [OF I q, unfolded u8]
  show "r = 0" by fact
  have o: "w_mem w1 a = w_mem w a" if "a \<notin> block e 8" for a
    using mem_put_other [of a e "replicate 8 0" "w_mem w'"] that A(3) by (simp add: w1)
  then show "inv (x, w1)"
    using A(3,7) inv_heap [OF A(1)] by (intro inv_frame [OF A(1)]) (auto simp: w1)
  show "alloc (w_heap w) 8 0 = Inr (ex_data exec, w_heap w1)"
    using q by (auto simp: walloc_def res_simps w1 e split: prod.splits)
  show "heap_grown (w_heap w) (w_heap w1)" using A(2) by (simp add: w1)
  show "block (ex_data exec) 8 \<inter> reachable own (w_heap w1) = {}" using A(5) by (simp add: w1 e)
  show "block (ex_data exec) 8 \<subseteq> reachable own (w_heap w)" using A(6) by (simp add: e)
  then show "a \<notin> reachable own (w_heap w) \<Longrightarrow> w_mem w1 a = w_mem w a" using o by (auto simp: e)
  show "exec = exec0\<lparr>ex_ops := EXEC_FILEFMT_ELF, ex_data_begin := 0xFFFFFFFF, ex_data := ex_data exec\<rparr>"
    by (simp add: x)
qed

lemma init_prepare:
  assumes I: "inv (x, w)" and i: "exec_elf_init exec0 w = Inr (r, exec, w1)" and f: "ex_file exec0 = f"
    and R: "readable 0 64"
      "elf_header_ok contents \<Longrightarrow>
         phdrs_packed contents \<and> readable (unat (eh_phoff (file_ehdr contents))) (phdr_bytes contents)"
  shows "case elf_prepare rd exec (x, w1) of
      Inl e \<Rightarrow> e = Panic
    | Inr (r, exec', x', w') \<Rightarrow> inv (x', w') \<and> heap_grown (w_heap w) (w_heap w') \<and>
        (\<forall>a. a \<notin> reachable own (w_heap w) \<longrightarrow> w_mem w' a = w_mem w a) \<and>
        (if elf_accepts contents
         then r = 0 \<and> exec' = exec\<lparr>ex_entrypoint := eh_entry (file_ehdr contents)\<rparr> \<and>
           elf_tables contents (w_mem w') (ex_data exec) \<and>
           table_area contents (w_mem w') (ex_data exec) \<inter> reachable own (w_heap w') = {} \<and>
           table_area contents (w_mem w') (ex_data exec) \<subseteq> reachable own (w_heap w)
         else r = -1 \<and> exec' = exec)"
proof -
  note P = init_elf [OF I i]
  have f': "ex_file exec = f" by (subst P(8)) (simp add: f)
  have h: "heap_inv (w_heap w)" "own \<inter> {a. unat a \<in> free_bytes (w_heap w)} = {}" "heap_inv (w_heap w1)"
    using inv_heap [OF I] inv_heap [OF P(2)] by auto
  note Q = prepare [OF P(2) f' refl h(1,2) P(3) heap_grown_refl [OF h(3)] P(5) R]
  show ?thesis
  proof (cases "elf_prepare rd exec (x, w1)")
    case (Inl e)
    then show ?thesis using Q by simp
  next
    case (Inr q)
    obtain r' exec' x' w' where q: "q = (r', exec', x', w')" by (cases q)
    have fr: "w_mem w' a = w_mem w a" if "a \<notin> reachable own (w_heap w)" for a
      using Q Inr q that P(6) P(7) [OF that] reachable_mono [OF P(4), of own] by auto
    show ?thesis
      using Q Inr q fr heap_grown_trans [OF P(4), of "w_heap w'"] P(6) reachable_mono [OF P(4), of own]
      by (cases "elf_accepts contents") auto
  qed
qed

lemma prepare_load:
  assumes I: "inv (x, w)" and i: "exec_elf_init exec0 w = Inr (r, exec, w1)" and f: "ex_file exec0 = f"
    and R: "readable 0 64" "readable (unat (eh_phoff (file_ehdr contents))) (phdr_bytes contents)"
    and acc: "elf_accepts contents" "phdrs_packed contents"
    and fits: "list_all (segment_fits readable) (file_segments contents)"
    and S: "\<forall>p \<in> set (file_segments contents). segment_block p \<inter> reachable own (w_heap w) = {}"
    and D: "sorted_wrt (\<lambda>p q. segment_block p \<inter> segment_block q = {}) (file_segments contents)"
  shows "case bnd (elf_prepare rd exec (x, w1)) (\<lambda>(r, exec, s). elf_load rd exec s) of
      Inl e \<Rightarrow> e = Panic
    | Inr (r, exec', x', w') \<Rightarrow> r = 0 \<and> inv (x', w') \<and> heap_grown (w_heap w) (w_heap w') \<and>
        exec' = fold extend_range (file_segments contents) (exec\<lparr>ex_entrypoint := eh_entry (file_ehdr contents)\<rparr>) \<and>
        list_all (segment_loaded contents (w_mem w')) (file_segments contents) \<and>
        (\<forall>a. a \<notin> (\<Union>p \<in> set (file_segments contents). segment_block p) \<union> reachable own (w_heap w) \<longrightarrow>
           w_mem w' a = w_mem w a)"
proof (cases "elf_prepare rd exec (x, w1)")
  case (Inl e)
  then show ?thesis using init_prepare [OF I i f R(1)] R(2) acc by simp
next
  case (Inr q)
  obtain r' exec' x' w' where q: "q = (r', exec', x', w')" by (cases q)
  have p: "inv (x', w')" "heap_grown (w_heap w) (w_heap w')"
    "\<forall>a. a \<notin> reachable own (w_heap w) \<longrightarrow> w_mem w' a = w_mem w a"
    "exec' = exec\<lparr>ex_entrypoint := eh_entry (file_ehdr contents)\<rparr>"
    "elf_tables contents (w_mem w') (ex_data exec)"
    "table_area contents (w_mem w') (ex_data exec) \<inter> reachable own (w_heap w') = {}"
    "table_area contents (w_mem w') (ex_data exec) \<subseteq> reachable own (w_heap w)"
    using init_prepare [OF I i f R(1)] R(2) acc Inr q by auto
  have "ex_file exec = f" by (subst init_elf(8) [OF I i]) (simp add: f)
  then have f': "ex_file exec' = f" by (simp add: p(4))
  have d: "ex_data exec' = ex_data exec" by (simp add: p(4))
  have S': "segment_block p \<inter> (reachable own (w_heap w') \<union> table_area contents (w_mem w') (ex_data exec')) = {}"
    if "p \<in> set (file_segments contents)" for p
    using S that p(7) reachable_mono [OF p(2), of own] unfolding d by blast
  note L = load_phdr [OF p(1) f' refl p(5) [folded d] acc(2) p(6) [folded d] fits S' D]
  show ?thesis
  proof (cases "elf_load_phdr rd 0 exec' (x', w')")
    case (Inl e)
    then show ?thesis using L \<open>elf_prepare rd exec (x, w1) = Inr q\<close> q by (simp add: elf_load_def)
  next
    case (Inr q2)
    obtain r2 exec2 x2 w2 where q2: "q2 = (r2, exec2, x2, w2)" by (cases q2)
    have l: "r2 = 0" "exec2 = fold extend_range (file_segments contents) exec'" "inv (x2, w2)"
      "heap_grown (w_heap w') (w_heap w2)" "list_all (segment_loaded contents (w_mem w2)) (file_segments contents)"
      "\<forall>a. a \<notin> (\<Union>p \<in> set (file_segments contents). segment_block p) \<union> reachable own (w_heap w') \<longrightarrow>
         w_mem w2 a = w_mem w' a"
      using L Inr q2 by simp_all
    have fr: "w_mem w2 a = w_mem w a"
      if "a \<notin> (\<Union>p \<in> set (file_segments contents). segment_block p) \<union> reachable own (w_heap w)" for a
    proof -
      have "w_mem w2 a = w_mem w' a" using that l(6) reachable_mono [OF p(2), of own] by blast
      then show ?thesis using that p(3) by simp
    qed
    have "elf_load rd exec' (x', w') = Inr (0, exec2, x2, w2)" by (rule elf_load_ok) (simp add: Inr q2 l(1))
    then show ?thesis
      unfolding \<open>elf_prepare rd exec (x, w1) = Inr q\<close> q
      using l(2,3,5) p(4) heap_grown_trans [OF p(2) l(4)] fr by simp
  qed
qed

end

section \<open>Properties\<close>



text \<open>A medium with an ELF file of one segment.\<close>

definition example_elf :: "u8 list" where
  "example_elf = [0x7f, 0x45, 0x4c, 0x46, 1, 1, 1, 0, 0, 0, 0, 0, 0, 0, 0, 0,
     2, 0, 3, 0, 1, 0, 0, 0, 0, 0, 0x10, 0, 64, 0, 0, 0,
     0, 0, 0, 0, 0, 0, 0, 0, 52, 0, 32, 0, 1, 0, 0, 0,
     0, 0, 0, 0, 0, 0, 0, 0, 0, 0, 0, 0, 0, 0, 0, 0,
     1, 0, 0, 0, 0, 2, 0, 0, 0, 0, 0x10, 0, 0, 0, 0x10, 0,
     16, 0, 0, 0, 32, 0, 0, 0, 5, 0, 0, 0, 0, 0x10, 0, 0]"

definition example_elf_disk :: "nat \<Rightarrow> u8" where
  "example_elf_disk n = (if 16896 \<le> n \<and> n < 16992 then example_elf ! (n - 16896) else example_img n)"

definition elf_world :: "floppy world" where
  "elf_world = \<lparr>w_mem = (\<lambda>_. 0), w_heap = example_heap, w_if = True,
     w_dev = \<lparr>fd_img = example_elf_disk, fd_fails = [], fd_pic = (\<lambda>_. 0xff)\<rparr>\<rparr>"

lemma example_elf_bytes:
  "p < 96 \<Longrightarrow> file_byte example_fat_data example_elf_disk 16896 p = example_elf ! p"
  by (simp add: file_byte_def example_fat_data_def example_elf_disk_def)

lemma example_elf_header:
  "file_ehdr (file_byte example_fat_data example_elf_disk 16896) =
    \<lparr>eh_magic = 0x464c457f, eh_class = 1, eh_data = 1, eh_type = 2, eh_machine = 3, eh_version = 1,
     eh_entry = 0x100000, eh_phoff = 64, eh_shoff = 0, eh_flags = 0, eh_ehsize = 52, eh_phentsize = 32,
     eh_phnum = 1\<rparr>"
  unfolding file_ehdr_def elf_header_at_def load8_def load16_def load32_def file_image_def
  by (simp add: example_elf_bytes) (simp add: example_elf_def)

lemma example_elf_segments:
  "file_segments (file_byte example_fat_data example_elf_disk 16896) =
    [\<lparr>ph_type = 1, ph_offset = 512, ph_vaddr = 0x100000, ph_paddr = 0x100000, ph_filesz = 16, ph_memsz = 32,
      ph_flags = 5, ph_align = 0x1000\<rparr>]"
proof -
  have "file_phdr (file_byte example_fat_data example_elf_disk 16896) 0 =
    \<lparr>ph_type = 1, ph_offset = 512, ph_vaddr = 0x100000, ph_paddr = 0x100000, ph_filesz = 16, ph_memsz = 32,
      ph_flags = 5, ph_align = 0x1000\<rparr>"
    unfolding file_phdr_def elf32_phdr_at_def load32_def file_image_def
    by (simp add: example_elf_bytes example_elf_header) (simp add: example_elf_def)
  then show ?thesis
    by (simp add: segments_from_def file_phnum_def example_elf_header ELF_PHDR_TYPE_LOAD_def)
qed

lemma example_elf_inv: "fat_inv fd_img floppy_cap (\<lambda>d. fd_fails d = []) example_fat_data example_elf_disk (example_fat_data, elf_world)"
proof -
  have "cache_ok fd_img example_fat_data elf_world"
    by (simp add: cache_ok_def example_fat_data_def FAT_CACHE_CNT_def nth_Cons')
  moreover have "cache_block example_fat_data \<inter> {a. unat a \<in> free_bytes example_heap} = {}"
  proof -
    have "a \<in> cache_block example_fat_data \<Longrightarrow> 0x90000 \<le> unat a" for a
      using block_interval [of "0x90000" 2048 a] by (simp add: cache_block_def example_fat_data_def FAT_CACHE_CNT_def)
    then show ?thesis using example_heap(6) by force
  qed
  ultimately show ?thesis
    using example_geom example_heap(1) by (simp add: fat_inv_def elf_world_def)
qed

lemma example_elf_chain: "chain_ok floppy_cap example_fat_data example_elf_disk 16896 2"
proof -
  have "next_cluster_at example_fat_data example_elf_disk 16896 = 17408"
    by (simp add: next_cluster_at_def example_fat_data_def cluster_number_def fat_entry_at_def
        example_elf_disk_def example_img_def Let_def)
  then show ?thesis
    by (simp add: numeral_2_eq_2 chain_ok_Suc)
      (simp add: chain_ok_def cluster_ok_def example_fat_data_def floppy_cap_def entry_in_fat_def
        cluster_number_def)
qed

lemma example_elf_readable:
  "off mod 512 = 0 \<or> off mod 512 + sz \<le> 512 \<Longrightarrow> off + sz \<le> 600 \<Longrightarrow>
   fat_readable floppy_cap example_fat_data example_elf_disk example_file off sz"
  unfolding fat_readable_def
  by (rule exI [of _ 2]) (use example_elf_chain in \<open>auto simp: example_file_def example_fat_data_def\<close>)

lemma example_elf_init: "\<exists>exec w1. exec_elf_init exec0 elf_world = Inr (0, exec, w1)"
proof -
  have "isl (alloc example_heap 8 0) = False" unfolding example_heap_def by code_simp
  then show ?thesis
    by (cases "alloc example_heap 8 0")
      (auto simp: exec_elf_init_def Let_def walloc_def elf_world_def sizeof_exec_elf_data_def)
qed


definition example_exec :: exec_hand where
  "example_exec = \<lparr>ex_fmt = EXEC_FILEFMT_ELF, ex_data = 0, ex_data_begin = 0, ex_data_end = 0,
     ex_entrypoint = 0, ex_multiboot = 0, ex_file = example_file, ex_ops = EXEC_FILEFMT_NONE\<rparr>"

lemma example_exec_file: "ex_file example_exec = example_file"
  by (simp add: example_exec_def)

lemma example_elf_facts:
  "phdrs_packed (file_byte example_fat_data example_elf_disk 16896)"
  "elf_accepts (file_byte example_fat_data example_elf_disk 16896)"
  "phdr_bytes (file_byte example_fat_data example_elf_disk 16896) = 32"
  by (simp_all add: phdrs_packed_def elf_accepts_def elf_header_ok_def phdr_bytes_def file_phnum_def
      sizeof_elf32_phdr_def example_elf_header example_elf_segments)




end
