(* ===== verification/Multiboot.thy ===== *)
theory Multiboot
  imports Config Stores Storage_Bios
begin

text \<open>
  The Multiboot 2 information structure of \<^verbatim>\<open>src/exec/multiboot.c\<close>, with the structures of
  \<^verbatim>\<open>inc/exec/multiboot_types.h\<close>. The header of the kernel and the information structure are bytes of
  the memory; the strings of the configuration are copies beside it. The loops over the header
  tags and over the memory map end when the kernel's header and the BIOS say so, and take fuel.
\<close>

unbundle bit_operations_syntax

section \<open>Structures\<close>

definition MULTIBOOT1_HEAD_MAGIC :: u32 where "MULTIBOOT1_HEAD_MAGIC = 0x1BADB002"
definition MULTIBOOT2_HEAD_MAGIC :: u32 where "MULTIBOOT2_HEAD_MAGIC = 0xE85250D6"
definition MULTIBOOT2_HEAD_ARCHITECTURE_X86 :: u32 where "MULTIBOOT2_HEAD_ARCHITECTURE_X86 = 0"
definition MULTIBOOT2_TAG_FLAG_OPTIONAL :: u32 where "MULTIBOOT2_TAG_FLAG_OPTIONAL = push_bit 0 1"
definition MULTIBOOT2_PREALLOC :: u32 where "MULTIBOOT2_PREALLOC = 1024"

definition MULTIBOOT2_TAGTYPE_CMDLINE :: u32 where "MULTIBOOT2_TAGTYPE_CMDLINE = 1"
definition MULTIBOOT2_TAGTYPE_BOOTLOADER_NAME :: u32 where "MULTIBOOT2_TAGTYPE_BOOTLOADER_NAME = 2"
definition MULTIBOOT2_TAGTYPE_MODULE :: u32 where "MULTIBOOT2_TAGTYPE_MODULE = 3"
definition MULTIBOOT2_TAGTYPE_BASIC_MEMINFO :: u32 where "MULTIBOOT2_TAGTYPE_BASIC_MEMINFO = 4"
definition MULTIBOOT2_TAGTYPE_MMAP :: u32 where "MULTIBOOT2_TAGTYPE_MMAP = 6"
definition MULTIBOOT2_TAGTYPE_ACPI_OLD :: u32 where "MULTIBOOT2_TAGTYPE_ACPI_OLD = 14"
definition MULTIBOOT2_TAGTYPE_ACPI_NEW :: u32 where "MULTIBOOT2_TAGTYPE_ACPI_NEW = 15"

definition MULTIBOOT2_HEADERTAG_END :: u16 where "MULTIBOOT2_HEADERTAG_END = 0"
definition MULTIBOOT2_HEADERTAG_INFORMATION_REQUEST :: u16 where
  "MULTIBOOT2_HEADERTAG_INFORMATION_REQUEST = 1"

text \<open>\<open>multiboot2_head_t\<close>, 16 bytes and the tags, and \<open>multiboot2_tag_t\<close>, 8 bytes and the data.\<close>

record multiboot2_head =
  mh_magic :: u32
  mh_architecture :: u32
  mh_header_length :: u32
  mh_checksum :: u32

definition sizeof_multiboot2_head :: u32 where "sizeof_multiboot2_head = 16"

definition multiboot2_head_at :: "memory \<Rightarrow> u32 \<Rightarrow> multiboot2_head" where
  "multiboot2_head_at m a =
     \<lparr>mh_magic = load32 m (a + 0), mh_architecture = load32 m (a + 4),
      mh_header_length = load32 m (a + 8), mh_checksum = load32 m (a + 12)\<rparr>"

record multiboot2_tag =
  mt_type :: u16
  mt_flags :: u16
  mt_size :: u32

definition sizeof_multiboot2_tag :: u32 where "sizeof_multiboot2_tag = 8"

definition multiboot2_tag_at :: "memory \<Rightarrow> u32 \<Rightarrow> multiboot2_tag" where
  "multiboot2_tag_at m a =
     \<lparr>mt_type = load16 m (a + 0), mt_flags = load16 m (a + 2), mt_size = load32 m (a + 4)\<rparr>"

definition sizeof_multiboot2_tag_module :: u32 where "sizeof_multiboot2_tag_module = 16"
definition sizeof_multiboot2_tag_basicmem :: u32 where "sizeof_multiboot2_tag_basicmem = 16"
definition sizeof_multiboot2_tag_mmap :: u32 where "sizeof_multiboot2_tag_mmap = 16"
definition sizeof_multiboot2_mmap_entry :: u32 where "sizeof_multiboot2_mmap_entry = 24"
definition sizeof_bios_mmap_entry :: u32 where "sizeof_bios_mmap_entry = 20"

definition NEXT_TAG :: "memory \<Rightarrow> u32 \<Rightarrow> u32" where
  "NEXT_TAG m t =
     (let sz = mt_size (multiboot2_tag_at m t)
      in t + sz + (if sz mod 8 \<noteq> 0 then 8 - sz mod 8 else 0))"

definition bootloader_name :: "u8 list" where "bootloader_name = cstr ''LBoot''"

text \<open>A store into the memory of the machine, and \<open>strcpy\<close> into it.\<close>

definition wput :: "u32 \<Rightarrow> u8 list \<Rightarrow> 'd world \<Rightarrow> 'd world" where
  "wput a bs w = w\<lparr>w_mem := mem_put (w_mem w) a bs\<rparr>"

definition wstrcpy :: "u32 \<Rightarrow> u8 list \<Rightarrow> 'd world \<Rightarrow> 'd world res" where
  "wstrcpy a s w =
     bnd (strlen s) (\<lambda>n.
     bnd (strcpy (mem_get (w_mem w) a (n + 1)) s) (\<lambda>bs. Inr (wput a bs w)))"

section \<open>Tags without the BIOS\<close>

definition poptag_cmdline :: "config_data \<Rightarrow> u32 \<Rightarrow> 'd world \<Rightarrow> (u32 \<times> 'd world) res" where
  "poptag_cmdline cfg tag w =
     (case cd_kernel_cmdline cfg of
        None \<Rightarrow> Inr (tag, w)
      | Some (_, s) \<Rightarrow>
          bnd (strlen s) (\<lambda>n.
          let w = wput tag (le16 (ucast MULTIBOOT2_TAGTYPE_CMDLINE)) w;
              w = wput (tag + 4) (le32 (sizeof_multiboot2_tag + of_nat n + 1)) w
          in bnd (wstrcpy (tag + 8) s w) (\<lambda>w. Inr (NEXT_TAG (w_mem w) tag, w))))"

definition poptag_name :: "u32 \<Rightarrow> 'd world \<Rightarrow> (u32 \<times> 'd world) res" where
  "poptag_name tag w =
     bnd (strlen bootloader_name) (\<lambda>n.
     let w = wput tag (le16 (ucast MULTIBOOT2_TAGTYPE_BOOTLOADER_NAME)) w;
         w = wput (tag + 4) (le32 (sizeof_multiboot2_tag + of_nat n + 1)) w
     in bnd (wstrcpy (tag + 8) bootloader_name w) (\<lambda>w. Inr (NEXT_TAG (w_mem w) tag, w)))"

definition poptag_module :: "config_module \<Rightarrow> u32 \<Rightarrow> 'd world \<Rightarrow> (int \<times> 'd world) res" where
  "poptag_module md tag w =
     (case cm_name md of
        None \<Rightarrow> Inl Fault
      | Some (_, s) \<Rightarrow>
          bnd (strlen s) (\<lambda>n.
          let w = wput tag (le32 MULTIBOOT2_TAGTYPE_MODULE) w;
              w = wput (tag + 4) (le32 (sizeof_multiboot2_tag_module + of_nat n + 1)) w;
              w = wput (tag + 8) (le32 (cm_addr md)) w;
              w = wput (tag + 12) (le32 (cm_addr md + cm_size md)) w
          in bnd (wstrcpy (tag + 16) s w) (\<lambda>w. Inr (0, w))))"

text \<open>The loop over the modules, from the \<open>i\<close>th on: the result is whether it ended.\<close>

function poptag_modules :: "config_data \<Rightarrow> nat \<Rightarrow> u32 \<Rightarrow> 'd world \<Rightarrow> (bool \<times> u32 \<times> 'd world) res" where
  "poptag_modules cfg i tag w =
     (if i < unat (cd_module_count cfg) then
        if i < length (cd_modules cfg) then
          bnd (poptag_module (cd_modules cfg ! i) tag w) (\<lambda>(r, w).
            if r \<noteq> 0 then Inr (False, tag, w)
            else poptag_modules cfg (Suc i) (NEXT_TAG (w_mem w) tag) w)
        else Inl Fault
      else Inr (True, tag, w))"
  by pat_completeness auto
termination by (relation "measure (\<lambda>(cfg, i, tag, w). unat (cd_module_count cfg) - i)") auto

declare poptag_modules.simps [simp del]

section \<open>Tags from the BIOS\<close>

text \<open>\<open>stk\<close> is what the stack holds where the uninitialised \<open>call\<close> is.\<close>

definition poptag_meminfo :: "'d hardware \<Rightarrow> bios_regs \<Rightarrow> u32 \<Rightarrow> 'd world \<Rightarrow> int \<times> 'd world" where
  "poptag_meminfo hw stk tag w =
     (let w = wput tag (le32 MULTIBOOT2_TAGTYPE_BASIC_MEMINFO) w;
          w = wput (tag + 4) (le32 sizeof_multiboot2_tag_basicmem) w;
          (call, w) = bios_call hw (stk\<lparr>bc_int_n := 0x12\<rparr>) w;
          w = wput (tag + 8) (le32 (if bc_eflags call AND EFLAGS_CF \<noteq> 0 then 640
                                    else bc_eax call AND 0xFFFF)) w;
          (call, w) = bios_call hw (call\<lparr>bc_int_n := 0x15, bc_eax := set_high 0x88 (bc_eax call)\<rparr>) w
      in if bc_eflags call AND EFLAGS_CF \<noteq> 0 then (-1, w)
         else (0, wput (tag + 12) (le32 (bc_eax call AND 0xFFFF)) w))"

definition BIOS_MMAP_TYPE_AVAILABLE :: u32 where "BIOS_MMAP_TYPE_AVAILABLE = 1"
definition BIOS_MMAP_TYPE_ACPIRECLAIM :: u32 where "BIOS_MMAP_TYPE_ACPIRECLAIM = 3"
definition BIOS_MMAP_TYPE_ACPINVS :: u32 where "BIOS_MMAP_TYPE_ACPINVS = 4"
definition MULTIBOOT2_MMAP_TYPE_RESERVED :: u32 where "MULTIBOOT2_MMAP_TYPE_RESERVED = 0"
definition MULTIBOOT2_MMAP_TYPE_AVAILABLE :: u32 where "MULTIBOOT2_MMAP_TYPE_AVAILABLE = 1"
definition MULTIBOOT2_MMAP_TYPE_ACPI :: u32 where "MULTIBOOT2_MMAP_TYPE_ACPI = 3"
definition MULTIBOOT2_MMAP_TYPE_PRESERVE :: u32 where "MULTIBOOT2_MMAP_TYPE_PRESERVE = 4"

definition mmap_type :: "u32 \<Rightarrow> u32" where
  "mmap_type t =
     (if t = BIOS_MMAP_TYPE_AVAILABLE then MULTIBOOT2_MMAP_TYPE_AVAILABLE
      else if t = BIOS_MMAP_TYPE_ACPIRECLAIM then MULTIBOOT2_MMAP_TYPE_ACPI
      else if t = BIOS_MMAP_TYPE_ACPINVS then MULTIBOOT2_MMAP_TYPE_PRESERVE
      else MULTIBOOT2_MMAP_TYPE_RESERVED)"

text \<open>The entry number \<open>idx\<close> of the map, copied from the BIOS entry at \<open>e\<close>.\<close>

definition copy_mmap_entry :: "u32 \<Rightarrow> u32 \<Rightarrow> nat \<Rightarrow> 'd world \<Rightarrow> 'd world" where
  "copy_mmap_entry e tag idx w =
     (let d = tag + sizeof_multiboot2_tag_mmap + of_nat idx * sizeof_multiboot2_mmap_entry;
          w = wput d (mem_get (w_mem w) e 8) w;
          w = wput (d + 8) (mem_get (w_mem w) (e + 8) 8) w
      in wput (d + 16) (le32 (mmap_type (load32 (w_mem w) (e + 16)))) w)"

fun mmap_loop ::
  "'d hardware \<Rightarrow> nat \<Rightarrow> u32 \<Rightarrow> u32 \<Rightarrow> nat \<Rightarrow> bios_regs \<Rightarrow> 'd world \<Rightarrow> 'd world res" where
  "mmap_loop hw 0 e tag idx call w = Inl Loop"
| "mmap_loop hw (Suc fuel) e tag idx call w =
     (let call = call\<lparr>bc_eax := 0x0000E820, bc_ecx := sizeof_bios_mmap_entry, bc_edx := 0x534D4150,
            bc_edi := set_word (ucast e) (bc_edi call)\<rparr>;
          (call, w) = bios_call hw call w
      in if bc_eflags call AND EFLAGS_CF \<noteq> 0 then Inr w
         else
           let w = copy_mmap_entry e tag idx w;
               w = wput (tag + 4) (le32 (load32 (w_mem w) (tag + 4) + sizeof_multiboot2_mmap_entry)) w
           in if bc_ebx call > 0 then mmap_loop hw fuel e tag (Suc idx) call w else Inr w)"

definition poptag_mmap :: "'d hardware \<Rightarrow> nat \<Rightarrow> u32 \<Rightarrow> 'd world \<Rightarrow> (int \<times> 'd world) res" where
  "poptag_mmap hw fuel tag w =
     (let w = wput tag (le32 MULTIBOOT2_TAGTYPE_MMAP) w;
          w = wput (tag + 4) (le32 sizeof_multiboot2_tag_mmap) w;
          w = wput (tag + 8) (le32 sizeof_multiboot2_mmap_entry) w;
          w = wput (tag + 12) (le32 0) w
      in bnd (alloc (w_heap w) sizeof_bios_mmap_entry ALLOC_FLAG_16B) (\<lambda>(e, h).
         bnd (mmap_loop hw fuel e tag 0 (bios_zero\<lparr>bc_int_n := 0x15, bc_ecx := 0\<rparr>) (w\<lparr>w_heap := h\<rparr>)) (\<lambda>w.
         bnd (free (w_heap w) e) (\<lambda>h. Inr (0, w\<lparr>w_heap := h\<rparr>)))))"

section \<open>The ACPI tables\<close>

definition RSDPv1_SIZE :: nat where "RSDPv1_SIZE = 20"
definition RSDPv2_SIZE :: nat where "RSDPv2_SIZE = 36"
definition ACPI_RSDP_SIGNATURE :: "u8 list" where "ACPI_RSDP_SIGNATURE = cstr ''RSD PTR''"

text \<open>One search region, every 16 bytes from \<open>tst\<close> on, \<open>n\<close> places.\<close>

fun find_rsdp_in :: "memory \<Rightarrow> u32 \<Rightarrow> nat \<Rightarrow> u32 option res" where
  "find_rsdp_in m tst 0 = Inr None"
| "find_rsdp_in m tst (Suc n) =
     bnd (memcmp (mem_get m tst 7) ACPI_RSDP_SIGNATURE 7) (\<lambda>r.
       if r = 0 then Inr (Some tst) else find_rsdp_in m (tst + 16) n)"

text \<open>\<open>_rsdp\<close> is a static pointer of the code: an argument and a result here, 0 for null.\<close>

definition mboot_find_acpi_rsdp :: "memory \<Rightarrow> u32 \<Rightarrow> (int \<times> u32) res" where
  "mboot_find_acpi_rsdp m rsdp =
     bnd (find_rsdp_in m 0x80000 0x2000) (\<lambda>r.
     case r of
       Some tst \<Rightarrow> Inr (0, tst)
     | None \<Rightarrow>
         bnd (find_rsdp_in m 0xE0000 0x2000) (\<lambda>r.
         case r of Some tst \<Rightarrow> Inr (0, tst) | None \<Rightarrow> Inr (-1, rsdp)))"

definition checksum :: "memory \<Rightarrow> u32 \<Rightarrow> nat \<Rightarrow> u8" where
  "checksum m a n = foldl (+) 0 (mem_get m a n)"

definition poptag_acpiold :: "u32 \<Rightarrow> u32 \<Rightarrow> 'd world \<Rightarrow> (int \<times> u32 \<times> 'd world) res" where
  "poptag_acpiold rsdp tag w =
     bnd (if rsdp = 0 then mboot_find_acpi_rsdp (w_mem w) rsdp else Inr (0, rsdp)) (\<lambda>(r, rsdp).
     if r \<noteq> 0 then Inr (-1, rsdp, w)
     else if checksum (w_mem w) rsdp RSDPv1_SIZE \<noteq> 0 then Inr (-1, rsdp, w)
     else
       let w = wput tag (le16 (ucast MULTIBOOT2_TAGTYPE_ACPI_OLD)) w;
           w = wput (tag + 4) (le32 (sizeof_multiboot2_tag + of_nat RSDPv1_SIZE)) w
       in Inr (0, rsdp, w\<lparr>w_mem := mem_copy (w_mem w) (tag + 8) rsdp RSDPv1_SIZE\<rparr>))"

definition poptag_acpinew :: "u32 \<Rightarrow> u32 \<Rightarrow> 'd world \<Rightarrow> (int \<times> u32 \<times> 'd world) res" where
  "poptag_acpinew rsdp tag w =
     bnd (if rsdp = 0 then mboot_find_acpi_rsdp (w_mem w) rsdp else Inr (0, rsdp)) (\<lambda>(r, rsdp).
     if r \<noteq> 0 then Inr (-1, rsdp, w)
     else if load8 (w_mem w) (rsdp + 15) \<noteq> 2 then Inr (-1, rsdp, w)
     else if checksum (w_mem w) rsdp RSDPv1_SIZE \<noteq> 0 then Inr (-1, rsdp, w)
     else if checksum (w_mem w) rsdp RSDPv1_SIZE +
         checksum (w_mem w) (rsdp + of_nat RSDPv1_SIZE) (RSDPv2_SIZE - RSDPv1_SIZE) \<noteq> 0
     then Inr (-1, rsdp, w)
     else
       let w = wput tag (le16 (ucast MULTIBOOT2_TAGTYPE_ACPI_NEW)) w;
           w = wput (tag + 4) (le32 (sizeof_multiboot2_tag + of_nat RSDPv2_SIZE)) w
       in Inr (0, rsdp, w\<lparr>w_mem := mem_copy (w_mem w) (tag + 8) rsdp RSDPv2_SIZE\<rparr>))"

section \<open>The information structure\<close>

text \<open>
  One request: whether the parsing goes on (\<open>goto mboot2_parse_error\<close> otherwise), with the next
  tag and the static pointer.
\<close>

definition mb_request ::
  "'d hardware \<Rightarrow> bios_regs \<Rightarrow> nat \<Rightarrow> config_data \<Rightarrow> u32 \<Rightarrow> u32 \<times> u32 \<times> 'd world
     \<Rightarrow> (bool \<times> u32 \<times> u32 \<times> 'd world) res" where
  "mb_request hw stk fuel cfg req s =
     (case s of (tag, rsdp, w) \<Rightarrow>
      let next_if = (\<lambda>r w. if r = 0 then NEXT_TAG (w_mem w) tag else tag)
      in if req = MULTIBOOT2_TAGTYPE_CMDLINE then
           bnd (poptag_cmdline cfg tag w) (\<lambda>(tag, w). Inr (True, tag, rsdp, w))
         else if req = MULTIBOOT2_TAGTYPE_BOOTLOADER_NAME then
           bnd (poptag_name tag w) (\<lambda>(tag, w). Inr (True, tag, rsdp, w))
         else if req = MULTIBOOT2_TAGTYPE_MODULE then
           bnd (poptag_modules cfg 0 tag w) (\<lambda>(ok, tag, w). Inr (ok, tag, rsdp, w))
         else if req = MULTIBOOT2_TAGTYPE_BASIC_MEMINFO then
           (case poptag_meminfo hw stk tag w of (r, w) \<Rightarrow> Inr (r = 0, next_if r w, rsdp, w))
         else if req = MULTIBOOT2_TAGTYPE_MMAP then
           bnd (poptag_mmap hw fuel tag w) (\<lambda>(r, w). Inr (r = 0, next_if r w, rsdp, w))
         else if req = MULTIBOOT2_TAGTYPE_ACPI_OLD then
           bnd (poptag_acpiold rsdp tag w) (\<lambda>(r, rsdp, w). Inr (True, next_if r w, rsdp, w))
         else if req = MULTIBOOT2_TAGTYPE_ACPI_NEW then
           bnd (poptag_acpinew rsdp tag w) (\<lambda>(r, rsdp, w). Inr (True, next_if r w, rsdp, w))
         else Inr (False, tag, rsdp, w))"

text \<open>The requests of the header tag at \<open>htag\<close>, from the \<open>i\<close>th on.\<close>

function mb_requests ::
  "'d hardware \<Rightarrow> bios_regs \<Rightarrow> nat \<Rightarrow> config_data \<Rightarrow> u32 \<Rightarrow> nat \<Rightarrow> u32 \<times> u32 \<times> 'd world
     \<Rightarrow> (bool \<times> u32 \<times> u32 \<times> 'd world) res" where
  "mb_requests hw stk fuel cfg htag i s =
     (let m = w_mem (snd (snd s))
      in if i < unat ((mt_size (multiboot2_tag_at m htag) - 8) div 4) then
           bnd (mb_request hw stk fuel cfg (load32 m (htag + 8 + of_nat i * 4)) s) (\<lambda>(ok, s).
             if ok then mb_requests hw stk fuel cfg htag (Suc i) s else Inr (False, s))
         else Inr (True, s))"
  by pat_completeness auto
termination
proof (relation "measure (\<lambda>(hw, stk, fuel, cfg, htag, i, s). 2 ^ 32 - i)", goal_cases)
  case (2 hw stk fuel cfg htag i s m a b c)
  then show ?case
    using unat_u32_less [of "(mt_size (multiboot2_tag_at m htag) - 8) div 4"] by (simp del: unat_u32_less)
qed simp

declare mb_requests.simps [simp del]

fun mb_headertags ::
  "'d hardware \<Rightarrow> bios_regs \<Rightarrow> nat \<Rightarrow> nat \<Rightarrow> config_data \<Rightarrow> u32 \<Rightarrow> u32 \<Rightarrow> u32 \<times> u32 \<times> 'd world
     \<Rightarrow> (bool \<times> u32 \<times> u32 \<times> 'd world) res" where
  "mb_headertags hw stk fuel2 0 cfg head htag s = Inl Loop"
| "mb_headertags hw stk fuel2 (Suc fuel) cfg head htag s =
     (let m = w_mem (snd (snd s));
          h = multiboot2_head_at m head;
          t = multiboot2_tag_at m htag;
          go_on = (\<lambda>s. mb_headertags hw stk fuel2 fuel cfg head (NEXT_TAG (w_mem (snd (snd s))) htag) s)
      in if htag < head + sizeof_multiboot2_head * mh_header_length h then
           if mt_type t = MULTIBOOT2_HEADERTAG_END then Inr (True, s)
           else if mt_type t = MULTIBOOT2_HEADERTAG_INFORMATION_REQUEST then
             bnd (mb_requests hw stk fuel2 cfg htag 0 s) (\<lambda>(ok, s).
               if ok then go_on s else Inr (False, s))
           else if ucast (mt_flags t) AND MULTIBOOT2_TAG_FLAG_OPTIONAL = 0 then Inr (False, s)
           else go_on s
         else Inr (True, s))"

definition multiboot2_parse ::
  "'d hardware \<Rightarrow> bios_regs \<Rightarrow> nat \<Rightarrow> nat \<Rightarrow> u32 \<Rightarrow> config_data \<Rightarrow> u32 \<Rightarrow> 'd world
     \<Rightarrow> (u32 \<times> u32 \<times> 'd world) res" where
  "multiboot2_parse hw stk fuel2 fuel head cfg rsdp w =
     (let h = multiboot2_head_at (w_mem w) head
      in if mh_magic h \<noteq> MULTIBOOT2_HEAD_MAGIC \<or> mh_architecture h \<noteq> MULTIBOOT2_HEAD_ARCHITECTURE_X86
         then Inr (0, rsdp, w)
         else if mh_magic h + mh_architecture h + mh_header_length h + mh_checksum h \<noteq> 0
         then Inr (0, rsdp, w)
         else
           bnd (alloc (w_heap w) MULTIBOOT2_PREALLOC (ALLOC_FLAG_ALIGN 3)) (\<lambda>(mboot2, hp).
           let w = wput mboot2 (replicate (unat MULTIBOOT2_PREALLOC) 0) (w\<lparr>w_heap := hp\<rparr>)
           in bnd (mb_headertags hw stk fuel2 fuel cfg head (head + 16) (mboot2 + 8, rsdp, w))
                (\<lambda>(ok, next_tag, rsdp, w).
                if ok then Inr (mboot2, rsdp, wput mboot2 (le32 (next_tag - mboot2)) w)
                else bnd (free (w_heap w) mboot2) (\<lambda>h. Inr (0, rsdp, w\<lparr>w_heap := h\<rparr>)))))"

end
