(* ===== verification/Multiboot_Facts.thy ===== *)
theory Multiboot_Facts
  imports Multiboot
begin

text \<open>
  What the Multiboot 2 information structure says: the requested tags one after the other, each
  padded to eight bytes, behind the total size. The proofs follow one buffer of the memory as the
  list of its bytes.
\<close>

unbundle bit_operations_syntax

section \<open>A buffer of the memory as a list\<close>

definition splice :: "nat \<Rightarrow> 'a list \<Rightarrow> 'a list \<Rightarrow> 'a list" where
  "splice k bs L = take k L @ bs @ drop (k + length bs) L"

lemma splice_append: "length A = k \<Longrightarrow> splice (k + j) bs (A @ B) = A @ splice j bs B"
  by (simp add: splice_def)

lemma length_splice [simp]: "k + length bs \<le> length L \<Longrightarrow> length (splice k bs L) = length L"
  by (simp add: splice_def)

lemma unat_of_nat_u32: "n < 2 ^ 32 \<Longrightarrow> unat (of_nat n :: u32) = n"
  by (simp add: unsigned_of_nat take_bit_nat_eq_self)

lemma of_nat_mod_u32:
  assumes "n < 2 ^ 32" and "m < 2 ^ 32"
  shows "(of_nat n :: u32) mod of_nat m = of_nat (n mod m)"
proof -
  have "n mod m < 2 ^ 32" by (rule le_less_trans [OF mod_less_eq_dividend assms(1)])
  then have "unat (of_nat (n mod m) :: u32) = unat ((of_nat n :: u32) mod of_nat m)"
    by (simp only: unat_mod_distrib unat_of_nat_u32 assms)
  then show ?thesis by (simp only: word_unat_eq_iff)
qed

lemma mem_get_put_inside:
  assumes "k + length bs \<le> n" and "n \<le> 2 ^ 32"
  shows "mem_get (mem_put m (p + of_nat k) bs) p n = splice k bs (mem_get m p n)"
proof (rule nth_equalityI)
  fix i
  assume i: "i < length (mem_get (mem_put m (p + of_nat k) bs) p n)"
  have a: "p + of_nat i \<in> block (p + of_nat k) (length bs) \<longleftrightarrow> k \<le> i \<and> i < k + length bs"
  proof -
    have "unat (p + of_nat i - p) = i" using i assms(2) by (simp add: unsigned_of_nat take_bit_nat_eq_self)
    then show ?thesis using in_block_add [of k "length bs" "p + of_nat i" p] assms by simp
  qed
  show "mem_get (mem_put m (p + of_nat k) bs) p n ! i = splice k bs (mem_get m p n) ! i"
  proof (cases "k \<le> i \<and> i < k + length bs")
    case True
    then obtain j where j: "i = k + j" "j < length bs" using le_Suc_ex by auto
    have "mem_put m (p + of_nat k) bs (p + of_nat k + of_nat j) = bs ! j"
      using j assms by (intro mem_put_nth) simp_all
    then show ?thesis using i j assms by (simp add: splice_def nth_append add.assoc)
  next
    case False
    then have "mem_put m (p + of_nat k) bs (p + of_nat i) = m (p + of_nat i)"
      using a by (intro mem_put_other) simp
    then show ?thesis using False i assms by (auto simp: splice_def nth_append)
  qed
qed (use assms in simp)

lemma mem_get_sub: "k + n \<le> N \<Longrightarrow> mem_get m (p + of_nat k) n = take n (drop k (mem_get m p N))"
  by (intro nth_equalityI) (simp_all add: algebra_simps)

section \<open>Tags\<close>

definition pad8 :: "nat \<Rightarrow> nat" where
  "pad8 n = (8 - n mod 8) mod 8"

definition tag_bytes :: "u32 \<Rightarrow> u8 list \<Rightarrow> u8 list" where
  "tag_bytes ty payload =
     le32 ty @ le32 (of_nat (8 + length payload)) @ payload @ replicate (pad8 (8 + length payload)) 0"

lemma length_tag_bytes: "length (tag_bytes ty payload) = 8 + length payload + pad8 (8 + length payload)"
  by (simp add: tag_bytes_def)

text \<open>The information structure under construction at \<open>p\<close>, with the tags \<open>body\<close> so far.\<close>

definition mb_built :: "memory \<Rightarrow> u32 \<Rightarrow> u8 list \<Rightarrow> bool" where
  "mb_built m p body \<longleftrightarrow> length body \<le> 1016 \<and>
     mem_get m p 1024 = replicate 8 0 @ body @ replicate (1016 - length body) 0"

lemma next_tag_built:
  assumes L: "mem_get m p 1024 = replicate 8 0 @ body @ le32 ty @ le32 (of_nat (8 + length payload)) @ payload @
      replicate (1008 - length body - length payload) 0"
    and len: "length body + length (tag_bytes ty payload) \<le> 1016"
  shows "NEXT_TAG m (p + of_nat (8 + length body)) = p + of_nat (8 + length (body @ tag_bytes ty payload))"
    and "mb_built m p (body @ tag_bytes ty payload)"
proof -
  let ?n = "8 + length payload"
  have n: "length body + ?n + pad8 ?n \<le> 1016" using len by (simp add: length_tag_bytes)
  have "mem_get m (p + of_nat (8 + length body + 4)) 4 = le32 (of_nat ?n)"
    using mem_get_sub [of "8 + length body + 4" 4 1024 m p] n unfolding L by simp
  then have s: "mt_size (multiboot2_tag_at m (p + of_nat (8 + length body))) = of_nat ?n"
    by (simp add: multiboot2_tag_at_def load32_le32 add.assoc)
  have "(of_nat ?n :: u32) mod of_nat 8 = of_nat (?n mod 8)" using n by (intro of_nat_mod_u32) simp_all
  then have md: "(of_nat ?n :: u32) mod 8 = of_nat (?n mod 8)" by simp
  have "(if (of_nat (?n mod 8) :: u32) \<noteq> 0 then 8 - of_nat (?n mod 8) else 0 :: u32) = of_nat (pad8 ?n)"
  proof -
    have "?n mod 8 < 8" by simp
    moreover from this have "unat (of_nat (?n mod 8) :: u32) = ?n mod 8" by (intro unat_of_nat_u32) simp
    then have "(of_nat (?n mod 8) :: u32) = 0 \<longleftrightarrow> ?n mod 8 = 0" by (metis unat_eq_zero)
    ultimately show ?thesis by (auto simp: pad8_def of_nat_diff)
  qed
  then show "NEXT_TAG m (p + of_nat (8 + length body)) = p + of_nat (8 + length (body @ tag_bytes ty payload))"
    unfolding NEXT_TAG_def Let_def s md by (simp add: length_tag_bytes algebra_simps)
  have "replicate (1008 - length body - length payload) (0 :: u8) =
      replicate (pad8 ?n) 0 @ replicate (1016 - length (body @ tag_bytes ty payload)) 0"
    using n by (simp add: length_tag_bytes flip: replicate_add)
  then show "mb_built m p (body @ tag_bytes ty payload)"
    using L len by (simp add: mb_built_def tag_bytes_def)
qed

text \<open>Only the buffer at \<open>p\<close> changes.\<close>

definition mb_step :: "u32 \<Rightarrow> 'd world \<Rightarrow> 'd world \<Rightarrow> bool" where
  "mb_step p w w' \<longleftrightarrow> w' = w\<lparr>w_mem := w_mem w'\<rparr> \<and> (\<forall>a. a \<notin> block p 1024 \<longrightarrow> w_mem w' a = w_mem w a)"

lemma mb_step_refl [simp]: "mb_step p w w"
  by (simp add: mb_step_def)

lemma mb_step_trans: "mb_step p w w' \<Longrightarrow> mb_step p w' w'' \<Longrightarrow> mb_step p w w''"
  by (auto simp: mb_step_def) (metis world.surjective world.update_convs(1))

lemma mb_step_heap: "mb_step p w w' \<Longrightarrow> w_heap w' = w_heap w"
  by (cases w, cases w') (simp add: mb_step_def)

lemma wput_inside:
  assumes "mem_get (w_mem w) p 1024 = A @ B" and "length A = k" and "j + length bs \<le> length B"
  shows "mem_get (w_mem (wput (p + of_nat k + of_nat j) bs w)) p 1024 = A @ splice j bs B"
    and "mb_step p w (wput (p + of_nat k + of_nat j) bs w)"
proof -
  from arg_cong [OF assms(1), of length] have "length A + length B = 1024" by simp
  then have n: "k + j + length bs \<le> 1024" using assms(2,3) by simp
  have e: "p + of_nat k + of_nat j = p + of_nat (k + j)" by (simp add: add.assoc)
  show "mem_get (w_mem (wput (p + of_nat k + of_nat j) bs w)) p 1024 = A @ splice j bs B"
    using mem_get_put_inside [of "k + j" bs 1024 "w_mem w" p] n splice_append [OF assms(2), of j bs B]
    unfolding e by (simp add: wput_def assms(1))
  have "block (p + of_nat (k + j)) (length bs) \<subseteq> block p 1024" using n by (intro block_add_subset) simp_all
  then show "mb_step p w (wput (p + of_nat k + of_nat j) bs w)"
    unfolding e mb_step_def wput_def by (auto intro!: mem_put_other)
qed

lemma wstrcpy_eq: "0 \<notin> set s \<Longrightarrow> wstrcpy a (s @ 0 # r) w = Inr (wput a (s @ [0]) w)"
  using strcpy_at_spec [of s 0 "mem_get (w_mem w) a (length s + 1)" r]
  by (simp add: wstrcpy_def strlen_app strcpy_def)

lemma splice_zeros:
  "splice 0 [a, b] (replicate (Suc (Suc n)) 0) = a # b # replicate n 0"
  "splice 0 [a, b, c, d] (replicate (Suc (Suc (Suc (Suc n)))) 0) = a # b # c # d # replicate n 0"
  by (simp_all add: splice_def)

lemma splice_skip: "length A = j \<Longrightarrow> splice j bs (A @ replicate n 0) = A @ bs @ replicate (n - length bs) 0"
  by (simp add: splice_def)

lemma poptag_string:
  assumes B: "mb_built (w_mem w) p body" and z: "0 \<notin> set s" and ty: "le16 (ucast ty) @ [0, 0] = le32 ty"
    and len: "length body + length (tag_bytes ty (s @ [0])) \<le> 1016"
  defines "tag \<equiv> p + of_nat (8 + length body)"
  shows "\<exists>w'. bnd (wstrcpy (tag + 8) (s @ 0 # r)
        (wput (tag + 4) (le32 (sizeof_multiboot2_tag + of_nat (length s) + 1)) (wput tag (le16 (ucast ty)) w)))
      (\<lambda>w. Inr (NEXT_TAG (w_mem w) tag, w)) = Inr (p + of_nat (8 + length (body @ tag_bytes ty (s @ [0]))), w') \<and>
    mb_built (w_mem w') p (body @ tag_bytes ty (s @ [0])) \<and> mb_step p w w'"
proof -
  let ?k = "8 + length body" and ?A = "replicate 8 0 @ body" and ?z = "1016 - length body"
  let ?w1 = "wput tag (le16 (ucast ty)) w"
  let ?w2 = "wput (tag + 4) (le32 (sizeof_multiboot2_tag + of_nat (length s) + 1)) ?w1"
  let ?w3 = "wput (tag + 8) (s @ [0]) ?w2"
  have n: "length body + length s + 9 \<le> 1016" using len by (simp add: length_tag_bytes)
  have sz: "sizeof_multiboot2_tag + of_nat (length s) + 1 = (of_nat (8 + length (s @ [0])) :: u32)"
    by (simp add: sizeof_multiboot2_tag_def)
  have m0: "mem_get (w_mem w) p 1024 = ?A @ replicate ?z 0" using B by (simp add: mb_built_def)
  have z0: "replicate ?z (0 :: u8) = replicate 4 0 @ replicate (?z - 4) 0" using n by (simp flip: replicate_add)
  have t0: "tag = p + of_nat ?k + of_nat 0" by (simp add: tag_def)
  note p1 = wput_inside [OF m0, of ?k 0 "le16 (ucast ty)", folded t0]
  have "splice 0 (le16 (ucast ty)) (replicate ?z 0) = (le16 (ucast ty) @ [0, 0]) @ replicate (?z - 4) 0"
    unfolding z0 by (simp add: splice_def le16_def numeral_eq_Suc)
  then have m1: "mem_get (w_mem ?w1) p 1024 = ?A @ (le32 ty @ replicate (?z - 4) 0)" and s1: "mb_step p w ?w1"
    using p1 n ty by simp_all
  have t4: "tag + 4 = p + of_nat ?k + of_nat 4" and t8: "tag + 8 = p + of_nat ?k + of_nat 8" by (simp_all add: tag_def)
  note p2 = wput_inside [OF m1, of ?k 4 "le32 (sizeof_multiboot2_tag + of_nat (length s) + 1)", folded t4]
  have m2: "mem_get (w_mem ?w2) p 1024 = ?A @ ((le32 ty @ le32 (of_nat (8 + length (s @ [0])))) @ replicate (?z - 8) 0)"
    and s2: "mb_step p ?w1 ?w2"
    using p2 n by (simp_all add: splice_skip sz)
  have l2: "?k = length ?A" and j2: "8 + length (s @ [0]) \<le>
      length ((le32 ty @ le32 (of_nat (8 + length (s @ [0])))) @ replicate (?z - 8) (0 :: u8))"
    using n by simp_all
  note p3 = wput_inside [OF m2 l2 [symmetric] j2, folded t8]
  have "splice 8 (s @ [0]) ((le32 ty @ le32 (of_nat (8 + length (s @ [0])))) @ replicate (?z - 8) 0) =
      le32 ty @ le32 (of_nat (8 + length (s @ [0]))) @ (s @ [0]) @ replicate (1008 - length body - length (s @ [0])) 0"
    by (subst splice_skip) simp_all
  with p3(1) have m3: "mem_get (w_mem ?w3) p 1024 = replicate 8 0 @ body @ le32 ty @
      le32 (of_nat (8 + length (s @ [0]))) @ (s @ [0]) @ replicate (1008 - length body - length (s @ [0])) 0"
    by (simp only: append_assoc)
  note s3 = p3(2)
  note N = next_tag_built [OF m3 len]
  have "mb_step p w ?w3" by (rule mb_step_trans [OF mb_step_trans [OF s1 s2] s3])
  then show ?thesis
    using N by (simp add: wstrcpy_eq [OF z] tag_def)
qed

text \<open>A store right behind what has been written so far.\<close>

lemma wput_next:
  assumes "mem_get (w_mem w) p 1024 = A @ replicate z 0" and "a = p + of_nat (length A)" and "length bs \<le> z"
  shows "mem_get (w_mem (wput a bs w)) p 1024 = (A @ bs) @ replicate (z - length bs) 0"
    and "mb_step p w (wput a bs w)"
  using wput_inside [OF assms(1) refl, of 0 bs] assms(2,3) splice_skip [of "[]" 0 bs z] by simp_all

definition module_payload :: "config_module \<Rightarrow> u8 list \<Rightarrow> u8 list" where
  "module_payload md s = le32 (cm_addr md) @ le32 (cm_addr md + cm_size md) @ s @ [0]"

lemma poptag_module_ok:
  assumes B: "mb_built (w_mem w) p body" and z: "0 \<notin> set s" and nm: "cm_name md = Some (x, s @ 0 # r)"
    and len: "length body + length (tag_bytes 3 (module_payload md s)) \<le> 1016"
    and tag: "tag = p + of_nat (8 + length body)"
  shows "\<exists>w'. poptag_module md tag w = Inr (0, w') \<and>
    NEXT_TAG (w_mem w') tag = p + of_nat (8 + length (body @ tag_bytes 3 (module_payload md s))) \<and>
    mb_built (w_mem w') p (body @ tag_bytes 3 (module_payload md s)) \<and> mb_step p w w'"
proof -
  let ?sz = "sizeof_multiboot2_tag_module + of_nat (length s) + 1 :: u32"
  let ?w1 = "wput tag (le32 3) w"
  let ?w2 = "wput (tag + 4) (le32 ?sz) ?w1"
  let ?w3 = "wput (tag + 8) (le32 (cm_addr md)) ?w2"
  let ?w4 = "wput (tag + 12) (le32 (cm_addr md + cm_size md)) ?w3"
  let ?w5 = "wput (tag + 16) (s @ [0]) ?w4"
  have n: "length body + length s + 17 \<le> 1016" using len by (simp add: length_tag_bytes module_payload_def)
  have sz: "?sz = of_nat (8 + length (module_payload md s))"
    by (simp add: sizeof_multiboot2_tag_module_def module_payload_def)
  have m0: "mem_get (w_mem w) p 1024 = (replicate 8 0 @ body) @ replicate (1016 - length body) 0"
    using B by (simp add: mb_built_def)
  have t: "tag = p + of_nat (length (replicate 8 (0 :: u8) @ body))" by (simp add: tag)
  note p1 = wput_next [OF m0 t, of "le32 3"]
  have m1: "mem_get (w_mem ?w1) p 1024 = ((replicate 8 0 @ body) @ le32 3) @ replicate (1016 - length body - 4) 0"
    and s1: "mb_step p w ?w1" using p1 n by simp_all
  note p2 = wput_next [OF m1, of "tag + 4" "le32 ?sz"]
  have m2: "mem_get (w_mem ?w2) p 1024 = (((replicate 8 0 @ body) @ le32 3) @ le32 ?sz) @
      replicate (1016 - length body - 8) 0"
    and s2: "mb_step p ?w1 ?w2" using p2 n by (simp_all add: t)
  note p3 = wput_next [OF m2, of "tag + 8" "le32 (cm_addr md)"]
  have m3: "mem_get (w_mem ?w3) p 1024 = ((((replicate 8 0 @ body) @ le32 3) @ le32 ?sz) @ le32 (cm_addr md)) @
      replicate (1016 - length body - 12) 0"
    and s3: "mb_step p ?w2 ?w3" using p3 n by (simp_all add: t)
  note p4 = wput_next [OF m3, of "tag + 12" "le32 (cm_addr md + cm_size md)"]
  have m4: "mem_get (w_mem ?w4) p 1024 = (((((replicate 8 0 @ body) @ le32 3) @ le32 ?sz) @ le32 (cm_addr md)) @
      le32 (cm_addr md + cm_size md)) @ replicate (1016 - length body - 16) 0"
    and s4: "mb_step p ?w3 ?w4" using p4 n by (simp_all add: t)
  note p5 = wput_next [OF m4, of "tag + 16" "s @ [0]"]
  have m5: "mem_get (w_mem ?w5) p 1024 = replicate 8 0 @ body @ le32 3 @
      le32 (of_nat (8 + length (module_payload md s))) @ module_payload md s @
      replicate (1008 - length body - length (module_payload md s)) 0"
    and s5: "mb_step p ?w4 ?w5" using p5 n by (simp_all add: t sz module_payload_def)
  note N = next_tag_built [OF m5 len]
  have "mb_step p w ?w5"
    by (rule mb_step_trans [OF mb_step_trans [OF mb_step_trans [OF mb_step_trans [OF s1 s2] s3] s4] s5])
  then show ?thesis
    using N nm by (simp add: poptag_module_def strlen_app [OF z] wstrcpy_eq [OF z] tag
        MULTIBOOT2_TAGTYPE_MODULE_def Let_def)
qed

text \<open>The tags a request asks for: types and payloads.\<close>

definition cfg_bytes :: "cfg_string \<Rightarrow> u8 list" where
  "cfg_bytes s = (case s of None \<Rightarrow> [] | Some (_, bs) \<Rightarrow> takeWhile (\<lambda>b. b \<noteq> 0) bs)"

definition terminated :: "cfg_string \<Rightarrow> bool" where
  "terminated s \<longleftrightarrow> (case s of None \<Rightarrow> False | Some (_, bs) \<Rightarrow> 0 \<in> set bs)"

definition request_tags :: "config_data \<Rightarrow> u32 \<Rightarrow> u8 list" where
  "request_tags cfg req =
     (if req = 1 then
        (if cd_kernel_cmdline cfg = None then [] else tag_bytes 1 (cfg_bytes (cd_kernel_cmdline cfg) @ [0]))
      else if req = 2 then tag_bytes 2 (bytes_of ''LBoot'' @ [0])
      else concat (map (\<lambda>md. tag_bytes 3 (module_payload md (cfg_bytes (cm_name md)))) (cd_modules cfg)))"

lemma terminated_split:
  assumes "terminated s"
  shows "\<exists>x r. s = Some (x, cfg_bytes s @ 0 # r)" and "0 \<notin> set (cfg_bytes s)"
proof -
  obtain x bs where s: "s = Some (x, bs)" "0 \<in> set bs" using assms by (auto simp: terminated_def split: option.splits)
  have "dropWhile (\<lambda>b. b \<noteq> 0) bs \<noteq> []" using s(2) by (metis (full_types) dropWhile_eq_Nil_conv)
  then obtain b r where "dropWhile (\<lambda>b. b \<noteq> 0) bs = b # r" by (cases "dropWhile (\<lambda>b. b \<noteq> 0) bs") auto
  moreover from this have "b = 0" using hd_dropWhile [of "\<lambda>b. b \<noteq> 0" bs] by simp
  ultimately have "bs = cfg_bytes s @ 0 # r" using takeWhile_dropWhile_id [of "\<lambda>b. b \<noteq> 0" bs] s by (simp add: cfg_bytes_def)
  then show "\<exists>x r. s = Some (x, cfg_bytes s @ 0 # r)" using s by blast
  show "0 \<notin> set (cfg_bytes s)" using s by (auto simp: cfg_bytes_def dest: set_takeWhileD)
qed

definition cfg_ready :: "config_data \<Rightarrow> bool" where
  "cfg_ready cfg \<longleftrightarrow> unat (cd_module_count cfg) = length (cd_modules cfg) \<and>
     list_all (\<lambda>md. terminated (cm_name md)) (cd_modules cfg) \<and>
     (cd_kernel_cmdline cfg \<noteq> None \<longrightarrow> terminated (cd_kernel_cmdline cfg))"

lemma poptag_modules_ok:
  assumes c: "cfg_ready cfg" and B: "mb_built (w_mem w) p body"
    and len: "length body + length (concat (map (\<lambda>md. tag_bytes 3 (module_payload md (cfg_bytes (cm_name md))))
      (drop i (cd_modules cfg)))) \<le> 1016"
  shows "\<exists>w'. poptag_modules cfg i (p + of_nat (8 + length body)) w =
      Inr (True, p + of_nat (8 + length (body @ concat (map (\<lambda>md. tag_bytes 3 (module_payload md (cfg_bytes (cm_name md))))
        (drop i (cd_modules cfg))))), w') \<and>
    mb_built (w_mem w') p (body @ concat (map (\<lambda>md. tag_bytes 3 (module_payload md (cfg_bytes (cm_name md))))
      (drop i (cd_modules cfg)))) \<and> mb_step p w w'"
  using B len
proof (induction "length (cd_modules cfg) - i" arbitrary: i w body)
  case 0
  then show ?case using c by (subst poptag_modules.simps) (simp add: cfg_ready_def)
next
  case (Suc n)
  let ?t = "\<lambda>md. tag_bytes 3 (module_payload md (cfg_bytes (cm_name md)))"
  let ?md = "cd_modules cfg ! i"
  have i: "i < length (cd_modules cfg)" and n: "n = length (cd_modules cfg) - Suc i" using Suc.hyps(2) by simp_all
  have d: "drop i (cd_modules cfg) = ?md # drop (Suc i) (cd_modules cfg)" using i by (simp add: Cons_nth_drop_Suc)
  have "terminated (cm_name ?md)" using c i by (simp add: cfg_ready_def list_all_length)
  note T = terminated_split [OF this]
  obtain x r where nm: "cm_name ?md = Some (x, cfg_bytes (cm_name ?md) @ 0 # r)" using T(1) by blast
  have l1: "length body + length (?t ?md) \<le> 1016" using Suc.prems(2) by (simp add: d)
  obtain w1 where w1: "poptag_module ?md (p + of_nat (8 + length body)) w = Inr (0, w1)"
    "NEXT_TAG (w_mem w1) (p + of_nat (8 + length body)) = p + of_nat (8 + length (body @ ?t ?md))"
    "mb_built (w_mem w1) p (body @ ?t ?md)" "mb_step p w w1"
    using poptag_module_ok [OF Suc.prems(1) T(2) nm l1 refl] by blast
  have l2: "length (body @ ?t ?md) + length (concat (map ?t (drop (Suc i) (cd_modules cfg)))) \<le> 1016"
    using Suc.prems(2) by (simp add: d)
  obtain w2 where w2: "poptag_modules cfg (Suc i) (p + of_nat (8 + length (body @ ?t ?md))) w1 =
      Inr (True, p + of_nat (8 + length ((body @ ?t ?md) @ concat (map ?t (drop (Suc i) (cd_modules cfg))))), w2)"
    "mb_built (w_mem w2) p ((body @ ?t ?md) @ concat (map ?t (drop (Suc i) (cd_modules cfg))))" "mb_step p w1 w2"
    using Suc.hyps(1) [OF n w1(3) l2] by blast
  have "poptag_modules cfg i (p + of_nat (8 + length body)) w =
      poptag_modules cfg (Suc i) (p + of_nat (8 + length (body @ ?t ?md))) w1"
    using i c by (subst poptag_modules.simps) (simp add: cfg_ready_def w1(1,2) del: of_nat_add length_append)
  then show ?case using w2 mb_step_trans [OF w1(4) w2(3)] by (simp add: d)
qed

lemma request_ok:
  assumes c: "cfg_ready cfg" and B: "mb_built (w_mem w) p body" and r: "req \<in> {1, 2, 3}"
    and len: "length body + length (request_tags cfg req) \<le> 1016"
  shows "\<exists>w'. mb_request hw stk fuel cfg req (p + of_nat (8 + length body), rsdp, w) =
      Inr (True, p + of_nat (8 + length (body @ request_tags cfg req)), rsdp, w') \<and>
    mb_built (w_mem w') p (body @ request_tags cfg req) \<and> mb_step p w w'"
proof -
  note defs = mb_request_def MULTIBOOT2_TAGTYPE_CMDLINE_def MULTIBOOT2_TAGTYPE_BOOTLOADER_NAME_def
    MULTIBOOT2_TAGTYPE_MODULE_def Let_def
  consider (none) "req = 1" "cd_kernel_cmdline cfg = None" | (cmd) "req = 1" "cd_kernel_cmdline cfg \<noteq> None"
    | (name) "req = 2" | (mods) "req = 3" using r by blast
  then show ?thesis
  proof cases
    case none
    then show ?thesis using B by (simp add: defs poptag_cmdline_def request_tags_def)
  next
    case cmd
    then have "terminated (cd_kernel_cmdline cfg)" using c by (simp add: cfg_ready_def)
    note T = terminated_split [OF this]
    obtain x rr where s: "cd_kernel_cmdline cfg = Some (x, cfg_bytes (cd_kernel_cmdline cfg) @ 0 # rr)"
      using T(1) by blast
    have rt: "request_tags cfg req = tag_bytes 1 (cfg_bytes (cd_kernel_cmdline cfg) @ [0])"
    proof -
      obtain y where "cd_kernel_cmdline cfg = Some y" using cmd(2) by blast
      then show ?thesis by (simp add: request_tags_def cmd(1))
    qed
    have t1: "le16 (ucast (1 :: u32)) @ [0, 0] = le32 1" by (simp add: le16_def le32_def)
    note P = poptag_string [OF B T(2) t1 len [unfolded rt], of rr]
    have "poptag_cmdline cfg (p + of_nat (8 + length body)) w =
      bnd (wstrcpy (p + of_nat (8 + length body) + 8) (cfg_bytes (cd_kernel_cmdline cfg) @ 0 # rr)
        (wput (p + of_nat (8 + length body) + 4) (le32 (sizeof_multiboot2_tag +
           of_nat (length (cfg_bytes (cd_kernel_cmdline cfg))) + 1))
         (wput (p + of_nat (8 + length body)) (le16 (ucast (1 :: u32))) w)))
      (\<lambda>w. Inr (NEXT_TAG (w_mem w) (p + of_nat (8 + length body)), w))"
      unfolding poptag_cmdline_def
      by (subst s) (simp add: strlen_app [OF T(2)] MULTIBOOT2_TAGTYPE_CMDLINE_def Let_def)
    with P show ?thesis unfolding rt using cmd(1) by (auto simp: defs simp del: of_nat_add length_append)
  next
    case name
    have rt: "request_tags cfg req = tag_bytes 2 (bytes_of ''LBoot'' @ [0])"
      using name by (simp add: request_tags_def)
    have t2: "le16 (ucast (2 :: u32)) @ [0, 0] = le32 2" by (simp add: le16_def le32_def)
    have z: "0 \<notin> set (bytes_of ''LBoot'')" by (simp add: bytes_of_def)
    note P = poptag_string [OF B z t2 len [unfolded rt], of "[]"]
    show ?thesis using P name strlen_app [OF z, of "[]"] unfolding rt
      by (auto simp: defs poptag_name_def bootloader_name_def cstr_def simp del: of_nat_add length_append)
  next
    case mods
    have rt: "request_tags cfg req = concat (map (\<lambda>md. tag_bytes 3 (module_payload md (cfg_bytes (cm_name md))))
      (drop 0 (cd_modules cfg)))" using mods by (simp add: request_tags_def)
    show ?thesis using poptag_modules_ok [OF c B len [unfolded rt]] mods unfolding rt
      by (auto simp: defs simp del: of_nat_add length_append)
  qed
qed

section \<open>The header of the kernel\<close>

text \<open>
  The header tags at \<open>a\<close>: information requests, \<open>Some\<close> with the types asked for, and optional tags
  of other types, \<open>None\<close>; the end tag closes them. \<open>R\<close> is the memory they are in, below \<open>lim\<close>.
\<close>

fun header_tags :: "u32 set \<Rightarrow> u32 \<Rightarrow> memory \<Rightarrow> u32 \<Rightarrow> u32 list option list \<Rightarrow> bool" where
  "header_tags R lim m a [] \<longleftrightarrow> block a 8 \<subseteq> R \<and> a < lim \<and> mt_type (multiboot2_tag_at m a) = 0"
| "header_tags R lim m a (t # ts) \<longleftrightarrow> block a 8 \<subseteq> R \<and> a < lim \<and>
     (case t of
        Some reqs \<Rightarrow> mt_type (multiboot2_tag_at m a) = 1 \<and>
          unat ((mt_size (multiboot2_tag_at m a) - 8) div 4) = length reqs \<and>
          (\<forall>i < length reqs. block (a + 8 + of_nat i * 4) 4 \<subseteq> R \<and> load32 m (a + 8 + of_nat i * 4) = reqs ! i)
      | None \<Rightarrow> mt_type (multiboot2_tag_at m a) \<noteq> 0 \<and> mt_type (multiboot2_tag_at m a) \<noteq> 1 \<and>
          odd (unat (mt_flags (multiboot2_tag_at m a)))) \<and>
     header_tags R lim m (NEXT_TAG m a) ts"

lemma tag_at_cong:
  assumes "block a 8 \<subseteq> R" and "\<And>x. x \<in> R \<Longrightarrow> m' x = m x"
  shows "multiboot2_tag_at m' a = multiboot2_tag_at m a" and "NEXT_TAG m' a = NEXT_TAG m a"
proof -
  have "mem_get m' a 8 = mem_get m a 8" by (rule mem_get_other) (use assms in auto)
  note L = loads_part [OF this]
  show t: "multiboot2_tag_at m' a = multiboot2_tag_at m a"
    using L(2) [of 0] L(2) [of 2] L(3) [of 4] by (simp add: multiboot2_tag_at_def)
  show "NEXT_TAG m' a = NEXT_TAG m a" by (simp add: NEXT_TAG_def t)
qed

lemma load32_cong:
  assumes "block a 4 \<subseteq> R" and "\<And>x. x \<in> R \<Longrightarrow> m' x = m x"
  shows "load32 m' a = load32 m a"
  by (rule loads_eqI(3), rule mem_get_other) (use assms in auto)

lemma header_tags_cong:
  assumes "\<And>x. x \<in> R \<Longrightarrow> m' x = m x"
  shows "header_tags R lim m a ts \<Longrightarrow> header_tags R lim m' a ts"
proof (induction ts arbitrary: a)
  case Nil
  then show ?case using tag_at_cong [of a R m' m] assms by simp
next
  case (Cons t ts)
  have b: "block a 8 \<subseteq> R" using Cons.prems by simp
  note C = tag_at_cong [OF b, of m' m, OF assms]
  have "header_tags R lim m' (NEXT_TAG m a) ts" using Cons by simp
  then show ?case
    using Cons.prems load32_cong [of _ R m' m, OF _ assms] by (cases t) (simp_all add: C)
qed

lemma requests_ok:
  assumes c: "cfg_ready cfg" and r: "set reqs \<subseteq> {1, 2, 3}" and R: "R \<inter> block p 1024 = {}"
    and B: "mb_built (w_mem w) p body" and i: "i \<le> length reqs"
    and H: "header_tags R lim (w_mem w) htag (Some reqs # ts)"
    and len: "length body + length (concat (map (request_tags cfg) (drop i reqs))) \<le> 1016"
  shows "\<exists>w'. mb_requests hw stk fuel cfg htag i (p + of_nat (8 + length body), rsdp, w) =
      Inr (True, p + of_nat (8 + length (body @ concat (map (request_tags cfg) (drop i reqs)))), rsdp, w') \<and>
    mb_built (w_mem w') p (body @ concat (map (request_tags cfg) (drop i reqs))) \<and> mb_step p w w'"
  using B H len i
proof (induction "length reqs - i" arbitrary: i w body)
  case 0
  then show ?case by (subst mb_requests.simps) simp
next
  case (Suc n)
  have i: "i < length reqs" and n: "n = length reqs - Suc i" using Suc.hyps(2) by simp_all
  have d: "drop i reqs = reqs ! i # drop (Suc i) reqs" using i by (simp add: Cons_nth_drop_Suc)
  have l1: "length body + length (request_tags cfg (reqs ! i)) \<le> 1016" using Suc.prems(3) by (simp add: d)
  have r1: "reqs ! i \<in> {1, 2, 3}" using r i nth_mem by blast
  obtain w1 where w1: "mb_request hw stk fuel cfg (reqs ! i) (p + of_nat (8 + length body), rsdp, w) =
      Inr (True, p + of_nat (8 + length (body @ request_tags cfg (reqs ! i))), rsdp, w1)"
    "mb_built (w_mem w1) p (body @ request_tags cfg (reqs ! i))" "mb_step p w w1"
    using request_ok [OF c Suc.prems(1) r1 l1] by blast
  have m: "w_mem w1 x = w_mem w x" if "x \<in> R" for x using that R w1(3) by (auto simp: mb_step_def)
  note H1 = header_tags_cong [of R "w_mem w1" "w_mem w", OF m Suc.prems(2)]
  have l2: "length (body @ request_tags cfg (reqs ! i)) + length (concat (map (request_tags cfg) (drop (Suc i) reqs))) \<le> 1016"
    using Suc.prems(3) by (simp add: d)
  have i2: "Suc i \<le> length reqs" using i by simp
  obtain w2 where w2: "mb_requests hw stk fuel cfg htag (Suc i)
      (p + of_nat (8 + length (body @ request_tags cfg (reqs ! i))), rsdp, w1) =
      Inr (True, p + of_nat (8 + length ((body @ request_tags cfg (reqs ! i)) @
        concat (map (request_tags cfg) (drop (Suc i) reqs)))), rsdp, w2)"
    "mb_built (w_mem w2) p ((body @ request_tags cfg (reqs ! i)) @ concat (map (request_tags cfg) (drop (Suc i) reqs)))"
    "mb_step p w1 w2"
    using Suc.hyps(1) [OF n w1(2) H1 l2 i2] by blast
  have "mb_requests hw stk fuel cfg htag i (p + of_nat (8 + length body), rsdp, w) =
      mb_requests hw stk fuel cfg htag (Suc i) (p + of_nat (8 + length (body @ request_tags cfg (reqs ! i))), rsdp, w1)"
    using i Suc.prems(2) by (subst mb_requests.simps) (simp add: w1(1) Let_def del: of_nat_add length_append)
  then show ?case using w2 mb_step_trans [OF w1(3) w2(3)] by (simp add: d)
qed

lemma optional_flag: "ucast (x :: u16) AND MULTIBOOT2_TAG_FLAG_OPTIONAL = 0 \<longleftrightarrow> even (unat x)"
  using odd_and_1 [of "ucast x"] by (simp add: MULTIBOOT2_TAG_FLAG_OPTIONAL_def)

lemma headertags_ok:
  assumes c: "cfg_ready cfg" and R: "R \<inter> block p 1024 = {}" "block head 16 \<subseteq> R"
    and lim: "lim = head + 16 * mh_header_length (multiboot2_head_at (w_mem w) head)"
    and r: "\<forall>reqs. Some reqs \<in> set ts \<longrightarrow> set reqs \<subseteq> {1, 2, 3}"
    and B: "mb_built (w_mem w) p body" and fuel: "length ts < fuel"
    and H: "header_tags R lim (w_mem w) htag ts"
    and len: "length body + length (concat (map (request_tags cfg) (concat (map (case_option [] id) ts)))) \<le> 1016"
  shows "\<exists>w'. mb_headertags hw stk fuel2 fuel cfg head htag (p + of_nat (8 + length body), rsdp, w) =
      Inr (True, p + of_nat (8 + length (body @ concat (map (request_tags cfg) (concat (map (case_option [] id) ts))))), rsdp, w') \<and>
    mb_built (w_mem w') p (body @ concat (map (request_tags cfg) (concat (map (case_option [] id) ts)))) \<and> mb_step p w w'"
  using lim r B fuel H len
proof (induction ts arbitrary: htag w body fuel)
  case Nil
  obtain f where f: "fuel = Suc f" using Nil.prems(4) by (cases fuel) auto
  show ?case
    using Nil.prems by (auto simp: f Let_def MULTIBOOT2_HEADERTAG_END_def sizeof_multiboot2_head_def)
next
  case (Cons t ts)
  obtain f where f: "fuel = Suc f" using Cons.prems(4) by (cases fuel) auto
  let ?b = "\<lambda>ts. concat (map (request_tags cfg) (concat (map (case_option [] id) ts)))"
  have hd: "multiboot2_head_at m' head = multiboot2_head_at (w_mem w) head"
    if "\<And>x. x \<in> R \<Longrightarrow> m' x = w_mem w x" for m'
  proof -
    have "mem_get m' head 16 = mem_get (w_mem w) head 16" by (rule mem_get_other) (use R(2) that in auto)
    note L = loads_part(3) [OF this]
    show ?thesis using L [of 0] L [of 4] L [of 8] L [of 12] by (simp add: multiboot2_head_at_def)
  qed
  have b: "block htag 8 \<subseteq> R" using Cons.prems(5) by simp
  have go: "mb_headertags hw stk fuel2 fuel cfg head htag s =
      (if mt_type (multiboot2_tag_at (w_mem w) htag) = 1
       then bnd (mb_requests hw stk fuel2 cfg htag 0 s) (\<lambda>(ok, s).
         if ok then mb_headertags hw stk fuel2 f cfg head (NEXT_TAG (w_mem (snd (snd s))) htag) s else Inr (False, s))
       else mb_headertags hw stk fuel2 f cfg head (NEXT_TAG (w_mem w) htag) s)"
    if "s = (q, rsdp, w)" for q s
    using Cons.prems(1,5) that unfolding f
    by (cases t) (simp_all add: Let_def MULTIBOOT2_HEADERTAG_END_def MULTIBOOT2_HEADERTAG_INFORMATION_REQUEST_def
        sizeof_multiboot2_head_def optional_flag)
  show ?case
  proof (cases t)
    case None
    have "mt_type (multiboot2_tag_at (w_mem w) htag) \<noteq> 1" using Cons.prems(5) None by simp
    moreover have "\<exists>w'. mb_headertags hw stk fuel2 f cfg head (NEXT_TAG (w_mem w) htag) (p + of_nat (8 + length body), rsdp, w) =
        Inr (True, p + of_nat (8 + length (body @ ?b ts)), rsdp, w') \<and> mb_built (w_mem w') p (body @ ?b ts) \<and> mb_step p w w'"
      by (rule Cons.IH) (use Cons.prems None f in auto)
    ultimately show ?thesis using go [OF refl] None by simp
  next
    case (Some reqs)
    have r1: "set reqs \<subseteq> {1, 2, 3}" using Cons.prems(2) Some by simp
    have l1: "length body + length (concat (map (request_tags cfg) (drop 0 reqs))) \<le> 1016"
      using Cons.prems(6) Some by simp
    obtain w1 where w1: "mb_requests hw stk fuel2 cfg htag 0 (p + of_nat (8 + length body), rsdp, w) =
        Inr (True, p + of_nat (8 + length (body @ concat (map (request_tags cfg) reqs))), rsdp, w1)"
      "mb_built (w_mem w1) p (body @ concat (map (request_tags cfg) reqs))" "mb_step p w w1"
      using requests_ok [OF c r1 R(1) Cons.prems(3) le0 Cons.prems(5) [unfolded Some] l1, of hw stk fuel2 rsdp]
      unfolding drop_0 by blast
    have m: "w_mem w1 x = w_mem w x" if "x \<in> R" for x using that R(1) w1(3) by (auto simp: mb_step_def)
    have nx: "NEXT_TAG (w_mem w1) htag = NEXT_TAG (w_mem w) htag" by (rule tag_at_cong(2) [OF b m])
    have H1: "header_tags R lim (w_mem w1) (NEXT_TAG (w_mem w) htag) ts"
      by (rule header_tags_cong [OF m]) (use Cons.prems(5) in auto)
    have "\<exists>w'. mb_headertags hw stk fuel2 f cfg head (NEXT_TAG (w_mem w) htag)
        (p + of_nat (8 + length (body @ concat (map (request_tags cfg) reqs))), rsdp, w1) =
        Inr (True, p + of_nat (8 + length ((body @ concat (map (request_tags cfg) reqs)) @ ?b ts)), rsdp, w') \<and>
        mb_built (w_mem w') p ((body @ concat (map (request_tags cfg) reqs)) @ ?b ts) \<and> mb_step p w1 w'"
      by (rule Cons.IH) (use Cons.prems w1(2) Some f H1 hd [OF m] in auto)
    then obtain w2 where w2: "mb_headertags hw stk fuel2 f cfg head (NEXT_TAG (w_mem w) htag)
        (p + of_nat (8 + length (body @ concat (map (request_tags cfg) reqs))), rsdp, w1) =
        Inr (True, p + of_nat (8 + length ((body @ concat (map (request_tags cfg) reqs)) @ ?b ts)), rsdp, w2)"
      "mb_built (w_mem w2) p ((body @ concat (map (request_tags cfg) reqs)) @ ?b ts)" "mb_step p w1 w2"
      by blast
    have "mb_headertags hw stk fuel2 fuel cfg head htag (p + of_nat (8 + length body), rsdp, w) =
        mb_headertags hw stk fuel2 f cfg head (NEXT_TAG (w_mem w) htag)
          (p + of_nat (8 + length (body @ concat (map (request_tags cfg) reqs))), rsdp, w1)"
      using go [OF refl, of "p + of_nat (8 + length body)"] Cons.prems(5) Some
      by (simp add: w1(1) nx del: of_nat_add length_append)
    then show ?thesis using w2 Some mb_step_trans [OF w1(3) w2(3)] by simp
  qed
qed

section \<open>Properties\<close>

text \<open>The tags of the information structure for the requests of the header tags \<open>ts\<close>.\<close>

definition info_tags :: "config_data \<Rightarrow> u32 list option list \<Rightarrow> u8 list" where
  "info_tags cfg ts = concat (map (request_tags cfg) (concat (map (case_option [] id) ts)))"

lemma info_tags_nonempty_head: "mem_get m p 1024 = replicate 8 0 @ body @ z \<Longrightarrow> length body \<le> 1016 \<Longrightarrow>
    mem_get (mem_put m p (le32 n)) p (8 + length body) = le32 n @ le32 0 @ body"
proof -
  assume m: "mem_get m p 1024 = replicate 8 0 @ body @ z" and l: "length body \<le> 1016"
  have z8: "replicate 8 (0 :: u8) = replicate 4 0 @ replicate 4 0" by (simp flip: replicate_add)
  have z4: "le32 0 = replicate 4 0" by (simp add: le32_def numeral_eq_Suc)
  have "mem_get (mem_put m p (le32 n)) p 1024 = splice 0 (le32 n) (mem_get m p 1024)"
    using mem_get_put_inside [of 0 "le32 n" 1024 m p] by simp
  also have "\<dots> = (le32 n @ le32 0 @ body) @ z" by (simp add: m splice_def z8 z4)
  finally have "mem_get (mem_put m p (le32 n)) p 1024 = (le32 n @ le32 0 @ body) @ z" .
  then have "take (8 + length body) (mem_get (mem_put m p (le32 n)) p 1024) = le32 n @ le32 0 @ body" by simp
  then show ?thesis using l by (simp add: take_mem_get)
qed

text \<open>
  C31: For a kernel whose Multiboot 2 header is well formed and asks for the command line, the
  loader's name and the modules, the information structure is an 8-byte aligned block that holds its
  size, a zero word, and exactly the tags asked for, in that order, each with its type, its length
  and its contents and padded to eight bytes; optional tags of other types are skipped, memory in
  use is not written, and only an exhausted heap stops it. The tags must fit into 1016 bytes.
\<close>

theorem multiboot_info:
  assumes c: "cfg_ready cfg" and inv: "heap_inv (w_heap w)"
    and R: "R \<inter> {a. unat a \<in> free_bytes (w_heap w)} = {}" "block head 16 \<subseteq> R"
    and h: "h = multiboot2_head_at (w_mem w) head" "mh_magic h = 0xE85250D6" "mh_architecture h = 0"
      "mh_magic h + mh_architecture h + mh_header_length h + mh_checksum h = 0"
    and H: "header_tags R (head + 16 * mh_header_length h) (w_mem w) (head + 16) ts"
    and r: "\<forall>reqs. Some reqs \<in> set ts \<longrightarrow> set reqs \<subseteq> {1, 2, 3}"
    and fuel: "length ts < fuel" and len: "length (info_tags cfg ts) \<le> 1016"
  shows "case multiboot2_parse hw stk fuel2 fuel head cfg rsdp w of
      Inl e \<Rightarrow> e = Panic \<and> isl (alloc (w_heap w) 1024 (ALLOC_FLAG_ALIGN 3))
    | Inr (p, rsdp', w') \<Rightarrow> p \<noteq> 0 \<and> unat p mod 8 = 0 \<and> rsdp' = rsdp \<and>
        mem_get (w_mem w') p (8 + length (info_tags cfg ts)) =
          le32 (of_nat (8 + length (info_tags cfg ts))) @ le32 0 @ info_tags cfg ts \<and>
        (unat p, 1024) \<in># used_regions (w_heap w') \<and>
        (\<forall>a. unat a \<notin> free_bytes (w_heap w) \<longrightarrow> w_mem w' a = w_mem w a)"
proof -
  have al8: "unat (alloc_align (ALLOC_FLAG_ALIGN 3)) = 8" by code_simp
  show ?thesis
  proof (cases "alloc (w_heap w) MULTIBOOT2_PREALLOC (ALLOC_FLAG_ALIGN 3)")
    case (Inl e)
    then have "e = Panic" by (rule alloc_Inl)
    then show ?thesis
      using Inl h(2-4) unfolding h(1)
      by (simp add: multiboot2_parse_def Let_def MULTIBOOT2_HEAD_MAGIC_def MULTIBOOT2_HEAD_ARCHITECTURE_X86_def
          MULTIBOOT2_PREALLOC_def)
  next
    case (Inr q)
    obtain p hp where q: "alloc (w_heap w) MULTIBOOT2_PREALLOC (ALLOC_FLAG_ALIGN 3) = Inr (p, hp)"
      using Inr by (cases q) auto
    have u: "unat MULTIBOOT2_PREALLOC = 1024" by (simp add: MULTIBOOT2_PREALLOC_def)
    note A = alloc_spec [OF inv q, unfolded u al8]
    have le: "unat p + 1024 \<le> 2 ^ 32"
    proof -
      have "unat p + 1024 \<le> unat (mr_end (mrange_of (ALLOC_FLAG_ALIGN 3)))" using A by blast
      also have "\<dots> < 2 ^ 32" using unat_u32_less [of "mr_end (mrange_of (ALLOC_FLAG_ALIGN 3))"] by simp
      finally show ?thesis by simp
    qed
    have bf: "unat a \<in> free_bytes (w_heap w)" if "a \<in> block p 1024" for a
      using that A le by (auto simp: block_interval)
    let ?w1 = "wput p (replicate 1024 0) (w\<lparr>w_heap := hp\<rparr>)"
    have s1: "w_mem ?w1 a = w_mem w a" if "a \<notin> block p 1024" for a
      using that mem_put_other [of a p "replicate 1024 0"] by (simp add: wput_def)
    have Rp: "R \<inter> block p 1024 = {}" using R(1) bf by auto
    have m1: "w_mem ?w1 x = w_mem w x" if "x \<in> R" for x using that Rp s1 by blast
    have hd: "multiboot2_head_at (w_mem ?w1) head = h"
    proof -
      have "mem_get (w_mem ?w1) head 16 = mem_get (w_mem w) head 16"
        by (rule mem_get_other) (use R(2) m1 in auto)
      note L = loads_part(3) [OF this]
      show ?thesis using L [of 0] L [of 4] L [of 8] L [of 12] by (simp add: h(1) multiboot2_head_at_def)
    qed
    have "mem_get (w_mem ?w1) p 1024 = replicate 1024 0"
      using mem_get_put [of "replicate 1024 0" "w_mem w" p] by (simp add: wput_def)
    also have "\<dots> = replicate 8 0 @ replicate 1016 (0 :: u8)" by (simp flip: replicate_add)
    finally have B: "mb_built (w_mem ?w1) p []" by (simp add: mb_built_def)
    have H1: "header_tags R (head + 16 * mh_header_length h) (w_mem ?w1) (head + 16) ts"
      by (rule header_tags_cong [OF m1 H])
    obtain w2 where w2: "mb_headertags hw stk fuel2 fuel cfg head (head + 16) (p + of_nat (8 + 0), rsdp, ?w1) =
        Inr (True, p + of_nat (8 + length (info_tags cfg ts)), rsdp, w2)"
      "mb_built (w_mem w2) p (info_tags cfg ts)" "mb_step p ?w1 w2"
      using headertags_ok [OF c Rp R(2) _ r B fuel H1, of hw stk fuel2 rsdp] len
      by (auto simp: hd info_tags_def simp del: of_nat_add)
    let ?n = "of_nat (8 + length (info_tags cfg ts)) :: u32"
    have P: "multiboot2_parse hw stk fuel2 fuel head cfg rsdp w = Inr (p, rsdp, wput p (le32 ?n) w2)"
      using h(2-4) q w2(1) unfolding h(1)
      by (simp add: multiboot2_parse_def Let_def MULTIBOOT2_HEAD_MAGIC_def MULTIBOOT2_HEAD_ARCHITECTURE_X86_def u)
    have "mem_get (w_mem (wput p (le32 ?n) w2)) p (8 + length (info_tags cfg ts)) = le32 ?n @ le32 0 @ info_tags cfg ts"
      using w2(2) info_tags_nonempty_head [of "w_mem w2" p "info_tags cfg ts"] len by (simp add: mb_built_def wput_def)
    moreover have "w_mem (wput p (le32 ?n) w2) a = w_mem w a" if "unat a \<notin> free_bytes (w_heap w)" for a
    proof -
      have a: "a \<notin> block p 1024" using that bf by blast
      then have "a \<notin> block p 4" using block_mono [of 4 1024 p] by auto
      then show ?thesis using a w2(3) s1 mem_put_other [of a p "le32 ?n"] by (simp add: wput_def mb_step_def)
    qed
    moreover have "w_heap w2 = hp" using mb_step_heap [OF w2(3)] by (simp add: wput_def)
    ultimately show ?thesis using A P heap_alloc.al_live [OF inv q] u by (simp add: wput_def)
  qed
qed

text \<open>A kernel at 1 MiB that asks for the command line and the name of the loader.\<close>

definition example_header :: "u8 list" where
  "example_header = le32 0xE85250D6 @ le32 0 @ le32 40 @ le32 (- (0xE85250D6 + 40)) @
     [1, 0, 0, 0, 16, 0, 0, 0, 1, 0, 0, 0, 2, 0, 0, 0] @ [0, 0, 0, 0, 8, 0, 0, 0]"

definition kernel_world :: "unit world" where
  "kernel_world = \<lparr>w_mem = mem_put (\<lambda>_. 0) 0x100000 example_header, w_heap = example_heap, w_if = True, w_dev = ()\<rparr>"

definition kernel_cfg :: config_data where
  "kernel_cfg = config_data0\<lparr>cd_kernel_cmdline := Some (0x9000, cstr ''-v'')\<rparr>"

definition no_hardware :: "unit hardware" where
  "no_hardware = \<lparr>hw_in = \<lambda>p d. (0, d), hw_out = \<lambda>p v d. d, hw_bios = \<lambda>r m d. (r, m, d),
     hw_irq = \<lambda>n d. False\<rparr>"

theorem multiboot_info_witness:
  "\<exists>p w'. multiboot2_parse no_hardware bios_zero 0 2 0x100000 kernel_cfg 0 kernel_world = Inr (p, 0, w') \<and>
     mem_get (w_mem w') p 40 = [40, 0, 0, 0, 0, 0, 0, 0, 1, 0, 0, 0, 11, 0, 0, 0, 45, 118, 0, 0, 0, 0, 0, 0,
       2, 0, 0, 0, 14, 0, 0, 0, 76, 66, 111, 111, 116, 0, 0, 0]"
proof -
  let ?R = "block (0x100000 :: u32) 40" and ?ts = "[Some [1, 2]] :: u32 list option list"
  let ?h = "\<lparr>mh_magic = 0xE85250D6, mh_architecture = 0, mh_header_length = 40, mh_checksum = - (0xE85250D6 + 40)\<rparr>"
  have b: "block (0x100000 + of_nat k :: u32) n \<subseteq> ?R" if "k + n \<le> 40" for k n
    using that by (intro block_add_subset) simp_all
  have m: "w_mem kernel_world (0x100000 + of_nat k) = example_header ! k" if "k < 40" for k
    using that mem_put_nth [of k example_header] by (simp add: kernel_world_def example_header_def)
  have h: "?h = multiboot2_head_at (w_mem kernel_world) 0x100000"
    using m [of 0] m [of 1] m [of 2] m [of 3] m [of 4] m [of 5] m [of 6] m [of 7] m [of 8] m [of 9] m [of 10]
      m [of 11] m [of 12] m [of 13] m [of 14] m [of 15]
    by (simp add: multiboot2_head_at_def load32_def example_header_def le32_def)
  have t: "multiboot2_tag_at (w_mem kernel_world) 0x100010 = \<lparr>mt_type = 1, mt_flags = 0, mt_size = 16\<rparr>"
    using m [of 16] m [of 17] m [of 18] m [of 19] m [of 20] m [of 21] m [of 22] m [of 23]
    by (simp add: multiboot2_tag_at_def load32_def load16_def example_header_def le32_def)
  have e: "multiboot2_tag_at (w_mem kernel_world) 0x100020 = \<lparr>mt_type = 0, mt_flags = 0, mt_size = 8\<rparr>"
    using m [of 32] m [of 33] m [of 34] m [of 35] m [of 36] m [of 37] m [of 38] m [of 39]
    by (simp add: multiboot2_tag_at_def load32_def load16_def example_header_def le32_def)
  have q: "load32 (w_mem kernel_world) 0x100018 = 1" "load32 (w_mem kernel_world) 0x10001C = 2"
    using m [of 24] m [of 25] m [of 26] m [of 27] m [of 28] m [of 29] m [of 30] m [of 31]
    by (simp_all add: load32_def example_header_def le32_def)
  have H: "header_tags ?R (0x100000 + 16 * mh_header_length ?h) (w_mem kernel_world) (0x100000 + 16) ?ts"
    using b [of 16 8] b [of 32 8] b [of 24 4] b [of 28 4] q
    by (auto simp: t e NEXT_TAG_def All_less_Suc)
  have R: "?R \<inter> {a. unat a \<in> free_bytes (w_heap kernel_world)} = {}"
    using block_interval [of "0x100000" 40] example_heap(6) by (force simp: kernel_world_def)
  have i: "info_tags kernel_cfg ?ts = tag_bytes 1 (bytes_of ''-v'' @ [0]) @ tag_bytes 2 (bytes_of ''LBoot'' @ [0])"
    by (simp add: info_tags_def request_tags_def kernel_cfg_def cfg_bytes_def cstr_def bytes_of_def)
  have c: "cfg_ready kernel_cfg"
    by (simp add: cfg_ready_def kernel_cfg_def config_data0_def terminated_def cstr_def)
  have a: "isl (alloc (w_heap kernel_world) 1024 (ALLOC_FLAG_ALIGN 3)) = False"
    unfolding kernel_world_def example_heap_def by code_simp
  have t1: "tag_bytes 1 (bytes_of ''-v'' @ [0]) = [1, 0, 0, 0, 11, 0, 0, 0, 45, 118, 0, 0, 0, 0, 0, 0]"
    by code_simp
  have t2: "tag_bytes 2 (bytes_of ''LBoot'' @ [0]) = [2, 0, 0, 0, 14, 0, 0, 0, 76, 66, 111, 111, 116, 0, 0, 0]"
    by code_simp
  have hs: "mh_magic ?h = 0xE85250D6" "mh_architecture ?h = 0"
    "mh_magic ?h + mh_architecture ?h + mh_header_length ?h + mh_checksum ?h = 0" by simp_all
  have inv: "heap_inv (w_heap kernel_world)" using example_heap(1) by (simp add: kernel_world_def)
  have r: "\<forall>reqs. Some reqs \<in> set ?ts \<longrightarrow> set reqs \<subseteq> {1, 2, 3}" by simp
  have l: "length ?ts < 2" "length (info_tags kernel_cfg ?ts) \<le> 1016" by (simp_all add: i t1 t2)
  note M = multiboot_info [OF c inv R b [of 0 16, simplified] h hs H r l,
    where hw = no_hardware and stk = bios_zero and ?fuel2.0 = 0 and rsdp = 0]
  show ?thesis
    using M a by (auto simp: i t1 t2 le32_def split: sum.splits)
qed

end
