(* ===== verification/Exec.thy ===== *)
theory Exec
  imports Elf Multiboot
begin

text \<open>
  Opening, loading and entering a kernel: \<^verbatim>\<open>src/exec/exec.c\<close>. The jump into the kernel is the
  outcome of \<open>exec_exec\<close>, with the registers the kernel is entered with. The files are read, opened
  and closed by the operations of their file system, arguments here as in the file components.
\<close>

unbundle bit_operations_syntax

section \<open>Opening\<close>

definition EXEC_FIRSTCHUNK_SZ :: u32 where "EXEC_FIRSTCHUNK_SZ = 512"

text \<open>
  \<open>exec_open\<close>; \<open>elf\<close> and \<open>flat\<close> are \<^verbatim>\<open>CONFIG_EXEC_ELF\<close> and \<^verbatim>\<open>CONFIG_EXEC_FLAT\<close>. On the early returns
  the first chunk stays allocated.
\<close>

definition exec_open ::
  "bool \<Rightarrow> bool \<Rightarrow> ('x, 'd) read_op \<Rightarrow> file_hand \<Rightarrow> ('x, 'd) fstate
     \<Rightarrow> (int \<times> exec_hand \<times> ('x, 'd) fstate) res" where
  "exec_open elf flat rd file s =
     (case s of (x, w) \<Rightarrow>
      let exec = \<lparr>ex_fmt = EXEC_FILEFMT_NONE, ex_data = 0, ex_data_begin = 0, ex_data_end = 0,
            ex_entrypoint = 0, ex_multiboot = 0, ex_file = file, ex_ops = EXEC_FILEFMT_NONE\<rparr>
      in bnd (walloc EXEC_FIRSTCHUNK_SZ 0 w) (\<lambda>(buf, w).
         bnd (rd (ex_file exec) buf EXEC_FIRSTCHUNK_SZ 0 (x, w)) (\<lambda>(n, x, w).
         if n \<noteq> EXEC_FIRSTCHUNK_SZ then Inr (-1, exec, x, w)
         else if elf \<and> exec_elf_test (w_mem w) buf then
           bnd (wfree buf w) (\<lambda>w.
           bnd (exec_elf_init (exec\<lparr>ex_fmt := EXEC_FILEFMT_ELF\<rparr>) w) (\<lambda>(r, exec, w).
             Inr (if r \<noteq> 0 then -1 else 0, exec, x, w)))
         else if flat then
           bnd (wfree buf w) (\<lambda>w.
           case exec_flat_init (exec\<lparr>ex_fmt := EXEC_FILEFMT_FLAT\<rparr>) of
             (r, exec) \<Rightarrow> Inr (if r \<noteq> 0 then -1 else 0, exec, x, w))
         else Inr (-1, exec, x, w))))"

section \<open>Modules\<close>

text \<open>\<open>ALIGN\<close> as it is written: it leaves the misaligned addresses and moves the aligned ones.\<close>

definition ALIGN :: "u32 \<Rightarrow> u32 \<Rightarrow> u32" where
  "ALIGN p a = (if p mod a \<noteq> 0 then p else p + (a - p mod a))"

type_synonym ('x, 'd) open_op =
  "u8 list \<Rightarrow> ('x, 'd) fstate \<Rightarrow> (int \<times> file_hand option \<times> ('x, 'd) fstate) res"

text \<open>The loop of \<open>_exec_load_modules\<close> from the \<open>i\<close>th module on.\<close>

function load_modules_from ::
  "('x, 'd) open_op \<Rightarrow> ('x, 'd) read_op \<Rightarrow> ('x, 'd) close_op \<Rightarrow> nat \<Rightarrow> u32 \<Rightarrow> config_data \<Rightarrow> ('x, 'd) fstate
     \<Rightarrow> (int \<times> config_data \<times> ('x, 'd) fstate) res" where
  "load_modules_from fopen rd cls i addr cfg s =
     (if i < unat (cd_module_count cfg) then
        if i < length (cd_modules cfg) then
          let addr = ALIGN addr 8
          in (case cm_path (cd_modules cfg ! i) of
                None \<Rightarrow> Inl Fault
              | Some (_, path) \<Rightarrow>
                  bnd (fopen path s) (\<lambda>(r, modfile, s).
                  if r \<noteq> 0 then Inr (-1, cfg, s)
                  else case modfile of
                      None \<Rightarrow> Inl Fault
                    | Some modfile \<Rightarrow>
                        bnd (rd modfile addr (fh_size modfile) 0 s) (\<lambda>(n, s).
                        if n \<noteq> fh_size modfile then Inr (-1, cfg, s)
                        else
                          bnd (cls modfile s) (\<lambda>(r, s).
                          load_modules_from fopen rd cls (Suc i) (addr + fh_size modfile)
                            (cfg\<lparr>cd_modules := (cd_modules cfg)[i := (cd_modules cfg ! i)
                               \<lparr>cm_addr := addr, cm_size := fh_size modfile\<rparr>]\<rparr>) s))))
        else Inl Fault
      else Inr (0, cfg, s))"
  by pat_completeness auto
termination
  by (relation "measure (\<lambda>(fopen, rd, cls, i, addr, cfg, s). unat (cd_module_count cfg) - i)") auto

declare load_modules_from.simps [simp del]

definition exec_load_modules ::
  "('x, 'd) open_op \<Rightarrow> ('x, 'd) read_op \<Rightarrow> ('x, 'd) close_op \<Rightarrow> exec_hand \<Rightarrow> config_data \<Rightarrow> ('x, 'd) fstate
     \<Rightarrow> (int \<times> config_data \<times> ('x, 'd) fstate) res" where
  "exec_load_modules fopen rd cls exec cfg s = load_modules_from fopen rd cls 0 (ex_data_end exec) cfg s"

section \<open>The Multiboot header\<close>

text \<open>The search at \<open>a\<close> and the \<open>n\<close> places behind it, eight bytes apart.\<close>

fun find_multiboot :: "memory \<Rightarrow> u32 \<Rightarrow> nat \<Rightarrow> int \<times> u32" where
  "find_multiboot m a 0 = (0, 0)"
| "find_multiboot m a (Suc n) =
     (if load32 m a = MULTIBOOT1_HEAD_MAGIC then (1, 0)
      else if load32 m a = MULTIBOOT2_HEAD_MAGIC then (2, a)
      else find_multiboot m (a + 8) n)"

definition exec_detect_multiboot :: "memory \<Rightarrow> exec_hand \<Rightarrow> int \<times> exec_hand" where
  "exec_detect_multiboot m exec =
     (case find_multiboot m (ex_data_begin exec) 1024 of
        (r, a) \<Rightarrow> (r, if r = 2 then exec\<lparr>ex_multiboot := a\<rparr> else exec))"

section \<open>Entering\<close>

text \<open>A jump to an address, for Multiboot 2 with the magic number and the information structure.\<close>

datatype outcome =
    Returned int
  | Entered u32
  | Entered_multiboot2 u32 u32 u32

definition exec_enter :: "u32 \<Rightarrow> outcome" where
  "exec_enter entrypoint = Entered entrypoint"

definition exec_enter_multiboot2 :: "u32 \<Rightarrow> u32 \<Rightarrow> outcome" where
  "exec_enter_multiboot2 entrypoint mboot_ptr = Entered_multiboot2 entrypoint 0x36D76289 mboot_ptr"

definition exec_prepare ::
  "('x, 'd) read_op \<Rightarrow> exec_hand \<Rightarrow> ('x, 'd) fstate \<Rightarrow> (int \<times> exec_hand \<times> ('x, 'd) fstate) res" where
  "exec_prepare rd exec s =
     (case ex_ops exec of
        EXEC_FILEFMT_ELF \<Rightarrow> elf_prepare rd exec s
      | EXEC_FILEFMT_FLAT \<Rightarrow> Inr (flat_prepare exec, exec, s)
      | EXEC_FILEFMT_NONE \<Rightarrow> Inl Fault)"

definition exec_load ::
  "('x, 'd) read_op \<Rightarrow> exec_hand \<Rightarrow> ('x, 'd) fstate \<Rightarrow> (int \<times> exec_hand \<times> ('x, 'd) fstate) res" where
  "exec_load rd exec s =
     (case ex_ops exec of
        EXEC_FILEFMT_ELF \<Rightarrow> elf_load rd exec s
      | EXEC_FILEFMT_FLAT \<Rightarrow> Inr (flat_load exec, exec, s)
      | EXEC_FILEFMT_NONE \<Rightarrow> Inl Fault)"

text \<open>\<open>exec_exec\<close>; the arguments of \<open>multiboot2_parse\<close> come first.\<close>

definition exec_exec ::
  "'d hardware \<Rightarrow> bios_regs \<Rightarrow> nat \<Rightarrow> nat \<Rightarrow> ('x, 'd) open_op \<Rightarrow> ('x, 'd) read_op \<Rightarrow> ('x, 'd) close_op
     \<Rightarrow> exec_hand \<Rightarrow> config_data \<Rightarrow> u32 \<Rightarrow> ('x, 'd) fstate
     \<Rightarrow> (outcome \<times> exec_hand \<times> config_data \<times> u32 \<times> ('x, 'd) fstate) res" where
  "exec_exec hw stk fuel2 fuel fopen rd cls exec cfg rsdp s =
     bnd (exec_prepare rd exec s) (\<lambda>(r, exec, s).
     if r \<noteq> 0 then Inr (Returned (-1), exec, cfg, rsdp, s)
     else bnd (exec_load rd exec s) (\<lambda>(r, exec, s).
     if r \<noteq> 0 then Inr (Returned (-1), exec, cfg, rsdp, s)
     else bnd (exec_load_modules fopen rd cls exec cfg s) (\<lambda>(r, cfg, x, w).
     if r \<noteq> 0 then Inr (Returned (-1), exec, cfg, rsdp, x, w)
     else
       let (mboot, exec) = exec_detect_multiboot (w_mem w) exec
       in if mboot = 1 then Inr (Returned (-1), exec, cfg, rsdp, x, w)
          else if mboot = 2 then
            bnd (multiboot2_parse hw stk fuel2 fuel (ex_multiboot exec) cfg rsdp w) (\<lambda>(mboot2, rsdp, w).
              if mboot2 = 0 then Inr (Returned (-1), exec, cfg, rsdp, x, w)
              else Inr (exec_enter_multiboot2 (ex_entrypoint exec) mboot2, exec, cfg, rsdp, x, w))
          else Inr (exec_enter (ex_entrypoint exec), exec, cfg, rsdp, x, w))))"

end
