(* ===== verification/Exec_Facts.thy ===== *)
theory Exec_Facts
  imports Exec Elf_Facts Multiboot_Facts
begin

text \<open>
  From the file of a kernel to the jump into it: the loader panics, or it reaches a state with the
  whole image in place and leaves for the entry point of the file, with the information structure
  if the image has a Multiboot 2 header.
\<close>

unbundle bit_operations_syntax

context file_source
begin

lemma open_elf:
  assumes I: "inv (x, w)" and R: "readable 0 512" and magic: "eh_magic (file_ehdr contents) = ELF_IDENT"
  shows "exec_open True flat rd f (x, w) = Inl Panic \<or>
    (\<exists>exec0 exec x' w0 w1. exec_open True flat rd f (x, w) = Inr (0, exec, x', w1) \<and>
       exec_elf_init exec0 w0 = Inr (0, exec, w1) \<and> inv (x', w0) \<and> heap_grown (w_heap w) (w_heap w0) \<and>
       ex_file exec0 = f \<and> ex_data_end exec0 = 0 \<and>
       (\<forall>a. a \<notin> reachable own (w_heap w) \<longrightarrow> w_mem w0 a = w_mem w a))"
proof (cases "walloc EXEC_FIRSTCHUNK_SZ 0 w")
  case (Inl e)
  then have "e = Panic" using alloc_Inl by (auto simp: walloc_def res_simps)
  then show ?thesis using Inl by (simp add: exec_open_def Let_def)
next
  case (Inr q)
  obtain buf w1 where q: "walloc EXEC_FIRSTCHUNK_SZ 0 w = Inr (buf, w1)" using Inr by (cases q) auto
  have u: "unat EXEC_FIRSTCHUNK_SZ = 512" by (simp add: EXEC_FIRSTCHUNK_SZ_def)
  note A = inv_alloc [OF I q, unfolded u]
  have al: "alloc (w_heap w) EXEC_FIRSTCHUNK_SZ 0 = Inr (buf, w_heap w1)"
    using q by (auto simp: walloc_def res_simps split: prod.splits)
  let ?r = "rd f buf EXEC_FIRSTCHUNK_SZ 0 (x, w1)"
  note S = rd_spec [of x w1 0 EXEC_FIRSTCHUNK_SZ buf, unfolded u, OF A(1) _ A(5)]
  show ?thesis
  proof (cases ?r)
    case (Inl e)
    then show ?thesis using S R q by (simp add: exec_open_def Let_def)
  next
    case (Inr q')
    obtain n x' w2 where q': "?r = Inr (n, x', w2)" using Inr by (cases q') auto
    have s: "n = EXEC_FIRSTCHUNK_SZ" "inv (x', w2)" "heap_grown (w_heap w1) (w_heap w2)"
      "mem_get (w_mem w2) buf 512 = map contents [0..<512]"
      "\<forall>a. a \<notin> block buf 512 \<union> reachable own (w_heap w1) \<longrightarrow> w_mem w2 a = w_mem w1 a"
      using S R q' by auto
    have "mem_get (w_mem w2) buf 512 = mem_get (file_image contents) 0 512"
      using get_image [of "w_mem w2" buf 512 contents 0] s(4) by simp
    from loads_part(3) [OF this, of 0] have t: "exec_elf_test (w_mem w2) buf"
      using magic by (simp add: exec_elf_test_def file_ehdr_def elf_header_at_def)
    have hw: "heap_inv (w_heap w)" using inv_heap [OF I] by simp
    obtain h where h: "free (w_heap w2) buf = Inr h" "heap_grown (w_heap w) h"
      using heap_grown_free [OF hw al s(3)] by blast
    let ?w0 = "w2\<lparr>w_heap := h\<rparr>"
    have I0: "inv (x', ?w0)"
      using h(2) inv_heap [OF I] by (intro inv_frame [OF s(2)]) (auto simp: heap_grown_def)
    have fr: "w_mem ?w0 a = w_mem w a" if "a \<notin> reachable own (w_heap w)" for a
      using that s(5) A(3,6) reachable_mono [OF A(2), of own] by auto
    let ?exec0 = "\<lparr>ex_fmt = EXEC_FILEFMT_ELF, ex_data = 0, ex_data_begin = 0, ex_data_end = 0,
            ex_entrypoint = 0, ex_multiboot = 0, ex_file = f, ex_ops = EXEC_FILEFMT_NONE\<rparr>"
    have E: "exec_open True flat rd f (x, w) = bnd (exec_elf_init ?exec0 ?w0) (\<lambda>(r, exec, w).
        Inr (if r \<noteq> 0 then -1 else 0, exec, x', w))"
      using q q' s(1) t h(1) by (simp add: exec_open_def Let_def wfree_def)
    show ?thesis
    proof (cases "exec_elf_init ?exec0 ?w0")
      case (Inl e)
      then have "e = Panic" using alloc_Inl by (auto simp: exec_elf_init_def walloc_def res_simps Let_def)
      then show ?thesis using Inl by (simp add: E)
    next
      case (Inr q3)
      obtain r exec w3 where q3: "exec_elf_init ?exec0 ?w0 = Inr (r, exec, w3)" using Inr by (cases q3) auto
      have "r = 0" by (rule init_elf(1) [OF I0 q3])
      then have "exec_open True flat rd f (x, w) = Inr (0, exec, x', w3)" using q3 by (simp add: E)
      then show ?thesis using q3 \<open>r = 0\<close> I0 h(2) fr by (intro disjI2 exI conjI) auto
    qed
  qed
qed

end

text \<open>What \<open>exec_exec\<close> does once the image is in the memory of \<open>w\<close>.\<close>

definition enter_image ::
  "'d hardware \<Rightarrow> bios_regs \<Rightarrow> nat \<Rightarrow> nat \<Rightarrow> u32 \<Rightarrow> u32 \<Rightarrow> config_data \<Rightarrow> u32 \<Rightarrow> 'd world
     \<Rightarrow> (outcome \<times> u32 \<times> 'd world) res" where
  "enter_image hw stk fuel2 fuel begin entry cfg rsdp w =
     (case find_multiboot (w_mem w) begin 1024 of (k, head) \<Rightarrow>
        if k = 1 then Inr (Returned (-1), rsdp, w)
        else if k = 2 then
          bnd (multiboot2_parse hw stk fuel2 fuel head cfg rsdp w) (\<lambda>(p, rsdp, w).
            Inr (if p = 0 then Returned (-1) else Entered_multiboot2 entry 0x36D76289 p, rsdp, w))
        else Inr (Entered entry, rsdp, w))"

lemma no_modules: "cd_module_count cfg = 0 \<Longrightarrow> exec_load_modules fopen rd cls exec cfg s = Inr (0, cfg, s)"
  unfolding exec_load_modules_def by (subst load_modules_from.simps) simp

lemma exec_exec_elf:
  assumes "cd_module_count cfg = 0" and "ex_ops exec = EXEC_FILEFMT_ELF"
    and P: "elf_prepare rd exec s = Inr (0, exec1, s1)" "ex_ops exec1 = EXEC_FILEFMT_ELF"
    and L: "elf_load rd exec1 s1 = Inr (0, exec2, x2, w2)"
  shows "map_sum id (\<lambda>(out, exec, cfg, rsdp, x, w). (out, rsdp, w))
      (exec_exec hw stk fuel2 fuel fopen rd cls exec cfg rsdp s) =
    enter_image hw stk fuel2 fuel (ex_data_begin exec2) (ex_entrypoint exec2) cfg rsdp w2"
  using assms
  by (auto simp: exec_exec_def exec_prepare_def exec_load_def no_modules enter_image_def exec_detect_multiboot_def
      exec_enter_def exec_enter_multiboot2_def bnd_def split: prod.splits sum.splits)

context file_source
begin

lemma boot_elf:
  assumes I: "inv (x, w)" and cfg: "cd_module_count cfg = 0"
    and R: "readable 0 512" "readable 0 64" "readable (unat (eh_phoff (file_ehdr contents))) (phdr_bytes contents)"
    and acc: "eh_magic (file_ehdr contents) = ELF_IDENT" "elf_accepts contents" "phdrs_packed contents"
    and fits: "list_all (segment_fits readable) (file_segments contents)"
    and S: "\<forall>p \<in> set (file_segments contents). segment_block p \<inter> reachable own (w_heap w) = {}"
    and D: "sorted_wrt (\<lambda>p q. segment_block p \<inter> segment_block q = {}) (file_segments contents)"
    and boot_def: "boot = bnd (exec_open True flat rd f (x, w)) (\<lambda>(r, exec, s).
      map_sum id (\<lambda>(out, exec, cfg, rsdp, x, w). (out, rsdp, w)) (exec_exec hw stk fuel2 fuel fopen rd cls exec cfg rsdp s))"
  shows "boot = Inl Panic \<or> (\<exists>x' w'. inv (x', w') \<and>
      list_all (segment_loaded contents (w_mem w')) (file_segments contents) \<and>
      (\<forall>a. a \<notin> (\<Union>p \<in> set (file_segments contents). segment_block p) \<union> reachable own (w_heap w) \<longrightarrow>
         w_mem w' a = w_mem w a) \<and>
      boot = enter_image hw stk fuel2 fuel (fold (\<lambda>p. min (ph_paddr p)) (file_segments contents) 0xFFFFFFFF)
        (eh_entry (file_ehdr contents)) cfg rsdp w')"
proof (cases "exec_open True flat rd f (x, w) = Inl Panic")
  case True
  then show ?thesis by (simp add: boot_def)
next
  case False
  then obtain exec0 exec x1 w0 w1 where o: "exec_open True flat rd f (x, w) = Inr (0, exec, x1, w1)"
    "exec_elf_init exec0 w0 = Inr (0, exec, w1)" "inv (x1, w0)" "heap_grown (w_heap w) (w_heap w0)"
    "ex_file exec0 = f" "ex_data_end exec0 = 0" "\<forall>a. a \<notin> reachable own (w_heap w) \<longrightarrow> w_mem w0 a = w_mem w a"
    using open_elf [OF I R(1) acc(1), of flat] by blast
  note re = reachable_mono [OF o(4), of own]
  have S0: "\<forall>p \<in> set (file_segments contents). segment_block p \<inter> reachable own (w_heap w0) = {}"
    using S re by blast
  note L = prepare_load [OF o(3,2,5) R(2,3) acc(2,3) fits S0 D]
  note P = init_prepare [OF o(3,2,5) R(2)]
  have ops: "ex_ops exec = EXEC_FILEFMT_ELF" "ex_data_begin exec = 0xFFFFFFFF"
    by (subst init_elf(8) [OF o(3,2)], simp)+
  have b: "boot = map_sum id (\<lambda>(out, exec, cfg, rsdp, x, w). (out, rsdp, w))
      (exec_exec hw stk fuel2 fuel fopen rd cls exec cfg rsdp (x1, w1))"
    by (simp add: boot_def o(1))
  show ?thesis
  proof (cases "elf_prepare rd exec (x1, w1)")
    case (Inl e)
    then have "e = Panic" using P R(3) acc by simp
    then show ?thesis using Inl by (simp add: b exec_exec_def exec_prepare_def ops)
  next
    case (Inr q)
    obtain r2 exec2 x2 w2 where q: "elf_prepare rd exec (x1, w1) = Inr (r2, exec2, x2, w2)" using Inr by (cases q) auto
    have p: "r2 = 0" "exec2 = exec\<lparr>ex_entrypoint := eh_entry (file_ehdr contents)\<rparr>"
      using P R(3) acc q by auto
    show ?thesis
    proof (cases "elf_load rd exec2 (x2, w2)")
      case (Inl e)
      then have "e = Panic" using L q by simp
      then show ?thesis using Inl q p by (simp add: b exec_exec_def exec_prepare_def exec_load_def ops)
    next
      case (Inr q3)
      obtain r3 exec3 x3 w3 where q3: "elf_load rd exec2 (x2, w2) = Inr (r3, exec3, x3, w3)" using Inr by (cases q3) auto
      have l: "r3 = 0" "inv (x3, w3)" "exec3 = fold extend_range (file_segments contents)
          (exec\<lparr>ex_entrypoint := eh_entry (file_ehdr contents)\<rparr>)"
        "list_all (segment_loaded contents (w_mem w3)) (file_segments contents)"
        "\<forall>a. a \<notin> (\<Union>p \<in> set (file_segments contents). segment_block p) \<union> reachable own (w_heap w0) \<longrightarrow>
           w_mem w3 a = w_mem w0 a"
        using L q q3 by simp_all
      have fr: "w_mem w3 a = w_mem w a"
        if "a \<notin> (\<Union>p \<in> set (file_segments contents). segment_block p) \<union> reachable own (w_heap w)" for a
      proof -
        have "w_mem w3 a = w_mem w0 a" using that l(5) re by blast
        then show ?thesis using that o(7) by simp
      qed
      have q': "elf_prepare rd exec (x1, w1) = Inr (0, exec2, x2, w2)" "ex_ops exec2 = EXEC_FILEFMT_ELF"
        "elf_load rd exec2 (x2, w2) = Inr (0, exec3, x3, w3)"
        using q q3 p l(1) ops by simp_all
      have "boot = enter_image hw stk fuel2 fuel (ex_data_begin exec3) (ex_entrypoint exec3) cfg rsdp w3"
        unfolding b by (rule exec_exec_elf [OF cfg ops(1) q'])
      then show ?thesis
        using l(2,4) fr by (intro disjI2 exI conjI) (auto simp: l(3) range_fold ops)
    qed
  qed
qed

end

text \<open>\<open>ALIGN\<close> keeps a misaligned address and moves an aligned one.\<close>

lemma align_inverted: "ALIGN 0x100001 8 = 0x100001" "ALIGN 0x100000 8 = 0x100008"
  by (simp_all add: ALIGN_def)

section \<open>Properties\<close>



end
