(* ===== verification/Interrupts.thy ===== *)
theory Interrupts
  imports Machine
begin

text \<open>
  Interrupts: the descriptor table of \<^verbatim>\<open>src/intr/idt.c\<close>, the handler table and the dispatcher
  of \<^verbatim>\<open>src/intr/interrupts.c\<close>, and the programmable timer of \<^verbatim>\<open>src/time/pit.c\<close> and
  \<^verbatim>\<open>src/time/time.c\<close>. The processor looks an interrupt up in the descriptor table and enters the
  assembly wrapper of its number, which calls \<open>interrupt_wrapper\<close>; the addresses of the wrappers
  are a parameter. Interrupts arrive from outside: the code that waits for them takes the sequence
  in which they come as an argument.
\<close>

unbundle bit_operations_syntax

section \<open>State\<close>

record idt_entry =
  idt_offset_low :: u16
  idt_segment :: u16
  idt_reserved :: u8
  idt_flags :: u8
  idt_offset_high :: u16

definition IDT_FLAGS_INTR :: "bool \<Rightarrow> u8" where
  "IDT_FLAGS_INTR sz = 0x86 OR (if sz then 0x08 else 0x00)"

definition INT_ID_PIT :: u8 where "INT_ID_PIT = PIC_OFFSET_MASTER"
definition INT_ID_COM2 :: u8 where "INT_ID_COM2 = INT_ID_PIT + 3"
definition INT_ID_COM1 :: u8 where "INT_ID_COM1 = INT_ID_PIT + 4"
definition INT_ID_MAX :: nat where "INT_ID_MAX = unat PIC_OFFSET_SLAVE + 8"

text \<open>The functions of the program that are installed as handlers, and an entry of the table.\<close>

datatype interrupt_handler = Pit_handler | Serial_int_handler

record isr_entry =
  isr_data :: u32
  isr_handler :: "interrupt_handler option"

text \<open>The machine with the tables \<open>_idt\<close> and \<open>_isr_handlers\<close> and the tick count.\<close>

record 'd intr =
  in_world :: "'d world"
  in_idt :: "idt_entry list"
  in_isr :: "isr_entry list"
  in_ticks :: u32

definition idt_null :: idt_entry where
  "idt_null = \<lparr>idt_offset_low = 0, idt_segment = 0, idt_reserved = 0, idt_flags = 0, idt_offset_high = 0\<rparr>"

definition isr_null :: isr_entry where
  "isr_null = \<lparr>isr_data = 0, isr_handler = None\<rparr>"

text \<open>The operations of the machine on this state.\<close>

definition on_world :: "('d world \<Rightarrow> 'a \<times> 'd world) \<Rightarrow> ('d, 'z) intr_scheme \<Rightarrow> 'a \<times> ('d, 'z) intr_scheme" where
  "on_world f s = (case f (in_world s) of (x, w) \<Rightarrow> (x, s\<lparr>in_world := w\<rparr>))"

definition upd_world :: "('d world \<Rightarrow> 'd world) \<Rightarrow> ('d, 'z) intr_scheme \<Rightarrow> ('d, 'z) intr_scheme" where
  "upd_world f s = s\<lparr>in_world := f (in_world s)\<rparr>"

section \<open>The descriptor table\<close>

definition idt_init :: "('d, 'z) intr_scheme \<Rightarrow> ('d, 'z) intr_scheme" where
  "idt_init s = s\<lparr>in_idt := replicate INT_ID_MAX idt_null\<rparr>"

definition idt_set_entry :: "u8 \<Rightarrow> idt_entry \<Rightarrow> ('d, 'z) intr_scheme \<Rightarrow> int \<times> ('d, 'z) intr_scheme" where
  "idt_set_entry n entry s =
     (if unat n \<ge> INT_ID_MAX then (-1, s) else (0, s\<lparr>in_idt := (in_idt s)[unat n := entry]\<rparr>))"

definition idt_set_wrapper :: "u8 \<Rightarrow> u32 \<Rightarrow> ('d, 'z) intr_scheme \<Rightarrow> ('d, 'z) intr_scheme" where
  "idt_set_wrapper int_n wrapper s =
     snd (idt_set_entry int_n
       \<lparr>idt_offset_low = ucast wrapper, idt_segment = 0x0008, idt_reserved = 0,
        idt_flags = IDT_FLAGS_INTR True, idt_offset_high = ucast (drop_bit 16 wrapper)\<rparr> s)"

text \<open>\<open>wrappers n\<close> is the address of \<open>isr_wrapper_n\<close>: the 48 calls, in order.\<close>

definition isr_wrappers_init :: "(nat \<Rightarrow> u32) \<Rightarrow> ('d, 'z) intr_scheme \<Rightarrow> ('d, 'z) intr_scheme" where
  "isr_wrappers_init wrappers s =
     fold (\<lambda>n. idt_set_wrapper (of_nat n) (wrappers n)) [0..<48] s"

section \<open>The handler table\<close>

definition interrupts_init ::
  "'d hardware \<Rightarrow> (nat \<Rightarrow> u32) \<Rightarrow> ('d, 'z) intr_scheme \<Rightarrow> int \<times> ('d, 'z) intr_scheme" where
  "interrupts_init hw wrappers s =
     (let s = upd_world interrupts_disable s;
          s = idt_init s;
          s = upd_world (pic_remap hw PIC_OFFSET_MASTER PIC_OFFSET_SLAVE) s;
          s = isr_wrappers_init wrappers s;
          s = s\<lparr>in_isr := replicate INT_ID_MAX isr_null\<rparr>
      in (0, upd_world interrupts_enable s))"

definition interrupt_register ::
  "u8 \<Rightarrow> interrupt_handler option \<Rightarrow> u32 \<Rightarrow> ('d, 'z) intr_scheme \<Rightarrow> int \<times> ('d, 'z) intr_scheme" where
  "interrupt_register int_id handler data s =
     (if unat int_id \<ge> INT_ID_MAX then (-1, s)
      else (0, s\<lparr>in_isr := (in_isr s)[unat int_id := \<lparr>isr_data = data, isr_handler = handler\<rparr>]\<rparr>))"

definition interrupt_enable :: "'d hardware \<Rightarrow> u8 \<Rightarrow> ('d, 'z) intr_scheme \<Rightarrow> int \<times> ('d, 'z) intr_scheme" where
  "interrupt_enable hw int_id s =
     (if int_id \<ge> PIC_OFFSET_MASTER \<and> int_id < PIC_OFFSET_MASTER + 8 then
        let (r, s) = on_world (pic_unmask hw (int_id - PIC_OFFSET_MASTER)) s
        in (if r \<noteq> 0 then -1 else 0, s)
      else if int_id \<ge> PIC_OFFSET_SLAVE \<and> int_id < PIC_OFFSET_SLAVE + 8 then
        let (r, s) = on_world (pic_unmask hw (int_id - PIC_OFFSET_SLAVE + 8)) s
        in (if r \<noteq> 0 then -1 else 0, s)
      else (-1, s))"

definition interrupt_disable :: "'d hardware \<Rightarrow> u8 \<Rightarrow> ('d, 'z) intr_scheme \<Rightarrow> int \<times> ('d, 'z) intr_scheme" where
  "interrupt_disable hw int_id s =
     (if int_id \<ge> PIC_OFFSET_MASTER \<and> int_id < PIC_OFFSET_MASTER + 8 then
        let (r, s) = on_world (pic_mask hw (int_id - PIC_OFFSET_MASTER)) s
        in (if r \<noteq> 0 then -1 else 0, s)
      else if int_id \<ge> PIC_OFFSET_SLAVE \<and> int_id < PIC_OFFSET_SLAVE + 8 then
        let (r, s) = on_world (pic_mask hw (int_id - PIC_OFFSET_SLAVE + 8)) s
        in (if r \<noteq> 0 then -1 else 0, s)
      else (-1, s))"

text \<open>An exception without a handler: the register dump is debug output, the panic is not.\<close>

definition handle_exception :: "u32 \<Rightarrow> u32 \<Rightarrow> 's res" where
  "handle_exception int_id errcode = Inl Panic"

text \<open>
  \<open>call h n e p\<close> is the call of the handler \<open>h\<close> through its pointer, with the interrupt number, the
  error code and the pointer it was registered with.
\<close>

type_synonym 's handler_call = "interrupt_handler \<Rightarrow> u8 \<Rightarrow> u32 \<Rightarrow> u32 \<Rightarrow> 's \<Rightarrow> 's res"

definition wrapper_eoi :: "'d hardware \<Rightarrow> u32 \<Rightarrow> ('d, 'z) intr_scheme \<Rightarrow> ('d, 'z) intr_scheme" where
  "wrapper_eoi hw int_id s =
     (let m = ucast PIC_OFFSET_MASTER; sl = ucast PIC_OFFSET_SLAVE
      in if int_id \<ge> m \<and> int_id < m + 8 then upd_world (pic_eoi hw (ucast (int_id - m))) s
         else if int_id \<ge> sl \<and> int_id < sl + 8 then upd_world (pic_eoi hw (ucast (int_id - sl + 8))) s
         else s)"

definition interrupt_wrapper ::
  "'d hardware \<Rightarrow> ('d, 'z) intr_scheme handler_call \<Rightarrow> u32 \<Rightarrow> u32 \<Rightarrow>
    ('d, 'z) intr_scheme \<Rightarrow> ('d, 'z) intr_scheme res" where
  "interrupt_wrapper hw call int_id errcode s =
     (let handled =
        (case (if unat int_id < INT_ID_MAX then isr_handler (in_isr s ! unat int_id) else None) of
           Some h \<Rightarrow> call h (ucast int_id) errcode (isr_data (in_isr s ! unat int_id)) s
         | None \<Rightarrow> if int_id < 32 then handle_exception int_id errcode else Inr s)
      in bnd handled (\<lambda>s. Inr (wrapper_eoi hw int_id s)))"

text \<open>
  What the processor does when it comes to look for a request with the number \<open>n\<close>: nothing when no
  device requests one or interrupts are disabled; otherwise the gate clears the interrupt flag, the
  wrapper runs and \<open>iret\<close> restores it.
\<close>

definition deliver ::
  "'d hardware \<Rightarrow> ('d, 'z) intr_scheme handler_call \<Rightarrow> u8 \<Rightarrow> ('d, 'z) intr_scheme \<Rightarrow> ('d, 'z) intr_scheme res" where
  "deliver hw call n s =
     (if w_if (in_world s) \<and> hw_irq hw n (w_dev (in_world s)) then
        bnd (interrupt_wrapper hw call (ucast n) 0 (upd_world interrupts_disable s)) (\<lambda>s.
          Inr (upd_world interrupts_enable s))
      else Inr s)"

fun deliver_all ::
  "'d hardware \<Rightarrow> ('d, 'z) intr_scheme handler_call \<Rightarrow> u8 list \<Rightarrow> ('d, 'z) intr_scheme \<Rightarrow> ('d, 'z) intr_scheme res" where
  "deliver_all hw call [] s = Inr s"
| "deliver_all hw call (n # ns) s = bnd (deliver hw call n s) (deliver_all hw call ns)"

section \<open>The timer\<close>

definition PIT0_DATA :: u16 where "PIT0_DATA = 0x40 + 0"
definition PIT_COMMAND :: u16 where "PIT_COMMAND = 0x40 + 3"
definition TIME_TICKS_PER_SECOND :: u32 where "TIME_TICKS_PER_SECOND = 1000"

definition get_reload :: "u32 \<Rightarrow> u16" where
  "get_reload freq =
     (if freq < 18 then 0xffff
      else if freq > 1193181 then 0x0001
      else ucast ((1193180 :: u32) div freq))"

definition pit_init :: "'d hardware \<Rightarrow> u32 \<Rightarrow> 'd world \<Rightarrow> int \<times> 'd world" where
  "pit_init hw freq w =
     (let reload = get_reload freq;
          w = outb hw PIT_COMMAND (push_bit 1 2 OR push_bit 4 3 OR push_bit 6 0) w;
          w = outb hw PIT0_DATA (ucast reload) w;
          w = outb hw PIT0_DATA (ucast (drop_bit 8 reload)) w
      in (0, w))"

definition time_init :: "'d hardware \<Rightarrow> ('d, 'z) intr_scheme \<Rightarrow> int \<times> ('d, 'z) intr_scheme" where
  "time_init hw s =
     (let s = s\<lparr>in_ticks := 0\<rparr>;
          (_, s) = on_world (pit_init hw TIME_TICKS_PER_SECOND) s;
          (_, s) = interrupt_register INT_ID_PIT (Some Pit_handler) 0 s;
          (_, s) = interrupt_enable hw INT_ID_PIT s
      in (0, s))"

definition pit_handler :: "u8 \<Rightarrow> u32 \<Rightarrow> u32 \<Rightarrow> ('d, 'z) intr_scheme \<Rightarrow> ('d, 'z) intr_scheme res" where
  "pit_handler int_id errno data s = Inr (s\<lparr>in_ticks := in_ticks s + 1\<rparr>)"

definition time_get :: "('d, 'z) intr_scheme \<Rightarrow> u32" where
  "time_get s = in_ticks s"

definition time_offset :: "u32 \<Rightarrow> ('d, 'z) intr_scheme \<Rightarrow> u32" where
  "time_offset ms s = in_ticks s + ms * (TIME_TICKS_PER_SECOND div 1000)"

definition time_addoffset :: "u32 \<Rightarrow> u32 \<Rightarrow> u32" where
  "time_addoffset ticks ms = ticks + ms * (TIME_TICKS_PER_SECOND div 1000)"

definition time_ispast :: "u32 \<Rightarrow> ('d, 'z) intr_scheme \<Rightarrow> bool" where
  "time_ispast ticks s \<longleftrightarrow> ticks \<le> in_ticks s"

text \<open>
  \<open>time_delay\<close> halts until the tick count is reached. A round of its loop is the interrupts that come
  between the test of the count and the halt, which the halt does not see any more, and those that
  come from the halt on until the next test, the first of which ends the halt. \<open>early\<close> are those
  before the first test. \<open>Loop\<close> is the halt that no interrupt ends.
\<close>

type_synonym halt_round = "u8 list \<times> u8 list"

fun delay_loop ::
  "'d hardware \<Rightarrow> ('d, 'z) intr_scheme handler_call \<Rightarrow> u32 \<Rightarrow> halt_round list \<Rightarrow>
    ('d, 'z) intr_scheme \<Rightarrow> (halt_round list \<times> ('d, 'z) intr_scheme) res" where
  "delay_loop hw call end_ticks rs s =
     (if time_ispast end_ticks s then Inr (rs, s)
      else case rs of
          [] \<Rightarrow> Inl Loop
        | (before, wake) # rs \<Rightarrow>
            bnd (deliver_all hw call before s) (\<lambda>s.
              if wake = [] then Inl Loop
              else bnd (deliver_all hw call wake s) (delay_loop hw call end_ticks rs)))"

declare delay_loop.simps [simp del]

definition time_delay ::
  "'d hardware \<Rightarrow> ('d, 'z) intr_scheme handler_call \<Rightarrow> u32 \<Rightarrow> u8 list \<Rightarrow> halt_round list \<Rightarrow>
    ('d, 'z) intr_scheme \<Rightarrow> (halt_round list \<times> ('d, 'z) intr_scheme) res" where
  "time_delay hw call ms early rs s =
     (if \<not> interrupts_enabled (in_world s) then Inl Panic
      else bnd (deliver_all hw call early s) (delay_loop hw call (time_offset ms s) rs))"

end
