(* ===== verification/Fifo_Interrupt.thy ===== *)
theory Fifo_Interrupt
  imports Fifo
begin

text \<open>
  A queue with an interrupt handler at its other end: the main program is inside \<open>fifo_read\<close> of
  \<^verbatim>\<open>src/data/fifo.c\<close> while the handler of \<^verbatim>\<open>src/io/serial.c\<close> writes bytes. The handler runs to its end,
  so its \<open>fifo_write\<close> is one step; the steps of the read are its single accesses to \<open>head\<close> and
  \<open>tail\<close>, which are volatile, and to the buffer. C leaves it open whether \<open>buf[head++]\<close> loads the
  byte before or after it stores the new \<open>head\<close>: both orders are steps.
\<close>

section \<open>Steps\<close>

text \<open>
  Where the read is: before \<open>fifo_getused\<close>, after its comparison with the given tail, with that
  many bytes to copy, between the parts of \<open>buf[head++]\<close>, before the wrap of \<open>head\<close>, and returned
  with a failure.
\<close>

datatype read_pc = At_count | At_sub u32 | At_copy nat | At_inc nat | At_load nat u32 | At_wrap nat | Failed

record read_state =
  rs_q :: fifo
  rs_pc :: read_pc
  rs_out :: "u8 list"
  rs_acc :: "u8 list"
  rs_torn :: bool

text \<open>\<open>fifo_getused\<close> with the tail it compared; it reads the tail again to subtract.\<close>

definition used_after :: "u32 \<Rightarrow> fifo \<Rightarrow> u32" where
  "used_after t q = (if fifo_head q \<le> t then fifo_tail q - fifo_head q
     else fifo_size q - (fifo_head q - fifo_tail q))"

text \<open>
  \<open>rs_acc\<close> are the bytes the handler has written; \<open>rs_torn\<close> is set when the tail wraps around
  between the two reads of \<open>fifo_getused\<close>.
\<close>

inductive read_step :: "u32 \<Rightarrow> read_state \<Rightarrow> read_state \<Rightarrow> bool" for sz where
  isr: "fifo_write (rs_q s) [b] 1 = Inr (r, q) \<Longrightarrow>
    torn = (rs_torn s \<or> (\<exists>t. rs_pc s = At_sub t \<and> fifo_head q \<le> t \<and> fifo_tail q < fifo_head q)) \<Longrightarrow>
    read_step sz s (s\<lparr>rs_q := q, rs_acc := rs_acc s @ (if r = 0 then [b] else []), rs_torn := torn\<rparr>)"
| compare: "rs_pc s = At_count \<Longrightarrow> read_step sz s (s\<lparr>rs_pc := At_sub (fifo_tail (rs_q s))\<rparr>)"
| short: "rs_pc s = At_sub t \<Longrightarrow> used_after t (rs_q s) < sz \<Longrightarrow> read_step sz s (s\<lparr>rs_pc := Failed\<rparr>)"
| enough: "rs_pc s = At_sub t \<Longrightarrow> \<not> used_after t (rs_q s) < sz \<Longrightarrow>
    read_step sz s (s\<lparr>rs_pc := At_copy (unat sz)\<rparr>)"
| load_first: "rs_pc s = At_copy (Suc k) \<Longrightarrow> unat (fifo_head (rs_q s)) < length (fifo_data (rs_q s)) \<Longrightarrow>
    read_step sz s (s\<lparr>rs_out := rs_out s @ [fifo_data (rs_q s) ! unat (fifo_head (rs_q s))], rs_pc := At_inc k\<rparr>)"
| inc_last: "rs_pc s = At_inc k \<Longrightarrow>
    read_step sz s (s\<lparr>rs_q := (rs_q s)\<lparr>fifo_head := fifo_head (rs_q s) + 1\<rparr>, rs_pc := At_wrap k\<rparr>)"
| inc_first: "rs_pc s = At_copy (Suc k) \<Longrightarrow>
    read_step sz s (s\<lparr>rs_q := (rs_q s)\<lparr>fifo_head := fifo_head (rs_q s) + 1\<rparr>,
      rs_pc := At_load k (fifo_head (rs_q s))\<rparr>)"
| load_last: "rs_pc s = At_load k h \<Longrightarrow> unat h < length (fifo_data (rs_q s)) \<Longrightarrow>
    read_step sz s (s\<lparr>rs_out := rs_out s @ [fifo_data (rs_q s) ! unat h], rs_pc := At_wrap k\<rparr>)"
| wrap: "rs_pc s = At_wrap k \<Longrightarrow>
    read_step sz s (s\<lparr>rs_q := (if fifo_head (rs_q s) \<ge> fifo_size (rs_q s)
        then (rs_q s)\<lparr>fifo_head := 0\<rparr> else rs_q s), rs_pc := At_copy k\<rparr>)"

definition read_start :: "fifo \<Rightarrow> read_state" where
  "read_start q = \<lparr>rs_q = q, rs_pc = At_count, rs_out = [], rs_acc = [], rs_torn = False\<rparr>"

inductive_cases read_stepE: "read_step sz s s'"

text \<open>With no interrupt the steps are \<open>fifo_read\<close>.\<close>

lemma copy_alone:
  assumes "fifo_read_loop f buf i n = Inr (buf', f')"
  shows "\<exists>bs. length bs = n \<and> (n = 0 \<or> i + n \<le> length buf) \<and> buf' = take i buf @ bs @ drop (i + n) buf \<and>
    (read_step sz)\<^sup>*\<^sup>* \<lparr>rs_q = f, rs_pc = At_copy n, rs_out = out, rs_acc = acc, rs_torn = t\<rparr>
      \<lparr>rs_q = f', rs_pc = At_copy 0, rs_out = out @ bs, rs_acc = acc, rs_torn = t\<rparr>"
  using assms
proof (induction n arbitrary: f buf i out)
  case 0
  then show ?case by simp
next
  case (Suc n)
  let ?h = "fifo_head f" and ?f1 = "f\<lparr>fifo_head := fifo_head f + 1\<rparr>"
  let ?f2 = "if fifo_head ?f1 \<ge> fifo_size ?f1 then ?f1\<lparr>fifo_head := 0\<rparr> else ?f1"
  let ?b = "fifo_data f ! unat ?h"
  let ?s = "\<lambda>q pc out. \<lparr>rs_q = q, rs_pc = pc, rs_out = out, rs_acc = acc, rs_torn = t\<rparr>"
  from Suc.prems(1) have len: "unat ?h < length (fifo_data f)" "i < length buf"
    and rest: "fifo_read_loop ?f2 (buf[i := ?b]) (Suc i) n = Inr (buf', f')"
    by (auto simp: fifo_read_byte_def Let_def split: if_splits)
  have "read_step sz (?s f (At_copy (Suc n)) out) (?s f (At_inc n) (out @ [?b]))"
    using load_first [of "?s f (At_copy (Suc n)) out" n sz] len by simp
  moreover have "read_step sz (?s f (At_inc n) (out @ [?b])) (?s ?f1 (At_wrap n) (out @ [?b]))"
    using inc_last [of "?s f (At_inc n) (out @ [?b])" n sz] by simp
  moreover have "read_step sz (?s ?f1 (At_wrap n) (out @ [?b])) (?s ?f2 (At_copy n) (out @ [?b]))"
    using wrap [of "?s ?f1 (At_wrap n) (out @ [?b])" n sz] by (simp split del: if_split cong: if_cong)
  moreover obtain bs where bs: "length bs = n" "buf' = take (Suc i) (buf[i := ?b]) @ bs @ drop (Suc i + n) (buf[i := ?b])"
    "n = 0 \<or> Suc i + n \<le> length buf"
    "(read_step sz)\<^sup>*\<^sup>* (?s ?f2 (At_copy n) (out @ [?b])) (?s f' (At_copy 0) ((out @ [?b]) @ bs))"
    using Suc.IH [OF rest, of "out @ [?b]"] by auto
  ultimately have "(read_step sz)\<^sup>*\<^sup>* (?s f (At_copy (Suc n)) out) (?s f' (At_copy 0) (out @ ?b # bs))"
    unfolding append.assoc append_Cons append_Nil by (meson converse_rtranclp_into_rtranclp)
  moreover have "take (Suc i) (buf[i := ?b]) = take i buf @ [?b]"
    using len(2) by (simp add: take_Suc_conv_app_nth)
  ultimately show ?case using bs(1-3) len(2) by (intro exI [of _ "?b # bs"]) auto
qed

lemma fifo_read_alone:
  assumes "fifo_read f (Some buf) sz = Inr (r, Some buf', f')"
  shows "\<exists>bs. buf' = bs @ drop (length bs) buf \<and>
    (read_step sz)\<^sup>*\<^sup>* (read_start f)
      \<lparr>rs_q = f', rs_pc = (if r = 0 then At_copy 0 else Failed), rs_out = bs, rs_acc = [], rs_torn = False\<rparr>"
proof -
  let ?s = "\<lambda>pc. \<lparr>rs_q = f, rs_pc = pc, rs_out = [], rs_acc = [], rs_torn = False\<rparr>"
  have 1: "read_step sz (read_start f) (?s (At_sub (fifo_tail f)))"
    using compare [of "read_start f" sz] by (simp add: read_start_def)
  have u: "used_after (fifo_tail f) f = fifo_getused f" by (simp add: used_after_def fifo_getused_def)
  show ?thesis
  proof (cases "fifo_getused f < sz")
    case True
    then have "read_step sz (?s (At_sub (fifo_tail f))) (?s Failed)"
      using short [of "?s (At_sub (fifo_tail f))" "fifo_tail f" sz] u by simp
    with 1 have "(read_step sz)\<^sup>*\<^sup>* (read_start f) (?s Failed)"
      by (meson converse_rtranclp_into_rtranclp rtranclp.rtrancl_refl)
    with True assms show ?thesis by (intro exI [of _ "[]"]) (auto simp: fifo_read_def)
  next
    case False
    then have 2: "read_step sz (?s (At_sub (fifo_tail f))) (?s (At_copy (unat sz)))"
      using enough [of "?s (At_sub (fifo_tail f))" "fifo_tail f" sz] u by simp
    have l: "fifo_read_loop f buf 0 (unat sz) = Inr (buf', f')" and r: "r = 0"
      using False assms by (auto simp: fifo_read_def bnd_eq_Inr)
    from copy_alone [OF l, of sz "[]" "[]" False] obtain bs where bs: "length bs = unat sz"
      "buf' = bs @ drop (unat sz) buf"
      "(read_step sz)\<^sup>*\<^sup>* (?s (At_copy (unat sz)))
        \<lparr>rs_q = f', rs_pc = At_copy 0, rs_out = bs, rs_acc = [], rs_torn = False\<rparr>"
      by auto
    with 1 2 have "(read_step sz)\<^sup>*\<^sup>* (read_start f)
        \<lparr>rs_q = f', rs_pc = At_copy 0, rs_out = bs, rs_acc = [], rs_torn = False\<rparr>"
      by (meson converse_rtranclp_into_rtranclp)
    with bs r show ?thesis by (intro exI [of _ bs]) simp
  qed
qed

section \<open>The invariant\<close>

text \<open>The queue with the pending wrap of \<open>head\<close> done.\<close>

definition settled :: "fifo \<Rightarrow> fifo" where
  "settled q = (if fifo_head q \<ge> fifo_size q then q\<lparr>fifo_head := 0\<rparr> else q)"

lemma settled_inv [simp]: "fifo_inv q \<Longrightarrow> settled q = q"
  by (auto simp: settled_def fifo_inv_def)

text \<open>The handler does the same to a queue whether the wrap of \<open>head\<close> has been done or not.\<close>

lemma getfree_settled:
  assumes "fifo_inv (settled q)" and "fifo_head q \<le> fifo_size q"
  shows "fifo_getfree q = fifo_getfree (settled q)"
proof (cases "fifo_head q = fifo_size q")
  case True
  then have "fifo_tail q < fifo_size q" using assms by (auto simp: settled_def fifo_inv_def)
  with True show ?thesis by (auto simp: settled_def fifo_getfree_def)
next
  case False
  with assms(2) show ?thesis by (simp add: settled_def)
qed

lemma write_settled:
  assumes "fifo_inv (settled q)" and "fifo_head q \<le> fifo_size q"
  shows "fifo_write q [b] 1 =
    (case fifo_write (settled q) [b] 1 of Inl e \<Rightarrow> Inl e
     | Inr (r, q') \<Rightarrow> Inr (r, q'\<lparr>fifo_head := fifo_head q\<rparr>))"
proof -
  have "fifo_write_byte q b = (case fifo_write_byte (settled q) b of Inl e \<Rightarrow> Inl e
      | Inr q' \<Rightarrow> Inr (q'\<lparr>fifo_head := fifo_head q\<rparr>))"
    by (simp add: fifo_write_byte_def settled_def Let_def)
  then show ?thesis
    using getfree_settled [OF assms]
    by (cases "fifo_write_byte (settled q) b") (simp_all add: fifo_write_def settled_def)
qed

lemma write_one_fields:
  assumes "fifo_write q [b] 1 = Inr (r, q')"
  shows "fifo_head q' = fifo_head q" "fifo_size q' = fifo_size q"
    "r \<noteq> 0 \<Longrightarrow> q' = q" "r = 0 \<Longrightarrow> fifo_data q' = (fifo_data q)[unat (fifo_tail q) := b]"
    "r = 0 \<Longrightarrow> \<not> fifo_getfree q < 1"
  using assms
  by (auto simp: fifo_write_def fifo_write_byte_def Let_def split: if_splits)

lemma settled_fields [simp]:
  "fifo_size (settled q) = fifo_size q" "fifo_tail (settled q) = fifo_tail q"
  "fifo_data (settled q) = fifo_data q"
  by (simp_all add: settled_def)

text \<open>The handler's write: nothing, or a byte at the end, below the slot that is kept empty.\<close>

lemma isr_cases:
  assumes w: "fifo_write q [b] 1 = Inr (r, q')" and inv: "fifo_inv (settled q)"
    and hd: "fifo_head q \<le> fifo_size q"
  obtains (full) "r \<noteq> 0" "q' = q"
  | (ok) "r = 0" "fifo_inv (settled q')" "fifo_contents (settled q') = fifo_contents (settled q) @ [b]"
      "fifo_head q' = fifo_head q" "fifo_size q' = fifo_size q"
      "fifo_data q' = (fifo_data q)[unat (fifo_tail q) := b]"
      "length (fifo_contents (settled q)) + 1 < unat (fifo_size q)"
proof (cases "r = 0")
  case False
  then show thesis using full write_one_fields [OF w] by blast
next
  case True
  note f = write_one_fields [OF w]
  obtain q1 where q1: "fifo_write (settled q) [b] 1 = Inr (0, q1)" "q' = q1\<lparr>fifo_head := fifo_head q\<rparr>"
    using w True write_settled [OF inv hd, of b]
    by (cases "fifo_write (settled q) [b] 1") auto
  have free: "length (fifo_contents (settled q)) + 1 < unat (fifo_size q)"
    using f(5) [OF True] getfree_settled [OF inv hd] fifo_getfree_contents [OF inv]
    by (simp add: word_less_nat_alt)
  have law: "fifo_inv q1" "fifo_contents q1 = fifo_contents (settled q) @ [b]"
    using fifo_write_loop_ok [OF inv, of 1 "[b]"] q1(1) free
    by (auto simp: fifo_write_def bnd_eq_Inr split: if_splits)
  have h1: "fifo_head q1 = fifo_head (settled q)" "fifo_size q1 = fifo_size q"
    using write_one_fields [OF q1(1)] by simp_all
  have "settled q' = q1"
  proof (cases "fifo_head q \<ge> fifo_size q")
    case True
    with h1 have "fifo_head q1 = 0" by (simp add: settled_def)
    with True h1 q1(2) show ?thesis by (simp add: settled_def)
  next
    case False
    with h1 have "fifo_head q1 = fifo_head q" by (simp add: settled_def)
    with False h1 q1(2) show ?thesis by (simp add: settled_def)
  qed
  with law f True free show thesis by (intro ok) auto
qed

text \<open>The byte at \<open>head\<close> is the oldest one, and the rest is what is left once \<open>head\<close> has moved on.\<close>

lemma contents_step:
  assumes inv: "fifo_inv q" and c: "fifo_contents q \<noteq> []"
  shows "fifo_contents q = fifo_data q ! unat (fifo_head q) #
      fifo_contents (settled (q\<lparr>fifo_head := fifo_head q + 1\<rparr>))"
    "fifo_inv (settled (q\<lparr>fifo_head := fifo_head q + 1\<rparr>))" "fifo_head q + 1 \<le> fifo_size q"
proof -
  let ?q = "settled (q\<lparr>fifo_head := fifo_head q + 1\<rparr>)"
  obtain b bs where b: "fifo_contents q = b # bs" using c by (cases "fifo_contents q") auto
  from fifo_read_byte_ok [OF inv b] obtain q' where
    q': "fifo_read_byte q = Inr (b, q')" "fifo_inv q'" "fifo_contents q' = bs" by blast
  then have "q' = ?q" "b = fifo_data q ! unat (fifo_head q)"
    by (auto simp: fifo_read_byte_def settled_def Let_def split: if_splits)
  with b q' show "fifo_contents q = fifo_data q ! unat (fifo_head q) # fifo_contents ?q" "fifo_inv ?q"
    by simp_all
  show "fifo_head q + 1 \<le> fifo_size q"
    using inv by (simp add: fifo_inv_def inc_le)
qed

text \<open>The slot just left is the one kept empty when the queue is full: the handler never writes it.\<close>

lemma slot_kept:
  assumes inv: "fifo_inv (settled q)" and h: "fifo_head q = h + 1" "h < fifo_size q"
    and room: "length (fifo_contents (settled q)) + 1 < unat (fifo_size q)"
  shows "fifo_tail q \<noteq> h"
proof
  assume t: "fifo_tail q = h"
  have n: "unat (fifo_head (settled q)) = (if Suc (unat h) = unat (fifo_size q) then 0 else Suc (unat h))"
  proof -
    have "fifo_head (settled q) = (if fifo_size q \<le> h + 1 then 0 else h + 1)"
      using h(1) by (simp add: settled_def)
    then show ?thesis by (simp only: ring_next [OF h(2)])
  qed
  have len: "length (fifo_data q) = unat (fifo_size q)" "unat h < unat (fifo_size q)"
    using inv h(2) by (simp_all add: fifo_inv_nat word_less_nat_alt)
  have "length (fifo_contents (settled q)) = unat (fifo_size q) - 1"
    using n t len by (auto simp: fifo_contents_def Let_def)
  with room show False by simp
qed

text \<open>
  The invariant, until the count is torn: what has been copied, the byte in between, and what the
  queue holds make up the contents at the start and what the handler has added.
\<close>

definition at_ok :: "fifo \<Rightarrow> u32 \<Rightarrow> u8 list \<Rightarrow> read_pc \<Rightarrow> fifo \<Rightarrow> u8 list \<Rightarrow> bool" where
  "at_ok q0 sz stream pc q done = (case pc of
     At_count \<Rightarrow> fifo_inv q \<and> done = [] \<and> fifo_contents q = stream
   | At_sub t \<Rightarrow> fifo_inv q \<and> done = [] \<and> fifo_contents q = stream \<and>
       (fifo_head q \<le> t \<longleftrightarrow> fifo_head q \<le> fifo_tail q)
   | At_copy k \<Rightarrow> fifo_inv q \<and> done @ fifo_contents q = stream \<and> k \<le> length (fifo_contents q) \<and>
       length done + k = unat sz
   | At_inc k \<Rightarrow> fifo_inv q \<and> fifo_contents q \<noteq> [] \<and> done @ tl (fifo_contents q) = stream \<and>
       k < length (fifo_contents q) \<and> length done + k = unat sz
   | At_load k h \<Rightarrow> fifo_inv (settled q) \<and> fifo_head q = h + 1 \<and> h < fifo_size q \<and>
       done @ fifo_data q ! unat h # fifo_contents (settled q) = stream \<and>
       k \<le> length (fifo_contents (settled q)) \<and> length done + k + 1 = unat sz
   | At_wrap k \<Rightarrow> fifo_inv (settled q) \<and> fifo_head q \<le> fifo_size q \<and>
       done @ fifo_contents (settled q) = stream \<and>
       k \<le> length (fifo_contents (settled q)) \<and> length done + k = unat sz
   | Failed \<Rightarrow> fifo_inv q \<and> done = [] \<and> fifo_contents q = stream)"

definition read_inv :: "fifo \<Rightarrow> u32 \<Rightarrow> read_state \<Rightarrow> bool" where
  "read_inv q0 sz s \<longleftrightarrow> rs_torn s \<or> fifo_size (rs_q s) = fifo_size q0 \<and>
     at_ok q0 sz (fifo_contents q0 @ rs_acc s) (rs_pc s) (rs_q s) (rs_out s)"

text \<open>In every place the queue is sound but for a pending wrap.\<close>

lemma at_ok_settled:
  assumes "at_ok q0 sz stream pc q done"
  shows "fifo_inv (settled q)" "fifo_head q \<le> fifo_size q"
  using assms by (auto simp: at_ok_def fifo_inv_def inc_le split: read_pc.splits)

lemma isr_at_ok:
  assumes ok: "at_ok q0 sz stream pc q done" and w: "fifo_write q [b] 1 = Inr (r, q')"
    and torn: "\<not> (\<exists>t. pc = At_sub t \<and> fifo_head q' \<le> t \<and> fifo_tail q' < fifo_head q')"
  shows "at_ok q0 sz (stream @ (if r = 0 then [b] else [])) pc q' done"
proof (cases rule: isr_cases [OF w at_ok_settled [OF ok]])
  case 1
  then show ?thesis using ok by simp
next
  case ok': 2
  have set: "fifo_inv q' \<and> settled q' = q'" if "fifo_inv q"
    using ok' that by (auto simp: settled_def fifo_inv_def)
  show ?thesis
  proof (cases pc)
    case (At_sub t)
    with ok have q: "fifo_inv q" "fifo_head q \<le> t \<longleftrightarrow> fifo_head q \<le> fifo_tail q"
      by (auto simp: at_ok_def)
    have c: "fifo_contents q' = fifo_contents q @ [b]" using ok' set q(1) by simp
    have "\<not> fifo_head q' \<le> fifo_tail q'" if "\<not> fifo_head q \<le> fifo_tail q"
    proof
      assume le: "fifo_head q' \<le> fifo_tail q'"
      have i: "fifo_inv q'" using set q(1) by blast
      have "length (fifo_contents q') = unat (fifo_tail q') - unat (fifo_head q')"
        using le i by (auto simp: fifo_contents_def Let_def fifo_inv_nat word_le_nat_alt)
      moreover have "unat (fifo_tail q') < unat (fifo_size q')" "unat (fifo_head q') \<le> unat (fifo_tail q')"
        using i le by (simp_all add: fifo_inv_nat word_le_nat_alt)
      ultimately have "length (fifo_contents q') < unat (fifo_size q) - unat (fifo_head q)"
        using ok' by simp
      moreover have "unat (fifo_size q) - unat (fifo_head q) \<le> length (fifo_contents q)"
        using that q(1) by (auto simp: fifo_contents_def Let_def fifo_inv_nat word_le_nat_alt)
      ultimately show False using c by simp
    qed
    then show ?thesis
      using ok torn At_sub ok' set q c by (auto simp: at_ok_def)
  next
    case (At_load k h)
    with ok have l: "fifo_inv (settled q)" "fifo_head q = h + 1" "h < fifo_size q"
      by (auto simp: at_ok_def)
    have "fifo_tail q \<noteq> h" by (rule slot_kept [OF l]) (use ok' in simp)
    then have "fifo_data q' ! unat h = fifo_data q ! unat h"
      using ok' by (simp add: word_unat_eq_iff)
    then show ?thesis using ok ok' At_load by (auto simp: at_ok_def)
  qed (use ok ok' set in \<open>auto simp: at_ok_def\<close>)
qed

text \<open>Counting again what has been counted.\<close>

lemma used_after_contents:
  assumes "fifo_inv q" and "fifo_head q \<le> t \<longleftrightarrow> fifo_head q \<le> fifo_tail q"
  shows "unat (used_after t q) = length (fifo_contents q)"
  using assms fifo_getused_contents [of q] by (simp add: used_after_def fifo_getused_def)

lemma read_inv_step:
  assumes "read_step sz s s'" and "read_inv q0 sz s"
  shows "read_inv q0 sz s'"
  using assms
proof (induction rule: read_step.induct)
  case (isr s b r q torn)
  show ?case
  proof (cases torn)
    case False
    with isr have "at_ok q0 sz (fifo_contents q0 @ rs_acc s) (rs_pc s) (rs_q s) (rs_out s)"
      "fifo_size (rs_q s) = fifo_size q0" by (auto simp: read_inv_def)
    with isr_at_ok [OF this(1) isr(1)] isr False write_one_fields(2) [OF isr(1)] show ?thesis
      by (simp add: read_inv_def)
  qed (simp add: read_inv_def)
next
  case (short s t)
  then show ?case by (auto simp: read_inv_def at_ok_def)
next
  case (enough s t)
  then show ?case
    using used_after_contents [of "rs_q s" t] by (auto simp: read_inv_def at_ok_def word_less_nat_alt)
next
  case (load_first s k)
  then show ?case
    by (cases "fifo_contents (rs_q s)") (auto simp: read_inv_def at_ok_def dest: contents_step(1))
next
  case (inc_last s k)
  then show ?case
    using contents_step [of "rs_q s"] by (auto simp: read_inv_def at_ok_def)
next
  case (inc_first s k)
  show ?case
  proof (cases "rs_torn s")
    case False
    with inc_first have i: "fifo_inv (rs_q s)" and ne: "fifo_contents (rs_q s) \<noteq> []"
      by (auto simp: read_inv_def at_ok_def)
    then have "fifo_head (rs_q s) < fifo_size (rs_q s)" by (simp add: fifo_inv_def)
    with False inc_first contents_step [OF i ne] show ?thesis
      by (simp add: read_inv_def at_ok_def)
  qed (simp add: read_inv_def)
next
  case (load_last s k h)
  then show ?case by (auto simp: read_inv_def at_ok_def inc_le)
next
  case (wrap s k)
  then show ?case by (auto simp: read_inv_def at_ok_def settled_def)
qed (auto simp: read_inv_def at_ok_def)

lemma read_inv_reachable:
  assumes "(read_step sz)\<^sup>*\<^sup>* (read_start q) s" and "fifo_inv q"
  shows "read_inv q sz s"
  using assms
proof (induction rule: rtranclp_induct)
  case base
  then show ?case by (simp add: read_inv_def at_ok_def read_start_def)
next
  case (step s s')
  then show ?case using read_inv_step by blast
qed

text \<open>The steps the read itself still has to make; the handler's steps do not add to them.\<close>

definition steps_left :: "u32 \<Rightarrow> read_pc \<Rightarrow> nat" where
  "steps_left sz pc = (case pc of At_count \<Rightarrow> 3 * unat sz + 2 | At_sub t \<Rightarrow> 3 * unat sz + 1
     | At_copy k \<Rightarrow> 3 * k | At_inc k \<Rightarrow> 3 * k + 2 | At_load k h \<Rightarrow> 3 * k + 2 | At_wrap k \<Rightarrow> 3 * k + 1
     | Failed \<Rightarrow> 0)"

lemma progressI:
  "read_step sz s s' \<Longrightarrow> rs_acc s' = rs_acc s \<Longrightarrow> steps_left sz (rs_pc s') < steps_left sz (rs_pc s) \<Longrightarrow>
    \<exists>s'. read_step sz s s' \<and> rs_acc s' = rs_acc s \<and> steps_left sz (rs_pc s') < steps_left sz (rs_pc s)"
  by blast

lemma read_progress:
  assumes inv: "read_inv q sz s" and t: "\<not> rs_torn s" and n: "steps_left sz (rs_pc s) \<noteq> 0"
  shows "\<exists>s'. read_step sz s s' \<and> rs_acc s' = rs_acc s \<and> steps_left sz (rs_pc s') < steps_left sz (rs_pc s)"
proof (cases "rs_pc s")
  case At_count
  show ?thesis by (rule progressI [OF compare [OF At_count]]) (simp_all add: steps_left_def At_count)
next
  case (At_sub u)
  show ?thesis
  proof (cases "used_after u (rs_q s) < sz")
    case True
    show ?thesis by (rule progressI [OF short [OF At_sub True]]) (simp_all add: steps_left_def At_sub)
  next
    case False
    show ?thesis by (rule progressI [OF enough [OF At_sub False]]) (simp_all add: steps_left_def At_sub)
  qed
next
  case (At_copy k)
  then obtain j where pc: "rs_pc s = At_copy (Suc j)" using n by (cases k) (auto simp: steps_left_def)
  show ?thesis by (rule progressI [OF inc_first [OF pc]]) (simp_all add: steps_left_def pc)
next
  case (At_inc k)
  show ?thesis by (rule progressI [OF inc_last [OF At_inc]]) (simp_all add: steps_left_def At_inc)
next
  case (At_load k h)
  with inv t have h: "unat h < length (fifo_data (rs_q s))"
    by (auto simp: read_inv_def at_ok_def fifo_inv_nat word_less_nat_alt)
  show ?thesis by (rule progressI [OF load_last [OF At_load h]]) (simp_all add: steps_left_def At_load)
next
  case (At_wrap k)
  show ?thesis by (rule progressI [OF wrap [OF At_wrap]]) (simp_all add: steps_left_def At_wrap)
next
  case Failed
  with n show ?thesis by (simp add: steps_left_def)
qed

section \<open>Properties\<close>

text \<open>
  C33: However the handler's writes fall between the accesses of \<open>fifo_read\<close>, as long as the tail
  does not wrap around inside its count: the read never leaves the buffer and is never stuck; when
  it succeeds it has taken the oldest bytes of the queue and of what has been written meanwhile,
  in order, and when it fails it has taken none; nothing that was written is lost or overwritten.
\<close>

theorem fifo_read_interrupted:
  assumes inv: "fifo_inv q" and run: "(read_step sz)\<^sup>*\<^sup>* (read_start q) s" and torn: "\<not> rs_torn s"
  shows "fifo_inv (settled (rs_q s)) \<and> fifo_size (rs_q s) = fifo_size q \<and>
    (case rs_pc s of
       At_copy 0 \<Rightarrow> rs_out s = take (unat sz) (fifo_contents q @ rs_acc s) \<and> length (rs_out s) = unat sz \<and>
         fifo_contents (settled (rs_q s)) = drop (unat sz) (fifo_contents q @ rs_acc s)
     | At_copy (Suc k) \<Rightarrow> unat (fifo_head (rs_q s)) < length (fifo_data (rs_q s))
     | At_load k h \<Rightarrow> unat h < length (fifo_data (rs_q s))
     | Failed \<Rightarrow> rs_out s = [] \<and> fifo_contents (settled (rs_q s)) = fifo_contents q @ rs_acc s
     | _ \<Rightarrow> True) \<and>
    (steps_left sz (rs_pc s) = 0 \<or> (\<exists>s'. read_step sz s s' \<and> rs_acc s' = rs_acc s \<and>
       steps_left sz (rs_pc s') < steps_left sz (rs_pc s)))"
proof -
  have I: "read_inv q sz s" by (rule read_inv_reachable [OF run inv])
  with torn have ok: "at_ok q sz (fifo_contents q @ rs_acc s) (rs_pc s) (rs_q s) (rs_out s)"
    and size: "fifo_size (rs_q s) = fifo_size q" by (auto simp: read_inv_def)
  have copied: "rs_out s = take (unat sz) (fifo_contents q @ rs_acc s) \<and> length (rs_out s) = unat sz \<and>
      fifo_contents (settled (rs_q s)) = drop (unat sz) (fifo_contents q @ rs_acc s)"
    if "rs_pc s = At_copy 0"
  proof -
    have e: "rs_out s @ fifo_contents (rs_q s) = fifo_contents q @ rs_acc s"
      and l: "length (rs_out s) = unat sz" and "fifo_inv (rs_q s)"
      using ok that by (auto simp: at_ok_def)
    then show ?thesis unfolding e [symmetric] l [symmetric] by simp
  qed
  have "case rs_pc s of
       At_copy 0 \<Rightarrow> rs_out s = take (unat sz) (fifo_contents q @ rs_acc s) \<and> length (rs_out s) = unat sz \<and>
         fifo_contents (settled (rs_q s)) = drop (unat sz) (fifo_contents q @ rs_acc s)
     | At_copy (Suc k) \<Rightarrow> unat (fifo_head (rs_q s)) < length (fifo_data (rs_q s))
     | At_load k h \<Rightarrow> unat h < length (fifo_data (rs_q s))
     | Failed \<Rightarrow> rs_out s = [] \<and> fifo_contents (settled (rs_q s)) = fifo_contents q @ rs_acc s
     | _ \<Rightarrow> True"
    using ok copied
    by (auto simp: at_ok_def fifo_inv_nat word_less_nat_alt simp del: drop_append take_append
        split: read_pc.splits nat.splits)
  then show ?thesis
    using at_ok_settled(1) [OF ok] size read_progress [OF I torn] by blast
qed

theorem fifo_read_interrupted_witness:
  "\<exists>s. (read_step 1)\<^sup>*\<^sup>* (read_start example_fifo) s \<and> rs_acc s = [9] \<and> rs_out s = [1] \<and>
     fifo_contents (settled (rs_q s)) = [2, 3, 9]"
proof -
  let ?q = "example_fifo"
  let ?s1 = "\<lparr>rs_q = ?q, rs_pc = At_sub 1, rs_out = [], rs_acc = [], rs_torn = False\<rparr>"
  let ?s2 = "?s1\<lparr>rs_pc := At_copy 1\<rparr>"
  let ?q3 = "?q\<lparr>fifo_head := 3\<rparr>"
  let ?s3 = "?s2\<lparr>rs_q := ?q3, rs_pc := At_load 0 2\<rparr>"
  let ?q4 = "?q3\<lparr>fifo_data := [3, 9, 1, 2], fifo_tail := 2\<rparr>"
  let ?s4 = "?s3\<lparr>rs_q := ?q4, rs_acc := [9]\<rparr>"
  let ?s5 = "?s4\<lparr>rs_out := [1], rs_pc := At_wrap 0\<rparr>"
  let ?s6 = "?s5\<lparr>rs_pc := At_copy 0\<rparr>"
  have "read_step 1 (read_start ?q) ?s1"
    using compare [of "read_start ?q" 1] by (simp add: read_start_def example_fifo_def)
  moreover have "read_step 1 ?s1 ?s2"
    using enough [of ?s1 1 1] by (simp add: used_after_def example_fifo_def)
  moreover have "read_step 1 ?s2 ?s3"
    using inc_first [of ?s2 0 1] by (simp add: example_fifo_def)
  moreover have "fifo_write ?q3 [9] 1 = Inr (0, ?q4)"
    unfolding example_fifo_def by code_simp
  then have "read_step 1 ?s3 ?s4"
    using isr [of ?s3 9 0 ?q4 False 1] by simp
  moreover have "read_step 1 ?s4 ?s5"
    using load_last [of ?s4 0 2 1] by simp
  moreover have "read_step 1 ?s5 ?s6"
    using wrap [of ?s5 0 1] by (simp add: example_fifo_def)
  ultimately have "(read_step 1)\<^sup>*\<^sup>* (read_start ?q) ?s6"
    by (meson rtranclp.rtrancl_refl rtranclp.rtrancl_into_rtrancl)
  with fifo_read_interrupted [OF example_fifo(1) this] show ?thesis
    by (intro exI [of _ ?s6]) (simp add: example_fifo(2))
qed

text \<open>
  When the tail does wrap inside the count, the difference underflows and the read takes more than
  the queue holds.
\<close>

lemma fifo_read_torn:
  "\<exists>s. (read_step 3)\<^sup>*\<^sup>* (read_start (example_fifo\<lparr>fifo_tail := 3\<rparr>)) s \<and> rs_pc s = At_copy 3 \<and>
     fifo_contents (rs_q s) = [1, 9]"
proof -
  let ?q = "example_fifo\<lparr>fifo_tail := 3\<rparr>"
  let ?s1 = "\<lparr>rs_q = ?q, rs_pc = At_sub 3, rs_out = [], rs_acc = [], rs_torn = False\<rparr>"
  let ?q2 = "?q\<lparr>fifo_data := [3, 0, 1, 9], fifo_tail := 0\<rparr>"
  let ?s2 = "?s1\<lparr>rs_q := ?q2, rs_acc := [9], rs_torn := True\<rparr>"
  let ?s3 = "?s2\<lparr>rs_pc := At_copy 3\<rparr>"
  have "read_step 3 (read_start ?q) ?s1"
    using compare [of "read_start ?q" 3] by (simp add: read_start_def example_fifo_def)
  moreover have "fifo_write ?q [9] 1 = Inr (0, ?q2)"
    unfolding example_fifo_def by code_simp
  then have "read_step 3 ?s1 ?s2"
    using isr [of ?s1 9 0 ?q2 True 3] by (simp add: example_fifo_def)
  moreover have "read_step 3 ?s2 ?s3"
    using enough [of ?s2 3 3] by (simp add: used_after_def example_fifo_def)
  ultimately have "(read_step 3)\<^sup>*\<^sup>* (read_start ?q) ?s3"
    by (meson rtranclp.rtrancl_refl rtranclp.rtrancl_into_rtrancl)
  then show ?thesis
    by (intro exI [of _ ?s3]) (simp add: fifo_contents_def example_fifo_def)
qed

end
