(* ===== verification/Serial.thy ===== *)
theory Serial
  imports Fifo_Interrupt Interrupts
begin

text \<open>
  The serial driver of \<^verbatim>\<open>src/io/serial.c\<close>, \<^verbatim>\<open>inc/io/serial.h\<close> and \<^verbatim>\<open>inc/io/input.h\<close>. A
  \<open>serial_data\<close> is shared by every handle of its port and by the interrupt handler, so it is an
  object with an address: \<open>se_data\<close> maps the address to the object. The code runs with interrupts
  on, so the handler can run between any two of its steps: the operations that call into the
  queues or poll the controller take the sequence of the interrupts that arrive in each of these
  windows, and \<open>Loop\<close> is a wait that goes on when the sequence ends.
\<close>

unbundle bit_operations_syntax

section \<open>State\<close>

definition SERIAL_CFG_PORT__MSK :: u32 where "SERIAL_CFG_PORT__MSK = 0x03"
definition SERIAL_CFG_PORT_COM1 :: u32 where "SERIAL_CFG_PORT_COM1 = 0"
definition SERIAL_CFG_PORT_COM2 :: u32 where "SERIAL_CFG_PORT_COM2 = 1"
definition SERIAL_CFG_PORT_COM3 :: u32 where "SERIAL_CFG_PORT_COM3 = 2"
definition SERIAL_CFG_PORT_COM4 :: u32 where "SERIAL_CFG_PORT_COM4 = 3"
definition SERIAL_CFG_PORT__POS :: nat where "SERIAL_CFG_PORT__POS = 0"
definition SERIAL_CFG_INBUFFSZ__POS :: nat where "SERIAL_CFG_INBUFFSZ__POS = 2"
definition SERIAL_CFG_INBUFFSZ__MSK :: u32 where "SERIAL_CFG_INBUFFSZ__MSK = 0x0f"
definition SERIAL_CFG_OUTBUFFSZ__POS :: nat where "SERIAL_CFG_OUTBUFFSZ__POS = 6"
definition SERIAL_CFG_OUTBUFFSZ__MSK :: u32 where "SERIAL_CFG_OUTBUFFSZ__MSK = 0x0f"
definition SERIAL_CFG_FLOWCTRL_RTS__POS :: nat where "SERIAL_CFG_FLOWCTRL_RTS__POS = 10"
definition SERIAL_CFG_FLOWCTRL_DTR__POS :: nat where "SERIAL_CFG_FLOWCTRL_DTR__POS = 11"

definition SERIAL_REG_DATA :: "u16 \<Rightarrow> u16" where "SERIAL_REG_DATA p = p + 0"
definition SERIAL_REG_IER :: "u16 \<Rightarrow> u16" where "SERIAL_REG_IER p = p + 1"
definition SERIAL_REG_IIR :: "u16 \<Rightarrow> u16" where "SERIAL_REG_IIR p = p + 2"
definition SERIAL_REG_FCR :: "u16 \<Rightarrow> u16" where "SERIAL_REG_FCR p = p + 2"
definition SERIAL_REG_LCR :: "u16 \<Rightarrow> u16" where "SERIAL_REG_LCR p = p + 3"
definition SERIAL_REG_MCR :: "u16 \<Rightarrow> u16" where "SERIAL_REG_MCR p = p + 4"
definition SERIAL_REG_LSR :: "u16 \<Rightarrow> u16" where "SERIAL_REG_LSR p = p + 5"
definition SERIAL_REG_DLL :: "u16 \<Rightarrow> u16" where "SERIAL_REG_DLL p = p + 0"
definition SERIAL_REG_DLM :: "u16 \<Rightarrow> u16" where "SERIAL_REG_DLM p = p + 1"

definition SERIALREG_IER_RXAVAIL :: u8 where "SERIALREG_IER_RXAVAIL = push_bit 0 1"
definition SERIALREG_IER_TXEMPTY :: u8 where "SERIALREG_IER_TXEMPTY = push_bit 1 1"
definition SERIALREG_IER_RXLINESTATUS :: u8 where "SERIALREG_IER_RXLINESTATUS = push_bit 2 1"
definition SERIALREG_IIR_INTID__POS :: nat where "SERIALREG_IIR_INTID__POS = 1"
definition SERIALREG_IIR_INTID__MSK :: u8 where "SERIALREG_IIR_INTID__MSK = 0x03"
definition SERIALREG_IIR_INTID_TXEMPTY :: u8 where "SERIALREG_IIR_INTID_TXEMPTY = 1"
definition SERIALREG_IIR_INTID_RXAVAIL :: u8 where "SERIALREG_IIR_INTID_RXAVAIL = 2"
definition SERIALREG_IIR_INTID_RXLINESTATUS :: u8 where "SERIALREG_IIR_INTID_RXLINESTATUS = 3"
definition SERIALREG_LCR_DLAB :: u8 where "SERIALREG_LCR_DLAB = push_bit 7 1"
definition SERIALREG_LCR_WORDLEN_8BIT :: u8 where "SERIALREG_LCR_WORDLEN_8BIT = 0x03"
definition SERIALREG_FCR_RXFIFORST :: u8 where "SERIALREG_FCR_RXFIFORST = push_bit 1 1"
definition SERIALREG_FCR_TXFIFORST :: u8 where "SERIALREG_FCR_TXFIFORST = push_bit 2 1"
definition SERIALREG_MCR_DTR :: u8 where "SERIALREG_MCR_DTR = push_bit 0 1"
definition SERIALREG_MCR_RTS :: u8 where "SERIALREG_MCR_RTS = push_bit 1 1"
definition SERIALREG_MCR_OUT1 :: u8 where "SERIALREG_MCR_OUT1 = push_bit 2 1"
definition SERIALREG_MCR_OUT2 :: u8 where "SERIALREG_MCR_OUT2 = push_bit 3 1"
definition SERIALREG_LSR_DR :: u8 where "SERIALREG_LSR_DR = push_bit 0 1"
definition SERIALREG_LSR_OE :: u8 where "SERIALREG_LSR_OE = push_bit 1 1"
definition SERIALREG_LSR_FE :: u8 where "SERIALREG_LSR_FE = push_bit 3 1"
definition SERIALREG_LSR_THRE :: u8 where "SERIALREG_LSR_THRE = push_bit 5 1"

definition SERIALSTATUS_OVERRUN :: u8 where "SERIALSTATUS_OVERRUN = push_bit 0 1"
definition SERIALSTATUS_FRAMING :: u8 where "SERIALSTATUS_FRAMING = push_bit 1 1"
definition INPUTSTATUS_OVERRUN :: u8 where "INPUTSTATUS_OVERRUN = push_bit 0 1"
definition INPUTSTATUS_DATAERR :: u8 where "INPUTSTATUS_DATAERR = push_bit 0 1"

record serial_data =
  sd_cfg :: u32
  sd_port :: u16
  sd_mcr_val :: u8
  sd_status :: u8
  sd_fifo_low :: u32
  sd_rxfifo :: fifo
  sd_txfifo :: fifo

definition sizeof_serial_data :: u32 where "sizeof_serial_data = 44"

text \<open>The input and output handles as the driver fills them: its function and the object's address.\<close>

record input_hand =
  ih_data :: u32
  ih_serial_read :: bool
  ih_status :: u8

record serial_output =
  so_data :: u32
  so_serial_write :: bool

text \<open>The loader's state with \<open>_port_data\<close> (0 for \<open>NULL\<close>) and the objects it points to.\<close>

record 'd serial = "'d intr" +
  se_port_data :: "u32 list"
  se_data :: "u32 \<Rightarrow> serial_data option"

definition MAX_PORT_COUNT :: nat where "MAX_PORT_COUNT = 2"

definition fifo_zero :: fifo where
  "fifo_zero = \<lparr>fifo_ptr = 0, fifo_data = [], fifo_size = 0, fifo_head = 0, fifo_tail = 0\<rparr>"

definition serial_data_zero :: serial_data where
  "serial_data_zero = \<lparr>sd_cfg = 0, sd_port = 0, sd_mcr_val = 0, sd_status = 0, sd_fifo_low = 0,
     sd_rxfifo = fifo_zero, sd_txfifo = fifo_zero\<rparr>"

text \<open>Access through a pointer to the shared object.\<close>

definition sd_get :: "u32 \<Rightarrow> 'd serial \<Rightarrow> serial_data res" where
  "sd_get p s = (case se_data s p of None \<Rightarrow> Inl Fault | Some d \<Rightarrow> Inr d)"

definition sd_put :: "u32 \<Rightarrow> serial_data \<Rightarrow> 'd serial \<Rightarrow> 'd serial" where
  "sd_put p d s = s\<lparr>se_data := (se_data s)(p \<mapsto> d)\<rparr>"

definition s_inb :: "'d hardware \<Rightarrow> u16 \<Rightarrow> 'd serial \<Rightarrow> u8 \<times> 'd serial" where
  "s_inb hw p = on_world (inb hw p)"

definition s_outb :: "'d hardware \<Rightarrow> u16 \<Rightarrow> u8 \<Rightarrow> 'd serial \<Rightarrow> 'd serial" where
  "s_outb hw p v = upd_world (outb hw p v)"

section \<open>Initialisation\<close>

definition find_port :: "u16 \<Rightarrow> 'd serial \<Rightarrow> u32 option" where
  "find_port port s =
     find (\<lambda>p. p \<noteq> 0 \<and> (case se_data s p of Some d \<Rightarrow> sd_port d = port | None \<Rightarrow> False))
       (take MAX_PORT_COUNT (se_port_data s))"

text \<open>The first free entry, from the given one on.\<close>

fun free_port :: "nat \<Rightarrow> u32 list \<Rightarrow> nat option" where
  "free_port i [] = None"
| "free_port i (p # ps) =
     (if i \<ge> MAX_PORT_COUNT then None else if p = 0 then Some i else free_port (Suc i) ps)"

definition serial_find_portdata :: "u16 \<Rightarrow> 'd serial \<Rightarrow> (u32 \<times> 'd serial) res" where
  "serial_find_portdata port s =
     (case find_port port s of
        Some p \<Rightarrow> Inr (p, s)
      | None \<Rightarrow>
          case free_port 0 (se_port_data s) of
            None \<Rightarrow> Inr (0, s)
          | Some i \<Rightarrow>
              bnd (alloc (w_heap (in_world s)) sizeof_serial_data 0) (\<lambda>(a, h).
                let s = upd_world (\<lambda>w. w\<lparr>w_heap := h\<rparr>) s;
                    s = s\<lparr>se_port_data := (se_port_data s)[i := a]\<rparr>
                in Inr (a, sd_put a (serial_data_zero\<lparr>sd_port := port\<rparr>) s)))"

definition init_fifo :: "u32 \<Rightarrow> 'd serial \<Rightarrow> (fifo \<times> 'd serial) res" where
  "init_fifo sz s =
     bnd (fifo_init (w_mem (in_world s)) (w_heap (in_world s)) sz) (\<lambda>(_, f, h).
       Inr (f, upd_world (\<lambda>w. w\<lparr>w_heap := h\<rparr>) s))"

text \<open>The size field of the configuration, at least 4, as the size of a queue.\<close>

definition cfg_fifo_sz :: "u32 \<Rightarrow> nat \<Rightarrow> u32 \<Rightarrow> u32" where
  "cfg_fifo_sz cfg pos msk =
     (let sz = drop_bit pos cfg AND msk
      in if sz = 0 then 0 else push_bit (unat (if sz < 4 then 4 else sz)) 1)"

definition serial_init_in :: "u32 \<Rightarrow> u32 \<Rightarrow> u8 \<Rightarrow> 'd serial \<Rightarrow> (u8 \<times> 'd serial) res" where
  "serial_init_in sdata cfg int_en s =
     bnd (sd_get sdata s) (\<lambda>d.
       if \<not> fifo_isinitialized (sd_rxfifo d) then
         let fifo_sz = cfg_fifo_sz cfg SERIAL_CFG_INBUFFSZ__POS SERIAL_CFG_INBUFFSZ__MSK
         in if fifo_sz \<noteq> 0 then
              bnd (init_fifo fifo_sz s) (\<lambda>(f, s).
                Inr (int_en OR SERIALREG_IER_RXAVAIL,
                  sd_put sdata (d\<lparr>sd_rxfifo := f, sd_fifo_low := fifo_sz - drop_bit 2 fifo_sz\<rparr>) s))
            else Inr (int_en, s)
       else Inr (int_en OR SERIALREG_IER_RXAVAIL, s))"

definition serial_init_out :: "u32 \<Rightarrow> u32 \<Rightarrow> u8 \<Rightarrow> 'd serial \<Rightarrow> (u8 \<times> 'd serial) res" where
  "serial_init_out sdata cfg int_en s =
     bnd (bnd (sd_get sdata s) (\<lambda>d.
       if \<not> fifo_isinitialized (sd_txfifo d) then
         let fifo_sz = cfg_fifo_sz cfg SERIAL_CFG_OUTBUFFSZ__POS SERIAL_CFG_OUTBUFFSZ__MSK
         in if fifo_sz \<noteq> 0 then
              bnd (init_fifo fifo_sz s) (\<lambda>(f, s).
                Inr (int_en OR SERIALREG_IER_TXEMPTY, sd_put sdata (d\<lparr>sd_txfifo := f\<rparr>) s))
            else Inr (int_en, s)
       else Inr (int_en OR SERIALREG_IER_TXEMPTY, s)))
     (\<lambda>(int_en, s). Inr (int_en OR SERIALREG_IER_RXLINESTATUS, s))"

text \<open>The port and the interrupt of a \<open>SERIAL_CFG_PORT\<close> value.\<close>

definition serial_port_of :: "u32 \<Rightarrow> (u16 \<times> u8) option" where
  "serial_port_of cfg =
     (let p = cfg AND SERIAL_CFG_PORT__MSK
      in if p = SERIAL_CFG_PORT_COM1 then Some (0x03f8, INT_ID_COM1)
         else if p = SERIAL_CFG_PORT_COM2 then Some (0x02f8, INT_ID_COM2)
         else if p = SERIAL_CFG_PORT_COM3 then Some (0x03e8, INT_ID_COM1)
         else if p = SERIAL_CFG_PORT_COM4 then Some (0x02e8, INT_ID_COM2)
         else None)"

text \<open>The register writes that set the line up.\<close>

definition serial_setup :: "'d hardware \<Rightarrow> u16 \<Rightarrow> u32 \<Rightarrow> 'd serial \<Rightarrow> 'd serial" where
  "serial_setup hw port baud s =
     (let s = s_outb hw (SERIAL_REG_IER port) 0x00 s;
          dv = ucast ((115200 :: u32) div baud) :: u16;
          s = s_outb hw (SERIAL_REG_LCR port) SERIALREG_LCR_DLAB s;
          s = s_outb hw (SERIAL_REG_DLL port) (ucast dv) s;
          s = s_outb hw (SERIAL_REG_DLM port) (ucast (drop_bit 8 dv)) s;
          s = s_outb hw (SERIAL_REG_LCR port) SERIALREG_LCR_WORDLEN_8BIT s;
          s = s_outb hw (SERIAL_REG_FCR port) (SERIALREG_FCR_RXFIFORST OR SERIALREG_FCR_TXFIFORST) s
      in s_outb hw (SERIAL_REG_MCR port)
           (SERIALREG_MCR_DTR OR SERIALREG_MCR_RTS OR SERIALREG_MCR_OUT1 OR SERIALREG_MCR_OUT2) s)"

definition serial_init ::
  "'d hardware \<Rightarrow> input_hand option \<Rightarrow> serial_output option \<Rightarrow> u32 \<Rightarrow> u32 \<Rightarrow> 'd serial \<Rightarrow>
    (int \<times> input_hand option \<times> serial_output option \<times> 'd serial) res" where
  "serial_init hw inp outp baud cfg s =
     (if baud > 115200 \<or> baud < 50 then Inr (-1, inp, outp, s)
      else case serial_port_of cfg of
          None \<Rightarrow> Inr (-1, inp, outp, s)
        | Some (port, int_id) \<Rightarrow>
            bnd (serial_find_portdata port (serial_setup hw port baud s)) (\<lambda>(sdata, s).
              if sdata = 0 then Inl Panic
              else bnd (sd_get sdata s) (\<lambda>d.
                let s = sd_put sdata (d\<lparr>sd_cfg := cfg\<rparr>) s
                in bnd (if inp = None then Inr (0x00, s) else serial_init_in sdata cfg 0x00 s) (\<lambda>(int_en, s).
                   bnd (if outp = None then Inr (int_en, s) else serial_init_out sdata cfg int_en s) (\<lambda>(int_en, s).
                   let s = (if int_en \<noteq> 0 then
                              let (_, s) = interrupt_register int_id (Some Serial_int_handler) sdata s;
                                  (_, s) = interrupt_enable hw int_id s
                              in s_outb hw (SERIAL_REG_IER port) int_en s
                            else s)
                   in bnd (sd_get sdata s) (\<lambda>d.
                      let (v, s) = s_inb hw (SERIAL_REG_MCR (sd_port d)) s
                      in Inr (0,
                           map_option (\<lambda>_. \<lparr>ih_data = sdata, ih_serial_read = True, ih_status = 0\<rparr>) inp,
                           map_option (\<lambda>_. \<lparr>so_data = sdata, so_serial_write = True\<rparr>) outp,
                           sd_put sdata (d\<lparr>sd_mcr_val := v\<rparr>) s)))))))"

section \<open>Flow control and the interrupt handler\<close>

definition FLOWCTRL_RTS :: u32 where "FLOWCTRL_RTS = push_bit SERIAL_CFG_FLOWCTRL_RTS__POS 1"
definition FLOWCTRL_DTR :: u32 where "FLOWCTRL_DTR = push_bit SERIAL_CFG_FLOWCTRL_DTR__POS 1"

definition new_mcr :: "serial_data \<Rightarrow> u8" where
  "new_mcr d =
     (let m = sd_mcr_val d;
          rts = sd_cfg d AND FLOWCTRL_RTS \<noteq> 0;
          dtr = sd_cfg d AND FLOWCTRL_DTR \<noteq> 0
      in if fifo_getused (sd_rxfifo d) \<ge> sd_fifo_low d then
           let m = (if m AND SERIALREG_MCR_RTS \<noteq> 0 \<and> rts then m AND NOT SERIALREG_MCR_RTS else m)
           in if m AND SERIALREG_MCR_DTR \<noteq> 0 \<and> dtr then m AND NOT SERIALREG_MCR_DTR else m
         else
           let m = (if m AND SERIALREG_MCR_RTS = 0 \<and> rts then m OR SERIALREG_MCR_RTS else m)
           in if m AND SERIALREG_MCR_DTR = 0 \<and> dtr then m OR SERIALREG_MCR_DTR else m)"

definition serial_rx_flowcontrol :: "'d hardware \<Rightarrow> u32 \<Rightarrow> 'd serial \<Rightarrow> 'd serial res" where
  "serial_rx_flowcontrol hw sdata s =
     bnd (sd_get sdata s) (\<lambda>d.
       if sd_cfg d AND (FLOWCTRL_RTS OR FLOWCTRL_DTR) = 0 then Inr s
       else if new_mcr d \<noteq> sd_mcr_val d then
         Inr (sd_put sdata (d\<lparr>sd_mcr_val := new_mcr d\<rparr>)
           (s_outb hw (SERIAL_REG_MCR (sd_port d)) (new_mcr d) s))
       else Inr s)"

text \<open>The cases of \<open>_serial_int_handler\<close>.\<close>

definition serial_int_tx :: "'d hardware \<Rightarrow> u32 \<Rightarrow> serial_data \<Rightarrow> 'd serial \<Rightarrow> 'd serial res" where
  "serial_int_tx hw sdata d s =
     (if fifo_isinitialized (sd_txfifo d) then
        bnd (fifo_read (sd_txfifo d) (Some [0]) 1) (\<lambda>(r, buf, f).
          let s = sd_put sdata (d\<lparr>sd_txfifo := f\<rparr>) s
          in if r = 0 then Inr (s_outb hw (SERIAL_REG_DATA (sd_port d)) (hd (the buf)) s)
             else Inr (snd (s_inb hw (SERIAL_REG_IIR (sd_port d)) s)))
      else Inr (snd (s_inb hw (SERIAL_REG_IIR (sd_port d)) s)))"

definition serial_int_rx :: "'d hardware \<Rightarrow> u32 \<Rightarrow> serial_data \<Rightarrow> 'd serial \<Rightarrow> 'd serial res" where
  "serial_int_rx hw sdata d s =
     (let (v, s) = s_inb hw (SERIAL_REG_DATA (sd_port d)) s
      in if fifo_isinitialized (sd_rxfifo d) then
           bnd (fifo_write (sd_rxfifo d) [v] 1) (\<lambda>(r, f).
             let d = d\<lparr>sd_rxfifo := f\<rparr>;
                 d = (if r \<noteq> 0 then d\<lparr>sd_status := sd_status d OR SERIALSTATUS_OVERRUN\<rparr> else d)
             in serial_rx_flowcontrol hw sdata (sd_put sdata d s))
         else Inr s)"

definition serial_int_line :: "'d hardware \<Rightarrow> u32 \<Rightarrow> serial_data \<Rightarrow> 'd serial \<Rightarrow> 'd serial" where
  "serial_int_line hw sdata d s =
     (let (lsr, s) = s_inb hw (SERIAL_REG_LSR (sd_port d)) s;
          d = (if lsr AND SERIALREG_LSR_OE \<noteq> 0
               then d\<lparr>sd_status := sd_status d OR SERIALSTATUS_OVERRUN\<rparr> else d);
          d = (if lsr AND SERIALREG_LSR_FE \<noteq> 0
               then d\<lparr>sd_status := sd_status d OR SERIALSTATUS_FRAMING\<rparr> else d)
      in sd_put sdata d s)"

definition serial_int_handler :: "'d hardware \<Rightarrow> u8 \<Rightarrow> u32 \<Rightarrow> u32 \<Rightarrow> 'd serial \<Rightarrow> 'd serial res" where
  "serial_int_handler hw int_n errno data s =
     bnd (sd_get data s) (\<lambda>d.
       let (iir, s) = s_inb hw (SERIAL_REG_IIR (sd_port d)) s;
           intid = drop_bit SERIALREG_IIR_INTID__POS iir AND SERIALREG_IIR_INTID__MSK
       in if intid = SERIALREG_IIR_INTID_TXEMPTY then serial_int_tx hw data d s
          else if intid = SERIALREG_IIR_INTID_RXAVAIL then serial_int_rx hw data d s
          else if intid = SERIALREG_IIR_INTID_RXLINESTATUS then Inr (serial_int_line hw data d s)
          else Inl Panic)"

text \<open>The handlers of the program behind their pointers.\<close>

definition call_handler :: "'d hardware \<Rightarrow> 'd serial handler_call" where
  "call_handler hw h =
     (case h of Pit_handler \<Rightarrow> pit_handler | Serial_int_handler \<Rightarrow> serial_int_handler hw)"

text \<open>
  A round of a loop is the list of the interrupts that arrive in each of its windows; windows
  beyond the list have none. A loop takes one round per turn and fails with \<open>Loop\<close> when it has
  not ended with the last one.
\<close>

type_synonym round = "u8 list list"

definition window :: "'d hardware \<Rightarrow> round \<Rightarrow> nat \<Rightarrow> 'd serial \<Rightarrow> 'd serial res" where
  "window hw r k s = (if k < length r then deliver_all hw (call_handler hw) (r ! k) s else Inr s)"

section \<open>Writing\<close>

definition serial_tx_empty :: "'d hardware \<Rightarrow> u32 \<Rightarrow> 'd serial \<Rightarrow> (bool \<times> 'd serial) res" where
  "serial_tx_empty hw sdata s =
     bnd (sd_get sdata s) (\<lambda>d.
       let (v, s) = s_inb hw (SERIAL_REG_LSR (sd_port d)) s
       in Inr (v AND SERIALREG_LSR_THRE \<noteq> 0, s))"

text \<open>The busy-wait takes one window per poll.\<close>

fun serial_write_byte :: "'d hardware \<Rightarrow> u32 \<Rightarrow> u8 \<Rightarrow> round \<Rightarrow> 'd serial \<Rightarrow> 'd serial res" where
  "serial_write_byte hw sdata byte [] s = Inl Loop"
| "serial_write_byte hw sdata byte (ns # polls) s =
     bnd (deliver_all hw (call_handler hw) ns s) (\<lambda>s.
     bnd (serial_tx_empty hw sdata s) (\<lambda>(e, s).
       if e then bnd (sd_get sdata s) (\<lambda>d. Inr (s_outb hw (SERIAL_REG_DATA (sd_port d)) byte s))
       else serial_write_byte hw sdata byte polls s))"

definition with_txfifo :: "(fifo \<Rightarrow> ('a \<times> fifo) res) \<Rightarrow> u32 \<Rightarrow> 'd serial \<Rightarrow> ('a \<times> 'd serial) res" where
  "with_txfifo op sdata s =
     bnd (sd_get sdata s) (\<lambda>d. bnd (op (sd_txfifo d)) (\<lambda>(x, f).
       Inr (x, sd_put sdata (d\<lparr>sd_txfifo := f\<rparr>) s)))"

text \<open>One byte taken out of the output queue and sent, if there is one.\<close>

definition serial_send_queued ::
  "'d hardware \<Rightarrow> u32 \<Rightarrow> round \<Rightarrow> 'd serial \<Rightarrow> (bool \<times> 'd serial) res" where
  "serial_send_queued hw sdata polls s =
     bnd (with_txfifo (\<lambda>f. bnd (fifo_read f (Some [0]) 1) (\<lambda>(r, buf, f). Inr ((r, buf), f))) sdata s)
       (\<lambda>((r, buf), s).
         if r = 0 then bnd (serial_write_byte hw sdata (hd (the buf)) polls s) (\<lambda>s. Inr (True, s))
         else Inr (False, s))"

fun serial_write_loop ::
  "'d hardware \<Rightarrow> u32 \<Rightarrow> u8 list \<Rightarrow> u32 \<Rightarrow> u32 \<Rightarrow> round list \<Rightarrow> 'd serial \<Rightarrow> (round list \<times> 'd serial) res" where
  "serial_write_loop hw sdata bdata sz i sched s =
     (if \<not> i < sz then Inr (sched, s)
      else case sched of
          [] \<Rightarrow> Inl Loop
        | r # sched \<Rightarrow>
            bnd (window hw r 0 s) (\<lambda>s.
            bnd (sd_get sdata s) (\<lambda>d.
              let wr_sz = fifo_getfree (sd_txfifo d);
                  wr_sz = (if wr_sz > sz - i then sz - i else wr_sz)
              in bnd (window hw r 1 s) (\<lambda>s.
                 bnd (if wr_sz \<noteq> 0 then
                        bnd (with_txfifo (\<lambda>f. fifo_write f (drop (unat i) bdata) wr_sz) sdata s) (\<lambda>(_, s).
                          Inr (i + wr_sz, s))
                      else Inr (i, s)) (\<lambda>(i, s).
                 bnd (window hw r 2 s) (\<lambda>s.
                 bnd (serial_tx_empty hw sdata s) (\<lambda>(e, s).
                 bnd (if e then
                        bnd (window hw r 3 s) (\<lambda>s.
                        bnd (serial_send_queued hw sdata (drop 4 r) s) (\<lambda>(_, s). Inr s))
                      else Inr s)
                   (serial_write_loop hw sdata bdata sz i sched))))))))"

declare serial_write_loop.simps [simp del]

fun serial_flush_loop ::
  "'d hardware \<Rightarrow> u32 \<Rightarrow> round list \<Rightarrow> 'd serial \<Rightarrow> (round list \<times> 'd serial) res" where
  "serial_flush_loop hw sdata [] s = Inl Loop"
| "serial_flush_loop hw sdata (r # sched) s =
     bnd (window hw r 0 s) (\<lambda>s.
     bnd (serial_send_queued hw sdata (drop 1 r) s) (\<lambda>(sent, s).
       if sent then serial_flush_loop hw sdata sched s else Inr (sched, s)))"

fun serial_bytes_loop ::
  "'d hardware \<Rightarrow> u32 \<Rightarrow> u8 list \<Rightarrow> nat \<Rightarrow> round list \<Rightarrow> 'd serial \<Rightarrow> (round list \<times> 'd serial) res" where
  "serial_bytes_loop hw sdata bs 0 sched s = Inr (sched, s)"
| "serial_bytes_loop hw sdata [] (Suc n) sched s = Inl Fault"
| "serial_bytes_loop hw sdata (b # bs) (Suc n) [] s = Inl Loop"
| "serial_bytes_loop hw sdata (b # bs) (Suc n) (r # sched) s =
     bnd (serial_write_byte hw sdata b r s) (serial_bytes_loop hw sdata bs n sched)"

definition serial_write ::
  "'d hardware \<Rightarrow> serial_output \<Rightarrow> u8 list \<Rightarrow> u32 \<Rightarrow> round list \<Rightarrow> 'd serial \<Rightarrow>
    (u32 \<times> round list \<times> 'd serial) res" where
  "serial_write hw out data sz sched s =
     (let sdata = so_data out
      in bnd (sd_get sdata s) (\<lambda>d.
         bnd (if interrupts_enabled (in_world s) \<and> fifo_isinitialized (sd_txfifo d) then
                serial_write_loop hw sdata data sz 0 sched s
              else
                bnd (if fifo_isinitialized (sd_txfifo d) then serial_flush_loop hw sdata sched s
                     else Inr (sched, s)) (\<lambda>(sched, s).
                  serial_bytes_loop hw sdata data (unat sz) sched s))
           (\<lambda>(sched, s). Inr (sz, sched, s))))"

section \<open>Reading\<close>

definition serial_rx_dataready :: "'d hardware \<Rightarrow> u32 \<Rightarrow> 'd serial \<Rightarrow> (bool \<times> 'd serial) res" where
  "serial_rx_dataready hw sdata s =
     bnd (sd_get sdata s) (\<lambda>d.
       let (v, s) = s_inb hw (SERIAL_REG_LSR (sd_port d)) s
       in Inr (v AND SERIALREG_LSR_DR \<noteq> 0, s))"

fun serial_read_byte :: "'d hardware \<Rightarrow> u32 \<Rightarrow> round \<Rightarrow> 'd serial \<Rightarrow> (u8 \<times> 'd serial) res" where
  "serial_read_byte hw sdata [] s = Inl Loop"
| "serial_read_byte hw sdata (ns # polls) s =
     bnd (deliver_all hw (call_handler hw) ns s) (\<lambda>s.
     bnd (serial_rx_dataready hw sdata s) (\<lambda>(rdy, s).
       if rdy then bnd (sd_get sdata s) (\<lambda>d. Inr (s_inb hw (SERIAL_REG_DATA (sd_port d)) s))
       else serial_read_byte hw sdata polls s))"

text \<open>
  \<open>rd_sz\<close> bytes of the input queue to \<open>&bdata[i]\<close>, or dropped, where interrupts are off; the
  result is not looked at.
\<close>

definition serial_take ::
  "'d hardware \<Rightarrow> u32 \<Rightarrow> u8 list option \<Rightarrow> u32 \<Rightarrow> u32 \<Rightarrow> 'd serial \<Rightarrow> (u8 list option \<times> 'd serial) res" where
  "serial_take hw sdata bdata i rd_sz s =
     bnd (sd_get sdata s) (\<lambda>d.
     bnd (fifo_read (sd_rxfifo d) (map_option (drop (unat i)) bdata) rd_sz) (\<lambda>(_, b, f).
       Inr (map_option (\<lambda>x. take (unat i) (the bdata) @ x) b, sd_put sdata (d\<lparr>sd_rxfifo := f\<rparr>) s)))"

text \<open>
  The turn of the loop that reads the queue, with the handler free to run between any two accesses
  the two share. Its windows are: 0 at the top of the turn; 1 between the comparison and the
  subtraction of \<open>fifo_getused\<close>, which loads the tail twice; 2 between \<open>fifo_getused\<close> and
  \<open>fifo_read\<close>; 3 between the two loads of the tail in \<open>fifo_read\<close>; 4 before the flow control; 5 before
  the test of the status; from 6 on three for each byte copied: before the byte is loaded, before the
  incremented \<open>head\<close> is stored, and before \<open>head\<close> is compared with the size.
\<close>

definition serial_used :: "'d hardware \<Rightarrow> u32 \<Rightarrow> round \<Rightarrow> nat \<Rightarrow> 'd serial \<Rightarrow> (u32 \<times> 'd serial) res" where
  "serial_used hw sdata r k s =
     bnd (sd_get sdata s) (\<lambda>d.
       let t = fifo_tail (sd_rxfifo d)
       in bnd (window hw r k s) (\<lambda>s.
          bnd (sd_get sdata s) (\<lambda>d. Inr (used_after t (sd_rxfifo d), s))))"

definition buf_put :: "u8 list option \<Rightarrow> nat \<Rightarrow> u8 \<Rightarrow> u8 list option res" where
  "buf_put bdata i v =
     (case bdata of
        None \<Rightarrow> Inr None
      | Some b \<Rightarrow> if i < length b then Inr (Some (b[i := v])) else Inl Fault)"

fun serial_copy ::
  "'d hardware \<Rightarrow> u32 \<Rightarrow> u8 list option \<Rightarrow> nat \<Rightarrow> nat \<Rightarrow> round \<Rightarrow> nat \<Rightarrow> 'd serial \<Rightarrow>
    (u8 list option \<times> 'd serial) res" where
  "serial_copy hw sdata bdata i 0 r k s = Inr (bdata, s)"
| "serial_copy hw sdata bdata i (Suc n) r k s =
     bnd (window hw r k s) (\<lambda>s.
     bnd (sd_get sdata s) (\<lambda>d.
       let q = sd_rxfifo d
       in if unat (fifo_head q) < length (fifo_data q) then
            let v = fifo_data q ! unat (fifo_head q)
            in bnd (window hw r (k + 1) s) (\<lambda>s.
               bnd (sd_get sdata s) (\<lambda>d.
                 let q = sd_rxfifo d;
                     s = sd_put sdata (d\<lparr>sd_rxfifo := q\<lparr>fifo_head := fifo_head q + 1\<rparr>\<rparr>) s
                 in bnd (window hw r (k + 2) s) (\<lambda>s.
                    bnd (sd_get sdata s) (\<lambda>d.
                      let q = sd_rxfifo d;
                          q = (if fifo_head q \<ge> fifo_size q then q\<lparr>fifo_head := 0\<rparr> else q);
                          s = sd_put sdata (d\<lparr>sd_rxfifo := q\<rparr>) s
                      in bnd (buf_put bdata i v) (\<lambda>bdata.
                           serial_copy hw sdata bdata (Suc i) n r (k + 3) s)))))
          else Inl Fault))"

definition serial_fifo_read ::
  "'d hardware \<Rightarrow> u32 \<Rightarrow> u8 list option \<Rightarrow> u32 \<Rightarrow> u32 \<Rightarrow> round \<Rightarrow> 'd serial \<Rightarrow>
    (u8 list option \<times> 'd serial) res" where
  "serial_fifo_read hw sdata bdata i rd_sz r s =
     bnd (serial_used hw sdata r 3 s) (\<lambda>(used, s).
       if used < rd_sz then Inr (bdata, s)
       else serial_copy hw sdata bdata (unat i) (unat rd_sz) r 6 s)"

definition serial_read_queue ::
  "'d hardware \<Rightarrow> u32 \<Rightarrow> u8 list option \<Rightarrow> u32 \<Rightarrow> u32 \<Rightarrow> round \<Rightarrow> 'd serial \<Rightarrow>
    (u8 list option \<times> u32 \<times> 'd serial) res" where
  "serial_read_queue hw sdata bdata sz i r s =
     bnd (serial_used hw sdata r 1 s) (\<lambda>(rd_sz, s).
       let rd_sz = (if rd_sz > sz - i then sz - i else rd_sz)
       in bnd (window hw r 2 s) (\<lambda>s.
          if rd_sz \<noteq> 0 then
            bnd (serial_fifo_read hw sdata bdata i rd_sz r s) (\<lambda>(bdata, s).
            bnd (window hw r 4 s) (\<lambda>s.
            bnd (serial_rx_flowcontrol hw sdata s) (\<lambda>s. Inr (bdata, i + rd_sz, s))))
          else Inr (bdata, i, s)))"

definition serial_read_polled ::
  "'d hardware \<Rightarrow> u32 \<Rightarrow> u8 list option \<Rightarrow> u32 \<Rightarrow> u32 \<Rightarrow> round \<Rightarrow> 'd serial \<Rightarrow>
    (u8 list option \<times> u32 \<times> 'd serial) res" where
  "serial_read_polled hw sdata bdata sz i r s =
     bnd (sd_get sdata s) (\<lambda>d.
       if fifo_isinitialized (sd_txfifo d) \<and> fifo_getused (sd_rxfifo d) \<noteq> 0 then
         let rd_sz = fifo_getused (sd_rxfifo d);
             rd_sz = (if rd_sz > sz - i then sz - i else rd_sz)
         in bnd (serial_take hw sdata bdata i rd_sz s) (\<lambda>(bdata, s).
            bnd (serial_rx_flowcontrol hw sdata s) (\<lambda>s. Inr (bdata, i, s)))
       else
         bnd (serial_rx_dataready hw sdata s) (\<lambda>(rdy, s).
           if rdy then
             bnd (serial_read_byte hw sdata (drop 6 r) s) (\<lambda>(v, s).
               case bdata of
                 None \<Rightarrow> Inr (bdata, i, s)
               | Some b \<Rightarrow>
                   if unat i < length b then Inr (Some (b[unat i := v]), i + 1, s) else Inl Fault)
           else Inr (bdata, i, s)))"

fun serial_read_loop ::
  "'d hardware \<Rightarrow> u32 \<Rightarrow> u8 list option \<Rightarrow> u32 \<Rightarrow> u32 \<Rightarrow> u32 \<Rightarrow> u32 \<Rightarrow> round list \<Rightarrow> 'd serial \<Rightarrow>
    (u32 \<times> u8 list option \<times> round list \<times> 'd serial) res" where
  "serial_read_loop hw sdata bdata sz timeout timeout_end i sched s =
     (if \<not> i < sz then Inr (i, bdata, sched, s)
      else case sched of
          [] \<Rightarrow> Inl Loop
        | r # sched \<Rightarrow>
            bnd (window hw r 0 s) (\<lambda>s.
            bnd (sd_get sdata s) (\<lambda>d.
            bnd ((if interrupts_enabled (in_world s) \<and> fifo_isinitialized (sd_rxfifo d)
                  then serial_read_queue else serial_read_polled) hw sdata bdata sz i r s)
              (\<lambda>(bdata, i, s).
            bnd (window hw r 5 s) (\<lambda>s.
            bnd (sd_get sdata s) (\<lambda>d.
              if bdata \<noteq> None \<and> sd_status d AND (SERIALSTATUS_OVERRUN OR SERIALSTATUS_FRAMING) \<noteq> 0
              then Inr (i, bdata, sched, s)
              else if timeout \<noteq> 0 \<and> time_ispast timeout_end s then Inr (i, bdata, sched, s)
              else serial_read_loop hw sdata bdata sz timeout timeout_end i sched s))))))"

declare serial_read_loop.simps [simp del]

definition serial_read ::
  "'d hardware \<Rightarrow> input_hand \<Rightarrow> u8 list option \<Rightarrow> u32 \<Rightarrow> u32 \<Rightarrow> round list \<Rightarrow> 'd serial \<Rightarrow>
    (u32 \<times> input_hand \<times> u8 list option \<times> round list \<times> 'd serial) res" where
  "serial_read hw inp data sz timeout sched s =
     (let sdata = ih_data inp
      in if timeout \<noteq> 0 \<and> \<not> interrupts_enabled (in_world s) then Inl Panic
         else bnd (serial_read_loop hw sdata data sz timeout (time_offset timeout s) 0 sched s)
           (\<lambda>(i, data, sched, s).
             bnd (sd_get sdata s) (\<lambda>d.
               let (inp, d) =
                     (if sd_status d AND SERIALSTATUS_OVERRUN \<noteq> 0
                      then (inp\<lparr>ih_status := ih_status inp OR INPUTSTATUS_OVERRUN\<rparr>,
                            d\<lparr>sd_status := sd_status d AND NOT SERIALSTATUS_OVERRUN\<rparr>)
                      else (inp, d));
                   (inp, d) =
                     (if sd_status d AND SERIALSTATUS_FRAMING \<noteq> 0
                      then (inp\<lparr>ih_status := ih_status inp OR INPUTSTATUS_DATAERR\<rparr>,
                            d\<lparr>sd_status := sd_status d AND NOT SERIALSTATUS_FRAMING\<rparr>)
                      else (inp, d))
               in Inr (i, inp, data, sched, sd_put sdata d s))))"

end
