(* ===== verification/Serial_Facts.thy ===== *)
theory Serial_Facts
  imports Serial
begin

text \<open>
  The serial driver and its interrupt handler working on the same object: what every interrupt
  keeps, that a read returns the bytes of the line in order whatever interrupts come while it runs,
  and that waiting for the timer ends.
\<close>

unbundle bit_operations_syntax

section \<open>What the controller does\<close>

text \<open>
  \<open>lg q d\<close> are the bytes that have been read from port \<open>q\<close>. \<open>lines\<close> says which UART, by its port, drives
  which interrupt: it requests the interrupt only while one of the three causes the driver enables is
  pending, and its register then names it. On the other numbers a request of the schedule is one.
\<close>

definition serial_ports :: "u16 list" where
  "serial_ports = [0x03f8, 0x02f8, 0x03e8, 0x02e8]"

definition int_cause :: "u8 \<Rightarrow> u8" where
  "int_cause iir = drop_bit SERIALREG_IIR_INTID__POS iir AND SERIALREG_IIR_INTID__MSK"

definition uart_logged :: "'d hardware \<Rightarrow> (u16 \<Rightarrow> 'd \<Rightarrow> u8 list) \<Rightarrow> bool" where
  "uart_logged hw lg \<longleftrightarrow>
     (\<forall>q p d. lg q (snd (hw_in hw p d)) = (if p = q then lg q d @ [fst (hw_in hw p d)] else lg q d)) \<and>
     (\<forall>q p v d. lg q (hw_out hw p v d) = lg q d)"

definition uart_causes :: "'d hardware \<Rightarrow> (u8 \<times> u16) list \<Rightarrow> bool" where
  "uart_causes hw lines \<longleftrightarrow>
     (\<forall>n port d. (n, port) \<in> set lines \<and> hw_irq hw n d \<longrightarrow>
        int_cause (fst (hw_in hw (SERIAL_REG_IIR port) d)) \<in> {1, 2, 3}) \<and>
     (\<forall>n d. n \<notin> fst ` set lines \<longrightarrow> hw_irq hw n d)"

lemma uart_out: "uart_logged hw lg \<Longrightarrow> lg q (hw_out hw p v d) = lg q d"
  and uart_in: "uart_logged hw lg \<Longrightarrow>
    lg q (snd (hw_in hw p d)) = (if p = q then lg q d @ [fst (hw_in hw p d)] else lg q d)"
  by (simp_all add: uart_logged_def)

section \<open>The state\<close>

definition fifo_ok :: "fifo \<Rightarrow> bool" where
  "fifo_ok f \<longleftrightarrow> fifo_isinitialized f \<longrightarrow> fifo_inv f"

text \<open>
  The input queue may be found while the main program is copying a byte out of it, between the store
  of the incremented \<open>head\<close> and its wrap.
\<close>

definition rx_ok :: "fifo \<Rightarrow> bool" where
  "rx_ok f \<longleftrightarrow> fifo_isinitialized f \<longrightarrow> fifo_inv (settled f) \<and> fifo_head f \<le> fifo_size f"

definition sd_ok :: "serial_data \<Rightarrow> bool" where
  "sd_ok d \<longleftrightarrow> sd_port d \<in> set serial_ports \<and> rx_ok (sd_rxfifo d) \<and> fifo_ok (sd_txfifo d)"

text \<open>
  Every object has one of the four ports and sound queues, no two have the same port, and the
  interrupt handler is only installed for an object, on the line of its port.
\<close>

definition handler_at :: "('d, 'z) intr_scheme \<Rightarrow> u8 \<Rightarrow> interrupt_handler option" where
  "handler_at s n = (if unat n < INT_ID_MAX then isr_handler (in_isr s ! unat n) else None)"

definition serial_ok :: "(u8 \<times> u16) list \<Rightarrow> 'd serial \<Rightarrow> bool" where
  "serial_ok lines s \<longleftrightarrow> length (in_isr s) = INT_ID_MAX \<and>
     (\<forall>q d. se_data s q = Some d \<longrightarrow> sd_ok d) \<and>
     (\<forall>q q' d d'. se_data s q = Some d \<longrightarrow> se_data s q' = Some d' \<longrightarrow> sd_port d = sd_port d' \<longrightarrow> q = q') \<and>
     (\<forall>n. handler_at s n = Some Serial_int_handler \<longrightarrow>
        (\<exists>d. se_data s (isr_data (in_isr s ! unat n)) = Some d \<and> (n, sd_port d) \<in> set lines)) \<and>
     (\<forall>n. handler_at s n = Some Pit_handler \<longrightarrow> n \<notin> fst ` set lines)"

definition rx_cont :: "serial_data \<Rightarrow> u8 list" where
  "rx_cont d = fifo_contents (settled (sd_rxfifo d))"

text \<open>No byte is being copied out of the queue.\<close>

definition at_rest :: "serial_data \<Rightarrow> bool" where
  "at_rest d \<longleftrightarrow> fifo_head (sd_rxfifo d) < fifo_size (sd_rxfifo d)"

definition overrun :: "serial_data \<Rightarrow> bool" where
  "overrun d \<longleftrightarrow> sd_status d AND SERIALSTATUS_OVERRUN \<noteq> 0"

definition dev :: "('d, 'z) intr_scheme \<Rightarrow> 'd" where
  "dev s = w_dev (in_world s)"

text \<open>
  What one object sees of a run: its queue of input has grown at the end, and, unless the overrun
  flag is up, by exactly the bytes read from its port.
\<close>

definition fed :: "(u16 \<Rightarrow> 'd \<Rightarrow> u8 list) \<Rightarrow> 'd \<Rightarrow> 'd \<Rightarrow> serial_data \<Rightarrow> serial_data \<Rightarrow> bool" where
  "fed lg v v' d d' \<longleftrightarrow> sd_port d' = sd_port d \<and> sd_cfg d' = sd_cfg d \<and>
     fifo_isinitialized (sd_rxfifo d') = fifo_isinitialized (sd_rxfifo d) \<and>
     fifo_isinitialized (sd_txfifo d') = fifo_isinitialized (sd_txfifo d) \<and>
     fifo_head (sd_rxfifo d') = fifo_head (sd_rxfifo d) \<and>
     fifo_size (sd_rxfifo d') = fifo_size (sd_rxfifo d) \<and>
     (\<exists>bs. rx_cont d' = rx_cont d @ bs \<and>
       (fifo_isinitialized (sd_rxfifo d) \<and> \<not> overrun d' \<longrightarrow>
          \<not> overrun d \<and> lg (sd_port d) v' = lg (sd_port d) v @ bs))"

lemma fed_trans:
  assumes "fed lg v v1 d d1" and "fed lg v1 v2 d1 d2"
  shows "fed lg v v2 d d2"
proof -
  obtain b1 where 1: "rx_cont d1 = rx_cont d @ b1"
    "fifo_isinitialized (sd_rxfifo d) \<and> \<not> overrun d1 \<Longrightarrow>
       \<not> overrun d \<and> lg (sd_port d) v1 = lg (sd_port d) v @ b1"
    using assms(1) by (auto simp: fed_def)
  obtain b2 where 2: "rx_cont d2 = rx_cont d1 @ b2"
    "fifo_isinitialized (sd_rxfifo d1) \<and> \<not> overrun d2 \<Longrightarrow>
       \<not> overrun d1 \<and> lg (sd_port d1) v2 = lg (sd_port d1) v1 @ b2"
    using assms(2) by (auto simp: fed_def)
  show ?thesis
    unfolding fed_def
    by (intro conjI exI [of _ "b1 @ b2"]) (use assms 1 2 in \<open>auto simp: fed_def\<close>)
qed

text \<open>What an interrupt, or a run of interrupts, keeps.\<close>

definition kept :: "(u16 \<Rightarrow> 'd \<Rightarrow> u8 list) \<Rightarrow> 'd serial \<Rightarrow> 'd serial \<Rightarrow> bool" where
  "kept lg s s' \<longleftrightarrow> w_if (in_world s') = w_if (in_world s) \<and> in_isr s' = in_isr s \<and>
     in_idt s' = in_idt s \<and> w_heap (in_world s') = w_heap (in_world s) \<and>
     w_mem (in_world s') = w_mem (in_world s) \<and> se_port_data s' = se_port_data s \<and>
     dom (se_data s') = dom (se_data s) \<and>
     (\<forall>q d d'. se_data s q = Some d \<longrightarrow> se_data s' q = Some d' \<longrightarrow> fed lg (dev s) (dev s') d d')"

lemma kept_refl: "kept lg s s"
  by (auto simp: kept_def fed_def)

lemma kept_trans:
  assumes a: "kept lg s s1" and b: "kept lg s1 s2"
  shows "kept lg s s2"
proof -
  have "fed lg (dev s) (dev s2) d d2" if d: "se_data s q = Some d" "se_data s2 q = Some d2" for q d d2
  proof -
    have "q \<in> dom (se_data s1)" using a d(1) unfolding kept_def by (simp add: domI)
    then obtain d1 where "se_data s1 q = Some d1" by blast
    then show ?thesis
      using a b d unfolding kept_def by (meson fed_trans)
  qed
  with a b show ?thesis unfolding kept_def by simp
qed

text \<open>The state with one object changed.\<close>

lemma serial_ok_put:
  assumes "serial_ok lines s" and "se_data s q = Some d" and "sd_ok d'" and "sd_port d' = sd_port d"
  shows "serial_ok lines (sd_put q d' s)"
  using assms unfolding serial_ok_def sd_put_def handler_at_def by (auto split: if_splits)

lemma serial_ok_world [simp]: "serial_ok lines (upd_world f s) = serial_ok lines s"
  by (simp add: serial_ok_def handler_at_def upd_world_def)

lemma serial_ok_ticks [simp]: "serial_ok lines (s\<lparr>in_ticks := t\<rparr>) = serial_ok lines s"
  by (simp add: serial_ok_def handler_at_def)

lemma upd_world_simps [simp]:
  "in_world (upd_world f s) = f (in_world s)" "in_isr (upd_world f s) = in_isr s"
  "in_idt (upd_world f s) = in_idt s" "in_ticks (upd_world f s) = in_ticks s"
  by (simp_all add: upd_world_def)

lemma upd_world_serial [simp]:
  "se_port_data (upd_world f (s :: 'd serial)) = se_port_data s"
  "se_data (upd_world f (s :: 'd serial)) = se_data s"
  by (simp_all add: upd_world_def)

lemma sd_put_simps [simp]:
  "in_world (sd_put q d s) = in_world s" "in_isr (sd_put q d s) = in_isr s"
  "in_idt (sd_put q d s) = in_idt s" "in_ticks (sd_put q d s) = in_ticks s"
  "se_port_data (sd_put q d s) = se_port_data s" "se_data (sd_put q d s) = (se_data s)(q \<mapsto> d)"
  by (simp_all add: sd_put_def)

lemma s_inb_eq:
  "s_inb hw p s = (fst (hw_in hw p (dev s)), upd_world (\<lambda>w. w\<lparr>w_dev := snd (hw_in hw p (dev s))\<rparr>) s)"
  by (simp add: s_inb_def on_world_def inb_def upd_world_def dev_def split: prod.splits)

lemma s_outb_eq: "s_outb hw p v s = upd_world (\<lambda>w. w\<lparr>w_dev := hw_out hw p v (w_dev w)\<rparr>) s"
  by (simp add: s_outb_def outb_def)

lemma dev_upd [simp]:
  "dev (upd_world f s) = w_dev (f (in_world s))"
  by (simp add: dev_def)

lemma dev_put [simp]: "dev (sd_put q d s) = dev s"
  by (simp add: dev_def)

section \<open>One object and the devices\<close>

text \<open>
  The driver changes nothing but the object \<open>p\<close> and the state of the devices: \<open>at_obj p d v s\<close> is
  \<open>s\<close> with these two given, and the driver's steps are evaluated on it.
\<close>

definition at_obj :: "u32 \<Rightarrow> serial_data \<Rightarrow> 'd \<Rightarrow> 'd serial \<Rightarrow> 'd serial" where
  "at_obj p d v s = sd_put p d (upd_world (\<lambda>w. w\<lparr>w_dev := v\<rparr>) s)"

lemma at_obj_self: "se_data s p = Some d \<Longrightarrow> at_obj p d (dev s) s = s"
  by (simp add: at_obj_def sd_put_def upd_world_def dev_def fun_upd_idem)

lemma at_obj_simps [simp]:
  "sd_get p (at_obj p d v s) = Inr d"
  "sd_put p d' (at_obj p d v s) = at_obj p d' v s"
  "s_inb hw q (at_obj p d v s) = (fst (hw_in hw q v), at_obj p d (snd (hw_in hw q v)) s)"
  "s_outb hw q x (at_obj p d v s) = at_obj p d (hw_out hw q x v) s"
  "at_obj p d' v' (at_obj p d v s) = at_obj p d' v' s"
  "in_ticks (at_obj p d v s) = in_ticks s" "in_isr (at_obj p d v s) = in_isr s"
  "se_data (at_obj p d v s) = (se_data s)(p \<mapsto> d)" "dev (at_obj p d v s) = v"
  "in_idt (at_obj p d v s) = in_idt s" "se_port_data (at_obj p d v s) = se_port_data s"
  "w_if (in_world (at_obj p d v s)) = w_if (in_world s)"
  "w_heap (in_world (at_obj p d v s)) = w_heap (in_world s)"
  "w_mem (in_world (at_obj p d v s)) = w_mem (in_world s)"
  by (simp_all add: at_obj_def sd_get_def s_inb_eq s_outb_eq sd_put_def upd_world_def dev_def)

lemma ports_apart:
  assumes "a \<in> set serial_ports" and "b \<in> set serial_ports"
  shows "SERIAL_REG_IIR a \<noteq> b" "SERIAL_REG_LSR a \<noteq> b" "SERIAL_REG_DATA a = a"
  using assms
  by (auto simp: serial_ports_def SERIAL_REG_IIR_def SERIAL_REG_LSR_def SERIAL_REG_DATA_def)

text \<open>Progress of one object: it is fed, and the other ports' devices have not been read.\<close>

definition obj_step :: "(u16 \<Rightarrow> 'd \<Rightarrow> u8 list) \<Rightarrow> serial_data \<Rightarrow> 'd \<Rightarrow> serial_data \<Rightarrow> 'd \<Rightarrow> bool" where
  "obj_step lg d v d' v' \<longleftrightarrow> sd_ok d' \<and> fed lg v v' d d' \<and>
     (\<forall>q \<in> set serial_ports. q \<noteq> sd_port d \<longrightarrow> lg q v' = lg q v)"

lemma kept_obj:
  assumes ok: "serial_ok lines s" and p: "se_data s p = Some d" and st: "obj_step lg d (dev s) d' v'"
  shows "serial_ok lines (at_obj p d' v' s)" "kept lg s (at_obj p d' v' s)"
proof -
  show "serial_ok lines (at_obj p d' v' s)"
    unfolding at_obj_def
    by (rule serial_ok_put [of _ _ p d]) (use ok p st in \<open>auto simp: obj_step_def fed_def\<close>)
  have "fed lg (dev s) v' d0 d0" if "se_data s q = Some d0" and "q \<noteq> p" for q d0
  proof -
    have "sd_port d0 \<in> set serial_ports" using ok that unfolding serial_ok_def sd_ok_def by blast
    moreover have "sd_port d0 \<noteq> sd_port d" using ok p that unfolding serial_ok_def by blast
    ultimately have "lg (sd_port d0) v' = lg (sd_port d0) (dev s)" using st by (simp add: obj_step_def)
    then show ?thesis by (simp add: fed_def)
  qed
  with st p show "kept lg s (at_obj p d' v' s)"
    by (auto simp: kept_def obj_step_def)
qed

lemma new_mcr_fields:
  "fed lg v v' d (d0\<lparr>sd_mcr_val := m\<rparr>) = fed lg v v' d d0"
  "sd_ok (d\<lparr>sd_mcr_val := m\<rparr>) = sd_ok d"
  by (simp_all add: fed_def sd_ok_def rx_cont_def overrun_def)

lemma flowcontrol_at:
  "\<exists>m v'. serial_rx_flowcontrol hw p (at_obj p d v s) = Inr (at_obj p (d\<lparr>sd_mcr_val := m\<rparr>) v' s) \<and>
     (uart_logged hw lg \<longrightarrow> (\<forall>q. lg q v' = lg q v))"
proof (cases "sd_cfg d AND (FLOWCTRL_RTS OR FLOWCTRL_DTR) = 0 \<or> new_mcr d = sd_mcr_val d")
  case True
  then show ?thesis
    by (intro exI [of _ "sd_mcr_val d"] exI [of _ v]) (auto simp: serial_rx_flowcontrol_def)
next
  case False
  let ?v = "hw_out hw (SERIAL_REG_MCR (sd_port d)) (new_mcr d) v"
  from False show ?thesis
    by (intro exI [of _ "new_mcr d"] exI [of _ ?v]) (auto simp: serial_rx_flowcontrol_def uart_out)
qed

section \<open>The interrupt handler\<close>

lemma or_overrun [simp]: "overrun (d\<lparr>sd_status := sd_status d OR SERIALSTATUS_OVERRUN\<rparr>)"
proof -
  have "(sd_status d OR 1) AND 1 = (1 :: u8)"
    by (rule bit_eqI) (auto simp: bit_simps)
  then show ?thesis by (simp add: overrun_def SERIALSTATUS_OVERRUN_def)
qed

lemma or_framing: "overrun (d\<lparr>sd_status := sd_status d OR SERIALSTATUS_FRAMING\<rparr>) = overrun d"
proof -
  have "(sd_status d OR 2) AND 1 = sd_status d AND (1 :: u8)"
    by (rule bit_eqI) (auto simp: bit_simps)
  then show ?thesis by (simp add: overrun_def SERIALSTATUS_OVERRUN_def SERIALSTATUS_FRAMING_def)
qed

lemma fed_status:
  assumes "overrun d' \<or> sd_status d' = sd_status d"
    and "sd_port d' = sd_port d" "sd_cfg d' = sd_cfg d" "sd_rxfifo d' = sd_rxfifo d"
    and "fifo_isinitialized (sd_txfifo d') = fifo_isinitialized (sd_txfifo d)"
    and "lg (sd_port d) v' = lg (sd_port d) v"
  shows "fed lg v v' d d'"
  using assms by (auto simp: fed_def rx_cont_def overrun_def)

text \<open>The queue operations keep the buffer they have been given.\<close>

lemma fifo_bytes_ptr:
  "fifo_read_byte f = Inr (b, f') \<Longrightarrow> fifo_ptr f' = fifo_ptr f"
  "fifo_write_byte f b = Inr f' \<Longrightarrow> fifo_ptr f' = fifo_ptr f"
  by (auto simp: fifo_read_byte_def fifo_write_byte_def Let_def split: if_splits)

lemma fifo_read_loop_ptr: "fifo_read_loop f buf i n = Inr (b, f') \<Longrightarrow> fifo_ptr f' = fifo_ptr f"
  by (induction f buf i n rule: fifo_read_loop.induct)
    (auto simp: bnd_eq_Inr dest: fifo_bytes_ptr split: if_splits)

lemma fifo_drop_loop_ptr: "fifo_drop_loop f n = Inr f' \<Longrightarrow> fifo_ptr f' = fifo_ptr f"
  by (induction f n rule: fifo_drop_loop.induct) (auto simp: bnd_eq_Inr dest: fifo_bytes_ptr)

lemma fifo_write_loop_ptr: "fifo_write_loop f bs n = Inr f' \<Longrightarrow> fifo_ptr f' = fifo_ptr f"
  by (induction f bs n rule: fifo_write_loop.induct) (auto simp: bnd_eq_Inr dest: fifo_bytes_ptr)

lemma fifo_read_ptr: "fifo_read f buf n = Inr (r, b, f') \<Longrightarrow> fifo_ptr f' = fifo_ptr f"
  by (auto simp: fifo_read_def bnd_eq_Inr dest: fifo_read_loop_ptr fifo_drop_loop_ptr
      split: if_splits option.splits)

lemma fifo_write_ptr: "fifo_write f buf n = Inr (r, f') \<Longrightarrow> fifo_ptr f' = fifo_ptr f"
  by (auto simp: fifo_write_def bnd_eq_Inr dest: fifo_write_loop_ptr split: if_splits)

lemma fifo_isinitialized_eq:
  "fifo_ptr f' = fifo_ptr f \<Longrightarrow> fifo_size f' = fifo_size f \<Longrightarrow> fifo_isinitialized f' = fifo_isinitialized f"
  by (simp add: fifo_isinitialized_def)

text \<open>One byte read from an initialised queue, and one written to it.\<close>

lemma fifo_one_cases:
  assumes "fifo_ok f" and "fifo_isinitialized f"
  obtains (none) "fifo_read f (Some [0]) 1 = Inr (-1, Some [0], f)"
  | (one) b f' where "fifo_read f (Some [0]) 1 = Inr (0, Some [b], f')" "fifo_ok f'"
      "fifo_isinitialized f'" "fifo_contents f = b # fifo_contents f'"
proof -
  have inv: "fifo_inv f" using assms by (simp add: fifo_ok_def)
  note law = fifo_queue.rd_law [OF inv, of "Some [0]" 1]
  show thesis
  proof (cases "fifo_contents f")
    case Nil
    with law none show ?thesis by auto
  next
    case (Cons b bs)
    with law obtain f' where f': "fifo_read f (Some [0]) 1 = Inr (0, Some [b], f')" "fifo_inv f'"
      "unat (fifo_size f') - 1 = unat (fifo_size f) - 1" "fifo_contents f' = bs" by auto
    have "unat (fifo_size f') = unat (fifo_size f)"
      using f'(2,3) inv by (auto simp: fifo_inv_nat)
    then have "fifo_size f' = fifo_size f" by (simp only: word_unat_eq_iff)
    with f' Cons assms(2) fifo_isinitialized_eq [OF fifo_read_ptr [OF f'(1)]] show ?thesis
      by (intro one [of b f']) (auto simp: fifo_ok_def)
  qed
qed

lemma settled_initialized [simp]: "fifo_isinitialized (settled f) = fifo_isinitialized f"
  by (simp add: fifo_isinitialized_def settled_def)

lemma fifo_put_cases:
  assumes "rx_ok f" and "fifo_isinitialized f"
  obtains (full) "fifo_write f [b] 1 = Inr (-1, f)"
  | (ok) f' where "fifo_write f [b] 1 = Inr (0, f')" "rx_ok f'" "fifo_isinitialized f'"
      "fifo_contents (settled f') = fifo_contents (settled f) @ [b]"
      "fifo_head f' = fifo_head f" "fifo_size f' = fifo_size f"
proof -
  have inv: "fifo_inv (settled f)" and hd: "fifo_head f \<le> fifo_size f" using assms by (simp_all add: rx_ok_def)
  have len: "unat (1 :: u32) \<le> length [b]" by simp
  have "\<exists>r f'. fifo_write f [b] 1 = Inr (r, f') \<and> (r = 0 \<or> r = -1)"
    unfolding write_settled [OF inv hd] by (cases rule: fifo_write_cases [of "settled f" 1 "[b]", OF inv len]) auto
  then obtain r f' where w: "fifo_write f [b] 1 = Inr (r, f')" "r = 0 \<or> r = -1" by blast
  show thesis
  proof (cases rule: isr_cases [OF w(1) inv hd])
    case 1
    with w full show ?thesis by auto
  next
    case 2
    with w(1) hd assms(2) fifo_isinitialized_eq [OF fifo_write_ptr [OF w(1)] 2(5)] show ?thesis
      by (intro ok [of f']) (auto simp: rx_ok_def)
  qed
qed

text \<open>Each case of the handler is a step of its object.\<close>

text \<open>The ticks an interrupt, a sequence of them, a window of a round add.\<close>

definition tick_of :: "'d serial \<Rightarrow> u8 \<Rightarrow> nat" where
  "tick_of s n = (if handler_at s n = Some Pit_handler then 1 else 0)"

definition ticks_of :: "'d serial \<Rightarrow> u8 list \<Rightarrow> nat" where
  "ticks_of s ns = sum_list (map (tick_of s) ns)"

definition win_ticks :: "'d serial \<Rightarrow> round \<Rightarrow> nat \<Rightarrow> nat" where
  "win_ticks s r k = (if k < length r then ticks_of s (r ! k) else 0)"

text \<open>
  Only requests of the interrupt controllers arrive, no exceptions, and the serial handler does not
  run inside a count of the queue, between the two loads of the tail.
\<close>

definition count_quiet :: "'d serial \<Rightarrow> round \<Rightarrow> nat \<Rightarrow> bool" where
  "count_quiet s r k \<longleftrightarrow>
     (k < length r \<longrightarrow> list_all (\<lambda>n. handler_at s n \<noteq> Some Serial_int_handler) (r ! k))"

definition round_ok :: "'d serial \<Rightarrow> round \<Rightarrow> bool" where
  "round_ok s r \<longleftrightarrow> list_all (list_all (\<lambda>n. 32 \<le> n)) r \<and> count_quiet s r 1 \<and> count_quiet s r 3"

text \<open>The ticks of the windows every turn of the read has, and of all its windows.\<close>

definition sure_ticks :: "'d serial \<Rightarrow> round list \<Rightarrow> nat" where
  "sure_ticks s sched = (\<Sum>r\<leftarrow>sched. win_ticks s r 0 + win_ticks s r 5)"

definition max_ticks :: "'d serial \<Rightarrow> round list \<Rightarrow> nat" where
  "max_ticks s sched = (\<Sum>r\<leftarrow>sched. \<Sum>k<length r. win_ticks s r k)"

lemma windows_le:
  assumes "finite A"
  shows "(\<Sum>k\<in>A. win_ticks s r k) \<le> (\<Sum>k<length r. win_ticks s r k)"
proof -
  have "(\<Sum>k\<in>A. win_ticks s r k) = (\<Sum>k\<in>A \<inter> {..<length r}. win_ticks s r k)"
    using assms by (intro sum.mono_neutral_right) (auto simp: win_ticks_def)
  also have "\<dots> \<le> (\<Sum>k<length r. win_ticks s r k)" by (intro sum_mono2) auto
  finally show ?thesis .
qed

text \<open>Why a read has ended before the request is full.\<close>

definition read_cut :: "u8 list option \<Rightarrow> serial_data \<Rightarrow> u32 \<Rightarrow> u32 \<Rightarrow> 'd serial \<Rightarrow> bool" where
  "read_cut buf d timeout tend s \<longleftrightarrow>
     buf \<noteq> None \<and> sd_status d AND (SERIALSTATUS_OVERRUN OR SERIALSTATUS_FRAMING) \<noteq> 0 \<or>
     timeout \<noteq> 0 \<and> tend \<le> in_ticks s"

locale uart_line =
  fixes hw :: "'d hardware" and lg :: "u16 \<Rightarrow> 'd \<Rightarrow> u8 list" and lines :: "(u8 \<times> u16) list"
  assumes logged: "uart_logged hw lg" and causes: "uart_causes hw lines"
begin

lemma int_tx_step:
  assumes d: "sd_ok d"
  shows "\<exists>d' v'. serial_int_tx hw p d (at_obj p d v s) = Inr (at_obj p d' v' s) \<and> obj_step lg d v d' v'"
proof -
  have port: "sd_port d \<in> set serial_ports" using d by (simp add: sd_ok_def)
  have iir: "\<exists>d' v'. (Inr (snd (s_inb hw (SERIAL_REG_IIR (sd_port d)) (at_obj p d v s))) =
      (Inr (at_obj p d' v' s) :: 'd serial res)) \<and> obj_step lg d v d' v'"
    using d ports_apart(1) [OF port port] ports_apart(1) [OF port]
    by (intro exI [of _ d] exI [of _ "snd (hw_in hw (SERIAL_REG_IIR (sd_port d)) v)"])
      (auto simp: obj_step_def uart_in [OF logged] intro!: fed_status)
  show ?thesis
  proof (cases "fifo_isinitialized (sd_txfifo d)")
    case False
    with iir show ?thesis by (simp add: serial_int_tx_def)
  next
    case True
    from d have ok: "fifo_ok (sd_txfifo d)" by (simp add: sd_ok_def)
    show ?thesis
    proof (cases rule: fifo_one_cases [OF ok True])
      case 1
      have "d\<lparr>sd_txfifo := sd_txfifo d\<rparr> = d" by simp
      with 1 True iir show ?thesis by (simp add: serial_int_tx_def Let_def)
    next
      case (2 b f')
      with True d show ?thesis
        by (intro exI [of _ "d\<lparr>sd_txfifo := f'\<rparr>"]
            exI [of _ "hw_out hw (SERIAL_REG_DATA (sd_port d)) b v"])
          (auto simp: serial_int_tx_def Let_def obj_step_def sd_ok_def uart_out [OF logged]
            intro!: fed_status)
    qed
  qed
qed

lemma int_rx_step:
  assumes d: "sd_ok d"
  shows "\<exists>d' v'. serial_int_rx hw p d (at_obj p d v s) = Inr (at_obj p d' v' s) \<and> obj_step lg d v d' v'"
proof -
  have port: "sd_port d \<in> set serial_ports" using d by (simp add: sd_ok_def)
  let ?b = "fst (hw_in hw (sd_port d) v)" and ?v = "snd (hw_in hw (sd_port d) v)"
  have data: "SERIAL_REG_DATA (sd_port d) = sd_port d" by (simp add: SERIAL_REG_DATA_def)
  show ?thesis
  proof (cases "fifo_isinitialized (sd_rxfifo d)")
    case False
    with d data show ?thesis
      by (intro exI [of _ d] exI [of _ ?v])
        (auto simp: serial_int_rx_def obj_step_def uart_in [OF logged] fed_def)
  next
    case True
    from d have ok: "rx_ok (sd_rxfifo d)" by (simp add: sd_ok_def)
    show ?thesis
    proof (cases rule: fifo_put_cases [OF ok True, where b = ?b])
      case 1
      let ?d = "d\<lparr>sd_rxfifo := sd_rxfifo d, sd_status := sd_status d OR SERIALSTATUS_OVERRUN\<rparr>"
      obtain m v' where fl: "serial_rx_flowcontrol hw p (at_obj p ?d ?v s) =
          Inr (at_obj p (?d\<lparr>sd_mcr_val := m\<rparr>) v' s)" "\<forall>q. lg q v' = lg q ?v"
        using flowcontrol_at [of hw p ?d ?v s lg] logged by blast
      have ov: "overrun ?d" by simp
      from 1 True d data fl ov show ?thesis
        by (intro exI [of _ "?d\<lparr>sd_mcr_val := m\<rparr>"] exI [of _ v'])
          (auto simp: serial_int_rx_def Let_def obj_step_def sd_ok_def new_mcr_fields
            uart_in [OF logged] fed_def rx_cont_def overrun_def)
    next
      case (2 f')
      let ?d = "d\<lparr>sd_rxfifo := f'\<rparr>"
      obtain m v' where fl: "serial_rx_flowcontrol hw p (at_obj p ?d ?v s) =
          Inr (at_obj p (?d\<lparr>sd_mcr_val := m\<rparr>) v' s)" "\<forall>q. lg q v' = lg q ?v"
        using flowcontrol_at [of hw p ?d ?v s lg] logged by blast
      with 2 True d data show ?thesis
        by (intro exI [of _ "?d\<lparr>sd_mcr_val := m\<rparr>"] exI [of _ v'])
          (auto simp: serial_int_rx_def Let_def obj_step_def sd_ok_def
            uart_in [OF logged] fed_def rx_cont_def overrun_def)
    qed
  qed
qed

lemma int_line_step:
  assumes d: "sd_ok d"
  shows "\<exists>d' v'. serial_int_line hw p d (at_obj p d v s) = at_obj p d' v' s \<and> obj_step lg d v d' v'"
proof -
  have port: "sd_port d \<in> set serial_ports" using d by (simp add: sd_ok_def)
  let ?v = "snd (hw_in hw (SERIAL_REG_LSR (sd_port d)) v)"
  let ?lsr = "fst (hw_in hw (SERIAL_REG_LSR (sd_port d)) v)"
  let ?d1 = "if ?lsr AND SERIALREG_LSR_OE \<noteq> 0
    then d\<lparr>sd_status := sd_status d OR SERIALSTATUS_OVERRUN\<rparr> else d"
  let ?d2 = "if ?lsr AND SERIALREG_LSR_FE \<noteq> 0
    then ?d1\<lparr>sd_status := sd_status ?d1 OR SERIALSTATUS_FRAMING\<rparr> else ?d1"
  have other: "lg q ?v = lg q v" if "q \<in> set serial_ports" for q
    using ports_apart(2) [OF port that] by (simp add: uart_in [OF logged])
  have ov: "overrun ?d2 \<or> (overrun ?d2 = overrun d)"
    using or_framing [of d] or_framing [of ?d1] by (auto simp: if_distrib)
  have "obj_step lg d v ?d2 ?v"
    using d other port ov
    by (auto simp: obj_step_def sd_ok_def fed_def rx_cont_def)
  moreover have "serial_int_line hw p d (at_obj p d v s) = at_obj p ?d2 ?v s"
    by (simp add: serial_int_line_def Let_def)
  ultimately show ?thesis by blast
qed

lemma int_handler_step:
  assumes ok: "serial_ok lines s" and p: "se_data s p = Some d"
    and req: "(n, sd_port d) \<in> set lines" "hw_irq hw n (dev s)"
  shows "\<exists>d' v'. serial_int_handler hw n e p s = Inr (at_obj p d' v' s) \<and> obj_step lg d (dev s) d' v'"
proof -
  let ?q = "SERIAL_REG_IIR (sd_port d)"
  let ?iir = "fst (hw_in hw ?q (dev s))" and ?v = "snd (hw_in hw ?q (dev s))"
  have d: "sd_ok d" using ok p by (auto simp: serial_ok_def)
  then have port: "sd_port d \<in> set serial_ports" by (simp add: sd_ok_def)
  have lgv: "lg q ?v = lg q (dev s)" if "q \<in> set serial_ports" for q
    using ports_apart(1) [OF port that] by (simp add: uart_in [OF logged])
  have s: "s = at_obj p d (dev s) s" using at_obj_self [OF p] by simp
  have e: "serial_int_handler hw n e p s =
    (if int_cause ?iir = SERIALREG_IIR_INTID_TXEMPTY then serial_int_tx hw p d (at_obj p d ?v s)
     else if int_cause ?iir = SERIALREG_IIR_INTID_RXAVAIL then serial_int_rx hw p d (at_obj p d ?v s)
     else if int_cause ?iir = SERIALREG_IIR_INTID_RXLINESTATUS
     then Inr (serial_int_line hw p d (at_obj p d ?v s)) else Inl Panic)"
    by (subst (1 2) s) (simp add: serial_int_handler_def int_cause_def Let_def del: at_obj_simps(5))
  have "int_cause ?iir \<in> {1, 2, 3}" using causes req by (simp add: uart_causes_def)
  then obtain d' v' where "serial_int_handler hw n e p s = Inr (at_obj p d' v' s)" "obj_step lg d ?v d' v'"
    unfolding e
    using int_tx_step [OF d, of p ?v s] int_rx_step [OF d, of p ?v s] int_line_step [OF d, of p ?v s]
    by (auto simp: SERIALREG_IIR_INTID_TXEMPTY_def SERIALREG_IIR_INTID_RXAVAIL_def
        SERIALREG_IIR_INTID_RXLINESTATUS_def)
  moreover have "obj_step lg d (dev s) d' v'" if "obj_step lg d ?v d' v'" for d' v'
    using that lgv port by (auto simp: obj_step_def fed_def)
  ultimately show ?thesis by blast
qed

lemma int_handler_ok:
  assumes ok: "serial_ok lines s" and d: "se_data s p = Some d"
    and req: "(n, sd_port d) \<in> set lines" "hw_irq hw n (dev s)"
  shows "\<exists>s'. serial_int_handler hw n e p s = Inr s' \<and> serial_ok lines s' \<and> kept lg s s' \<and>
    in_ticks s' = in_ticks s"
proof -
  from int_handler_step [OF ok d req] obtain d' v' where
    "serial_int_handler hw n e p s = Inr (at_obj p d' v' s)" "obj_step lg d (dev s) d' v'" by blast
  with kept_obj [OF ok d] show ?thesis by auto
qed

text \<open>Writing to a port, and turning the interrupt flag off and on, keeps everything else.\<close>

lemma eoi_shape:
  "\<exists>v. wrapper_eoi hw n s = upd_world (\<lambda>w. w\<lparr>w_dev := v\<rparr>) s \<and> (\<forall>q. lg q v = lg q (dev s))"
proof -
  have e: "\<exists>v. pic_eoi hw irq w = w\<lparr>w_dev := v\<rparr> \<and> (\<forall>q. lg q v = lg q (w_dev w))" for irq w
    by (auto simp: pic_eoi_def Let_def outb_def uart_out [OF logged] intro!: exI)
  have u: "s = upd_world (\<lambda>w. w\<lparr>w_dev := dev s\<rparr>) s"
    by (simp add: upd_world_def dev_def)
  have f: "\<exists>v. upd_world (pic_eoi hw irq) s = upd_world (\<lambda>w. w\<lparr>w_dev := v\<rparr>) s \<and>
      (\<forall>q. lg q v = lg q (dev s))" for irq
    using e [of irq "in_world s"] by (auto simp: upd_world_def dev_def)
  show ?thesis unfolding wrapper_eoi_def Let_def using f u by (auto split: if_splits)
qed

lemma kept_shell:
  assumes "kept lg (upd_world interrupts_disable s) s1" and "w_if (in_world s)"
    and "\<forall>q. lg q v = lg q (dev s1)"
  shows "kept lg s (upd_world interrupts_enable (upd_world (\<lambda>w. w\<lparr>w_dev := v\<rparr>) s1))"
proof -
  have f: "fed lg (dev s) v d d'" if "fed lg (dev s) (dev s1) d d'" for d d'
    using that assms(3) unfolding fed_def by simp
  show ?thesis
    using assms(1,2) f unfolding kept_def
    by (simp add: interrupts_disable_def interrupts_enable_def dev_def)
qed

lemma deliver_ok:
  assumes ok: "serial_ok lines s" and n: "32 \<le> n" and on: "w_if (in_world s)"
  shows "\<exists>s'. deliver hw (call_handler hw) n s = Inr s' \<and> serial_ok lines s' \<and> kept lg s s' \<and>
    in_ticks s' = in_ticks s + of_nat (tick_of s n) \<and>
    (handler_at s n \<noteq> Some Serial_int_handler \<longrightarrow> se_data s' = se_data s)"
proof (cases "hw_irq hw n (dev s)")
  case False
  then have "handler_at s n \<noteq> Some Pit_handler"
    using ok causes unfolding serial_ok_def uart_causes_def by blast
  with False ok show ?thesis by (simp add: deliver_def dev_def kept_refl tick_of_def)
next
  case req: True
  let ?s = "upd_world interrupts_disable s"
  let ?n = "ucast n :: u32"
  have n': "unat ?n = unat n" "\<not> ?n < 32" "ucast ?n = n"
    using n by (simp_all add: word_less_nat_alt word_le_nat_alt)
      (auto intro!: bit_word_eqI simp: bit_simps)
  have h: "(if unat ?n < INT_ID_MAX then isr_handler (in_isr ?s ! unat ?n) else None) = handler_at s n"
    by (simp add: handler_at_def n'(1))
  have dv: "dev ?s = dev s" by (simp add: interrupts_disable_def dev_def)
  let ?c = "case handler_at s n of
      Some h \<Rightarrow> call_handler hw h (ucast ?n) 0 (isr_data (in_isr ?s ! unat ?n)) ?s
    | None \<Rightarrow> if ?n < 32 then handle_exception ?n 0 else Inr ?s"
  have "\<exists>s1. ?c = Inr s1 \<and>
      serial_ok lines s1 \<and> kept lg ?s s1 \<and> in_ticks s1 = in_ticks s + of_nat (tick_of s n) \<and>
      (handler_at s n \<noteq> Some Serial_int_handler \<longrightarrow> se_data s1 = se_data s)"
  proof (cases "handler_at s n")
    case None
    then show ?thesis using ok n' by (auto simp: kept_refl tick_of_def)
  next
    case (Some h)
    show ?thesis
    proof (cases h)
      case Pit_handler
      have "kept lg ?s (?s\<lparr>in_ticks := in_ticks s + 1\<rparr>)"
        by (auto simp: kept_def fed_def dev_def)
      then show ?thesis
        using Some Pit_handler ok n'
        by (auto simp: call_handler_def pit_handler_def tick_of_def)
    next
      case Serial_int_handler
      then obtain d where d: "se_data ?s (isr_data (in_isr s ! unat n)) = Some d" "(n, sd_port d) \<in> set lines"
        using ok Some unfolding serial_ok_def by auto
      have r: "hw_irq hw n (dev ?s)" using req dv by simp
      obtain s1 where "serial_int_handler hw n 0 (isr_data (in_isr s ! unat n)) ?s = Inr s1"
        "serial_ok lines s1" "kept lg ?s s1" "in_ticks s1 = in_ticks ?s"
        using int_handler_ok [OF _ d r] ok by auto
      then show ?thesis
        using Some Serial_int_handler n' by (auto simp: call_handler_def tick_of_def)
    qed
  qed
  then obtain s1 where c: "?c = Inr s1" and s1:
    "serial_ok lines s1" "kept lg ?s s1" "in_ticks s1 = in_ticks s + of_nat (tick_of s n)"
    "handler_at s n \<noteq> Some Serial_int_handler \<longrightarrow> se_data s1 = se_data s" by blast
  have w: "interrupt_wrapper hw (call_handler hw) ?n 0 ?s = Inr (wrapper_eoi hw ?n s1)"
    unfolding interrupt_wrapper_def Let_def h c by simp
  obtain v where v: "wrapper_eoi hw ?n s1 = upd_world (\<lambda>w. w\<lparr>w_dev := v\<rparr>) s1"
    "\<forall>q. lg q v = lg q (dev s1)" using eoi_shape by blast
  have "deliver hw (call_handler hw) n s =
      Inr (upd_world interrupts_enable (upd_world (\<lambda>w. w\<lparr>w_dev := v\<rparr>) s1))"
    using w v(1) on req by (simp add: deliver_def dev_def)
  with s1 kept_shell [OF s1(2) on v(2)] show ?thesis by simp
qed

lemma handler_at_kept: "kept lg s s' \<Longrightarrow> handler_at s' n = handler_at s n"
  by (simp add: kept_def handler_at_def)

lemma tick_of_kept: "kept lg s s' \<Longrightarrow> tick_of s' n = tick_of s n"
  by (simp add: tick_of_def handler_at_kept)

lemma ticks_of_kept: "kept lg s s' \<Longrightarrow> ticks_of s' ns = ticks_of s ns"
  by (simp add: ticks_of_def tick_of_kept cong: map_cong)

lemma deliver_all_ok:
  assumes "serial_ok lines s" and "list_all (\<lambda>n. 32 \<le> n) ns" and "w_if (in_world s)"
  shows "\<exists>s'. deliver_all hw (call_handler hw) ns s = Inr s' \<and> serial_ok lines s' \<and> kept lg s s' \<and>
    in_ticks s' = in_ticks s + of_nat (ticks_of s ns) \<and>
    (list_all (\<lambda>n. handler_at s n \<noteq> Some Serial_int_handler) ns \<longrightarrow> se_data s' = se_data s)"
  using assms
proof (induction ns arbitrary: s)
  case Nil
  then show ?case by (simp add: kept_refl ticks_of_def)
next
  case (Cons n ns)
  obtain s1 where s1: "deliver hw (call_handler hw) n s = Inr s1" "serial_ok lines s1" "kept lg s s1"
    "in_ticks s1 = in_ticks s + of_nat (tick_of s n)"
    "handler_at s n \<noteq> Some Serial_int_handler \<longrightarrow> se_data s1 = se_data s" using deliver_ok Cons.prems by auto
  have "w_if (in_world s1)" using s1(3) Cons.prems(3) by (simp add: kept_def)
  with Cons.IH [of s1] Cons.prems s1(2) obtain s2 where s2:
    "deliver_all hw (call_handler hw) ns s1 = Inr s2" "serial_ok lines s2" "kept lg s1 s2"
    "in_ticks s2 = in_ticks s1 + of_nat (ticks_of s1 ns)"
    "list_all (\<lambda>n. handler_at s1 n \<noteq> Some Serial_int_handler) ns \<longrightarrow> se_data s2 = se_data s1" by auto
  then show ?case
    using s1 kept_trans [OF s1(3) s2(3)] ticks_of_kept [OF s1(3)] handler_at_kept [OF s1(3)]
    by (auto simp: ticks_of_def algebra_simps)
qed

lemma window_ok:
  assumes "serial_ok lines s" and "list_all (list_all (\<lambda>n. 32 \<le> n)) r" and "w_if (in_world s)"
  shows "\<exists>s'. window hw r k s = Inr s' \<and> serial_ok lines s' \<and> kept lg s s' \<and>
    in_ticks s' = in_ticks s + of_nat (win_ticks s r k) \<and> (count_quiet s r k \<longrightarrow> se_data s' = se_data s)"
proof (cases "k < length r")
  case True
  with assms(2) have "list_all (\<lambda>n. 32 \<le> n) (r ! k)" by (simp add: list_all_length)
  from deliver_all_ok [OF assms(1) this assms(3)] True show ?thesis
    by (simp add: window_def win_ticks_def count_quiet_def)
qed (use assms in \<open>simp add: window_def win_ticks_def kept_refl\<close>)

section \<open>Reading\<close>

text \<open>
  \<open>drained s0 d0 got s d\<close>: since the state \<open>s0\<close> with the object \<open>d0\<close> the bytes \<open>got\<close> have been
  taken out of the queue, which has been fed at the other end.
\<close>

definition drained :: "u32 \<Rightarrow> 'd serial \<Rightarrow> serial_data \<Rightarrow> u8 list \<Rightarrow> 'd serial \<Rightarrow> serial_data \<Rightarrow> bool" where
  "drained p s0 d0 got s d \<longleftrightarrow> serial_ok lines s \<and> w_if (in_world s) \<and> in_isr s = in_isr s0 \<and>
     se_data s p = Some d \<and> sd_port d = sd_port d0 \<and> fifo_isinitialized (sd_rxfifo d) \<and>
     (\<exists>bs. got @ rx_cont d = rx_cont d0 @ bs \<and>
       (\<not> overrun d \<longrightarrow> \<not> overrun d0 \<and>
          lg (sd_port d0) (dev s) = lg (sd_port d0) (dev s0) @ bs))"

lemma drained_start:
  assumes "serial_ok lines s" and "w_if (in_world s)" and "se_data s p = Some d"
    and "fifo_isinitialized (sd_rxfifo d)"
  shows "drained p s d [] s d"
  using assms by (simp add: drained_def)

lemma drained_kept:
  assumes dr: "drained p s0 d0 got s d" and k: "kept lg s s'" and ok: "serial_ok lines s'"
  shows "\<exists>d'. drained p s0 d0 got s' d' \<and> length (rx_cont d) \<le> length (rx_cont d') \<and>
    take (length (rx_cont d)) (rx_cont d') = rx_cont d \<and> (at_rest d' \<longleftrightarrow> at_rest d) \<and>
    fifo_head (sd_rxfifo d') = fifo_head (sd_rxfifo d) \<and> fifo_size (sd_rxfifo d') = fifo_size (sd_rxfifo d)"
proof -
  have "p \<in> dom (se_data s')" using dr k by (auto simp: drained_def kept_def)
  then obtain d' where d': "se_data s' p = Some d'" by blast
  then have f: "fed lg (dev s) (dev s') d d'" using dr k by (auto simp: drained_def kept_def)
  then obtain bs' where bs': "rx_cont d' = rx_cont d @ bs'"
    "fifo_isinitialized (sd_rxfifo d) \<and> \<not> overrun d' \<longrightarrow>
       \<not> overrun d \<and> lg (sd_port d) (dev s') = lg (sd_port d) (dev s) @ bs'" by (auto simp: fed_def)
  obtain bs where bs: "got @ rx_cont d = rx_cont d0 @ bs"
    "\<not> overrun d \<longrightarrow> \<not> overrun d0 \<and> lg (sd_port d0) (dev s) = lg (sd_port d0) (dev s0) @ bs"
    using dr by (auto simp: drained_def)
  have "got @ rx_cont d' = rx_cont d0 @ (bs @ bs')" using bs(1) bs'(1) by simp
  with dr f d' bs bs' ok k have "drained p s0 d0 got s' d'"
    unfolding drained_def fed_def kept_def by (intro conjI exI [of _ "bs @ bs'"]) auto
  moreover have "at_rest d' \<longleftrightarrow> at_rest d" "fifo_head (sd_rxfifo d') = fifo_head (sd_rxfifo d)"
    "fifo_size (sd_rxfifo d') = fifo_size (sd_rxfifo d)" using f by (simp_all add: fed_def at_rest_def)
  ultimately show ?thesis using bs' by auto
qed

text \<open>The queue changed by the main program.\<close>

lemma drained_put:
  assumes dr: "drained p s0 d0 got s d" and q: "rx_ok q" "fifo_isinitialized q"
    and c: "got' @ fifo_contents (settled q) = got @ rx_cont d"
  shows "drained p s0 d0 got' (sd_put p (d\<lparr>sd_rxfifo := q\<rparr>) s) (d\<lparr>sd_rxfifo := q\<rparr>)"
proof -
  have d: "se_data s p = Some d" "sd_ok d" using dr by (auto simp: drained_def serial_ok_def)
  have "serial_ok lines (sd_put p (d\<lparr>sd_rxfifo := q\<rparr>) s)"
    by (rule serial_ok_put [of _ _ p d]) (use dr d q in \<open>auto simp: drained_def sd_ok_def\<close>)
  with dr q c show ?thesis unfolding drained_def by (auto simp: rx_cont_def overrun_def)
qed

lemma flow_drained:
  assumes dr: "drained p s0 d0 got s d"
  shows "\<exists>s' d'. serial_rx_flowcontrol hw p s = Inr s' \<and> drained p s0 d0 got s' d' \<and>
    in_ticks s' = in_ticks s \<and> rx_cont d' = rx_cont d \<and> (at_rest d' \<longleftrightarrow> at_rest d)"
proof -
  have d: "se_data s p = Some d" "sd_ok d" using dr by (auto simp: drained_def serial_ok_def)
  obtain m v' where m: "serial_rx_flowcontrol hw p (at_obj p d (dev s) s) =
      Inr (at_obj p (d\<lparr>sd_mcr_val := m\<rparr>) v' s)" "\<forall>q. lg q v' = lg q (dev s)"
    using flowcontrol_at [of hw p d "dev s" s lg] logged by blast
  let ?d = "d\<lparr>sd_mcr_val := m\<rparr>" and ?s = "at_obj p (d\<lparr>sd_mcr_val := m\<rparr>) v' s"
  have "serial_ok lines ?s"
    unfolding at_obj_def
    by (rule serial_ok_put [of _ _ p d]) (use dr d in \<open>auto simp: drained_def sd_ok_def\<close>)
  moreover have "rx_cont ?d = rx_cont d" "overrun ?d = overrun d" by (simp_all add: rx_cont_def overrun_def)
  ultimately have "drained p s0 d0 got ?s ?d" using dr m(2) unfolding drained_def by auto
  with m(1) at_obj_self [OF d(1)] show ?thesis
    by (intro exI [of _ ?s] exI [of _ ?d]) (simp add: rx_cont_def at_rest_def)
qed

lemma window_drained:
  assumes dr: "drained p s0 d0 got s d" and r: "list_all (list_all (\<lambda>n. 32 \<le> n)) r"
  shows "\<exists>s' d'. window hw r k s = Inr s' \<and> drained p s0 d0 got s' d' \<and>
    in_ticks s' = in_ticks s + of_nat (win_ticks s0 r k) \<and>
    length (rx_cont d) \<le> length (rx_cont d') \<and> take (length (rx_cont d)) (rx_cont d') = rx_cont d \<and>
    (at_rest d' \<longleftrightarrow> at_rest d) \<and> fifo_head (sd_rxfifo d') = fifo_head (sd_rxfifo d) \<and>
    fifo_size (sd_rxfifo d') = fifo_size (sd_rxfifo d) \<and> (count_quiet s0 r k \<longrightarrow> d' = d)"
proof -
  have st: "serial_ok lines s" "w_if (in_world s)" "in_isr s = in_isr s0" "se_data s p = Some d"
    using dr by (simp_all add: drained_def)
  then have h: "handler_at s = handler_at s0" by (auto simp: handler_at_def)
  then have "tick_of s = tick_of s0" by (auto simp: tick_of_def)
  then have "win_ticks s r k = win_ticks s0 r k" "count_quiet s r k = count_quiet s0 r k"
    by (simp_all add: win_ticks_def ticks_of_def count_quiet_def h)
  with window_ok [OF st(1) r st(2), of k] obtain s' where s': "window hw r k s = Inr s'"
    "serial_ok lines s'" "kept lg s s'" "in_ticks s' = in_ticks s + of_nat (win_ticks s0 r k)"
    "count_quiet s0 r k \<longrightarrow> se_data s' = se_data s" by auto
  from drained_kept [OF dr s'(3,2)] obtain d' where d': "drained p s0 d0 got s' d'"
    "length (rx_cont d) \<le> length (rx_cont d')" "take (length (rx_cont d)) (rx_cont d') = rx_cont d"
    "at_rest d' \<longleftrightarrow> at_rest d" "fifo_head (sd_rxfifo d') = fifo_head (sd_rxfifo d)"
    "fifo_size (sd_rxfifo d') = fifo_size (sd_rxfifo d)" by blast
  have "se_data s' p = Some d'" using d'(1) by (simp add: drained_def)
  then have "count_quiet s0 r k \<longrightarrow> d' = d" using s'(5) st(4) by auto
  with d' s' show ?thesis by blast
qed

text \<open>A queue that is not being copied from is sound.\<close>

lemma drained_inv:
  assumes "drained p s0 d0 got s d" and "at_rest d"
  shows "fifo_inv (sd_rxfifo d)" "rx_cont d = fifo_contents (sd_rxfifo d)" "sd_get p s = Inr d"
proof -
  have "sd_ok d" "fifo_isinitialized (sd_rxfifo d)" and g: "se_data s p = Some d"
    using assms(1) by (auto simp: drained_def serial_ok_def)
  moreover have "settled (sd_rxfifo d) = sd_rxfifo d" using assms(2) by (simp add: settled_def at_rest_def)
  ultimately show "fifo_inv (sd_rxfifo d)" "rx_cont d = fifo_contents (sd_rxfifo d)" "sd_get p s = Inr d"
    by (simp_all add: sd_ok_def rx_ok_def rx_cont_def sd_get_def)
qed

text \<open>A count of the queue the handler does not run into.\<close>

lemma used_drained:
  assumes dr: "drained p s0 d0 got s d" and rest: "at_rest d"
    and r: "list_all (list_all (\<lambda>n. 32 \<le> n)) r" and quiet: "count_quiet s0 r k"
  shows "\<exists>u s'. serial_used hw p r k s = Inr (u, s') \<and> drained p s0 d0 got s' d \<and>
    in_ticks s' = in_ticks s + of_nat (win_ticks s0 r k) \<and> unat u = length (rx_cont d)"
proof -
  from window_drained [OF dr r, of k] quiet obtain s' where s': "window hw r k s = Inr s'"
    "drained p s0 d0 got s' d" "in_ticks s' = in_ticks s + of_nat (win_ticks s0 r k)" by blast
  note I = drained_inv [OF dr rest] and I' = drained_inv [OF s'(2) rest]
  have "serial_used hw p r k s = Inr (used_after (fifo_tail (sd_rxfifo d)) (sd_rxfifo d), s')"
    by (simp add: serial_used_def I(3) I'(3) s'(1))
  with s' used_after_contents [OF I(1), of "fifo_tail (sd_rxfifo d)"] I(2) show ?thesis by auto
qed

text \<open>The bytes are copied one by one, while the handler writes at the other end.\<close>

lemma byte_drained:
  assumes dr: "drained p s0 d0 got s d" and rest: "at_rest d" and ne: "rx_cont d \<noteq> []"
    and r: "list_all (list_all (\<lambda>n. 32 \<le> n)) r"
  shows "\<exists>v s' d'. drained p s0 d0 (got @ [v]) s' d' \<and> at_rest d' \<and>
    length (rx_cont d) \<le> Suc (length (rx_cont d')) \<and>
    in_ticks s' = in_ticks s + of_nat (win_ticks s0 r k + win_ticks s0 r (k + 1) + win_ticks s0 r (k + 2)) \<and>
    (\<forall>bdata i n. serial_copy hw p bdata i (Suc n) r k s =
       bnd (buf_put bdata i v) (\<lambda>bdata. serial_copy hw p bdata (Suc i) n r (k + 3) s'))"
proof -
  obtain s1 d1 where 1: "window hw r k s = Inr s1" "drained p s0 d0 got s1 d1"
    "in_ticks s1 = in_ticks s + of_nat (win_ticks s0 r k)" "length (rx_cont d) \<le> length (rx_cont d1)" "at_rest d1"
    using window_drained [OF dr r, of k] rest by blast
  let ?q1 = "sd_rxfifo d1" and ?v = "fifo_data (sd_rxfifo d1) ! unat (fifo_head (sd_rxfifo d1))"
  note I1 = drained_inv [OF 1(2,5)]
  have ne1: "fifo_contents ?q1 \<noteq> []" using 1(4) ne I1(2) by auto
  have in1: "unat (fifo_head ?q1) < length (fifo_data ?q1)" using I1(1) by (simp add: fifo_inv_nat)
  obtain s2 d2 where 2: "window hw r (k + 1) s1 = Inr s2" "drained p s0 d0 got s2 d2"
    "in_ticks s2 = in_ticks s1 + of_nat (win_ticks s0 r (k + 1))"
    "length (rx_cont d1) \<le> length (rx_cont d2)" "take (length (rx_cont d1)) (rx_cont d2) = rx_cont d1" "at_rest d2"
    using window_drained [OF 1(2) r, of "k + 1"] 1(5) by blast
  let ?q2 = "sd_rxfifo d2"
  let ?q2' = "?q2\<lparr>fifo_head := fifo_head ?q2 + 1\<rparr>"
  let ?d3 = "d2\<lparr>sd_rxfifo := ?q2'\<rparr>"
  note I2 = drained_inv [OF 2(2,6)]
  have ne2: "fifo_contents ?q2 \<noteq> []" using 2(4) ne1 I1(2) I2(2) by auto
  note C = contents_step [OF I2(1) ne2]
  have v: "fifo_contents ?q2 = ?v # fifo_contents (settled ?q2')"
  proof -
    have "hd (rx_cont d2) = hd (rx_cont d1)" using 2(5) ne1 I1(2) by (metis hd_take length_greater_0_conv)
    then have "hd (fifo_contents ?q2) = ?v" using contents_step(1) [OF I1(1) ne1] I1(2) I2(2) by simp
    with C(1) show ?thesis by (metis list.sel(1))
  qed
  have ini2: "fifo_isinitialized ?q2" using 2(2) by (simp add: drained_def)
  have ini3: "fifo_isinitialized ?q2'" using ini2 by (simp add: fifo_isinitialized_def)
  have ok3: "rx_ok ?q2'" using C(2,3) by (simp add: rx_ok_def)
  have 3: "drained p s0 d0 (got @ [?v]) (sd_put p ?d3 s2) ?d3"
    by (rule drained_put [OF 2(2) ok3 ini3]) (simp add: I2(2) v)
  obtain s4 d4 where 4: "window hw r (k + 2) (sd_put p ?d3 s2) = Inr s4" "drained p s0 d0 (got @ [?v]) s4 d4"
    "in_ticks s4 = in_ticks s2 + of_nat (win_ticks s0 r (k + 2))" "length (rx_cont ?d3) \<le> length (rx_cont d4)"
    using window_drained [OF 3 r, of "k + 2"] by auto
  let ?q5 = "if fifo_head (sd_rxfifo d4) \<ge> fifo_size (sd_rxfifo d4) then (sd_rxfifo d4)\<lparr>fifo_head := 0\<rparr> else sd_rxfifo d4"
  let ?d5 = "d4\<lparr>sd_rxfifo := ?q5\<rparr>"
  have q5: "?q5 = settled (sd_rxfifo d4)" by (simp add: settled_def)
  have ini4: "fifo_isinitialized (sd_rxfifo d4)" and g4: "sd_get p s4 = Inr d4" and "sd_ok d4"
    using 4(2) by (auto simp: drained_def serial_ok_def sd_get_def)
  then have inv5: "fifo_inv ?q5" unfolding q5 by (simp add: sd_ok_def rx_ok_def)
  then have ok5: "rx_ok ?q5" unfolding q5 by (simp add: rx_ok_def) (simp add: fifo_inv_def less_imp_le)
  have rest5: "at_rest ?d5" using inv5 unfolding q5 by (simp add: at_rest_def fifo_inv_def)
  have c5: "rx_cont ?d5 = rx_cont d4" using inv5 by (simp add: rx_cont_def q5)
  have 5: "drained p s0 d0 (got @ [?v]) (sd_put p ?d5 s4) ?d5"
    by (rule drained_put [OF 4(2) ok5]) (use inv5 ini4 in \<open>simp_all add: q5 rx_cont_def\<close>)
  have "rx_cont d2 = ?v # rx_cont ?d3" using v I2(2) by (simp add: rx_cont_def)
  then have "length (rx_cont d) \<le> Suc (length (rx_cont ?d5))" using 1(4) 2(4) 4(4) c5 by simp
  moreover have "serial_copy hw p bdata i (Suc n) r k s =
      bnd (buf_put bdata i ?v) (\<lambda>bdata. serial_copy hw p bdata (Suc i) n r (k + 3) (sd_put p ?d5 s4))" for bdata i n
    unfolding serial_copy.simps(2) 1(1) bnd_Inr I1(3) Let_def if_P [OF in1] 2(1) I2(3) 4(1) g4 ..
  moreover have "in_ticks (sd_put p ?d5 s4) =
      in_ticks s + of_nat (win_ticks s0 r k + win_ticks s0 r (k + 1) + win_ticks s0 r (k + 2))"
    using 1(3) 2(3) 4(3) by simp
  ultimately show ?thesis using 5 rest5 by blast
qed

lemma copy_drained:
  assumes "drained p s0 d0 got s d" and "at_rest d" and "n \<le> length (rx_cont d)"
    and r: "list_all (list_all (\<lambda>n. 32 \<le> n)) r" and "\<And>b. bdata = Some b \<Longrightarrow> i + n \<le> length b"
  shows "\<exists>new s' d'. length new = n \<and> serial_copy hw p bdata i n r k s =
      Inr (map_option (\<lambda>b. take i b @ new @ drop (i + n) b) bdata, s') \<and>
    drained p s0 d0 (got @ new) s' d' \<and> at_rest d' \<and>
    in_ticks s' = in_ticks s + of_nat (\<Sum>j = k..<k + 3 * n. win_ticks s0 r j)"
  using assms
proof (induction n arbitrary: got s d bdata i k)
  case 0
  then show ?case by (intro exI [of _ "[]"] exI [of _ s] exI [of _ d]) (simp add: option.map_ident)
next
  case (Suc n)
  from byte_drained [OF Suc.prems(1,2) _ r, of k] Suc.prems(3) obtain v s1 d1 where B:
    "drained p s0 d0 (got @ [v]) s1 d1" "at_rest d1" "length (rx_cont d) \<le> Suc (length (rx_cont d1))"
    "in_ticks s1 = in_ticks s + of_nat (win_ticks s0 r k + win_ticks s0 r (k + 1) + win_ticks s0 r (k + 2))"
    "\<And>bdata i n. serial_copy hw p bdata i (Suc n) r k s =
       bnd (buf_put bdata i v) (\<lambda>bdata. serial_copy hw p bdata (Suc i) n r (k + 3) s1)" by fastforce
  let ?bd = "map_option (\<lambda>b. b[i := v]) bdata"
  have put: "buf_put bdata i v = Inr ?bd" using Suc.prems(5) by (cases bdata) (auto simp: buf_put_def)
  have len: "Suc i + n \<le> length b" if "?bd = Some b" for b using Suc.prems(5) that by auto
  have n1: "n \<le> length (rx_cont d1)" using B(3) Suc.prems(3) by simp
  from Suc.IH [OF B(1,2) n1 r len, where k = "k + 3"] obtain new s2 d2 where IH: "length new = n"
    "serial_copy hw p ?bd (Suc i) n r (k + 3) s1 =
      Inr (map_option (\<lambda>b. take (Suc i) b @ new @ drop (Suc i + n) b) ?bd, s2)"
    "drained p s0 d0 ((got @ [v]) @ new) s2 d2" "at_rest d2"
    "in_ticks s2 = in_ticks s1 + of_nat (\<Sum>j = k + 3..<k + 3 + 3 * n. win_ticks s0 r j)" by blast
  have "map_option (\<lambda>b. take (Suc i) b @ new @ drop (Suc i + n) b) ?bd =
      map_option (\<lambda>b. take i b @ (v # new) @ drop (i + Suc n) b) bdata"
    using Suc.prems(5) by (cases bdata) (auto simp: take_Suc_conv_app_nth)
  moreover have "(\<Sum>j = k..<k + 3 * Suc n. win_ticks s0 r j) =
      win_ticks s0 r k + win_ticks s0 r (k + 1) + win_ticks s0 r (k + 2) +
      (\<Sum>j = k + 3..<k + 3 + 3 * n. win_ticks s0 r j)"
    by (simp add: sum.atLeast_Suc_lessThan numeral_3_eq_3)
  ultimately show ?case
    using IH B(4,5) put by (intro exI [of _ "v # new"] exI [of _ s2] exI [of _ d2]) simp
qed

text \<open>One pass through the queue: it takes what is there, up to what is asked for.\<close>

lemma read_queue_drained:
  assumes dr: "drained p s0 d0 got s d" and rest: "at_rest d" and r: "round_ok s0 r"
    and i: "unat i = length got" "i < sz" and buf: "\<And>b. buf0 = Some b \<Longrightarrow> unat sz \<le> length b"
  shows "\<exists>got' i' s' d' A. serial_read_queue hw p (map_option (\<lambda>b. got @ drop (unat i) b) buf0) sz i r s =
      Inr (map_option (\<lambda>b. got' @ drop (unat i') b) buf0, i', s') \<and>
    drained p s0 d0 got' s' d' \<and> at_rest d' \<and> unat i' = length got' \<and> i' \<le> sz \<and>
    in_ticks s' = in_ticks s + of_nat (\<Sum>k\<in>A. win_ticks s0 r k) \<and> finite A \<and> 0 \<notin> A \<and> 5 \<notin> A"
proof -
  let ?buf = "map_option (\<lambda>b. got @ drop (unat i) b) buf0"
  have R: "list_all (list_all (\<lambda>n. 32 \<le> n)) r" "count_quiet s0 r 1" "count_quiet s0 r 3"
    using r by (simp_all add: round_ok_def)
  obtain u s1 where 1: "serial_used hw p r 1 s = Inr (u, s1)" "drained p s0 d0 got s1 d"
    "in_ticks s1 = in_ticks s + of_nat (win_ticks s0 r 1)" "unat u = length (rx_cont d)"
    using used_drained [OF dr rest R(1,2)] by blast
  let ?n = "if u > sz - i then sz - i else u"
  have diff: "unat (sz - i) = unat sz - unat i" using i(2) by (simp add: unat_sub_le)
  have n: "unat ?n \<le> length (rx_cont d)" "unat ?n \<le> unat sz - unat i"
    using 1(4) diff by (auto simp: word_less_nat_alt split: if_splits)
  obtain s2 d2 where 2: "window hw r 2 s1 = Inr s2" "drained p s0 d0 got s2 d2" "at_rest d2"
    "in_ticks s2 = in_ticks s1 + of_nat (win_ticks s0 r 2)" "length (rx_cont d) \<le> length (rx_cont d2)"
    using window_drained [OF 1(2) R(1), of 2] rest by blast
  show ?thesis
  proof (cases "?n = 0")
    case True
    then have "serial_read_queue hw p ?buf sz i r s = Inr (?buf, i, s2)"
      using 1(1) 2(1) by (simp add: serial_read_queue_def Let_def)
    with 1(3) 2 i show ?thesis
      by (intro exI [of _ got] exI [of _ i] exI [of _ s2] exI [of _ d2] exI [of _ "{1, 2}"])
        (simp add: less_imp_le)
  next
    case False
    obtain u' s3 where 3: "serial_used hw p r 3 s2 = Inr (u', s3)" "drained p s0 d0 got s3 d2"
      "in_ticks s3 = in_ticks s2 + of_nat (win_ticks s0 r 3)" "unat u' = length (rx_cont d2)"
      using used_drained [OF 2(2,3) R(1,3)] by blast
    have n2: "unat ?n \<le> length (rx_cont d2)" using n(1) 2(5) by linarith
    then have u': "\<not> u' < ?n" using 3(4) by (simp add: word_less_nat_alt)
    have "unat i < unat sz" using i(2) by (simp add: word_less_nat_alt)
    then have in_sz: "unat i + unat ?n \<le> unat sz" using n(2) by linarith
    have len: "unat i + unat ?n \<le> length b" if "?buf = Some b" for b
      using that buf i in_sz by auto
    from copy_drained [OF 3(2) 2(3) n2 R(1) len, where k = 6] obtain new s4 d4 where 4: "length new = unat ?n"
      "serial_copy hw p ?buf (unat i) (unat ?n) r 6 s3 =
        Inr (map_option (\<lambda>b. take (unat i) b @ new @ drop (unat i + unat ?n) b) ?buf, s4)"
      "drained p s0 d0 (got @ new) s4 d4" "at_rest d4"
      "in_ticks s4 = in_ticks s3 + of_nat (\<Sum>j = 6..<6 + 3 * unat ?n. win_ticks s0 r j)" by blast
    obtain s5 d5 where 5: "window hw r 4 s4 = Inr s5" "drained p s0 d0 (got @ new) s5 d5" "at_rest d5"
      "in_ticks s5 = in_ticks s4 + of_nat (win_ticks s0 r 4)"
      using window_drained [OF 4(3) R(1), of 4] 4(4) by blast
    obtain s6 d6 where 6: "serial_rx_flowcontrol hw p s5 = Inr s6" "drained p s0 d0 (got @ new) s6 d6"
      "in_ticks s6 = in_ticks s5" "at_rest d6"
      using flow_drained [OF 5(2)] 5(3) by blast
    have "unat sz < 2 ^ LENGTH(32)" by (rule unsigned_less)
    then have i': "unat (i + ?n) = unat i + unat ?n"
      using in_sz by (intro unat_add_no_wrap) (rule le_less_trans)
    have b': "map_option (\<lambda>b. take (unat i) b @ new @ drop (unat i + unat ?n) b) ?buf =
        map_option (\<lambda>b. (got @ new) @ drop (unat (i + ?n)) b) buf0"
      using i i' by (cases buf0) (auto simp: add.commute)
    have fr: "serial_fifo_read hw p ?buf i ?n r s2 =
        Inr (map_option (\<lambda>b. (got @ new) @ drop (unat (i + ?n)) b) buf0, s4)"
      unfolding serial_fifo_read_def 3(1) bnd_Inr prod.case if_not_P [OF u'] 4(2) b' ..
    have "serial_read_queue hw p ?buf sz i r s =
        Inr (map_option (\<lambda>b. (got @ new) @ drop (unat (i + ?n)) b) buf0, i + ?n, s6)"
      unfolding serial_read_queue_def 1(1) bnd_Inr prod.case Let_def 2(1) if_P [OF False] fr 5(1) 6(1) ..
    moreover have "unat (i + ?n) = length (got @ new)" using i(1) i' 4(1) by simp
    moreover have "i + ?n \<le> sz" using i' in_sz by (simp add: word_le_nat_alt)
    moreover have "in_ticks s6 = in_ticks s + of_nat (\<Sum>k\<in>{1, 2, 3, 4} \<union> {6..<6 + 3 * unat ?n}. win_ticks s0 r k)"
      using 1(3) 2(4) 3(3) 4(5) 5(4) 6(3) by (subst sum.union_disjoint) auto
    ultimately show ?thesis
      using 6(2,4)
      by (intro exI [of _ "got @ new"] exI [of _ "i + ?n"] exI [of _ s6] exI [of _ d6]
          exI [of _ "{1, 2, 3, 4} \<union> {6..<6 + 3 * unat ?n}"] conjI) simp_all
  qed
qed

text \<open>One turn of the loop.\<close>

lemma read_turn:
  assumes dr: "drained p s0 d0 got s d" and rest: "at_rest d" and r: "round_ok s0 r"
    and i: "unat i = length got" "i < sz" and buf: "\<And>b. buf0 = Some b \<Longrightarrow> unat sz \<le> length b"
  shows "\<exists>got' i' s' d' t.
    serial_read_loop hw p (map_option (\<lambda>b. got @ drop (unat i) b) buf0) sz timeout tend i (r # sched) s =
      (let b' = map_option (\<lambda>b. got' @ drop (unat i') b) buf0
       in if read_cut buf0 d' timeout tend s' then Inr (i', b', sched, s')
          else serial_read_loop hw p b' sz timeout tend i' sched s') \<and>
    drained p s0 d0 got' s' d' \<and> at_rest d' \<and> unat i' = length got' \<and> i' \<le> sz \<and>
    in_ticks s' = in_ticks s + of_nat t \<and> win_ticks s0 r 0 + win_ticks s0 r 5 \<le> t \<and>
    t \<le> (\<Sum>k<length r. win_ticks s0 r k)"
proof -
  let ?b = "map_option (\<lambda>b. got @ drop (unat i) b) buf0"
  have R: "list_all (list_all (\<lambda>n. 32 \<le> n)) r" using r by (simp add: round_ok_def)
  obtain s1 d1 where s1: "window hw r 0 s = Inr s1" "drained p s0 d0 got s1 d1" "at_rest d1"
    "in_ticks s1 = in_ticks s + of_nat (win_ticks s0 r 0)"
    using window_drained [OF dr R, of 0] rest by blast
  from read_queue_drained [OF s1(2,3) r i buf] obtain got' i' s2 d2 A where s2:
    "serial_read_queue hw p ?b sz i r s1 = Inr (map_option (\<lambda>b. got' @ drop (unat i') b) buf0, i', s2)"
    "drained p s0 d0 got' s2 d2" "at_rest d2" "unat i' = length got'" "i' \<le> sz"
    "in_ticks s2 = in_ticks s1 + of_nat (\<Sum>k\<in>A. win_ticks s0 r k)" "finite A" "0 \<notin> A" "5 \<notin> A" by metis
  obtain s3 d3 where s3: "window hw r 5 s2 = Inr s3" "drained p s0 d0 got' s3 d3" "at_rest d3"
    "in_ticks s3 = in_ticks s2 + of_nat (win_ticks s0 r 5)"
    using window_drained [OF s2(2) R, of 5] s2(3) by blast
  have g: "sd_get p s1 = Inr d1" "sd_get p s3 = Inr d3"
    and on: "interrupts_enabled (in_world s1)" "fifo_isinitialized (sd_rxfifo d1)"
    using s1(2) s3(2) by (auto simp: drained_def sd_get_def interrupts_enabled_def)
  have loop: "serial_read_loop hw p ?b sz timeout tend i (r # sched) s =
      (let b' = map_option (\<lambda>b. got' @ drop (unat i') b) buf0
       in if read_cut buf0 d3 timeout tend s3 then Inr (i', b', sched, s3)
          else serial_read_loop hw p b' sz timeout tend i' sched s3)"
    by (subst serial_read_loop.simps)
      (use i s1(1) s2(1) s3(1) g on in \<open>auto simp: read_cut_def time_ispast_def Let_def\<close>)
  let ?t = "win_ticks s0 r 0 + (\<Sum>k\<in>A. win_ticks s0 r k) + win_ticks s0 r 5"
  have t: "in_ticks s3 = in_ticks s + of_nat ?t" using s1(4) s2(6) s3(4) by simp
  have "?t = (\<Sum>k\<in>insert 0 (insert 5 A). win_ticks s0 r k)" using s2(7-9) by simp
  then have "?t \<le> (\<Sum>k<length r. win_ticks s0 r k)" using windows_le [of "insert 0 (insert 5 A)" s0 r] s2(7) by simp
  then show ?thesis
    using loop t s2(4,5) s3(2,3) by (intro exI conjI) (assumption | simp)+
qed

lemma read_loop_drained:
  assumes "drained p s0 d0 got s d" and "at_rest d" and "list_all (round_ok s0) sched"
    and "unat i = length got" and "i \<le> sz" and "\<And>b. buf0 = Some b \<Longrightarrow> unat sz \<le> length b"
    and "unat (in_ticks s) + max_ticks s0 sched < 2 ^ 32"
  shows "(\<exists>got' i' s' d' rest.
      serial_read_loop hw p (map_option (\<lambda>b. got @ drop (unat i) b) buf0) sz timeout tend i sched s =
        Inr (i', map_option (\<lambda>b. got' @ drop (unat i') b) buf0, rest, s') \<and>
      drained p s0 d0 got' s' d' \<and> at_rest d' \<and> unat i' = length got' \<and> i' \<le> sz \<and>
      (i' < sz \<longrightarrow> read_cut buf0 d' timeout tend s')) \<or>
    serial_read_loop hw p (map_option (\<lambda>b. got @ drop (unat i) b) buf0) sz timeout tend i sched s = Inl Loop \<and>
    \<not> (timeout \<noteq> 0 \<and> sched \<noteq> [] \<and> unat tend \<le> unat (in_ticks s) + sure_ticks s0 sched)"
  using assms
proof (induction sched arbitrary: got s d i)
  case Nil
  then show ?case
    by (cases "i < sz") (auto simp: serial_read_loop.simps [of _ _ _ _ _ _ _ "[]"])
next
  case (Cons r sched)
  show ?case
  proof (cases "i < sz")
    case False
    then show ?thesis
      using Cons.prems by (auto simp: serial_read_loop.simps [of _ _ _ _ _ _ _ "r # sched"])
  next
    case True
    have r: "round_ok s0 r" using Cons.prems(3) by simp
    let ?loop = "serial_read_loop hw p (map_option (\<lambda>b. got @ drop (unat i) b) buf0) sz timeout tend i (r # sched) s"
    obtain got' i' s' d' t where turn: "?loop =
        (let b' = map_option (\<lambda>b. got' @ drop (unat i') b) buf0
         in if read_cut buf0 d' timeout tend s' then Inr (i', b', sched, s')
            else serial_read_loop hw p b' sz timeout tend i' sched s')"
      "drained p s0 d0 got' s' d'" "at_rest d'" "unat i' = length got'" "i' \<le> sz"
      "in_ticks s' = in_ticks s + of_nat t" "win_ticks s0 r 0 + win_ticks s0 r 5 \<le> t"
      "t \<le> (\<Sum>k<length r. win_ticks s0 r k)"
      using read_turn [OF Cons.prems(1,2) r Cons.prems(4) True Cons.prems(6), where sched = sched] by blast
    show ?thesis
    proof (cases "read_cut buf0 d' timeout tend s'")
      case True
      with turn show ?thesis by (auto simp: Let_def)
    next
      case False
      have nowrap: "unat (in_ticks s') = unat (in_ticks s) + t"
      proof -
        have "unat (in_ticks s) + t < 2 ^ 32"
          using Cons.prems(7) turn(8) by (simp add: max_ticks_def)
        then show ?thesis using turn(6) by (simp add: unat_word_ariths unat_of_nat)
      qed
      have "unat (in_ticks s') + max_ticks s0 sched < 2 ^ 32"
        using nowrap turn(8) Cons.prems(7) by (simp add: max_ticks_def)
      note IH = Cons.IH [OF turn(2,3) _ turn(4,5) Cons.prems(6) this]
      have step: "?loop = serial_read_loop hw p (map_option (\<lambda>b. got' @ drop (unat i') b) buf0) sz timeout tend i' sched s'"
        using turn(1) False by (simp add: Let_def)
      have enough: "sched \<noteq> [] \<and> unat tend \<le> unat (in_ticks s') + sure_ticks s0 sched"
        if e: "timeout \<noteq> 0" "unat tend \<le> unat (in_ticks s) + sure_ticks s0 (r # sched)"
      proof -
        have "unat tend \<le> unat (in_ticks s') + sure_ticks s0 sched"
          using e(2) nowrap turn(7) by (simp add: sure_ticks_def)
        moreover have "\<not> unat tend \<le> unat (in_ticks s')"
          using False e(1) by (simp add: read_cut_def word_le_nat_alt)
        ultimately show ?thesis by (auto simp: sure_ticks_def)
      qed
      show ?thesis
        unfolding step using IH enough Cons.prems(3) by auto
    qed
  qed
qed

text \<open>The whole read, with the status taken over by the handle.\<close>

lemma read_ok:
  assumes ok: "serial_ok lines s" and on: "w_if (in_world s)" and d: "se_data s (ih_data inp) = Some d"
    and ini: "fifo_isinitialized (sd_rxfifo d)" "at_rest d" and buf: "\<And>b. buf = Some b \<Longrightarrow> unat sz \<le> length b"
    and sched: "list_all (round_ok s) sched" and wrap: "unat (in_ticks s) + max_ticks s sched < 2 ^ 32"
    and enough: "timeout \<noteq> 0" "unat timeout \<le> sure_ticks s sched"
  shows "\<exists>n inp' got rest s' d'. serial_read hw inp buf sz timeout sched s =
      Inr (n, inp', map_option (\<lambda>b. got @ drop (length got) b) buf, rest, s') \<and>
    serial_ok lines s' \<and> se_data s' (ih_data inp) = Some d' \<and> at_rest d' \<and> unat n = length got \<and> n \<le> sz \<and>
    (\<exists>bs. got @ rx_cont d' = rx_cont d @ bs \<and>
      (ih_status inp' AND INPUTSTATUS_OVERRUN = 0 \<longrightarrow>
         lg (sd_port d) (dev s') = lg (sd_port d) (dev s) @ bs)) \<and>
    (n < sz \<longrightarrow> ih_status inp' AND INPUTSTATUS_OVERRUN \<noteq> 0 \<or> in_ticks s + timeout \<le> in_ticks s')"
proof -
  let ?p = "ih_data inp"
  have mono: "sure_ticks s sched \<le> max_ticks s sched"
    unfolding sure_ticks_def max_ticks_def
  proof (rule sum_list_mono)
    fix r show "win_ticks s r 0 + win_ticks s r 5 \<le> (\<Sum>k<length r. win_ticks s r k)"
      using windows_le [of "{0, 5}" s r] by simp
  qed
  have tend: "time_offset timeout s = in_ticks s + timeout"
    by (simp add: time_offset_def TIME_TICKS_PER_SECOND_def)
  have "unat (in_ticks s + timeout) = unat (in_ticks s) + unat timeout"
    using enough mono wrap by (intro unat_add_no_wrap) simp
  then have due: "unat (in_ticks s + timeout) \<le> unat (in_ticks s) + sure_ticks s sched" "sched \<noteq> []"
    using enough by (auto simp: sure_ticks_def unat_eq_0)
  from read_loop_drained [OF drained_start [OF ok on d ini(1)] ini(2) sched _ _ _ wrap,
      where i = 0 and sz = sz and ?buf0.0 = buf and timeout = timeout and tend = "in_ticks s + timeout"]
    due enough buf
  obtain got n s' d' rest where L:
    "serial_read_loop hw ?p buf sz timeout (in_ticks s + timeout) 0 sched s =
       Inr (n, map_option (\<lambda>b. got @ drop (unat n) b) buf, rest, s')"
    "drained ?p s d got s' d'" "at_rest d'" "unat n = length got" "n \<le> sz"
    "n < sz \<longrightarrow> read_cut buf d' timeout (in_ticks s + timeout) s'"
    by (auto simp: option.map_ident)
  obtain bs where bs: "got @ rx_cont d' = rx_cont d @ bs"
    "\<not> overrun d' \<longrightarrow> lg (sd_port d) (dev s') = lg (sd_port d) (dev s) @ bs"
    using L(2) by (auto simp: drained_def)
  have D: "serial_ok lines s'" "se_data s' ?p = Some d'" "sd_ok d'"
    using L(2) by (auto simp: drained_def serial_ok_def)
  let ?i1 = "if overrun d' then inp\<lparr>ih_status := ih_status inp OR INPUTSTATUS_OVERRUN\<rparr> else inp"
  let ?d1 = "if overrun d' then d'\<lparr>sd_status := sd_status d' AND NOT SERIALSTATUS_OVERRUN\<rparr> else d'"
  let ?fr = "sd_status ?d1 AND SERIALSTATUS_FRAMING \<noteq> 0"
  let ?i2 = "if ?fr then ?i1\<lparr>ih_status := ih_status ?i1 OR INPUTSTATUS_DATAERR\<rparr> else ?i1"
  let ?d2 = "if ?fr then ?d1\<lparr>sd_status := sd_status ?d1 AND NOT SERIALSTATUS_FRAMING\<rparr> else ?d1"
  have run: "serial_read hw inp buf sz timeout sched s =
      Inr (n, ?i2, map_option (\<lambda>b. got @ drop (length got) b) buf, rest, sd_put ?p ?d2 s')"
    using L(1,4) on enough(1) D(2)
    by (simp add: serial_read_def interrupts_enabled_def tend Let_def sd_get_def overrun_def)
  have fields: "sd_ok ?d2" "sd_port ?d2 = sd_port d'" "rx_cont ?d2 = rx_cont d'"
    using D(3) by (simp_all add: sd_ok_def rx_cont_def)
  have rest': "at_rest ?d2" using L(3) by (simp add: at_rest_def)
  have fr: "(sd_status d' AND NOT SERIALSTATUS_OVERRUN) AND SERIALSTATUS_FRAMING =
      sd_status d' AND SERIALSTATUS_FRAMING"
    by (rule bit_eqI) (auto simp: bit_simps SERIALSTATUS_OVERRUN_def SERIALSTATUS_FRAMING_def)
  have set1: "(x OR INPUTSTATUS_OVERRUN) AND INPUTSTATUS_OVERRUN \<noteq> 0" for x
  proof -
    have "(x OR 1) AND 1 = (1 :: u8)" by (rule bit_eqI) (auto simp: bit_simps)
    then show ?thesis by (simp add: INPUTSTATUS_OVERRUN_def)
  qed
  have same: "INPUTSTATUS_DATAERR = INPUTSTATUS_OVERRUN"
    by (simp add: INPUTSTATUS_DATAERR_def INPUTSTATUS_OVERRUN_def)
  have flag: "ih_status ?i2 AND INPUTSTATUS_OVERRUN \<noteq> 0"
    if "overrun d' \<or> sd_status d' AND SERIALSTATUS_FRAMING \<noteq> 0"
    using that set1 fr by (auto simp: same)
  have cut: "overrun d' \<or> sd_status d' AND SERIALSTATUS_FRAMING \<noteq> 0"
    if "sd_status d' AND (SERIALSTATUS_OVERRUN OR SERIALSTATUS_FRAMING) \<noteq> 0"
    using that by (auto simp: overrun_def bit.conj_disj_distrib)
  have read_why: "n < sz \<longrightarrow> (overrun d' \<or> sd_status d' AND SERIALSTATUS_FRAMING \<noteq> 0) \<or>
      in_ticks s + timeout \<le> in_ticks s'"
    using L(6) cut by (auto simp: read_cut_def)
  show ?thesis
  proof (intro exI conjI)
    show "serial_ok lines (sd_put ?p ?d2 s')" by (rule serial_ok_put [OF D(1,2) fields(1,2)])
    show "se_data (sd_put ?p ?d2 s') ?p = Some ?d2" by simp
    show "got @ rx_cont ?d2 = rx_cont d @ bs" using bs(1) fields(3) by simp
    show "ih_status ?i2 AND INPUTSTATUS_OVERRUN = 0 \<longrightarrow>
        lg (sd_port d) (dev (sd_put ?p ?d2 s')) = lg (sd_port d) (dev s) @ bs"
      using bs(2) flag by fastforce
    show "n < sz \<longrightarrow> ih_status ?i2 AND INPUTSTATUS_OVERRUN \<noteq> 0 \<or>
        in_ticks s + timeout \<le> in_ticks (sd_put ?p ?d2 s')"
      using read_why flag by fastforce
  qed (rule run L(4,5) rest')+
qed

end
text \<open>The contract on a controller that answers with the bytes it has been given.\<close>

type_synonym line_dev = "(u16 \<Rightarrow> u8 list) \<times> u8 list"

definition line_in :: "u16 \<Rightarrow> line_dev \<Rightarrow> u8 \<times> line_dev" where
  "line_in p d =
     (let v = (if p \<in> set serial_ports then (case snd d of [] \<Rightarrow> 0 | b # _ \<Rightarrow> b)
               else if p - 2 \<in> set serial_ports then (if snd d = [] then 1 else 4) else 0x21)
      in (v, ((fst d)(p := fst d p @ [v]), if p \<in> set serial_ports then tl (snd d) else snd d)))"

definition line_hw :: "line_dev hardware" where
  "line_hw = \<lparr>hw_in = line_in, hw_out = (\<lambda>_ _ d. d), hw_bios = (\<lambda>c m d. (c, m, d)),
     hw_irq = (\<lambda>n d. n = 36 \<longrightarrow> snd d \<noteq> [])\<rparr>"

definition line_log :: "u16 \<Rightarrow> line_dev \<Rightarrow> u8 list" where
  "line_log p d = fst d p"

text \<open>It is the first port, and requests its interrupt while there are bytes.\<close>

definition line_map :: "(u8 \<times> u16) list" where
  "line_map = [(36, 0x3f8)]"

lemma line_hw_ok: "uart_logged line_hw line_log" "uart_causes line_hw line_map"
proof -
  show "uart_logged line_hw line_log"
    by (auto simp: uart_logged_def line_hw_def line_in_def line_log_def Let_def)
  have "int_cause 4 = 2" by code_simp
  moreover have "fst (line_in (SERIAL_REG_IIR 0x3f8) d) = 4" if "snd d \<noteq> []" for d
    using that by (simp add: serial_ports_def line_in_def SERIAL_REG_IIR_def)
  ultimately show "uart_causes line_hw line_map" by (auto simp: uart_causes_def line_hw_def line_map_def)
qed

interpretation line: uart_line line_hw line_log line_map
  by unfold_locales (rule line_hw_ok)+

section \<open>Waiting for the timer\<close>

text \<open>
  What \<open>time_delay\<close> relies on: the interrupts that arrive are handled, and each adds a known number
  of ticks.
\<close>

locale clock =
  fixes hw :: "'d hardware" and call :: "('d, 'z) intr_scheme handler_call"
    and good :: "('d, 'z) intr_scheme \<Rightarrow> bool" and ok :: "u8 \<Rightarrow> bool"
    and wt :: "('d, 'z) intr_scheme \<Rightarrow> u8 \<Rightarrow> nat"
  assumes handled: "good s \<Longrightarrow> ok n \<Longrightarrow>
      \<exists>s'. deliver hw call n s = Inr s' \<and> good s' \<and> wt s' = wt s \<and>
        in_ticks s' = in_ticks s + of_nat (wt s n)"
begin

lemma handled_all:
  assumes "good s" and "list_all ok ns"
  shows "\<exists>s'. deliver_all hw call ns s = Inr s' \<and> good s' \<and> wt s' = wt s \<and>
    in_ticks s' = in_ticks s + of_nat (sum_list (map (wt s) ns))"
  using assms
proof (induction ns arbitrary: s)
  case (Cons n ns)
  then obtain s1 where s1: "deliver hw call n s = Inr s1" "good s1" "wt s1 = wt s"
    "in_ticks s1 = in_ticks s + of_nat (wt s n)" using handled [of s n] by auto
  with Cons.IH [OF s1(2)] Cons.prems(2) show ?case by (auto simp: add.assoc)
qed simp

text \<open>\<open>m\<close> ticks have come since the count was \<open>t0\<close>; the delay is over after \<open>k\<close>.\<close>

lemma delay_loop_ends:
  assumes "good s" and "list_all (\<lambda>(b, w). list_all ok b \<and> list_all ok w \<and> w \<noteq> []) rs"
    and "in_ticks s = t0 + of_nat m" and "k \<le> m + sum_list (map (\<lambda>(b, w). sum_list (map (wt s) (b @ w))) rs)"
    and "unat t0 + m + sum_list (map (\<lambda>(b, w). sum_list (map (wt s) (b @ w))) rs) < 2 ^ 32"
  shows "\<exists>pre rest s' n. rs = pre @ rest \<and>
    n = m + sum_list (map (\<lambda>(b, w). sum_list (map (wt s) (b @ w))) pre) \<and>
    delay_loop hw call (t0 + of_nat k) rs s = Inr (rest, s') \<and> good s' \<and> in_ticks s' = t0 + of_nat n \<and> k \<le> n \<and>
    (pre \<noteq> [] \<longrightarrow> m + sum_list (map (\<lambda>(b, w). sum_list (map (wt s) (b @ w))) (butlast pre)) < k)"
  using assms
proof (induction rs arbitrary: s m)
  case Nil
  have "unat t0 + m < 2 ^ LENGTH(32)" "unat t0 + k < 2 ^ LENGTH(32)" using Nil.prems(4,5) by simp_all
  then have "unat (t0 + of_nat k) = unat t0 + k" "unat (t0 + of_nat m) = unat t0 + m"
    by (simp_all add: unat_word_ariths unat_of_nat)
  then have "time_ispast (t0 + of_nat k) s" using Nil.prems(3,4) by (simp add: time_ispast_def word_le_nat_alt)
  with Nil.prems show ?case by (simp add: delay_loop.simps)
next
  case (Cons r rs)
  obtain b w where r: "r = (b, w)" by (cases r)
  let ?t = "\<lambda>rs. sum_list (map (\<lambda>(b, w). sum_list (map (wt s) (b @ w))) rs)"
  have bnd: "unat t0 + m < 2 ^ LENGTH(32)" "unat t0 + k < 2 ^ LENGTH(32)" using Cons.prems(4,5) by simp_all
  then have u: "unat (t0 + of_nat k) = unat t0 + k" "unat (t0 + of_nat m) = unat t0 + m"
    by (simp_all add: unat_word_ariths unat_of_nat)
  have past: "time_ispast (t0 + of_nat k) s \<longleftrightarrow> k \<le> m"
    using Cons.prems(3) u by (simp add: time_ispast_def word_le_nat_alt)
  show ?case
  proof (cases "k \<le> m")
    case True
    with past Cons.prems show ?thesis
      by (intro exI [of _ "[]"] exI [of _ "r # rs"] exI [of _ s] exI [of _ m]) (simp add: delay_loop.simps)
  next
    case False
    have ok: "list_all ok b" "list_all ok w" "w \<noteq> []" "list_all (\<lambda>(b, w). list_all ok b \<and> list_all ok w \<and> w \<noteq> []) rs"
      using Cons.prems(2) by (simp_all add: r)
    obtain s1 where s1: "deliver_all hw call b s = Inr s1" "good s1" "wt s1 = wt s"
      "in_ticks s1 = in_ticks s + of_nat (sum_list (map (wt s) b))" using handled_all [OF Cons.prems(1) ok(1)] by blast
    obtain s2 where s2: "deliver_all hw call w s1 = Inr s2" "good s2" "wt s2 = wt s"
      "in_ticks s2 = in_ticks s1 + of_nat (sum_list (map (wt s) w))"
      using handled_all [OF s1(2) ok(2)] s1(3) by auto
    let ?m = "m + sum_list (map (wt s) (b @ w))"
    have t: "in_ticks s2 = t0 + of_nat ?m" using Cons.prems(3) s1(4) s2(4) by simp
    have "k \<le> ?m + ?t rs" "unat t0 + ?m + ?t rs < 2 ^ 32" using Cons.prems(4,5) by (simp_all add: r)
    with Cons.IH [OF s2(2) ok(4) t] s2(3) obtain pre rest s' n where IH: "rs = pre @ rest"
      "n = ?m + ?t pre" "delay_loop hw call (t0 + of_nat k) rs s2 = Inr (rest, s')" "good s'"
      "in_ticks s' = t0 + of_nat n" "k \<le> n" "pre \<noteq> [] \<longrightarrow> ?m + ?t (butlast pre) < k" by auto
    have "delay_loop hw call (t0 + of_nat k) (r # rs) s = Inr (rest, s')"
      using past False s1(1) s2(1) IH(3) ok(3) by (subst delay_loop.simps) (simp add: r)
    moreover have "m + ?t (butlast (r # pre)) < k" using False IH(7) by (cases "pre = []") (simp_all add: r)
    moreover have "n = m + ?t (r # pre)" using IH(2) by (simp add: r)
    ultimately show ?thesis
      using IH by (intro exI [of _ "r # pre"] exI [of _ rest] exI [of _ s'] exI [of _ n]) simp
  qed
qed

end

text \<open>The handlers of the program keep that contract.\<close>

sublocale uart_line \<subseteq> clock hw "call_handler hw" "\<lambda>s. serial_ok lines s \<and> w_if (in_world s)" "\<lambda>n. 32 \<le> n" tick_of
proof unfold_locales
  fix s :: "'d serial" and n :: u8
  assume g: "serial_ok lines s \<and> w_if (in_world s)" and n: "32 \<le> n"
  with deliver_ok [of s n] obtain s' where s': "deliver hw (call_handler hw) n s = Inr s'" "serial_ok lines s'"
    "kept lg s s'" "in_ticks s' = in_ticks s + of_nat (tick_of s n)" by blast
  moreover have "tick_of s' = tick_of s" using tick_of_kept [OF s'(3)] by blast
  ultimately show "\<exists>s'. deliver hw (call_handler hw) n s = Inr s' \<and>
      (serial_ok lines s' \<and> w_if (in_world s')) \<and> tick_of s' = tick_of s \<and>
      in_ticks s' = in_ticks s + of_nat (tick_of s n)"
    using g by (auto simp: kept_def)
qed

context uart_line begin

lemma handlers_clock:
  "clock hw (call_handler hw) (\<lambda>s. serial_ok lines s \<and> w_if (in_world s)) (\<lambda>n. 32 \<le> n) tick_of"
  by (rule clock_axioms)

end

section \<open>Properties\<close>


text \<open>
  C35: \<open>time_delay\<close> ends at the first test of the tick count at which the delay is over, whatever
  interrupts arrive between its test, its halt and the next test, as long as the tick count does not
  wrap. The tick that completes the delay does not end a halt it comes before: then it takes one
  more interrupt.
\<close>

definition round_ticks :: "'d serial \<Rightarrow> halt_round list \<Rightarrow> nat" where
  "round_ticks s rs = sum_list (map (\<lambda>(b, w). ticks_of s (b @ w)) rs)"


text \<open>A port whose handler is installed, beside the timer, and whose queue is empty.\<close>

definition example_isr :: "isr_entry list" where
  "example_isr = (replicate INT_ID_MAX isr_null)
     [32 := \<lparr>isr_data = 0, isr_handler = Some Pit_handler\<rparr>,
      36 := \<lparr>isr_data = 0x8000, isr_handler = Some Serial_int_handler\<rparr>]"

definition example_sd :: serial_data where
  "example_sd = serial_data_zero\<lparr>sd_port := 0x3f8, sd_rxfifo :=
     \<lparr>fifo_ptr = 0x9000, fifo_data = [0, 0, 0, 0], fifo_size = 4, fifo_head = 0, fifo_tail = 0\<rparr>\<rparr>"

definition example_serial :: "line_dev serial" where
  "example_serial = \<lparr>in_world = \<lparr>w_mem = (\<lambda>_. 0), w_heap = example_heap, w_if = True, w_dev = ((\<lambda>_. []), [104, 105])\<rparr>,
     in_idt = [], in_isr = example_isr, in_ticks = 7,
     se_port_data = [0x8000, 0], se_data = [0x8000 \<mapsto> example_sd]\<rparr>"

lemma example_handlers:
  "handler_at example_serial n = (if n = 32 then Some Pit_handler else if n = 36 then Some Serial_int_handler else None)"
proof -
  have i: "INT_ID_MAX = 48" by (simp add: INT_ID_MAX_def PIC_OFFSET_SLAVE_def PIC_OFFSET_MASTER_def)
  have "unat n = 32 \<longleftrightarrow> n = 32" "unat n = 36 \<longleftrightarrow> n = 36" by (auto simp: word_unat_eq_iff)
  then show ?thesis
    by (simp add: handler_at_def example_serial_def example_isr_def i nth_list_update isr_null_def)
qed

lemma example_serial_ok: "serial_ok line_map example_serial"
proof -
  have "fifo_inv (sd_rxfifo example_sd)" by (simp add: fifo_inv_def example_sd_def)
  then have "sd_ok example_sd"
    by (simp add: sd_ok_def rx_ok_def) (simp add: example_sd_def serial_data_zero_def serial_ports_def fifo_ok_def
        fifo_isinitialized_def fifo_zero_def)
  moreover have "isr_data (in_isr example_serial ! 36) = 0x8000"
    by (simp add: example_serial_def example_isr_def INT_ID_MAX_def PIC_OFFSET_SLAVE_def PIC_OFFSET_MASTER_def)
  moreover have "length example_isr = INT_ID_MAX" by (simp add: example_isr_def)
  ultimately show ?thesis
    by (auto simp: serial_ok_def example_handlers line_map_def)
      (auto simp: example_serial_def example_sd_def serial_data_zero_def split: if_splits)
qed

lemma example_ticks: "tick_of example_serial n = (if n = 32 then 1 else 0)"
  by (simp add: tick_of_def example_handlers)



end
