(* ===== verification/Protocol.thy ===== *)
theory Protocol
  imports Serial Files Stores
begin

text \<open>
  Files received over a serial line: \<^verbatim>\<open>src/storage/protocol/protocol.c\<close>, \<^verbatim>\<open>protocol.h\<close>,
  \<^verbatim>\<open>src/storage/protocol/xmodem.c\<close>, \<^verbatim>\<open>xmodem.h\<close> and the branch of \<^verbatim>\<open>src/storage/file.c\<close> that opens
  an address. The file's data is an object in memory and its bytes are in a buffer of the heap. The
  input and output of a protocol are function pointers in the code and the record \<open>proto_io\<close> here.
  Messages and the progress spinner are left out; the interrupt flag that the first message toggles
  is not. A receiver retries without a limit: the number of packets it takes is bounded by \<open>fuel\<close>.
\<close>

unbundle bit_operations_syntax

section \<open>Structures\<close>

datatype protocol_type =
  PROTOCOLTYPE_NONE | PROTOCOLTYPE_KERMIT | PROTOCOLTYPE_XMODEM | PROTOCOLTYPE_YMODEM

text \<open>\<open>read\<close> and \<open>write\<close> of the handles; a buffer goes in and comes out, \<open>None\<close> is a null pointer.\<close>

record ('x, 'd) proto_io =
  io_read :: "u8 list option \<Rightarrow> u32 \<Rightarrow> u32 \<Rightarrow> ('x, 'd) fstate \<Rightarrow> (u32 \<times> u8 list option \<times> ('x, 'd) fstate) res"
  io_write :: "u8 list \<Rightarrow> u32 \<Rightarrow> ('x, 'd) fstate \<Rightarrow> (u32 \<times> ('x, 'd) fstate) res"

text \<open>A read into the memory at \<open>a\<close>.\<close>

definition read_mem ::
  "('x, 'd) proto_io \<Rightarrow> u32 \<Rightarrow> u32 \<Rightarrow> u32 \<Rightarrow> ('x, 'd) fstate \<Rightarrow> (u32 \<times> ('x, 'd) fstate) res" where
  "read_mem io a sz timeout s =
     bnd (io_read io (Some (mem_get (w_mem (snd s)) a (unat sz))) sz timeout s) (\<lambda>(n, b, x, w).
       case b of None \<Rightarrow> Inl Fault | Some b \<Rightarrow> Inr (n, x, w\<lparr>w_mem := mem_put (w_mem w) a b\<rparr>))"

text \<open>\<open>protocol_filedata_t\<close>, in memory.\<close>

definition sizeof_protocol_filedata :: u32 where "sizeof_protocol_filedata = 12"

definition fd_buff :: "u32 \<Rightarrow> 'd world \<Rightarrow> u32" where "fd_buff p w = load32 (w_mem w) (p + 4)"
definition fd_buff_sz :: "u32 \<Rightarrow> 'd world \<Rightarrow> u32" where "fd_buff_sz p w = load32 (w_mem w) (p + 8)"

definition PREALLOCATION_SIZE :: u32 where "PREALLOCATION_SIZE = 256 * 1024"

section \<open>Files of a protocol\<close>

definition protocol_file_read :: "('x, 'd) read_op" where
  "protocol_file_read file buf sz off s =
     (if sz + off > fh_size file then Inr (-1, s)
      else case s of (x, w) \<Rightarrow>
        Inr (sz, x, w\<lparr>w_mem := mem_copy (w_mem w) buf (fd_buff (fh_data file) w + off) (unat sz)\<rparr>))"

definition protocol_file_close :: "('x, 'd) close_op" where
  "protocol_file_close file s =
     (case s of (x, w) \<Rightarrow>
        bnd (wfree (fd_buff (fh_data file) w) w) (\<lambda>w. bnd (wfree (fh_data file) w) (\<lambda>w. Inr (0, x, w))))"

definition file_zero :: file_hand where
  "file_zero = \<lparr>fh_data = 0, fh_first_cluster = 0, fh_size = 0, fh_attr = 0\<rparr>"

definition protocol_file_init :: "u32 \<Rightarrow> 'd world \<Rightarrow> (int \<times> file_hand \<times> 'd world) res" where
  "protocol_file_init buff_sz w =
     (if buff_sz > PREALLOCATION_SIZE then Inr (-1, file_zero, w)
      else
        let buff_sz = (if buff_sz = 0 then PREALLOCATION_SIZE else buff_sz)
        in bnd (walloc sizeof_protocol_filedata 0 w) (\<lambda>(p, w).
           let w = w\<lparr>w_mem := mem_put (w_mem w) p (replicate (unat sizeof_protocol_filedata) 0)\<rparr>;
               w = w\<lparr>w_mem := store32 (w_mem w) (p + 8) buff_sz\<rparr>
           in bnd (walloc (fd_buff_sz p w) 0 w) (\<lambda>(b, w).
              Inr (0, file_zero\<lparr>fh_data := p\<rparr>, w\<lparr>w_mem := store32 (w_mem w) (p + 4) b\<rparr>))))"

section \<open>XMODEM\<close>

definition XMODEM_CHAR_HEAD :: u8 where "XMODEM_CHAR_HEAD = 0x01"
definition XMODEM_CHAR_HEAD_1K :: u8 where "XMODEM_CHAR_HEAD_1K = 0x02"
definition XMODEM_CHAR_EOT :: u8 where "XMODEM_CHAR_EOT = 0x04"
definition XMODEM_CHAR_ACK :: u8 where "XMODEM_CHAR_ACK = 0x06"
definition XMODEM_CHAR_NAK :: u8 where "XMODEM_CHAR_NAK = 0x15"
definition XMODEM_CHKSUMTYPE_SUM :: u8 where "XMODEM_CHKSUMTYPE_SUM = 1"
definition XMODEM_CHKSUMTYPE_CRC16 :: u8 where "XMODEM_CHKSUMTYPE_CRC16 = 2"
definition XMODEM_STARTCH_XMODEM :: u8 where "XMODEM_STARTCH_XMODEM = 0x15"
definition XMODEM_STARTCH_YMODEM :: u8 where "XMODEM_STARTCH_YMODEM = of_char CHR ''C''"
definition XMODEM_RET_OK :: int where "XMODEM_RET_OK = 0"
definition XMODEM_RET_ERROR :: int where "XMODEM_RET_ERROR = -1"
definition XMODEM_RET_FATAL :: int where "XMODEM_RET_FATAL = -2"
definition XMODEM_RET_TIMEOUT :: int where "XMODEM_RET_TIMEOUT = -3"
definition XMODEM_RET_EOT :: int where "XMODEM_RET_EOT = 1"
definition XMODEM_CRC16_INIT :: u16 where "XMODEM_CRC16_INIT = 0x0000"
definition XMODEM_CRC16_POLY :: u16 where "XMODEM_CRC16_POLY = 0x1021"

record xmodem_params =
  xp_block_sz :: u16
  xp_chksum_type :: u8
  xp_start_ch :: u8
  xp_last_block :: u8
  xp_total_sz :: u32
  xp_timeout :: u32
  xp_curr_off :: u32

definition crc16_bit :: "u16 \<Rightarrow> u16" where
  "crc16_bit crc =
     (if crc AND 0x8000 \<noteq> 0 then push_bit 1 crc else push_bit 1 crc XOR XMODEM_CRC16_POLY)"

definition xmodem_crc16 :: "u8 list \<Rightarrow> u16" where
  "xmodem_crc16 data =
     fold (\<lambda>b crc. (crc16_bit ^^ 8) (crc XOR push_bit 8 (ucast b))) data XMODEM_CRC16_INIT"

text \<open>
  \<open>data\<close> is the address of the block. A local the code leaves uninitialised starts with zeros: the
  part of it that has not been read is never looked at.
\<close>

definition xmodem_checksum ::
  "('x, 'd) proto_io \<Rightarrow> xmodem_params \<Rightarrow> u32 \<Rightarrow> ('x, 'd) fstate \<Rightarrow> (int \<times> ('x, 'd) fstate) res" where
  "xmodem_checksum io params data s =
     (if xp_chksum_type params = XMODEM_CHKSUMTYPE_SUM then
        bnd (io_read io (Some [0]) 1 (xp_timeout params) s) (\<lambda>(n, b, s).
          if n \<noteq> 1 then Inr (XMODEM_RET_ERROR, s)
          else
            let checksum = foldl (\<lambda>c d. c - d) (hd (the b))
              (mem_get (w_mem (snd s)) data (unat (xp_block_sz params)))
            in Inr (if checksum \<noteq> 0 then -1 else 0, s))
      else if xp_chksum_type params = XMODEM_CHKSUMTYPE_CRC16 then
        bnd (io_read io (Some [0, 0]) 2 (xp_timeout params) s) (\<lambda>(n, b, s).
          if n \<noteq> 2 then Inr (XMODEM_RET_ERROR, s)
          else
            let checksum = ucast (the b ! 0) OR push_bit 8 (ucast (the b ! 1)) :: u16
            in Inr (if checksum \<noteq> xmodem_crc16 (mem_get (w_mem (snd s)) data (unat (xp_block_sz params)))
                    then -1 else 0, s))
      else Inr (-1, s))"

text \<open>\<open>_xmodem_rx_packet\<close> behind the header: the block number, the data, the checksum.\<close>

definition xmodem_rx_block ::
  "('x, 'd) proto_io \<Rightarrow> u32 \<Rightarrow> u8 \<Rightarrow> u8 \<Rightarrow> xmodem_params \<Rightarrow> ('x, 'd) fstate
     \<Rightarrow> (int \<times> xmodem_params \<times> ('x, 'd) fstate) res" where
  "xmodem_rx_block io fdata blk inv_blk params s =
     (if uint blk \<noteq> 255 - uint inv_blk then Inr (XMODEM_RET_ERROR, params, s)
      else
        let next_block = xp_last_block params + 1
        in if blk \<noteq> xp_last_block params \<and> blk \<noteq> next_block then Inr (XMODEM_RET_ERROR, params, s)
           else
             let bsz = ucast (xp_block_sz params) :: u32;
                 params = (if xp_curr_off params \<noteq> 0 \<and> blk = xp_last_block params
                           then params\<lparr>xp_curr_off := xp_curr_off params - bsz\<rparr> else params)
             in if xp_curr_off params + bsz > fd_buff_sz fdata (snd s) then Inr (XMODEM_RET_FATAL, params, s)
                else
                  bnd (read_mem io (fd_buff fdata (snd s) + xp_curr_off params) bsz (xp_timeout params) s) (\<lambda>(n, s).
                  if n \<noteq> bsz then Inr (XMODEM_RET_ERROR, params, s)
                  else bnd (xmodem_checksum io params (fd_buff fdata (snd s) + xp_curr_off params) s) (\<lambda>(r, s).
                  if r \<noteq> 0 then Inr (XMODEM_RET_ERROR, params, s)
                  else Inr (XMODEM_RET_OK,
                    params\<lparr>xp_curr_off := xp_curr_off params + bsz, xp_last_block := blk\<rparr>, s))))"

definition xmodem_rx_packet ::
  "('x, 'd) proto_io \<Rightarrow> u32 \<Rightarrow> xmodem_params \<Rightarrow> ('x, 'd) fstate \<Rightarrow> (int \<times> xmodem_params \<times> ('x, 'd) fstate) res" where
  "xmodem_rx_packet io fdata params s =
     bnd (io_read io (Some [0, 0, 0]) 3 (xp_timeout params) s) (\<lambda>(n, b, s).
       let pkt = the b; ret = sint n
       in if ret \<ge> 1 \<and> pkt ! 0 = XMODEM_CHAR_EOT then Inr (XMODEM_RET_EOT, params, s)
          else if ret \<noteq> 3 then Inr (if ret = 0 then XMODEM_RET_TIMEOUT else XMODEM_RET_ERROR, params, s)
          else if pkt ! 0 = XMODEM_CHAR_HEAD then
            xmodem_rx_block io fdata (pkt ! 1) (pkt ! 2) (params\<lparr>xp_block_sz := 128\<rparr>) s
          else if pkt ! 0 = XMODEM_CHAR_HEAD_1K then
            xmodem_rx_block io fdata (pkt ! 1) (pkt ! 2) (params\<lparr>xp_block_sz := 1024\<rparr>) s
          else Inr (XMODEM_RET_ERROR, params, s))"

definition xmodem_send :: "('x, 'd) proto_io \<Rightarrow> u8 \<Rightarrow> ('x, 'd) fstate \<Rightarrow> (int \<times> ('x, 'd) fstate) res" where
  "xmodem_send io ch s = bnd (io_write io [ch] 1 s) (\<lambda>(n, s). Inr (if n \<noteq> 1 then -1 else 0, s))"

definition xmodem_ack :: "('x, 'd) proto_io \<Rightarrow> ('x, 'd) fstate \<Rightarrow> (int \<times> ('x, 'd) fstate) res" where
  "xmodem_ack io s = xmodem_send io XMODEM_CHAR_ACK s"

definition xmodem_nak :: "('x, 'd) proto_io \<Rightarrow> ('x, 'd) fstate \<Rightarrow> (int \<times> ('x, 'd) fstate) res" where
  "xmodem_nak io s = xmodem_send io XMODEM_CHAR_NAK s"

definition xmodem_start :: "('x, 'd) proto_io \<Rightarrow> xmodem_params \<Rightarrow> ('x, 'd) fstate \<Rightarrow> (int \<times> ('x, 'd) fstate) res" where
  "xmodem_start io params s = xmodem_send io (xp_start_ch params) s"

text \<open>The answer to a packet.\<close>

definition xmodem_reply ::
  "('x, 'd) proto_io \<Rightarrow> int \<Rightarrow> xmodem_params \<Rightarrow> ('x, 'd) fstate \<Rightarrow> ('x, 'd) fstate res" where
  "xmodem_reply io ret params s =
     (if ret = XMODEM_RET_OK \<or> ret = XMODEM_RET_EOT then bnd (xmodem_ack io s) (\<lambda>(_, s). Inr s)
      else if ret = XMODEM_RET_ERROR then bnd (xmodem_nak io s) (\<lambda>(_, s). Inr s)
      else if ret = XMODEM_RET_TIMEOUT then
        (if xp_curr_off params \<noteq> 0 then bnd (xmodem_nak io s) (\<lambda>(_, s). Inr s)
         else bnd (xmodem_start io params s) (\<lambda>(_, s). Inr s))
      else Inr s)"

fun xmodem_rx_loop ::
  "('x, 'd) proto_io \<Rightarrow> u32 \<Rightarrow> int \<Rightarrow> nat \<Rightarrow> xmodem_params \<Rightarrow> ('x, 'd) fstate
     \<Rightarrow> (int \<times> xmodem_params \<times> ('x, 'd) fstate) res" where
  "xmodem_rx_loop io fdata ret fuel params s =
     (if ret \<noteq> XMODEM_RET_EOT \<and> ret \<noteq> XMODEM_RET_FATAL then
        (case fuel of
           0 \<Rightarrow> Inl Loop
         | Suc fuel \<Rightarrow>
             bnd (xmodem_rx_packet io fdata params s) (\<lambda>(ret, params, s).
             bnd (if ret \<noteq> 0 then
                    bnd (io_read io None (ucast (xp_block_sz params) * 4) 25 s) (\<lambda>(_, _, s). Inr s)
                  else Inr s) (\<lambda>s.
             bnd (xmodem_reply io ret params s) (\<lambda>s.
               xmodem_rx_loop io fdata ret fuel params s))))
      else Inr (ret, params, s))"

declare xmodem_rx_loop.simps [simp del]

definition xmodem_rx ::
  "('x, 'd) proto_io \<Rightarrow> u32 \<Rightarrow> nat \<Rightarrow> xmodem_params \<Rightarrow> ('x, 'd) fstate
     \<Rightarrow> (int \<times> xmodem_params \<times> ('x, 'd) fstate) res" where
  "xmodem_rx io fdata fuel params s =
     (let s = (fst s, interrupts_enable (interrupts_disable (snd s)))
      in bnd (xmodem_start io params s) (\<lambda>(r, s).
         if r \<noteq> 0 then Inr (-1, params, s)
         else bnd (xmodem_rx_loop io fdata 0 fuel params s) (\<lambda>(ret, params, s).
           if ret = XMODEM_RET_FATAL then Inr (-1, params, s)
           else Inr (0, params\<lparr>xp_total_sz := xp_curr_off params\<rparr>, s))))"

definition xmodem_recv ::
  "('x, 'd) proto_io \<Rightarrow> protocol_type \<Rightarrow> nat \<Rightarrow> ('x, 'd) fstate \<Rightarrow> (int \<times> file_hand \<times> ('x, 'd) fstate) res" where
  "xmodem_recv io type fuel s =
     (let params = \<lparr>xp_block_sz = 0, xp_chksum_type = 0, xp_start_ch = 0, xp_last_block = 0,
          xp_total_sz = 0, xp_timeout = 0, xp_curr_off = 0\<rparr>;
          go = (\<lambda>params.
            let params = params\<lparr>xp_timeout := 5000\<rparr>
            in bnd (protocol_file_init 0 (snd s)) (\<lambda>(r, file, w).
               if r \<noteq> 0 then Inr (-1, file, fst s, w)
               else bnd (xmodem_rx io (fh_data file) fuel params (fst s, w)) (\<lambda>(r, params, s).
                 if r \<noteq> 0 then Inr (-1, file, s)
                 else Inr (0, file\<lparr>fh_size := xp_total_sz params\<rparr>, s))))
      in case type of
           PROTOCOLTYPE_XMODEM \<Rightarrow>
             go (params\<lparr>xp_chksum_type := XMODEM_CHKSUMTYPE_SUM, xp_start_ch := XMODEM_STARTCH_XMODEM\<rparr>)
         | PROTOCOLTYPE_YMODEM \<Rightarrow>
             go (params\<lparr>xp_chksum_type := XMODEM_CHKSUMTYPE_CRC16, xp_start_ch := XMODEM_STARTCH_YMODEM\<rparr>)
         | _ \<Rightarrow> Inr (-1, file_zero, s))"

section \<open>Opening an address\<close>

text \<open>The state of the serial driver, and the rounds of interrupts its loops will take.\<close>

type_synonym 'd line = "'d serial \<times> round list"

text \<open>The driver's operations on that state, with the machine of the loader put in and taken out.\<close>

definition serial_io :: "'d hardware \<Rightarrow> input_hand \<Rightarrow> serial_output \<Rightarrow> ('d line, 'd) proto_io" where
  "serial_io hw inp outp = \<lparr>
     io_read = (\<lambda>buf sz timeout ((ser, sched), w).
       if \<not> ih_serial_read inp then Inl Fault
       else bnd (serial_read hw inp buf sz timeout sched (ser\<lparr>in_world := w\<rparr>)) (\<lambda>(n, _, b, sched, ser).
         Inr (n, b, (ser, sched), in_world ser))),
     io_write = (\<lambda>buf sz ((ser, sched), w).
       if \<not> so_serial_write outp then Inl Fault
       else bnd (serial_write hw outp buf sz sched (ser\<lparr>in_world := w\<rparr>)) (\<lambda>(n, sched, ser).
         Inr (n, (ser, sched), in_world ser)))\<rparr>"

record protocol_hand =
  pr_type :: protocol_type
  pr_in :: input_hand
  pr_out :: serial_output
  pr_recv_xmodem :: bool

definition protocol_zero :: protocol_hand where
  "protocol_zero = \<lparr>pr_type = PROTOCOLTYPE_NONE,
     pr_in = \<lparr>ih_data = 0, ih_serial_read = False, ih_status = 0\<rparr>,
     pr_out = \<lparr>so_data = 0, so_serial_write = False\<rparr>, pr_recv_xmodem = False\<rparr>"

text \<open>
  \<open>baud\<close> and \<open>flags\<close> are the build's configuration: the rate, and the queue sizes and flow control
  of the \<open>cfg\<close> word.
\<close>

definition xmodem_port :: "u8 list \<Rightarrow> u32 option res" where
  "xmodem_port port_str =
     bnd (strncmp port_str (cstr ''COM1'') 4) (\<lambda>r. if r = 0 then Inr (Some SERIAL_CFG_PORT_COM1) else
     bnd (strncmp port_str (cstr ''COM2'') 4) (\<lambda>r. if r = 0 then Inr (Some SERIAL_CFG_PORT_COM2) else
     bnd (strncmp port_str (cstr ''COM3'') 4) (\<lambda>r. if r = 0 then Inr (Some SERIAL_CFG_PORT_COM3) else
     bnd (strncmp port_str (cstr ''COM4'') 4) (\<lambda>r. if r = 0 then Inr (Some SERIAL_CFG_PORT_COM4) else
       Inr None))))"

definition protocol_xmodem_init ::
  "'d hardware \<Rightarrow> u32 \<Rightarrow> u32 \<Rightarrow> protocol_hand \<Rightarrow> u8 list \<Rightarrow> 'd serial \<Rightarrow> (int \<times> protocol_hand \<times> 'd serial) res" where
  "protocol_xmodem_init hw baud flags proto uri s =
     bnd (strstr uri (cstr ''//'')) (\<lambda>sep.
       case sep of
         None \<Rightarrow> Inr (-1, proto, s)
       | Some i \<Rightarrow>
           bnd (xmodem_port (drop (i + 2) uri)) (\<lambda>port.
             case port of
               None \<Rightarrow> Inr (-1, proto, s)
             | Some port \<Rightarrow>
                 bnd (serial_init hw (Some (pr_in proto)) (Some (pr_out proto)) baud
                       (push_bit SERIAL_CFG_PORT__POS port OR flags) s) (\<lambda>(_, inp, outp, s).
                   Inr (0, proto\<lparr>pr_in := the inp, pr_out := the outp, pr_recv_xmodem := True\<rparr>, s))))"

text \<open>\<open>_check_scheme\<close>; \<open>colon\<close> is the index of the colon.\<close>

definition check_scheme :: "string \<Rightarrow> u8 list \<Rightarrow> nat \<Rightarrow> bool res" where
  "check_scheme scheme uri colon =
     (if colon = length scheme then
        bnd (strncasecmp (cstr scheme) uri (of_nat (length scheme))) (\<lambda>r. Inr (r = 0))
      else Inr False)"

definition protocol_init ::
  "'d hardware \<Rightarrow> u32 \<Rightarrow> u32 \<Rightarrow> u8 list \<Rightarrow> 'd serial \<Rightarrow> (int \<times> protocol_hand \<times> 'd serial) res" where
  "protocol_init hw baud flags uri s =
     bnd (strchr uri (of_char CHR '':'')) (\<lambda>colon.
       case colon of
         None \<Rightarrow> Inr (-1, protocol_zero, s)
       | Some c \<Rightarrow>
           bnd (check_scheme ''xmodem'' uri c) (\<lambda>xm.
           bnd (if xm then Inr PROTOCOLTYPE_XMODEM
                else bnd (check_scheme ''ymodem'' uri c) (\<lambda>ym.
                  Inr (if ym then PROTOCOLTYPE_YMODEM else PROTOCOLTYPE_NONE))) (\<lambda>type.
             let proto = protocol_zero\<lparr>pr_type := type\<rparr>
             in if type = PROTOCOLTYPE_XMODEM then
                  bnd (protocol_xmodem_init hw baud flags proto uri s) (\<lambda>(r, proto, s).
                    Inr (if r \<noteq> 0 then -1 else 0, proto, s))
                else Inr (-1, proto, s))))"

text \<open>The size depends on the two optional functions of an output handle.\<close>

definition sizeof_protocol_hand :: "bool \<Rightarrow> u32" where
  "sizeof_protocol_hand statusbar = (if statusbar then 40 else 32)"

text \<open>The branch of \<open>file_open\<close>; \<open>protocol_close\<close> does nothing.\<close>

definition open_uri ::
  "bool \<Rightarrow> 'd hardware \<Rightarrow> u32 \<Rightarrow> u32 \<Rightarrow> nat \<Rightarrow> u8 list \<Rightarrow> ('d line, 'd) fstate
     \<Rightarrow> (int \<times> file_hand option \<times> ('d line, 'd) fstate) res" where
  "open_uri statusbar hw baud flags fuel path s =
     (case s of ((ser, sched), w) \<Rightarrow>
        bnd (walloc (sizeof_protocol_hand statusbar) 0 w) (\<lambda>(p, w).
        bnd (protocol_init hw baud flags path (ser\<lparr>in_world := w\<rparr>)) (\<lambda>(r, proto, ser).
          if r \<noteq> 0 then
            bnd (wfree p (in_world ser)) (\<lambda>w. Inr (-1, None, (ser, sched), w))
          else if \<not> pr_recv_xmodem proto then Inl Fault
          else
            bnd (xmodem_recv (serial_io hw (pr_in proto) (pr_out proto)) (pr_type proto) fuel
                  ((ser, sched), in_world ser)) (\<lambda>(r, file, x, w).
              if r \<noteq> 0 then bnd (wfree p w) (\<lambda>w. Inr (-1, None, x, w))
              else Inr (0, Some file, x, w)))))"

end
