(* ===== verification/Protocol_Facts.thy ===== *)
theory Protocol_Facts
  imports Protocol File_Source
begin

text \<open>
  What an XMODEM transfer receives: for every line that delivers the sender's packets, good ones and
  those spoiled on the way, the file is the blocks that were sent, in order, and it can be read like
  a file of a file system.
\<close>

unbundle bit_operations_syntax

section \<open>The sender\<close>

text \<open>The packet of a block: head, number, complement, data, sum.\<close>

definition xpacket :: "u8 \<Rightarrow> u8 list \<Rightarrow> u8 list" where
  "xpacket n d = [if length d = 128 then XMODEM_CHAR_HEAD else XMODEM_CHAR_HEAD_1K, n, 255 - n] @
     d @ [sum_list d]"

text \<open>
  What may arrive in its place: nothing, part of a head, three stray bytes, or a packet of at most
  four block lengths behind its head whose number or complement is wrong, or which is cut off, or
  whose sum is wrong.
\<close>

definition spoiled :: "u8 \<Rightarrow> nat \<Rightarrow> u8 list \<Rightarrow> bool" where
  "spoiled n bs pkt \<longleftrightarrow>
     length pkt < 3 \<and> (pkt = [] \<or> hd pkt \<noteq> XMODEM_CHAR_EOT) \<or>
     length pkt = 3 \<and> hd pkt \<notin> {XMODEM_CHAR_HEAD, XMODEM_CHAR_HEAD_1K, XMODEM_CHAR_EOT} \<or>
     3 \<le> length pkt \<and> length pkt \<le> 3 + 4 * bs \<and>
       hd pkt = (if bs = 128 then XMODEM_CHAR_HEAD else XMODEM_CHAR_HEAD_1K) \<and>
       (pkt ! 1 \<noteq> 255 - pkt ! 2 \<or> pkt ! 1 \<notin> {n - 1, n} \<or>
        pkt ! 1 = n \<and> (length pkt < 4 + bs \<or> pkt ! (3 + bs) \<noteq> sum_list (take bs (drop 3 pkt))))"

text \<open>A session sends each block until a good packet of it has arrived, and ends with an EOT.\<close>

type_synonym xblock = "u8 list list \<times> u8 list"

fun session :: "nat \<Rightarrow> xblock list \<Rightarrow> u8 list list" where
  "session k [] = [[XMODEM_CHAR_EOT]]"
| "session k ((bads, d) # bs) = bads @ xpacket (of_nat k) d # session (Suc k) bs"

fun replies :: "xblock list \<Rightarrow> u8 list" where
  "replies [] = [XMODEM_CHAR_ACK]"
| "replies ((bads, d) # bs) = replicate (length bads) XMODEM_CHAR_NAK @ XMODEM_CHAR_ACK # replies bs"

fun blocks_ok :: "nat \<Rightarrow> xblock list \<Rightarrow> bool" where
  "blocks_ok k [] \<longleftrightarrow> True"
| "blocks_ok k ((bads, d) # bs) \<longleftrightarrow> length d \<in> {128, 1024} \<and>
     (\<forall>pkt \<in> set bads. spoiled (of_nat k) (length d) pkt) \<and> blocks_ok (Suc k) bs"

definition sent_data :: "xblock list \<Rightarrow> u8 list" where
  "sent_data bs = concat (map snd bs)"

section \<open>The buffer\<close>

definition buffer_has :: "u32 \<Rightarrow> u32 \<Rightarrow> 'd world \<Rightarrow> u8 list \<Rightarrow> bool" where
  "buffer_has p b w data \<longleftrightarrow> fd_buff p w = b \<and> fd_buff_sz p w = PREALLOCATION_SIZE \<and>
     length data \<le> unat PREALLOCATION_SIZE \<and> mem_get (w_mem w) b (length data) = data"

definition buffer_frame :: "u32 \<Rightarrow> 'd world \<Rightarrow> 'd world \<Rightarrow> bool" where
  "buffer_frame b w w' \<longleftrightarrow> w_heap w' = w_heap w \<and> w_if w' = w_if w \<and>
     (\<forall>a. a \<notin> block b (unat PREALLOCATION_SIZE) \<longrightarrow> w_mem w' a = w_mem w a)"

lemma buffer_frame_refl [simp]: "buffer_frame b w w"
  by (simp add: buffer_frame_def)

lemma buffer_frame_trans: "buffer_frame b w w' \<Longrightarrow> buffer_frame b w' w'' \<Longrightarrow> buffer_frame b w w''"
  by (simp add: buffer_frame_def)

lemma buffer_frame_dev [simp]: "buffer_frame b w (w'\<lparr>w_dev := d\<rparr>) = buffer_frame b w w'"
  by (simp add: buffer_frame_def)

lemma buffer_has_dev [simp]: "buffer_has p b (w\<lparr>w_dev := d\<rparr>) data = buffer_has p b w data"
  by (simp add: buffer_has_def fd_buff_def fd_buff_sz_def)

lemma prealloc [simp]: "unat PREALLOCATION_SIZE = 262144"
  by (simp add: PREALLOCATION_SIZE_def)

lemma buffer_put:
  assumes h: "buffer_has p b w data" and apart: "block p 12 \<inter> block b 262144 = {}"
    and room: "length data + length bs \<le> 262144"
  defines "w' \<equiv> w\<lparr>w_mem := mem_put (w_mem w) (b + of_nat (length data)) bs\<rparr>"
  shows "buffer_has p b w' (data @ bs)" "buffer_has p b w' data" "buffer_frame b w w'"
proof -
  let ?a = "b + of_nat (length data)"
  have sub: "block ?a (length bs) \<subseteq> block b 262144" using room by (intro block_add_subset) auto
  show fr: "buffer_frame b w w'"
    using sub mem_put_other [of _ ?a bs "w_mem w"] by (auto simp: buffer_frame_def w'_def)
  have fields: "load32 (w_mem w') (p + 4) = load32 (w_mem w) (p + 4)"
    "load32 (w_mem w') (p + 8) = load32 (w_mem w) (p + 8)"
  proof -
    have "mem_get (w_mem w') p 12 = mem_get (w_mem w) p 12"
      by (rule mem_get_other) (use fr apart in \<open>auto simp: buffer_frame_def\<close>)
    from loads_part(3) [OF this, of 4] loads_part(3) [OF this, of 8]
    show "load32 (w_mem w') (p + 4) = load32 (w_mem w) (p + 4)"
      "load32 (w_mem w') (p + 8) = load32 (w_mem w) (p + 8)" by simp_all
  qed
  have old: "mem_get (w_mem w') b (length data) = data"
  proof -
    have dis: "block b (length data) \<inter> block ?a (length bs) = {}"
      using room by (intro block_add_disjoint) auto
    have "mem_get (w_mem w') b (length data) = mem_get (w_mem w) b (length data)"
      by (rule mem_get_other) (use dis room in \<open>auto simp: w'_def intro!: mem_put_other\<close>)
    then show ?thesis using h by (simp add: buffer_has_def)
  qed
  moreover have "mem_get (w_mem w') ?a (length bs) = bs"
    using mem_get_put [of bs "w_mem w" ?a] room by (simp add: w'_def)
  ultimately have "mem_get (w_mem w') b (length (data @ bs)) = data @ bs"
    by (simp add: mem_get_add)
  then show "buffer_has p b w' (data @ bs)" "buffer_has p b w' data"
    using h fields old room by (simp_all add: buffer_has_def fd_buff_def fd_buff_sz_def)
qed

section \<open>The line\<close>

text \<open>
  What the receiver relies on: \<open>pend\<close> are the bytes that have arrived, a read takes what there is of
  what it asks for, and each character the receiver sends makes the sender send its next packet.
\<close>

locale packet_line =
  fixes io :: "('x, 'd) proto_io"
    and ok :: "'x \<Rightarrow> 'd \<Rightarrow> bool"
    and pend :: "'x \<Rightarrow> 'd \<Rightarrow> u8 list"
    and queue :: "'x \<Rightarrow> 'd \<Rightarrow> u8 list list"
    and sent :: "'x \<Rightarrow> 'd \<Rightarrow> u8 list"
  assumes io_read_law: "ok x (w_dev w) \<Longrightarrow> pred_option (\<lambda>b. unat sz \<le> length b) buf \<Longrightarrow> timeout \<noteq> 0 \<Longrightarrow>
      \<exists>n x' d'. n = min (unat sz) (length (pend x (w_dev w))) \<and>
        io_read io buf sz timeout (x, w) =
          Inr (of_nat n, map_option (\<lambda>b. take n (pend x (w_dev w)) @ drop n b) buf, x', w\<lparr>w_dev := d'\<rparr>) \<and>
        ok x' d' \<and> pend x' d' = drop n (pend x (w_dev w)) \<and> queue x' d' = queue x (w_dev w) \<and>
        sent x' d' = sent x (w_dev w)"
    and io_write_law: "ok x (w_dev w) \<Longrightarrow>
      \<exists>x' d'. io_write io [c] 1 (x, w) = Inr (1, x', w\<lparr>w_dev := d'\<rparr>) \<and> ok x' d' \<and>
        sent x' d' = sent x (w_dev w) @ [c] \<and>
        (case queue x (w_dev w) of
           [] \<Rightarrow> pend x' d' = pend x (w_dev w) \<and> queue x' d' = []
         | p # q \<Rightarrow> pend x' d' = pend x (w_dev w) @ p \<and> queue x' d' = q)"
begin

text \<open>The state of the line in one predicate.\<close>

definition line_at :: "u8 list \<Rightarrow> u8 list list \<Rightarrow> u8 list \<Rightarrow> 'x \<Rightarrow> 'd world \<Rightarrow> bool" where
  "line_at p q s x w \<longleftrightarrow> ok x (w_dev w) \<and> pend x (w_dev w) = p \<and> queue x (w_dev w) = q \<and> sent x (w_dev w) = s"

lemma line_at_mem [simp]: "line_at p q s x (w\<lparr>w_mem := m\<rparr>) = line_at p q s x w"
  by (simp add: line_at_def)

lemma read_buf:
  assumes "line_at p q s x w" and "length b = unat sz" and "timeout \<noteq> 0"
  shows "\<exists>x' d'. io_read io (Some b) sz timeout (x, w) =
      Inr (of_nat (min (unat sz) (length p)),
        Some (take (unat sz) p @ drop (length p) b), x', w\<lparr>w_dev := d'\<rparr>) \<and>
    line_at (drop (unat sz) p) q s x' (w\<lparr>w_dev := d'\<rparr>)"
  using assms io_read_law [of x w sz "Some b" timeout]
  by (cases "length p \<le> unat sz") (auto simp: line_at_def min_def)

lemma read_drain:
  assumes "line_at p q s x w" and "length p \<le> unat sz" and "timeout \<noteq> 0"
  shows "\<exists>n x' d'. io_read io None sz timeout (x, w) = Inr (n, None, x', w\<lparr>w_dev := d'\<rparr>) \<and>
    line_at [] q s x' (w\<lparr>w_dev := d'\<rparr>)"
  using assms io_read_law [of x w sz None timeout] by (auto simp: line_at_def min_def)

lemma send_next:
  assumes "line_at [] q s x w"
  shows "\<exists>x' d'. xmodem_send io c (x, w) = Inr (0, x', w\<lparr>w_dev := d'\<rparr>) \<and>
    line_at (case q of [] \<Rightarrow> [] | p # _ \<Rightarrow> p) (tl q) (s @ [c]) x' (w\<lparr>w_dev := d'\<rparr>)"
  using assms io_write_law [of x w c]
  by (cases q) (auto simp: line_at_def xmodem_send_def)

text \<open>
  The parameters while the block \<open>k\<close> is awaited: the offset is the length of the data so far.
\<close>

definition params_at :: "nat \<Rightarrow> u8 list \<Rightarrow> xmodem_params \<Rightarrow> bool" where
  "params_at k data ps \<longleftrightarrow> xp_chksum_type ps = XMODEM_CHKSUMTYPE_SUM \<and>
     xp_start_ch ps = XMODEM_STARTCH_XMODEM \<and> xp_timeout ps \<noteq> 0 \<and>
     xp_last_block ps = of_nat k - 1 \<and> xp_curr_off ps = of_nat (length data)"

lemma params_at_bsz [simp]: "params_at k data (ps\<lparr>xp_block_sz := z\<rparr>) = params_at k data ps"
  by (simp add: params_at_def)

text \<open>The checksum read takes one byte and compares it with the sum of the block.\<close>

lemma checksum_read:
  assumes l: "line_at q qs st x w" and ps: "params_at k data ps"
    and m: "mem_get (w_mem w) a (unat (xp_block_sz ps)) = d"
  shows "\<exists>x' d'. xmodem_checksum io ps a (x, w) =
      Inr (if q = [] \<or> hd q \<noteq> sum_list d then -1 else 0, x', w\<lparr>w_dev := d'\<rparr>) \<and>
    line_at (drop 1 q) qs st x' (w\<lparr>w_dev := d'\<rparr>)"
proof -
  have sum: "foldl (\<lambda>c d. c - d) c d = c - sum_list d" for c :: u8
    by (induction d arbitrary: c) (simp_all add: diff_diff_eq)
  have t: "xp_timeout ps \<noteq> 0" using ps by (simp add: params_at_def)
  obtain x' d' where r: "io_read io (Some [0]) 1 (xp_timeout ps) (x, w) =
      Inr (of_nat (min (unat (1 :: u32)) (length q)), Some (take (unat (1 :: u32)) q @ drop (length q) [0]), x', w\<lparr>w_dev := d'\<rparr>)"
    "line_at (drop (unat (1 :: u32)) q) qs st x' (w\<lparr>w_dev := d'\<rparr>)"
    using read_buf [OF l _ t, of "[0]" 1] by auto
  show ?thesis
  proof (cases q)
    case Nil
    with r ps show ?thesis
      by (intro exI [of _ x'] exI [of _ d']) (simp add: xmodem_checksum_def params_at_def XMODEM_RET_ERROR_def)
  next
    case (Cons c cs)
    with r ps m show ?thesis
      by (intro exI [of _ x'] exI [of _ d'])
        (simp add: xmodem_checksum_def params_at_def sum Let_def)
  qed
qed

text \<open>The data of a block, read to its place in the buffer.\<close>

lemma data_read:
  assumes l: "line_at q qs st x w" and has: "buffer_has p b w data"
    and apart: "block p 12 \<inter> block b 262144 = {}" and room: "length data + bs \<le> 262144"
    and bs: "unat bsz = bs" and t: "timeout \<noteq> 0"
  shows "\<exists>x' w'. read_mem io (b + of_nat (length data)) bsz timeout (x, w) = Inr (of_nat (min bs (length q)), x', w') \<and>
    line_at (drop bs q) qs st x' w' \<and> buffer_frame b w w' \<and> buffer_has p b w' data \<and>
    (bs \<le> length q \<longrightarrow> buffer_has p b w' (data @ take bs q))"
proof -
  let ?a = "b + of_nat (length data)"
  let ?old = "mem_get (w_mem w) ?a bs"
  let ?new = "take bs q @ drop (length q) ?old"
  obtain x' d' where r: "io_read io (Some ?old) bsz timeout (x, w) =
      Inr (of_nat (min bs (length q)), Some ?new, x', w\<lparr>w_dev := d'\<rparr>)"
    "line_at (drop bs q) qs st x' (w\<lparr>w_dev := d'\<rparr>)"
    using read_buf [OF l _ t, of ?old bsz] bs by auto
  have len: "length data + length ?new \<le> 262144" using room by auto
  let ?w = "(w\<lparr>w_dev := d'\<rparr>)\<lparr>w_mem := mem_put (w_mem w) ?a ?new\<rparr>"
  have "read_mem io ?a bsz timeout (x, w) = Inr (of_nat (min bs (length q)), x', ?w)"
    using r(1) bs by (simp add: read_mem_def)
  moreover have "buffer_has p b (w\<lparr>w_dev := d'\<rparr>) data" using has by simp
  note put = buffer_put [OF this apart len]
  moreover have "line_at (drop bs q) qs st x' ?w" using r(2) by (simp del: line_at_mem add: line_at_def)
  moreover have "buffer_frame b w (w\<lparr>w_dev := d'\<rparr>)" by simp
  from buffer_frame_trans [OF this] put(3) have "buffer_frame b w ?w" by simp
  ultimately show ?thesis
    using put(1,2) by (intro exI [of _ x'] exI [of _ ?w]) auto
qed

lemma complement:
  fixes a b :: u8
  shows "uint a = 255 - uint b \<longleftrightarrow> a = 255 - b"
proof -
  have "unat b < 2 ^ LENGTH(8)" by (rule unsigned_less)
  then have u: "unat b \<le> 255" by simp
  then have "b \<le> 255" by (simp add: word_le_nat_alt)
  then have "unat (255 - b) = 255 - unat b" by (simp add: unat_sub_le)
  then have "int (unat (255 - b)) = 255 - int (unat b)" using u by linarith
  then have "uint (255 - b) = 255 - uint b" by (simp only: uint_nat)
  then show ?thesis unfolding word_uint_eq_iff [of a] by simp
qed

text \<open>A good block is taken.\<close>

lemma rx_block_good:
  assumes l: "line_at (d @ [sum_list d]) qs st x w" and has: "buffer_has p b w data"
    and apart: "block p 12 \<inter> block b 262144 = {}" and room: "length data + length d \<le> 262144"
    and ps: "params_at k data ps" and bsz: "unat (xp_block_sz ps) = length d"
  shows "\<exists>ps' x' w'. xmodem_rx_block io p (of_nat k) (255 - of_nat k) ps (x, w) = Inr (0, ps', x', w') \<and>
    line_at [] qs st x' w' \<and> params_at (Suc k) (data @ d) ps' \<and> buffer_has p b w' (data @ d) \<and>
    buffer_frame b w w' \<and> xp_block_sz ps' = xp_block_sz ps"
proof -
  let ?bsz = "ucast (xp_block_sz ps) :: u32"
  let ?a = "b + of_nat (length data)"
  have off: "xp_curr_off ps = of_nat (length data)" and t: "xp_timeout ps \<noteq> 0"
    and last: "xp_last_block ps = of_nat k - 1" using ps by (simp_all add: params_at_def)
  have fd: "fd_buff p w = b" "fd_buff_sz p w = PREALLOCATION_SIZE" using has by (simp_all add: buffer_has_def)
  have bu: "unat ?bsz = length d" using bsz by simp
  obtain x1 w1 where r: "read_mem io ?a ?bsz (xp_timeout ps) (x, w) = Inr (of_nat (length d), x1, w1)"
    "line_at [sum_list d] qs st x1 w1" "buffer_frame b w w1" "buffer_has p b w1 (data @ d)"
    using data_read [OF l has apart room bu t] by auto
  have "fd_buff p w1 = b" using r(4) by (simp add: buffer_has_def)
  have m: "mem_get (w_mem w1) ?a (unat (xp_block_sz ps)) = d"
  proof -
    have "mem_get (w_mem w1) b (length data + length d) = data @ d" using r(4) by (simp add: buffer_has_def)
    then show ?thesis unfolding mem_get_add bsz by (metis append_eq_append_conv length_mem_get)
  qed
  obtain x2 d2 where c: "xmodem_checksum io ps ?a (x1, w1) = Inr (0, x2, w1\<lparr>w_dev := d2\<rparr>)"
    "line_at [] qs st x2 (w1\<lparr>w_dev := d2\<rparr>)"
    using checksum_read [OF r(2) ps m] by auto
  have small: "unat (of_nat (length data) + ?bsz) = length data + length d"
    using room bu by (simp add: unat_word_ariths unat_of_nat)
  then have fits: "\<not> of_nat (length data) + ?bsz > PREALLOCATION_SIZE"
    using room by (simp add: word_less_nat_alt)
  have "of_nat k \<noteq> (of_nat k - 1 :: u8)" by simp
  have n: "of_nat (length d) = ?bsz" unfolding bu [symmetric] by simp
  let ?ps = "ps\<lparr>xp_curr_off := xp_curr_off ps + ?bsz, xp_last_block := of_nat k\<rparr>"
  have "xmodem_rx_block io p (of_nat k) (255 - of_nat k) ps (x, w) = Inr (0, ?ps, x2, w1\<lparr>w_dev := d2\<rparr>)"
    using off last fd r(1) c(1) fits \<open>fd_buff p w1 = b\<close> n
    by (simp add: xmodem_rx_block_def complement Let_def XMODEM_RET_OK_def)
  moreover have "params_at (Suc k) (data @ d) ?ps"
    using ps off n by (simp add: params_at_def)
  ultimately show ?thesis
    using c(2) r(3,4) by (intro exI [of _ ?ps] exI [of _ x2] exI [of _ "w1\<lparr>w_dev := d2\<rparr>"]) simp
qed

text \<open>A spoiled one is refused, and what is left of it fits the read that drains the line.\<close>

lemma rx_block_bad:
  assumes l: "line_at q qs st x w" and has: "buffer_has p b w data"
    and apart: "block p 12 \<inter> block b 262144 = {}" and room: "length data + bs \<le> 262144"
    and ps: "params_at k data ps" and bsz: "unat (xp_block_sz ps) = bs"
    and bad: "n \<noteq> 255 - m \<or> n \<notin> {of_nat k - 1, of_nat k} \<or>
      n = of_nat k \<and> (length q < 1 + bs \<or> q ! bs \<noteq> sum_list (take bs q))"
  shows "\<exists>q' x' w'. xmodem_rx_block io p n m ps (x, w) = Inr (-1, ps, x', w') \<and>
    line_at q' qs st x' w' \<and> length q' \<le> length q \<and> buffer_has p b w' data \<and> buffer_frame b w w'"
proof (cases "n \<noteq> 255 - m \<or> n \<notin> {of_nat k - 1, of_nat k}")
  case True
  have "xp_last_block ps = of_nat k - 1" using ps by (simp add: params_at_def)
  with True have "xmodem_rx_block io p n m ps (x, w) = Inr (-1, ps, x, w)"
    by (auto simp: xmodem_rx_block_def complement Let_def XMODEM_RET_ERROR_def)
  with l has show ?thesis by (intro exI [of _ q] exI [of _ x] exI [of _ w]) simp
next
  case False
  with bad have k: "n = of_nat k" "n = 255 - m" and q: "length q < 1 + bs \<or> q ! bs \<noteq> sum_list (take bs q)"
    by auto
  let ?bsz = "ucast (xp_block_sz ps) :: u32"
  let ?a = "b + of_nat (length data)"
  have off: "xp_curr_off ps = of_nat (length data)" and t: "xp_timeout ps \<noteq> 0"
    and last: "xp_last_block ps = of_nat k - 1" using ps by (simp_all add: params_at_def)
  have fd: "fd_buff p w = b" "fd_buff_sz p w = PREALLOCATION_SIZE" using has by (simp_all add: buffer_has_def)
  have bu: "unat ?bsz = bs" using bsz by simp
  have blt: "bs < 2 ^ 32" using room by simp
  obtain x1 w1 where r: "read_mem io ?a ?bsz (xp_timeout ps) (x, w) = Inr (of_nat (min bs (length q)), x1, w1)"
    "line_at (drop bs q) qs st x1 w1" "buffer_frame b w w1" "buffer_has p b w1 data"
    "bs \<le> length q \<longrightarrow> buffer_has p b w1 (data @ take bs q)"
    using data_read [OF l has apart room bu t] by auto
  have fd1: "fd_buff p w1 = b" using r(4) by (simp add: buffer_has_def)
  have fits: "\<not> of_nat (length data) + ?bsz > PREALLOCATION_SIZE"
    using room bu by (simp add: word_less_nat_alt unat_word_ariths unat_of_nat)
  have step: "xmodem_rx_block io p n m ps (x, w) =
      (if of_nat (min bs (length q)) \<noteq> ?bsz then Inr (-1, ps, x1, w1)
       else bnd (xmodem_checksum io ps ?a (x1, w1)) (\<lambda>(r, s).
         if r \<noteq> 0 then Inr (-1, ps, s)
         else Inr (0, ps\<lparr>xp_curr_off := xp_curr_off ps + ?bsz, xp_last_block := n\<rparr>, s)))"
    using off last fd r(1) fits k fd1
    by (simp add: xmodem_rx_block_def complement Let_def XMODEM_RET_OK_def XMODEM_RET_ERROR_def cong: if_cong)
  show ?thesis
  proof (cases "length q < bs")
    case True
    then have "of_nat (min bs (length q)) \<noteq> ?bsz"
      using bu blt by (auto dest!: arg_cong [where f = unat] simp: unat_of_nat)
    with step r True show ?thesis
      by (intro exI [of _ "drop bs q"] exI [of _ x1] exI [of _ w1]) simp
  next
    case False
    then have "min bs (length q) = bs" by simp
    then have n: "of_nat (min bs (length q)) = ?bsz" unfolding bu [symmetric] by simp
    have m: "mem_get (w_mem w1) ?a (unat (xp_block_sz ps)) = take bs q"
    proof -
      have "buffer_has p b w1 (data @ take bs q)" using r(5) False by simp
      then have "mem_get (w_mem w1) b (length data + length (take bs q)) = data @ take bs q"
        by (simp add: buffer_has_def)
      then show ?thesis using False unfolding mem_get_add bsz by (simp add: append_eq_append_conv)
    qed
    have "drop bs q = [] \<or> hd (drop bs q) \<noteq> sum_list (take bs q)"
      using q False by (cases "length q = bs") (auto simp: hd_drop_conv_nth)
    with checksum_read [OF r(2) ps m] obtain x2 d2 where
      c: "xmodem_checksum io ps ?a (x1, w1) = Inr (-1, x2, w1\<lparr>w_dev := d2\<rparr>)"
      "line_at (drop 1 (drop bs q)) qs st x2 (w1\<lparr>w_dev := d2\<rparr>)" by auto
    with step n r show ?thesis
      by (intro exI [of _ "drop 1 (drop bs q)"] exI [of _ x2] exI [of _ "w1\<lparr>w_dev := d2\<rparr>"]) simp
  qed
qed

text \<open>The head of a packet.\<close>

lemma head_read:
  assumes l: "line_at pkt qs st x w" and t: "xp_timeout ps \<noteq> 0"
  shows "\<exists>x' d'. line_at (drop 3 pkt) qs st x' (w\<lparr>w_dev := d'\<rparr>) \<and>
    xmodem_rx_packet io p ps (x, w) =
      (if pkt \<noteq> [] \<and> hd pkt = XMODEM_CHAR_EOT then Inr (XMODEM_RET_EOT, ps, x', w\<lparr>w_dev := d'\<rparr>)
       else if length pkt < 3 then
         Inr (if pkt = [] then XMODEM_RET_TIMEOUT else XMODEM_RET_ERROR, ps, x', w\<lparr>w_dev := d'\<rparr>)
       else if hd pkt = XMODEM_CHAR_HEAD then
         xmodem_rx_block io p (pkt ! 1) (pkt ! 2) (ps\<lparr>xp_block_sz := 128\<rparr>) (x', w\<lparr>w_dev := d'\<rparr>)
       else if hd pkt = XMODEM_CHAR_HEAD_1K then
         xmodem_rx_block io p (pkt ! 1) (pkt ! 2) (ps\<lparr>xp_block_sz := 1024\<rparr>) (x', w\<lparr>w_dev := d'\<rparr>)
       else Inr (XMODEM_RET_ERROR, ps, x', w\<lparr>w_dev := d'\<rparr>))"
proof -
  have len: "length [0 :: u8, 0, 0] = unat (3 :: u32)" by simp
  obtain x' d' where r: "io_read io (Some [0, 0, 0]) 3 (xp_timeout ps) (x, w) =
      Inr (of_nat (min (unat (3 :: u32)) (length pkt)),
        Some (take (unat (3 :: u32)) pkt @ drop (length pkt) [0, 0, 0]), x', w\<lparr>w_dev := d'\<rparr>)"
    "line_at (drop (unat (3 :: u32)) pkt) qs st x' (w\<lparr>w_dev := d'\<rparr>)"
    using read_buf [OF l len t] by blast
  consider "pkt = []" | a where "pkt = [a]" | a b where "pkt = [a, b]" | a b c rest where "pkt = a # b # c # rest"
    by (metis neq_Nil_conv)
  then show ?thesis
  proof cases
    case 4
    then have "min (unat (3 :: u32)) (length pkt) = 3" by simp
    with r 4 show ?thesis
      by (intro exI [of _ x'] exI [of _ d']) (simp add: xmodem_rx_packet_def Let_def)
  qed (use r in \<open>intro exI [of _ x'] exI [of _ d'],
      simp add: xmodem_rx_packet_def Let_def XMODEM_CHAR_EOT_def\<close>)+
qed

lemma packet_good:
  assumes l: "line_at (xpacket (of_nat k) d) qs st x w" and has: "buffer_has p b w data"
    and apart: "block p 12 \<inter> block b 262144 = {}" and room: "length data + length d \<le> 262144"
    and ps: "params_at k data ps" and d: "length d \<in> {128, 1024}"
  shows "\<exists>ps' x' w'. xmodem_rx_packet io p ps (x, w) = Inr (0, ps', x', w') \<and>
    line_at [] qs st x' w' \<and> params_at (Suc k) (data @ d) ps' \<and> buffer_has p b w' (data @ d) \<and>
    buffer_frame b w w'"
proof -
  let ?z = "if length d = 128 then 128 else 1024 :: u16"
  have t: "xp_timeout ps \<noteq> 0" using ps by (simp add: params_at_def)
  obtain x1 d1 where r: "line_at (d @ [sum_list d]) qs st x1 (w\<lparr>w_dev := d1\<rparr>)"
    "xmodem_rx_packet io p ps (x, w) =
      xmodem_rx_block io p (of_nat k) (255 - of_nat k) (ps\<lparr>xp_block_sz := ?z\<rparr>) (x1, w\<lparr>w_dev := d1\<rparr>)"
    using head_read [OF l t, of p] d
    by (auto simp: xpacket_def XMODEM_CHAR_HEAD_def XMODEM_CHAR_HEAD_1K_def XMODEM_CHAR_EOT_def)
  have "unat (xp_block_sz (ps\<lparr>xp_block_sz := ?z\<rparr>)) = length d" using d by auto
  moreover have "buffer_has p b (w\<lparr>w_dev := d1\<rparr>) data" using has by simp
  moreover have "params_at k data (ps\<lparr>xp_block_sz := ?z\<rparr>)" using ps by simp
  ultimately obtain ps' x' w' where g:
    "xmodem_rx_block io p (of_nat k) (255 - of_nat k) (ps\<lparr>xp_block_sz := ?z\<rparr>) (x1, w\<lparr>w_dev := d1\<rparr>) = Inr (0, ps', x', w')"
    "line_at [] qs st x' w'" "params_at (Suc k) (data @ d) ps'" "buffer_has p b w' (data @ d)"
    "buffer_frame b (w\<lparr>w_dev := d1\<rparr>) w'"
    using rx_block_good [OF r(1) _ apart room] by blast
  have "buffer_frame b w w'" using g(5) by (simp add: buffer_frame_def)
  with r(2) g show ?thesis by auto
qed

lemma packet_eot:
  assumes "line_at [XMODEM_CHAR_EOT] qs st x w" and "params_at k data ps"
  shows "\<exists>x' d'. xmodem_rx_packet io p ps (x, w) = Inr (XMODEM_RET_EOT, ps, x', w\<lparr>w_dev := d'\<rparr>) \<and>
    line_at [] qs st x' (w\<lparr>w_dev := d'\<rparr>)"
  using head_read [OF assms(1), of ps p] assms(2) by (auto simp: params_at_def)

lemma packet_bad:
  assumes l: "line_at pkt qs st x w" and bad: "spoiled (of_nat k) bs pkt"
    and has: "buffer_has p b w data" and apart: "block p 12 \<inter> block b 262144 = {}"
    and room: "length data + bs \<le> 262144" and ps: "params_at k data ps" and bs: "bs \<in> {128, 1024}"
  shows "\<exists>ret q ps' x' w'. xmodem_rx_packet io p ps (x, w) = Inr (ret, ps', x', w') \<and>
    ret \<in> {XMODEM_RET_ERROR, XMODEM_RET_TIMEOUT} \<and> line_at q qs st x' w' \<and>
    length q \<le> 4 * unat (xp_block_sz ps') \<and> params_at k data ps' \<and> buffer_has p b w' data \<and>
    buffer_frame b w w'"
proof -
  have t: "xp_timeout ps \<noteq> 0" using ps by (simp add: params_at_def)
  obtain x1 d1 where r: "line_at (drop 3 pkt) qs st x1 (w\<lparr>w_dev := d1\<rparr>)"
    "xmodem_rx_packet io p ps (x, w) =
      (if pkt \<noteq> [] \<and> hd pkt = XMODEM_CHAR_EOT then Inr (XMODEM_RET_EOT, ps, x1, w\<lparr>w_dev := d1\<rparr>)
       else if length pkt < 3 then
         Inr (if pkt = [] then XMODEM_RET_TIMEOUT else XMODEM_RET_ERROR, ps, x1, w\<lparr>w_dev := d1\<rparr>)
       else if hd pkt = XMODEM_CHAR_HEAD then
         xmodem_rx_block io p (pkt ! 1) (pkt ! 2) (ps\<lparr>xp_block_sz := 128\<rparr>) (x1, w\<lparr>w_dev := d1\<rparr>)
       else if hd pkt = XMODEM_CHAR_HEAD_1K then
         xmodem_rx_block io p (pkt ! 1) (pkt ! 2) (ps\<lparr>xp_block_sz := 1024\<rparr>) (x1, w\<lparr>w_dev := d1\<rparr>)
       else Inr (XMODEM_RET_ERROR, ps, x1, w\<lparr>w_dev := d1\<rparr>))"
    using head_read [OF l t, of p] by blast
  show ?thesis
  proof (cases "length pkt \<le> 3 \<and> \<not> (length pkt = 3 \<and> hd pkt \<in> {XMODEM_CHAR_HEAD, XMODEM_CHAR_HEAD_1K})")
    case True
    then have "\<not> (pkt \<noteq> [] \<and> hd pkt = XMODEM_CHAR_EOT)" "drop 3 pkt = []"
      using bad bs by (auto simp: spoiled_def XMODEM_CHAR_HEAD_def XMODEM_CHAR_HEAD_1K_def XMODEM_CHAR_EOT_def split: if_splits)
    with True r has ps show ?thesis
      by (intro exI [of _ "if pkt = [] then XMODEM_RET_TIMEOUT else XMODEM_RET_ERROR"] exI [of _ "[]"]
          exI [of _ ps] exI [of _ x1] exI [of _ "w\<lparr>w_dev := d1\<rparr>"]) (auto split: if_splits)
  next
    case False
    let ?z = "if bs = 128 then 128 else 1024 :: u16"
    have three: "3 \<le> length pkt" "hd pkt = (if bs = 128 then XMODEM_CHAR_HEAD else XMODEM_CHAR_HEAD_1K)"
      "length (drop 3 pkt) \<le> 4 * bs"
      and b3: "pkt ! 1 \<noteq> 255 - pkt ! 2 \<or> pkt ! 1 \<notin> {of_nat k - 1, of_nat k} \<or>
        pkt ! 1 = of_nat k \<and> (length (drop 3 pkt) < 1 + bs \<or> drop 3 pkt ! bs \<noteq> sum_list (take bs (drop 3 pkt)))"
      using bad False by (auto simp: spoiled_def)
    have e: "xmodem_rx_packet io p ps (x, w) =
        xmodem_rx_block io p (pkt ! 1) (pkt ! 2) (ps\<lparr>xp_block_sz := ?z\<rparr>) (x1, w\<lparr>w_dev := d1\<rparr>)"
      using r(2) three(1,2) bs
      by (auto simp: XMODEM_CHAR_HEAD_def XMODEM_CHAR_HEAD_1K_def XMODEM_CHAR_EOT_def)
    have z: "unat (xp_block_sz (ps\<lparr>xp_block_sz := ?z\<rparr>)) = bs" using bs by auto
    have "buffer_has p b (w\<lparr>w_dev := d1\<rparr>) data" "params_at k data (ps\<lparr>xp_block_sz := ?z\<rparr>)"
      using has ps by simp_all
    from rx_block_bad [OF r(1) this(1) apart room this(2) z b3] obtain q x' w' where g:
      "xmodem_rx_block io p (pkt ! 1) (pkt ! 2) (ps\<lparr>xp_block_sz := ?z\<rparr>) (x1, w\<lparr>w_dev := d1\<rparr>) =
        Inr (-1, ps\<lparr>xp_block_sz := ?z\<rparr>, x', w')"
      "line_at q qs st x' w'" "length q \<le> length (drop 3 pkt)" "buffer_has p b w' data"
      "buffer_frame b (w\<lparr>w_dev := d1\<rparr>) w'" by blast
    have "buffer_frame b w w'" using g(5) by (simp add: buffer_frame_def)
    moreover have "length q \<le> 4 * unat (xp_block_sz (ps\<lparr>xp_block_sz := ?z\<rparr>))"
      using g(3) three(3) z by linarith
    ultimately show ?thesis
      using e g ps
      by (intro exI [of _ "-1"] exI [of _ q] exI [of _ "ps\<lparr>xp_block_sz := ?z\<rparr>"] exI [of _ x'] exI [of _ w'])
        (simp add: XMODEM_RET_ERROR_def)
  qed
qed

text \<open>Turns of the loop.\<close>

definition going :: "int \<Rightarrow> bool" where
  "going ret \<longleftrightarrow> ret \<noteq> XMODEM_RET_EOT \<and> ret \<noteq> XMODEM_RET_FATAL"

lemma loop_turn:
  assumes "going ret" and "xmodem_rx_packet io p ps (x, w) = Inr (r, ps', x1, w1)"
  shows "xmodem_rx_loop io p ret (Suc fuel) ps (x, w) =
    bnd (if r \<noteq> 0 then bnd (io_read io None (ucast (xp_block_sz ps') * 4) 25 (x1, w1)) (\<lambda>(_, _, s). Inr s)
         else Inr (x1, w1)) (\<lambda>s.
      bnd (xmodem_reply io r ps' s) (\<lambda>s. xmodem_rx_loop io p r fuel ps' s))"
  using assms by (subst xmodem_rx_loop.simps) (simp add: going_def)

lemma loop_done: "xmodem_rx_loop io p XMODEM_RET_EOT fuel ps s = Inr (XMODEM_RET_EOT, ps, s)"
  by (subst xmodem_rx_loop.simps) simp

lemma drain_size: "unat (ucast (z :: u16) * 4 :: u32) = 4 * unat z"
proof -
  have "unat z < 2 ^ LENGTH(16)" by (rule unsigned_less)
  then show ?thesis by (simp add: unat_word_ariths)
qed

lemma turn_bad:
  assumes "going ret" and l: "line_at pkt (nxt # qs) st x w" and "spoiled (of_nat k) bs pkt"
    and "buffer_has p b w data" and "block p 12 \<inter> block b 262144 = {}"
    and "length data + bs \<le> 262144" and "params_at k data ps" and "bs \<in> {128, 1024}"
  shows "\<exists>r ps' x' w'. xmodem_rx_loop io p ret (Suc fuel) ps (x, w) = xmodem_rx_loop io p r fuel ps' (x', w') \<and>
    going r \<and> line_at nxt qs (st @ [XMODEM_CHAR_NAK]) x' w' \<and> params_at k data ps' \<and>
    buffer_has p b w' data \<and> buffer_frame b w w'"
proof -
  obtain r q ps' x1 w1 where g: "xmodem_rx_packet io p ps (x, w) = Inr (r, ps', x1, w1)"
    "r \<in> {XMODEM_RET_ERROR, XMODEM_RET_TIMEOUT}" "line_at q (nxt # qs) st x1 w1"
    "length q \<le> 4 * unat (xp_block_sz ps')" "params_at k data ps'" "buffer_has p b w1 data" "buffer_frame b w w1"
    using packet_bad [OF l assms(3-8)] by blast
  obtain n x2 d2 where dr: "io_read io None (ucast (xp_block_sz ps') * 4) 25 (x1, w1) = Inr (n, None, x2, w1\<lparr>w_dev := d2\<rparr>)"
    "line_at [] (nxt # qs) st x2 (w1\<lparr>w_dev := d2\<rparr>)"
    using read_drain [OF g(3), of "ucast (xp_block_sz ps') * 4" 25] g(4) by (auto simp: drain_size)
  obtain x3 d3 where sd: "xmodem_send io XMODEM_CHAR_NAK (x2, w1\<lparr>w_dev := d2\<rparr>) = Inr (0, x3, w1\<lparr>w_dev := d3\<rparr>)"
    "line_at nxt qs (st @ [XMODEM_CHAR_NAK]) x3 (w1\<lparr>w_dev := d3\<rparr>)"
    using send_next [OF dr(2), of XMODEM_CHAR_NAK] by auto
  have start: "xp_start_ch ps' = XMODEM_CHAR_NAK"
    using g(5) by (simp add: params_at_def XMODEM_STARTCH_XMODEM_def XMODEM_CHAR_NAK_def)
  have rep: "xmodem_reply io r ps' (x2, w1\<lparr>w_dev := d2\<rparr>) = Inr (x3, w1\<lparr>w_dev := d3\<rparr>)"
    using g(2) sd(1) start
    by (auto simp: xmodem_reply_def xmodem_nak_def xmodem_start_def XMODEM_RET_ERROR_def
        XMODEM_RET_TIMEOUT_def XMODEM_RET_OK_def XMODEM_RET_EOT_def)
  have r: "r \<noteq> 0" "going r"
    using g(2) by (auto simp: XMODEM_RET_ERROR_def XMODEM_RET_TIMEOUT_def going_def XMODEM_RET_EOT_def XMODEM_RET_FATAL_def)
  have "xmodem_rx_loop io p ret (Suc fuel) ps (x, w) = xmodem_rx_loop io p r fuel ps' (x3, w1\<lparr>w_dev := d3\<rparr>)"
    unfolding loop_turn [OF assms(1) g(1)] using dr(1) rep r(1) by simp
  with r sd(2) g show ?thesis
    by (intro exI [of _ r] exI [of _ ps'] exI [of _ x3] exI [of _ "w1\<lparr>w_dev := d3\<rparr>"]) simp
qed

lemma turn_good:
  assumes "going ret" and l: "line_at (xpacket (of_nat k) d) (nxt # qs) st x w"
    and "buffer_has p b w data" and "block p 12 \<inter> block b 262144 = {}"
    and "length data + length d \<le> 262144" and "params_at k data ps" and "length d \<in> {128, 1024}"
  shows "\<exists>ps' x' w'. xmodem_rx_loop io p ret (Suc fuel) ps (x, w) = xmodem_rx_loop io p 0 fuel ps' (x', w') \<and>
    line_at nxt qs (st @ [XMODEM_CHAR_ACK]) x' w' \<and> params_at (Suc k) (data @ d) ps' \<and>
    buffer_has p b w' (data @ d) \<and> buffer_frame b w w'"
proof -
  obtain ps' x1 w1 where g: "xmodem_rx_packet io p ps (x, w) = Inr (0, ps', x1, w1)"
    "line_at [] (nxt # qs) st x1 w1" "params_at (Suc k) (data @ d) ps'" "buffer_has p b w1 (data @ d)"
    "buffer_frame b w w1"
    using packet_good [OF l assms(3-7)] by blast
  obtain x2 d2 where sd: "xmodem_send io XMODEM_CHAR_ACK (x1, w1) = Inr (0, x2, w1\<lparr>w_dev := d2\<rparr>)"
    "line_at nxt qs (st @ [XMODEM_CHAR_ACK]) x2 (w1\<lparr>w_dev := d2\<rparr>)"
    using send_next [OF g(2), of XMODEM_CHAR_ACK] by auto
  have "xmodem_rx_loop io p ret (Suc fuel) ps (x, w) = xmodem_rx_loop io p 0 fuel ps' (x2, w1\<lparr>w_dev := d2\<rparr>)"
    unfolding loop_turn [OF assms(1) g(1)] using sd(1)
    by (simp add: xmodem_reply_def xmodem_ack_def XMODEM_RET_OK_def)
  with sd(2) g show ?thesis
    by (intro exI [of _ ps'] exI [of _ x2] exI [of _ "w1\<lparr>w_dev := d2\<rparr>"]) simp
qed

lemma turn_eot:
  assumes "going ret" and l: "line_at [XMODEM_CHAR_EOT] [] st x w" and "params_at k data ps"
  shows "\<exists>x' d'. xmodem_rx_loop io p ret (Suc fuel) ps (x, w) = Inr (XMODEM_RET_EOT, ps, x', w\<lparr>w_dev := d'\<rparr>) \<and>
    line_at [] [] (st @ [XMODEM_CHAR_ACK]) x' (w\<lparr>w_dev := d'\<rparr>)"
proof -
  obtain x1 d1 where g: "xmodem_rx_packet io p ps (x, w) = Inr (XMODEM_RET_EOT, ps, x1, w\<lparr>w_dev := d1\<rparr>)"
    "line_at [] [] st x1 (w\<lparr>w_dev := d1\<rparr>)"
    using packet_eot [OF l assms(3)] by blast
  obtain n x2 d2 where dr: "io_read io None (ucast (xp_block_sz ps) * 4) 25 (x1, w\<lparr>w_dev := d1\<rparr>) = Inr (n, None, x2, w\<lparr>w_dev := d2\<rparr>)"
    "line_at [] [] st x2 (w\<lparr>w_dev := d2\<rparr>)"
    using read_drain [OF g(2), of "ucast (xp_block_sz ps) * 4" 25] by auto
  obtain x3 d3 where sd: "xmodem_send io XMODEM_CHAR_ACK (x2, w\<lparr>w_dev := d2\<rparr>) = Inr (0, x3, w\<lparr>w_dev := d3\<rparr>)"
    "line_at [] [] (st @ [XMODEM_CHAR_ACK]) x3 (w\<lparr>w_dev := d3\<rparr>)"
    using send_next [OF dr(2), of XMODEM_CHAR_ACK] by auto
  have "xmodem_rx_loop io p ret (Suc fuel) ps (x, w) = Inr (XMODEM_RET_EOT, ps, x3, w\<lparr>w_dev := d3\<rparr>)"
    unfolding loop_turn [OF assms(1) g(1)] using dr(1) sd(1)
    by (simp add: loop_done xmodem_reply_def xmodem_ack_def) (simp add: XMODEM_RET_EOT_def)
  with sd(2) show ?thesis by blast
qed

text \<open>A whole session.\<close>

lemma session_nonempty: "session k bs \<noteq> []"
  by (cases bs) auto

lemma turns_bad:
  assumes "going ret" and "rest \<noteq> []" and "line_at (hd (bads @ rest)) (tl (bads @ rest)) st x w"
    and "\<forall>pkt \<in> set bads. spoiled (of_nat k) bs pkt"
    and "buffer_has p b w data" and "block p 12 \<inter> block b 262144 = {}"
    and "length data + bs \<le> 262144" and "params_at k data ps" and "bs \<in> {128, 1024}"
  shows "\<exists>r ps' x' w'. xmodem_rx_loop io p ret (length bads + fuel) ps (x, w) = xmodem_rx_loop io p r fuel ps' (x', w') \<and>
    going r \<and> line_at (hd rest) (tl rest) (st @ replicate (length bads) XMODEM_CHAR_NAK) x' w' \<and>
    params_at k data ps' \<and> buffer_has p b w' data \<and> buffer_frame b w w'"
  using assms
proof (induction bads arbitrary: ret st x w ps)
  case Nil
  then show ?case
    by (intro exI [of _ ret] exI [of _ ps] exI [of _ x] exI [of _ w]) simp
next
  case (Cons pkt bads)
  obtain nxt qs where q: "bads @ rest = nxt # qs" using Cons.prems(2) by (cases "bads @ rest") auto
  with Cons.prems(3) have l: "line_at pkt (nxt # qs) st x w" by simp
  obtain r ps1 x1 w1 where t: "xmodem_rx_loop io p ret (Suc (length bads + fuel)) ps (x, w) =
      xmodem_rx_loop io p r (length bads + fuel) ps1 (x1, w1)"
    "going r" "line_at nxt qs (st @ [XMODEM_CHAR_NAK]) x1 w1" "params_at k data ps1" "buffer_has p b w1 data"
    "buffer_frame b w w1"
    using turn_bad [OF Cons.prems(1) l _ Cons.prems(5-9)] Cons.prems(4) by fastforce
  from t(3) q have "line_at (hd (bads @ rest)) (tl (bads @ rest)) (st @ [XMODEM_CHAR_NAK]) x1 w1" by simp
  from Cons.IH [OF t(2) Cons.prems(2) this _ t(5) Cons.prems(6,7) t(4) Cons.prems(9)] Cons.prems(4)
  obtain r' ps' x' w' where i: "xmodem_rx_loop io p r (length bads + fuel) ps1 (x1, w1) =
      xmodem_rx_loop io p r' fuel ps' (x', w')" "going r'"
    "line_at (hd rest) (tl rest) ((st @ [XMODEM_CHAR_NAK]) @ replicate (length bads) XMODEM_CHAR_NAK) x' w'"
    "params_at k data ps'" "buffer_has p b w' data" "buffer_frame b w1 w'" by auto
  with t(1) buffer_frame_trans [OF t(6) i(6)] show ?case
    by (intro exI [of _ r'] exI [of _ ps'] exI [of _ x'] exI [of _ w']) simp
qed

lemma rx_session:
  assumes "going ret" and "line_at (hd (session k bs)) (tl (session k bs)) st x w" and "blocks_ok k bs"
    and "buffer_has p b w data" and "block p 12 \<inter> block b 262144 = {}"
    and "length data + length (sent_data bs) \<le> 262144" and "params_at k data ps"
    and "length (session k bs) \<le> fuel"
  shows "\<exists>ps' x' w'. xmodem_rx_loop io p ret fuel ps (x, w) = Inr (XMODEM_RET_EOT, ps', x', w') \<and>
    line_at [] [] (st @ replies bs) x' w' \<and> buffer_has p b w' (data @ sent_data bs) \<and>
    buffer_frame b w w' \<and> xp_curr_off ps' = of_nat (length (data @ sent_data bs))"
  using assms
proof (induction bs arbitrary: ret k st x w data ps fuel)
  case Nil
  then obtain f where f: "fuel = Suc f" by (cases fuel) auto
  from Nil.prems have l: "line_at [XMODEM_CHAR_EOT] [] st x w" by simp
  obtain x' d' where t: "xmodem_rx_loop io p ret (Suc f) ps (x, w) = Inr (XMODEM_RET_EOT, ps, x', w\<lparr>w_dev := d'\<rparr>)"
    "line_at [] [] (st @ [XMODEM_CHAR_ACK]) x' (w\<lparr>w_dev := d'\<rparr>)"
    using turn_eot [OF Nil.prems(1) l Nil.prems(7)] by blast
  with Nil.prems f show ?case
    by (intro exI [of _ ps] exI [of _ x'] exI [of _ "w\<lparr>w_dev := d'\<rparr>"]) (simp add: sent_data_def params_at_def)
next
  case (Cons bl bs)
  obtain bads d where bl: "bl = (bads, d)" by (cases bl)
  let ?rest = "xpacket (of_nat k) d # session (Suc k) bs"
  have sd: "sent_data (bl # bs) = d @ sent_data bs" by (simp add: sent_data_def bl)
  have ok: "length d \<in> {128, 1024}" "\<forall>pkt \<in> set bads. spoiled (of_nat k) (length d) pkt" "blocks_ok (Suc k) bs"
    using Cons.prems(3) by (simp_all add: bl)
  have room: "length data + length d \<le> 262144" "length (data @ d) + length (sent_data bs) \<le> 262144"
    using Cons.prems(6) sd by simp_all
  obtain f where f: "fuel = length bads + Suc f" "length (session (Suc k) bs) \<le> f"
  proof -
    have "length bads + Suc (length (session (Suc k) bs)) \<le> fuel" using Cons.prems(8) by (simp add: bl)
    then show thesis by (intro that [of "fuel - Suc (length bads)"]) auto
  qed
  have l0: "line_at (hd (bads @ ?rest)) (tl (bads @ ?rest)) st x w" using Cons.prems(2) by (simp add: bl)
  obtain r1 ps1 x1 w1 where t1: "xmodem_rx_loop io p ret (length bads + Suc f) ps (x, w) =
      xmodem_rx_loop io p r1 (Suc f) ps1 (x1, w1)" "going r1"
    "line_at (hd ?rest) (tl ?rest) (st @ replicate (length bads) XMODEM_CHAR_NAK) x1 w1"
    "params_at k data ps1" "buffer_has p b w1 data" "buffer_frame b w w1"
    using turns_bad [OF Cons.prems(1) _ l0 ok(2) Cons.prems(4,5) room(1) Cons.prems(7) ok(1)] by blast
  obtain nxt qs where q: "session (Suc k) bs = nxt # qs"
    using session_nonempty [of "Suc k" bs] by (cases "session (Suc k) bs") auto
  have l1: "line_at (xpacket (of_nat k) d) (nxt # qs) (st @ replicate (length bads) XMODEM_CHAR_NAK) x1 w1"
    using t1(3) q by simp
  obtain ps2 x2 w2 where t2: "xmodem_rx_loop io p r1 (Suc f) ps1 (x1, w1) = xmodem_rx_loop io p 0 f ps2 (x2, w2)"
    "line_at nxt qs ((st @ replicate (length bads) XMODEM_CHAR_NAK) @ [XMODEM_CHAR_ACK]) x2 w2"
    "params_at (Suc k) (data @ d) ps2" "buffer_has p b w2 (data @ d)" "buffer_frame b w1 w2"
    using turn_good [OF t1(2) l1 t1(5) Cons.prems(5) room(1) t1(4) ok(1)] by blast
  have go: "going 0" by (simp add: going_def XMODEM_RET_EOT_def XMODEM_RET_FATAL_def)
  have l2: "line_at (hd (session (Suc k) bs)) (tl (session (Suc k) bs))
      ((st @ replicate (length bads) XMODEM_CHAR_NAK) @ [XMODEM_CHAR_ACK]) x2 w2" using t2(2) q by simp
  obtain ps' x' w' where i: "xmodem_rx_loop io p 0 f ps2 (x2, w2) = Inr (XMODEM_RET_EOT, ps', x', w')"
    "line_at [] [] (((st @ replicate (length bads) XMODEM_CHAR_NAK) @ [XMODEM_CHAR_ACK]) @ replies bs) x' w'"
    "buffer_has p b w' ((data @ d) @ sent_data bs)" "buffer_frame b w2 w'"
    "xp_curr_off ps' = of_nat (length ((data @ d) @ sent_data bs))"
    using Cons.IH [OF go l2 ok(3) t2(4) Cons.prems(5) room(2) t2(3) f(2)] by blast
  have "buffer_frame b w w'"
    using t1(6) t2(5) i(4) by (blast intro: buffer_frame_trans)
  with i t1(1) t2(1) f(1) show ?case
    by (intro exI [of _ ps'] exI [of _ x'] exI [of _ w']) (simp add: bl sent_data_def)
qed

end
section \<open>The received file\<close>

text \<open>The two blocks \<open>protocol_file_init\<close> takes from the heap.\<close>

lemma file_init:
  assumes inv: "heap_inv (w_heap w)" and c: "protocol_file_init 0 w = Inr (r, file, w1)"
  shows "r = 0 \<and> (\<exists>p b. file = file_zero\<lparr>fh_data := p\<rparr> \<and> buffer_has p b w1 [] \<and>
    block p 12 \<inter> block b 262144 = {} \<and> heap_grown (w_heap w) (w_heap w1) \<and>
    (unat p, 12) \<in># used_regions (w_heap w1) \<and> (unat b, 262144) \<in># used_regions (w_heap w1) \<and>
    {unat p..<unat p + 12} \<subseteq> free_bytes (w_heap w) \<and> {unat b..<unat b + 262144} \<subseteq> free_bytes (w_heap w) \<and>
    unat p + 12 \<le> 2 ^ 32 \<and> unat b + 262144 \<le> 2 ^ 32 \<and>
    w_dev w1 = w_dev w \<and> w_if w1 = w_if w \<and> (\<forall>a. a \<notin> block p 12 \<longrightarrow> w_mem w1 a = w_mem w a))"
proof -
  obtain p h1 where p: "alloc (w_heap w) 12 0 = Inr (p, h1)"
    using c by (auto simp: protocol_file_init_def walloc_def bnd_eq_Inr sizeof_protocol_filedata_def PREALLOCATION_SIZE_def)
  let ?m1 = "store32 (mem_put (w_mem w) p (replicate 12 0)) (p + 8) PREALLOCATION_SIZE"
  obtain b h2 where b: "alloc h1 PREALLOCATION_SIZE 0 = Inr (b, h2)"
    and res: "r = 0" "file = file_zero\<lparr>fh_data := p\<rparr>" "w1 = w\<lparr>w_heap := h2, w_mem := store32 ?m1 (p + 4) b\<rparr>"
    using c p by (auto simp: protocol_file_init_def walloc_def bnd_eq_Inr fd_buff_sz_def
        sizeof_protocol_filedata_def PREALLOCATION_SIZE_def)
  have i1: "heap_inv h1" using alloc_spec [OF inv p] by blast
  note live1 = heap_alloc.al_live [OF inv p] and live2 = heap_alloc.al_live [OF i1 b]
  have u1: "(unat p, 12) \<in># used_regions h2" using heap_alloc.al_keeps [OF i1 b live1] by simp
  have top: "unat p + 12 \<le> 2 ^ 32" "unat b + 262144 \<le> 2 ^ 32"
  proof -
    have "unat p + unat (12 :: u32) \<le> unat (mr_end (mrange_of 0))" using alloc_spec [OF inv p] by blast
    then have "unat p + 12 \<le> unat (mr_end (mrange_of 0))" by simp
    moreover have lim: "unat (mr_end (mrange_of 0)) < 2 ^ 32" by simp
    ultimately show "unat p + 12 \<le> 2 ^ 32" by linarith
    have "unat b + unat PREALLOCATION_SIZE \<le> unat (mr_end (mrange_of 0))" using alloc_spec [OF i1 b] by blast
    then have "unat b + 262144 \<le> unat (mr_end (mrange_of 0))" by simp
    with lim show "unat b + 262144 \<le> 2 ^ 32" by linarith
  qed
  have free: "{unat p..<unat p + 12} \<subseteq> free_bytes (w_heap w)" "{unat b..<unat b + 262144} \<subseteq> free_bytes (w_heap w)"
    "{unat p..<unat p + 12} \<inter> {unat b..<unat b + 262144} = {}"
    using heap_alloc.al_avail [OF inv p] heap_alloc.al_avail [OF i1 b] heap_alloc.al_al_disjoint [OF inv p b]
    by auto
  have dis: "block p 12 \<inter> block b 262144 = {}"
    using free(3) block_interval [OF top(1)] block_interval [OF top(2)] by auto
  have b4: "block (p + 4) 4 \<subseteq> block p 12" "block (p + 8) 4 \<subseteq> block p 12" "block (p + 8) 4 \<inter> block (p + 4) 4 = {}"
    using block_add_subset [of 4 4 12 p] block_add_subset [of 8 4 12 p] block_add_disjoint [of 4 4 4 "p + 4"]
    by (auto simp: add.assoc)
  have fields: "fd_buff p w1 = b" "fd_buff_sz p w1 = PREALLOCATION_SIZE"
  proof -
    show "fd_buff p w1 = b" by (simp add: fd_buff_def res(3))
    have "mem_get (store32 ?m1 (p + 4) b) (p + 8) 4 = mem_get ?m1 (p + 8) 4"
      by (rule mem_get_other) (use b4(3) in \<open>auto intro!: store_other\<close>)
    then have "load32 (store32 ?m1 (p + 4) b) (p + 8) = load32 ?m1 (p + 8)" by (rule loads_eqI)
    then show "fd_buff_sz p w1 = PREALLOCATION_SIZE" by (simp add: fd_buff_sz_def res(3))
  qed
  have mem: "w_mem w1 a = w_mem w a" if "a \<notin> block p 12" for a
  proof -
    have "a \<notin> block (p + 4) 4" "a \<notin> block (p + 8) 4" using b4 that by auto
    then show ?thesis using that by (simp add: res(3) store_other mem_put_other)
  qed
  have "heap_grown (w_heap w) h2"
    using heap_grown_trans [OF heap_grown_alloc [OF inv p] heap_grown_alloc [OF i1 b]] .
  moreover have "buffer_has p b w1 []" using fields by (simp add: buffer_has_def)
  ultimately show ?thesis
    using mem dis free u1 live2 top res(1,2)
    by (intro conjI exI [of _ p] exI [of _ b]) (simp_all add: res(3))
qed

text \<open>Reading it back.\<close>

lemma received_read:
  assumes has: "buffer_has (fh_data file) b w data" and sz: "unat (fh_size file) = length data"
    and n: "unat off + unat n \<le> length data" and dis: "block buf (unat n) \<inter> block b 262144 = {}"
  shows "protocol_file_read file buf n off (x, w) =
    Inr (n, x, w\<lparr>w_mem := mem_put (w_mem w) buf (take (unat n) (drop (unat off) data))\<rparr>)"
proof -
  have len: "length data \<le> 262144" using has by (simp add: buffer_has_def)
  have "unat (n + off) = unat n + unat off" using n len by (intro unat_add_no_wrap) simp
  then have fits: "\<not> n + off > fh_size file" using n sz by (simp add: word_less_nat_alt)
  have sub: "block (b + off) (unat n) \<subseteq> block b 262144"
    using block_add_subset [of "unat off" "unat n" 262144 b] n len by simp
  have "mem_get (w_mem w) b (unat off + unat n + (length data - (unat off + unat n))) = data"
    using has n by (simp add: buffer_has_def)
  then have "mem_get (w_mem w) b (unat off + unat n) = take (unat off + unat n) data"
    by (metis length_mem_get mem_get_add append_eq_conv_conj)
  then have "mem_get (w_mem w) b (unat off) @ mem_get (w_mem w) (b + off) (unat n) = take (unat off + unat n) data"
    by (simp add: mem_get_add)
  then have "mem_get (w_mem w) (b + off) (unat n) = drop (unat off) (take (unat off + unat n) data)"
    by (metis append_eq_conv_conj length_mem_get)
  then have "mem_get (w_mem w) (b + off) (unat n) = take (unat n) (drop (unat off) data)"
    by (simp add: drop_take)
  moreover have "mem_copy (w_mem w) buf (b + off) (unat n) =
      mem_put (w_mem w) buf (mem_get (w_mem w) (b + off) (unat n))"
    using dis sub n len by (intro mem_copy_disjoint) auto
  ultimately show ?thesis
    using fits has by (simp add: protocol_file_read_def buffer_has_def)
qed

text \<open>The received file as a source of bytes: what loads a kernel from a disk loads it from here.\<close>

lemma received_source:
  assumes sz: "unat (fh_size file) = length data"
  shows "file_source protocol_file_read file
    (\<lambda>(x, w). buffer_has (fh_data file) b w data \<and> heap_inv (w_heap w) \<and>
       (block (fh_data file) 12 \<union> block b 262144) \<inter> {a. unat a \<in> free_bytes (w_heap w)} = {})
    (block (fh_data file) 12 \<union> block b 262144) (\<lambda>i. data ! i) (\<lambda>off n. off + n \<le> length data)"
proof (unfold_locales, goal_cases)
  case (1 x w off n buf)
  let ?p = "fh_data file" and ?new = "take (unat n) (drop (unat off) data)"
  have has: "buffer_has ?p b w data" using 1 by simp
  have dis: "block buf (unat n) \<inter> (block ?p 12 \<union> block b 262144) = {}"
    using 1(3) by (auto simp: reachable_def)
  let ?w = "w\<lparr>w_mem := mem_put (w_mem w) buf ?new\<rparr>"
  have read: "protocol_file_read file buf n off (x, w) = Inr (n, x, ?w)"
    by (rule received_read [OF has sz 1(2)]) (use dis in auto)
  have len: "length ?new = unat n" using 1(2) by simp
  have out: "w_mem ?w a = w_mem w a" if "a \<notin> block buf (unat n)" for a
    using that len by (simp add: mem_put_other)
  have keep: "mem_get (w_mem ?w) a k = mem_get (w_mem w) a k"
    if "block a k \<subseteq> block ?p 12 \<union> block b 262144" and "k \<le> 2 ^ 32" for a k
    by (rule mem_get_other) (use out dis that in auto)
  have in_p: "block (?p + 4) 4 \<subseteq> block ?p 12" "block (?p + 8) 4 \<subseteq> block ?p 12"
    using block_add_subset [of 4 4 12 ?p] block_add_subset [of 8 4 12 ?p] by simp_all
  have "load32 (w_mem ?w) (?p + 4) = load32 (w_mem w) (?p + 4)"
    "load32 (w_mem ?w) (?p + 8) = load32 (w_mem w) (?p + 8)"
    by (rule loads_eqI, rule keep; use in_p in auto)+
  moreover have "mem_get (w_mem ?w) b (length data) = data"
    using keep [of b "length data"] has block_mono [of "length data" 262144 b]
    by (auto simp: buffer_has_def)
  ultimately have "buffer_has ?p b ?w data"
    using has by (simp add: buffer_has_def fd_buff_def fd_buff_sz_def)
  moreover have "mem_get (w_mem ?w) buf (unat n) = map (\<lambda>i. data ! i) [unat off..<unat off + unat n]"
  proof -
    have "?new = map (\<lambda>i. data ! i) [unat off..<unat off + unat n]"
      using 1(2) by (intro nth_equalityI) auto
    moreover have "mem_get (w_mem ?w) buf (length ?new) = ?new"
    proof -
      have "unat n < 2 ^ 32" by simp
      then have "length ?new \<le> 2 ^ 32" using len by linarith
      from mem_get_put [OF this] show ?thesis by simp
    qed
    ultimately show ?thesis using len by simp
  qed
  ultimately show ?case
    using 1(1) out by (auto simp: read)
next
  case (2 x w)
  then show ?case by simp
next
  case (3 x w w')
  let ?own = "block (fh_data file) 12 \<union> block b 262144"
  have keep: "mem_get (w_mem w') a k = mem_get (w_mem w) a k" if "block a k \<subseteq> ?own" "k \<le> 2 ^ 32" for a k
    by (rule mem_get_other) (use 3(4) that in auto)
  have in_p: "block (fh_data file + 4) 4 \<subseteq> ?own" "block (fh_data file + 8) 4 \<subseteq> ?own"
    using block_add_subset [of 4 4 12 "fh_data file"] block_add_subset [of 8 4 12 "fh_data file"] by auto
  have "load32 (w_mem w') (fh_data file + 4) = load32 (w_mem w) (fh_data file + 4)"
    "load32 (w_mem w') (fh_data file + 8) = load32 (w_mem w) (fh_data file + 8)"
    by (rule loads_eqI, rule keep; use in_p in auto)+
  moreover have "mem_get (w_mem w') b (length data) = mem_get (w_mem w) b (length data)" if "length data \<le> 262144"
    using that block_mono [of "length data" 262144 b] by (intro keep) auto
  ultimately show ?case
    using 3 by (auto simp: buffer_has_def fd_buff_def fd_buff_sz_def)
qed

context packet_line begin

lemma recv_session:
  assumes line: "line_at [] (session 1 blks) st x w" and inv: "heap_inv (w_heap w)"
    and init: "protocol_file_init 0 w = Inr (r0, file0, w0)"
    and ok: "blocks_ok 1 blks" and room: "length (sent_data blks) \<le> 262144"
    and fuel: "length (session 1 blks) \<le> fuel"
  shows "\<exists>x' w' b. xmodem_recv io PROTOCOLTYPE_XMODEM fuel (x, w) =
      Inr (0, file0\<lparr>fh_size := of_nat (length (sent_data blks))\<rparr>, x', w') \<and>
    line_at [] [] (st @ XMODEM_CHAR_NAK # replies blks) x' w' \<and>
    buffer_has (fh_data file0) b w' (sent_data blks) \<and> w_heap w' = w_heap w0 \<and>
    heap_grown (w_heap w) (w_heap w') \<and> w_if w' \<and>
    (block (fh_data file0) 12 \<union> block b 262144) \<inter> {a. unat a \<in> free_bytes (w_heap w')} = {} \<and>
    (\<forall>a. unat a \<notin> free_bytes (w_heap w) \<longrightarrow> w_mem w' a = w_mem w a)"
proof -
  obtain p b where F: "r0 = 0" "file0 = file_zero\<lparr>fh_data := p\<rparr>" "buffer_has p b w0 []"
    "block p 12 \<inter> block b 262144 = {}" "heap_grown (w_heap w) (w_heap w0)"
    "(unat p, 12) \<in># used_regions (w_heap w0)" "(unat b, 262144) \<in># used_regions (w_heap w0)"
    "{unat p..<unat p + 12} \<subseteq> free_bytes (w_heap w)" "{unat b..<unat b + 262144} \<subseteq> free_bytes (w_heap w)"
    "unat p + 12 \<le> 2 ^ 32" "unat b + 262144 \<le> 2 ^ 32" "w_dev w0 = w_dev w"
    "\<forall>a. a \<notin> block p 12 \<longrightarrow> w_mem w0 a = w_mem w a"
    using file_init [OF inv init] by blast
  let ?ps = "\<lparr>xp_block_sz = 0, xp_chksum_type = XMODEM_CHKSUMTYPE_SUM, xp_start_ch = XMODEM_STARTCH_XMODEM,
      xp_last_block = 0, xp_total_sz = 0, xp_timeout = 5000, xp_curr_off = 0\<rparr>"
  let ?w0 = "interrupts_enable (interrupts_disable w0)"
  have l0: "line_at [] (session 1 blks) st x ?w0"
    using line F(12) by (simp add: line_at_def interrupts_enable_def interrupts_disable_def)
  obtain nxt qs where q: "session 1 blks = nxt # qs"
    using session_nonempty [of 1 blks] by (cases "session 1 blks") auto
  obtain x1 d1 where s1: "xmodem_send io XMODEM_STARTCH_XMODEM (x, ?w0) = Inr (0, x1, ?w0\<lparr>w_dev := d1\<rparr>)"
    "line_at (hd (session 1 blks)) (tl (session 1 blks)) (st @ [XMODEM_STARTCH_XMODEM]) x1 (?w0\<lparr>w_dev := d1\<rparr>)"
    using send_next [OF l0, of XMODEM_STARTCH_XMODEM] q by auto
  have has0: "buffer_has p b (?w0\<lparr>w_dev := d1\<rparr>) []"
    using F(3) by (simp add: buffer_has_def fd_buff_def fd_buff_sz_def interrupts_enable_def interrupts_disable_def)
  have go: "going 0" by (simp add: going_def XMODEM_RET_EOT_def XMODEM_RET_FATAL_def)
  have ps: "params_at 1 [] ?ps" by (simp add: params_at_def)
  obtain ps' x' w' where R: "xmodem_rx_loop io p 0 fuel ?ps (x1, ?w0\<lparr>w_dev := d1\<rparr>) = Inr (XMODEM_RET_EOT, ps', x', w')"
    "line_at [] [] ((st @ [XMODEM_STARTCH_XMODEM]) @ replies blks) x' w'"
    "buffer_has p b w' ([] @ sent_data blks)" "buffer_frame b (?w0\<lparr>w_dev := d1\<rparr>) w'"
    "xp_curr_off ps' = of_nat (length ([] @ sent_data blks))"
    using rx_session [OF go s1(2) ok has0 F(4) _ ps fuel] room by auto
  have rx: "xmodem_rx io p fuel ?ps (x, w0) = Inr (0, ps'\<lparr>xp_total_sz := xp_curr_off ps'\<rparr>, x', w')"
    using s1(1) R(1) by (simp add: xmodem_rx_def xmodem_start_def XMODEM_RET_EOT_def XMODEM_RET_FATAL_def)
  have run: "xmodem_recv io PROTOCOLTYPE_XMODEM fuel (x, w) =
      Inr (0, file0\<lparr>fh_size := of_nat (length (sent_data blks))\<rparr>, x', w')"
    using init F(1,2) rx R(5) by (simp add: xmodem_recv_def Let_def)
  have heap: "w_heap w' = w_heap w0" and wif: "w_if w'"
    using R(4) by (simp_all add: buffer_frame_def interrupts_enable_def interrupts_disable_def)
  have hi: "heap_inv (w_heap w0)" using F(5) by (simp add: heap_grown_def)
  have own: "(block p 12 \<union> block b 262144) \<inter> {a. unat a \<in> free_bytes (w_heap w')} = {}"
    using heap_alloc.live_avail [OF hi F(6)] heap_alloc.live_avail [OF hi F(7)]
      block_interval [OF F(10)] block_interval [OF F(11)] heap by auto
  have mem: "w_mem w' a = w_mem w a" if "unat a \<notin> free_bytes (w_heap w)" for a
  proof -
    have "a \<notin> block p 12" "a \<notin> block b 262144"
      using that F(8,9) block_interval [OF F(10)] block_interval [OF F(11)] by auto
    with R(4) F(13) show ?thesis
      by (simp add: buffer_frame_def interrupts_enable_def interrupts_disable_def)
  qed
  have "XMODEM_STARTCH_XMODEM = XMODEM_CHAR_NAK" by (simp add: XMODEM_STARTCH_XMODEM_def XMODEM_CHAR_NAK_def)
  with run R(2,3) heap F(2,5) wif own mem show ?thesis
    by (intro exI [of _ x'] exI [of _ w'] exI [of _ b]) simp
qed

end

section \<open>Properties\<close>


text \<open>A line that hands over one packet for each character it is sent.\<close>

type_synonym wire = "u8 list \<times> u8 list list \<times> u8 list"

definition wire_io :: "(wire, 'd) proto_io" where
  "wire_io = \<lparr>
     io_read = (\<lambda>buf sz timeout ((p, q, s), w).
       let n = min (unat sz) (length p)
       in Inr (of_nat n, map_option (\<lambda>b. take n p @ drop n b) buf, (drop n p, q, s), w)),
     io_write = (\<lambda>buf sz ((p, q, s), w).
       let c = take (unat sz) buf
       in Inr (sz, (case q of [] \<Rightarrow> (p, [], s @ c) | k # q \<Rightarrow> (p @ k, q, s @ c)), w))\<rparr>"

definition wire_ok :: "wire \<Rightarrow> 'd \<Rightarrow> bool" where "wire_ok x d = True"

definition wire_pend :: "wire \<Rightarrow> 'd \<Rightarrow> u8 list" where "wire_pend x d = fst x"

definition wire_queue :: "wire \<Rightarrow> 'd \<Rightarrow> u8 list list" where "wire_queue x d = fst (snd x)"

definition wire_sent :: "wire \<Rightarrow> 'd \<Rightarrow> u8 list" where "wire_sent x d = snd (snd x)"

lemmas wire_defs = wire_ok_def wire_pend_def wire_queue_def wire_sent_def wire_io_def

interpretation wire: packet_line wire_io wire_ok wire_pend wire_queue wire_sent
proof (unfold_locales, goal_cases)
  case (1 x w sz buf timeout)
  obtain p q s where x: "x = (p, q, s)" by (cases x)
  show ?case
    by (intro exI [of _ "min (unat sz) (length p)"] exI [of _ "(drop (min (unat sz) (length p)) p, q, s)"]
        exI [of _ "w_dev w"]) (simp add: x wire_defs Let_def)
next
  case (2 x w c)
  obtain p q s where x: "x = (p, q, s)" by (cases x)
  show ?case
    by (intro exI [of _ "case q of [] \<Rightarrow> (p, [], s @ [c]) | k # q \<Rightarrow> (p @ k, q, s @ [c])"] exI [of _ "w_dev w"])
      (simp add: x wire_defs Let_def split: list.split)
qed

definition wire_world :: "unit world" where
  "wire_world = \<lparr>w_mem = (\<lambda>_. 0), w_heap = example_heap, w_if = True, w_dev = ()\<rparr>"

text \<open>One block, whose first packet is lost and whose second arrives with a wrong sum.\<close>

definition wire_blocks :: "xblock list" where
  "wire_blocks = [([[], [1, 1, 254] @ replicate 128 7 @ [0]], replicate 128 7)]"


end
