(* ===== verification/Sector_Mapper.thy ===== *)
theory Sector_Mapper
  imports Fat
begin

text \<open>
  The program that records where the second stage lies on the floppy image, run on the build host:
  \<^verbatim>\<open>tools/sector_mapper/src/main.c\<close>, \<^verbatim>\<open>src/fat.c\<close>, \<^verbatim>\<open>inc/fat.h\<close> and \<^verbatim>\<open>inc/sector_map.h\<close>.
  The host is 64-bit: \<open>size_t\<close> and \<open>off_t\<close> are 64-bit words, \<open>off_t\<close> compared with its sign, and
  \<open>unsigned\<close> and \<open>uint32_t\<close> 32-bit words. A path is a C string. The files are byte lists, and which of the
  calls of the C library fail is a list of the host. The messages on the error stream are left out.
\<close>

unbundle bit_operations_syntax

section \<open>The host\<close>

text \<open>
  \<open>ho_fds\<close> is the table of open descriptors, path and offset; \<open>ho_faults\<close> says of each call to come
  that can fail whether it does, and none fails behind its end.
\<close>

record host =
  ho_files :: "u8 list \<rightharpoonup> u8 list"
  ho_fds :: "(u8 list \<times> nat) option list"
  ho_faults :: "bool list"

definition call_fails :: "host \<Rightarrow> bool" where
  "call_fails h = (case ho_faults h of [] \<Rightarrow> False | f # _ \<Rightarrow> f)"

definition called :: "host \<Rightarrow> host" where
  "called h = h\<lparr>ho_faults := tl (ho_faults h)\<rparr>"

definition free_fd :: "'a option list \<Rightarrow> nat" where
  "free_fd fds = length (takeWhile (\<lambda>f. f \<noteq> None) fds)"

definition host_open :: "u8 list \<Rightarrow> bool \<Rightarrow> host \<Rightarrow> int \<times> host" where
  "host_open path creat h =
     (if call_fails h \<or> (ho_files h path = None \<and> \<not> creat) then (-1, called h)
      else
        let fd = free_fd (ho_fds h);
            fds = (if fd < length (ho_fds h) then ho_fds h else ho_fds h @ [None]);
            files = (if ho_files h path = None then (ho_files h)(path \<mapsto> []) else ho_files h)
        in (int fd, (called h)\<lparr>ho_fds := fds[fd := Some (path, 0)], ho_files := files\<rparr>))"

definition fd_path :: "int \<Rightarrow> host \<Rightarrow> u8 list option" where
  "fd_path fd h =
     (if 0 \<le> fd \<and> nat fd < length (ho_fds h) then map_option fst (ho_fds h ! nat fd) else None)"

definition fd_pos :: "int \<Rightarrow> host \<Rightarrow> nat" where
  "fd_pos fd h = (case ho_fds h ! nat fd of None \<Rightarrow> 0 | Some (_, pos) \<Rightarrow> pos)"

definition set_pos :: "int \<Rightarrow> u8 list \<Rightarrow> nat \<Rightarrow> host \<Rightarrow> host" where
  "set_pos fd path pos h = h\<lparr>ho_fds := (ho_fds h)[nat fd := Some (path, pos)]\<rparr>"

text \<open>The bytes a read transfers, \<open>None\<close> for -1.\<close>

definition host_pread :: "int \<Rightarrow> nat \<Rightarrow> u64 \<Rightarrow> host \<Rightarrow> u8 list option \<times> host" where
  "host_pread fd n off h =
     (if call_fails h \<or> off <s 0 then (None, called h)
      else (Option.bind (fd_path fd h) (\<lambda>path. map_option (\<lambda>f. take n (drop (unat off) f)) (ho_files h path)),
            called h))"

definition host_read :: "int \<Rightarrow> nat \<Rightarrow> host \<Rightarrow> u8 list option \<times> host" where
  "host_read fd n h =
     (if call_fails h then (None, called h)
      else case fd_path fd h of
             None \<Rightarrow> (None, called h)
           | Some path \<Rightarrow>
               (case ho_files h path of
                  None \<Rightarrow> (None, called h)
                | Some f \<Rightarrow>
                    let b = take n (drop (fd_pos fd h) f)
                    in (Some b, set_pos fd path (fd_pos fd h + length b) (called h))))"

text \<open>A file with the bytes \<open>b\<close> written at \<open>pos\<close>; a gap is filled with zeros.\<close>

definition file_put :: "u8 list \<Rightarrow> nat \<Rightarrow> u8 list \<Rightarrow> u8 list" where
  "file_put f pos b = take pos (f @ replicate (pos - length f) 0) @ b @ drop (pos + length b) f"

text \<open>Whether a write transfers all its bytes; the program treats any other number as a failure.\<close>

definition host_pwrite :: "int \<Rightarrow> u8 list \<Rightarrow> u64 \<Rightarrow> host \<Rightarrow> bool \<times> host" where
  "host_pwrite fd b off h =
     (if call_fails h \<or> off <s 0 then (False, called h)
      else case fd_path fd h of
             None \<Rightarrow> (False, called h)
           | Some path \<Rightarrow>
               (case ho_files h path of
                  None \<Rightarrow> (False, called h)
                | Some f \<Rightarrow>
                    (True, (called h)\<lparr>ho_files := (ho_files h)(path \<mapsto> file_put f (unat off) b)\<rparr>)))"

definition host_write :: "int \<Rightarrow> u8 list \<Rightarrow> host \<Rightarrow> bool \<times> host" where
  "host_write fd b h =
     (if call_fails h then (False, called h)
      else case fd_path fd h of
             None \<Rightarrow> (False, called h)
           | Some path \<Rightarrow>
               (case ho_files h path of
                  None \<Rightarrow> (False, called h)
                | Some f \<Rightarrow>
                    (True, set_pos fd path (fd_pos fd h + length b)
                      ((called h)\<lparr>ho_files := (ho_files h)(path \<mapsto> file_put f (fd_pos fd h) b)\<rparr>))))"

definition host_close :: "int \<Rightarrow> host \<Rightarrow> host" where
  "host_close fd h = (if 0 \<le> fd then h\<lparr>ho_fds := (ho_fds h)[nat fd := None]\<rparr> else h)"

text \<open>Whether \<open>malloc\<close> gives memory.\<close>

definition host_malloc :: "host \<Rightarrow> bool \<times> host" where
  "host_malloc h = (\<not> call_fails h, called h)"

section \<open>The file system of the image\<close>

text \<open>Fields of the packed structures in a byte list.\<close>

definition byte_at :: "u8 list \<Rightarrow> nat \<Rightarrow> u8" where
  "byte_at b i = b ! i"

definition half_at :: "u8 list \<Rightarrow> nat \<Rightarrow> u16" where
  "half_at b i = ucast (b ! i) OR push_bit 8 (ucast (b ! Suc i))"

definition long_at :: "u8 list \<Rightarrow> nat \<Rightarrow> u32" where
  "long_at b i = ucast (half_at b i) OR push_bit 16 (ucast (half_at b (i + 2)))"

text \<open>The packed structures, field by field with their sizes, and the offset of a field.\<close>

definition tool_bootsector_fields :: "(string \<times> nat) list" where
  "tool_bootsector_fields =
     [(''jump'', 3), (''name'', 8), (''bytes_per_sector'', 2), (''sectors_per_cluster'', 1), (''reserved_sectors'', 2),
      (''fat_copies'', 1), (''root_dir_entries'', 2), (''total_sectors'', 2), (''media_desc_type'', 1),
      (''sectors_per_fat'', 2), (''sectors_per_track'', 2), (''heads'', 2), (''hidden_sectors'', 4),
      (''total_sectors_big'', 4),
      (''fat12/fat32'', max (1 + 1 + 1 + 4 + 11 + 8 + 444) (4 + 2 + 2 + 4 + 2 + 2 + 11 + 1 + 1 + 1 + 4 + 11 + 8 + 416)),
      (''stage2_map_sector'', 2), (''stage2_addr'', 2), (''signature'', 2)]"

definition tool_dirent_fields :: "(string \<times> nat) list" where
  "tool_dirent_fields =
     [(''filename'', 11), (''attr'', 1), (''_reserved'', 10), (''time'', 2), (''date'', 2), (''start_cluster'', 2),
      (''filesize'', 4)]"

definition field_offset :: "(string \<times> nat) list \<Rightarrow> string \<Rightarrow> nat" where
  "field_offset fs f = sum_list (map snd (takeWhile (\<lambda>(g, n). g \<noteq> f) fs))"

definition tool_bootsector_size :: nat where
  "tool_bootsector_size = sum_list (map snd tool_bootsector_fields)"

definition tool_dirent_size :: nat where
  "tool_dirent_size = sum_list (map snd tool_dirent_fields)"

lemma tool_sizes: "tool_bootsector_size = 512" "tool_dirent_size = 32"
  by (simp_all add: tool_bootsector_size_def tool_bootsector_fields_def tool_dirent_size_def tool_dirent_fields_def)

definition tb_bytes_per_sector :: "u8 list \<Rightarrow> u16" where "tb_bytes_per_sector b = half_at b 11"
definition tb_sectors_per_cluster :: "u8 list \<Rightarrow> u8" where "tb_sectors_per_cluster b = byte_at b 13"
definition tb_reserved_sectors :: "u8 list \<Rightarrow> u16" where "tb_reserved_sectors b = half_at b 14"
definition tb_fat_copies :: "u8 list \<Rightarrow> u8" where "tb_fat_copies b = byte_at b 16"
definition tb_root_dir_entries :: "u8 list \<Rightarrow> u16" where "tb_root_dir_entries b = half_at b 17"
definition tb_sectors_per_fat :: "u8 list \<Rightarrow> u16" where "tb_sectors_per_fat b = half_at b 22"

definition offsetof_stage2_map_sector :: u64 where
  "offsetof_stage2_map_sector = of_nat (field_offset tool_bootsector_fields ''stage2_map_sector'')"

lemma stage2_map_sector_at: "offsetof_stage2_map_sector = 506"
  by (simp add: offsetof_stage2_map_sector_def field_offset_def tool_bootsector_fields_def)

lemma tool_field_offsets:
  "field_offset tool_bootsector_fields ''bytes_per_sector'' = 11"
  "field_offset tool_bootsector_fields ''sectors_per_cluster'' = 13"
  "field_offset tool_bootsector_fields ''reserved_sectors'' = 14"
  "field_offset tool_bootsector_fields ''fat_copies'' = 16"
  "field_offset tool_bootsector_fields ''root_dir_entries'' = 17"
  "field_offset tool_bootsector_fields ''sectors_per_fat'' = 22"
  "field_offset tool_dirent_fields ''attr'' = 11"
  "field_offset tool_dirent_fields ''start_cluster'' = 26"
  "field_offset tool_dirent_fields ''filesize'' = 28"
  by (simp_all add: field_offset_def tool_bootsector_fields_def tool_dirent_fields_def)

definition td_attr :: "u8 list \<Rightarrow> u8" where "td_attr b = byte_at b 11"
definition td_start_cluster :: "u8 list \<Rightarrow> u16" where "td_start_cluster b = half_at b 26"
definition td_filesize :: "u8 list \<Rightarrow> u32" where "td_filesize b = long_at b 28"
definition TOOL_ATTR_VOLUMELABEL :: u8 where "TOOL_ATTR_VOLUMELABEL = push_bit 3 1"
definition TOOL_ATTR_DIRECTORY :: u8 where "TOOL_ATTR_DIRECTORY = push_bit 4 1"

record tool_file =
  tl_size :: u64
  tl_first_cluster :: u64
  tl_attr :: u8

record tool_fat =
  tf_fd :: int
  tf_cluster_size :: u64
  tf_fat_offset :: u64
  tf_fat_size :: u64
  tf_data_offset :: u64
  tf_bootsector :: "u8 list option"
  tf_root_dir :: tool_file

definition tool_fat_zero :: tool_fat where
  "tool_fat_zero = \<lparr>tf_fd = 0, tf_cluster_size = 0, tf_fat_offset = 0, tf_fat_size = 0, tf_data_offset = 0,
     tf_bootsector = None, tf_root_dir = \<lparr>tl_size = 0, tl_first_cluster = 0, tl_attr = 0\<rparr>\<rparr>"

definition tool_fat_close :: "tool_fat \<Rightarrow> host \<Rightarrow> host" where
  "tool_fat_close hand h = (if tf_fd hand \<noteq> 0 then host_close (tf_fd hand) h else h)"

text \<open>A product of two \<open>uint16_t\<close> is an \<open>int\<close>, extended with its sign.\<close>

definition int_product :: "u16 \<Rightarrow> u16 \<Rightarrow> u64" where
  "int_product a b = scast (ucast a * ucast b :: u32)"

definition tool_fat_open :: "u8 list \<Rightarrow> host \<Rightarrow> int \<times> tool_fat \<times> host" where
  "tool_fat_open path h =
     (let hand = tool_fat_zero;
          (fd, h) = host_open path False h;
          hand = hand\<lparr>tf_fd := fd\<rparr>
      in if fd < 0 then (-1, hand, h)
         else
           let (ok, h) = host_malloc h
           in if \<not> ok then (-1, hand, tool_fat_close hand h)
              else
                let (b, h) = host_read fd tool_bootsector_size h
                in case b of
                     None \<Rightarrow> (-1, hand, tool_fat_close hand h)
                   | Some b \<Rightarrow>
                       if length b \<noteq> tool_bootsector_size then (-1, hand, tool_fat_close hand h)
                       else
                         let bps = tb_bytes_per_sector b;
                             hand = hand\<lparr>
                               tf_bootsector := Some b,
                               tf_cluster_size := int_product (ucast (tb_sectors_per_cluster b)) bps,
                               tf_fat_offset := int_product (tb_reserved_sectors b) bps,
                               tf_fat_size := int_product (tb_sectors_per_fat b) bps\<rparr>;
                             root = \<lparr>tl_size = ucast (tb_root_dir_entries b) * of_nat tool_dirent_size,
                               tl_first_cluster = tf_fat_offset hand + tf_fat_size hand * ucast (tb_fat_copies b),
                               tl_attr = 0\<rparr>
                         in (0, hand\<lparr>tf_root_dir := root, tf_data_offset := tl_first_cluster root + tl_size root\<rparr>, h))"

definition tool_get_fat_entry :: "tool_fat \<Rightarrow> u32 \<Rightarrow> host \<Rightarrow> u32 \<times> host" where
  "tool_get_fat_entry hand cluster_num h =
     (let fat_entry_offset = tf_fat_offset hand + ucast ((cluster_num * 3) div 2);
          (b, h) = host_pread (tf_fd hand) 2 fat_entry_offset h
      in case b of
           None \<Rightarrow> (0xFFFFFFFF, h)
         | Some b \<Rightarrow>
             if length b \<noteq> 2 then (0xFFFFFFFF, h)
             else
               let fat_entry = half_at b 0;
                   fat_entry = (if cluster_num AND 0x01 \<noteq> 0 then drop_bit 4 fat_entry else fat_entry)
               in (ucast (fat_entry AND 0xFFF), h))"

definition tool_get_next_cluster :: "tool_fat \<Rightarrow> u64 \<Rightarrow> host \<Rightarrow> (u64 \<times> host) res" where
  "tool_get_next_cluster hand cluster h =
     (if cluster <s tf_data_offset hand then
        if cluster <s tl_first_cluster (tf_root_dir hand) then Inr (0, h)
        else if cluster + tf_cluster_size hand <s tf_data_offset hand then Inr (cluster + tf_cluster_size hand, h)
        else Inr (0, h)
      else if tf_cluster_size hand = 0 then Inl Fault
      else
        let cluster_num = ucast ((cluster - tf_data_offset hand) div tf_cluster_size hand + 2) :: u32;
            (fat_entry, h) = tool_get_fat_entry hand cluster_num h
        in Inr (if fat_entry \<ge> 0x002 \<and> fat_entry < 0xff0
                then tf_data_offset hand + ucast (fat_entry - 2) * tf_cluster_size hand else 0, h))"

text \<open>\<open>dirent->start_cluster - 2\<close> is an \<open>int\<close>, below zero for an empty file.\<close>

definition tool_populate_file_handle :: "tool_fat \<Rightarrow> u8 list \<Rightarrow> tool_file" where
  "tool_populate_file_handle hand dirent =
     \<lparr>tl_size = ucast (td_filesize dirent),
      tl_first_cluster = tf_data_offset hand + (ucast (td_start_cluster dirent) - 2) * tf_cluster_size hand,
      tl_attr = td_attr dirent\<rparr>"

text \<open>The function of the same name in the loader, character for character.\<close>

definition tool_fat_strcmp :: "u8 list \<Rightarrow> u8 list \<Rightarrow> int res" where
  "tool_fat_strcmp fat_name filename = fat_strcmp fat_name filename"

text \<open>The entries of one cluster of a directory, \<open>n\<close> left from the index \<open>i\<close> on.\<close>

fun tool_scan_dirents :: "u8 list \<Rightarrow> u8 list \<Rightarrow> nat \<Rightarrow> nat \<Rightarrow> u8 list option res" where
  "tool_scan_dirents dents filename i 0 = Inr None"
| "tool_scan_dirents dents filename i (Suc n) =
     (let d = drop (i * tool_dirent_size) dents
      in if byte_at d 0 = 0 \<or> td_attr d AND TOOL_ATTR_VOLUMELABEL \<noteq> 0
         then tool_scan_dirents dents filename (Suc i) n
         else bnd (tool_fat_strcmp d filename) (\<lambda>r.
           if r = 0 then Inr (Some d) else tool_scan_dirents dents filename (Suc i) n))"

text \<open>The loop over the clusters of a directory, which a circular chain keeps running: fuel.\<close>

fun tool_find_loop ::
  "nat \<Rightarrow> tool_fat \<Rightarrow> u64 \<Rightarrow> u8 list \<Rightarrow> host \<Rightarrow> (int \<times> tool_file option \<times> host) res" where
  "tool_find_loop fuel hand dent_off filename h =
     (if dent_off \<noteq> 0 then
        (case fuel of
           0 \<Rightarrow> Inl Loop
         | Suc fuel \<Rightarrow>
             (case host_pread (tf_fd hand) (unat (tf_cluster_size hand)) dent_off h of
                (None, h) \<Rightarrow> Inr (-1, None, h)
              | (Some dents, h) \<Rightarrow>
                  if length dents \<noteq> unat (tf_cluster_size hand) then Inr (-1, None, h)
                  else
                    bnd (tool_scan_dirents dents filename 0 (unat (tf_cluster_size hand) div tool_dirent_size)) (\<lambda>d.
                      case d of
                        Some d \<Rightarrow> Inr (0, Some (tool_populate_file_handle hand d), h)
                      | None \<Rightarrow>
                          bnd (tool_get_next_cluster hand dent_off h) (\<lambda>(dent_off, h).
                            tool_find_loop fuel hand dent_off filename h))))
      else Inr (-1, None, h))"

declare tool_find_loop.simps [simp del]

text \<open>\<open>fat_find_file\<close> for a name without a separator: all of it behind the loop over the separators.\<close>

definition tool_find_entry ::
  "nat \<Rightarrow> tool_fat \<Rightarrow> tool_file \<Rightarrow> u8 list \<Rightarrow> host \<Rightarrow> (int \<times> tool_file option \<times> host) res" where
  "tool_find_entry fuel hand dir filename h =
     bnd (strlen filename) (\<lambda>n.
       if n > 11 then Inr (-1, None, h)
       else
         let (ok, h) = host_malloc h
         in if \<not> ok then Inr (-1, None, h)
            else tool_find_loop fuel hand (tl_first_cluster dir) filename h)"

text \<open>The loop over the separators; the names it calls the function with have none themselves.\<close>

function tool_find_path ::
  "nat \<Rightarrow> tool_fat \<Rightarrow> tool_file \<Rightarrow> u8 list \<Rightarrow> host \<Rightarrow> (int \<times> tool_file option \<times> host) res" where
  "tool_find_path fuel hand dir filename h =
     bnd (strchr filename (of_char CHR ''/'')) (\<lambda>sep.
       case sep of
         None \<Rightarrow> tool_find_entry fuel hand dir filename h
       | Some i \<Rightarrow>
           let (ok, h) = host_malloc h
           in if \<not> ok then Inl Fault
              else
                bnd (tool_find_entry fuel hand dir (take i filename @ [0]) h) (\<lambda>(r, tmp, h).
                  case tmp of
                    None \<Rightarrow> Inr (-1, None, h)
                  | Some tmp \<Rightarrow>
                      if tl_attr tmp AND TOOL_ATTR_DIRECTORY = 0 then Inr (-1, None, h)
                      else if i < length filename then tool_find_path fuel hand tmp (drop (Suc i) filename) h
                      else Inl Fault))"
  by pat_completeness auto
termination by (relation "measure (\<lambda>(fuel, hand, dir, filename, h). length filename)") auto

declare tool_find_path.simps [simp del]

definition tool_fat_find_file ::
  "nat \<Rightarrow> tool_fat \<Rightarrow> tool_file \<Rightarrow> u8 list \<Rightarrow> host \<Rightarrow> (int \<times> tool_file option \<times> host) res" where
  "tool_fat_find_file fuel hand dir filename h =
     (case filename of
        [] \<Rightarrow> Inl Fault
      | c # cs \<Rightarrow>
          if c = of_char CHR ''/'' then tool_find_path fuel hand (tf_root_dir hand) cs h
          else tool_find_path fuel hand dir filename h)"

text \<open>The cells of the array that have been written; \<open>room\<close> of it are left.\<close>

fun tool_clusters_loop ::
  "tool_fat \<Rightarrow> u64 \<Rightarrow> u64 \<Rightarrow> u64 \<Rightarrow> nat \<Rightarrow> host \<Rightarrow> (int \<times> u32 list \<times> host) res" where
  "tool_clusters_loop hand sz pos clust room h =
     (if pos < sz then
        if clust = 0 then Inr (-1, [], h)
        else
          (case room of
             0 \<Rightarrow> Inl Fault
           | Suc room \<Rightarrow>
               bnd (tool_get_next_cluster hand clust h) (\<lambda>(next_clust, h).
               bnd (tool_clusters_loop hand sz (pos + tf_cluster_size hand) next_clust room h) (\<lambda>(r, cs, h).
                 Inr (r, ucast clust # cs, h))))
      else Inr (0, [], h))"

declare tool_clusters_loop.simps [simp del]

definition tool_get_file_clusters :: "tool_fat \<Rightarrow> tool_file \<Rightarrow> nat \<Rightarrow> host \<Rightarrow> (int \<times> u32 list \<times> host) res" where
  "tool_get_file_clusters hand file room h =
     tool_clusters_loop hand (tl_size file) 0 (tl_first_cluster file) room h"

section \<open>The sector map\<close>

record sector_map_entry =
  se_sector :: u16
  se_count :: u16

record sector_map_chunk =
  ch_entries :: "sector_map_entry list"
  ch_next_chunk :: u16
  ch_reserved :: u16

definition SECTOR_MAP_ENTRIES :: nat where "SECTOR_MAP_ENTRIES = (512 - 4) div 4"

definition offsetof_next_chunk :: u64 where "offsetof_next_chunk = of_nat SECTOR_MAP_ENTRIES * 4"

definition chunk_zero :: sector_map_chunk where
  "chunk_zero = \<lparr>ch_entries = replicate SECTOR_MAP_ENTRIES \<lparr>se_sector = 0, se_count = 0\<rparr>,
     ch_next_chunk = 0, ch_reserved = 0\<rparr>"

text \<open>The structures as the host, a little-endian machine, has them in memory.\<close>

definition half_bytes :: "u16 \<Rightarrow> u8 list" where
  "half_bytes x = [ucast x, ucast (drop_bit 8 x)]"

definition chunk_bytes :: "sector_map_chunk \<Rightarrow> u8 list" where
  "chunk_bytes c =
     concat (map (\<lambda>e. half_bytes (se_sector e) @ half_bytes (se_count e)) (ch_entries c)) @
     half_bytes (ch_next_chunk c) @ half_bytes (ch_reserved c)"

text \<open>\<open>(clusters[i] / cluster_size) * sectors_per_cluster\<close>\<close>

definition sector_of :: "tool_fat \<Rightarrow> u32 \<Rightarrow> u16" where
  "sector_of fat c = ucast (ucast c div tf_cluster_size fat * ucast (tb_sectors_per_cluster (the (tf_bootsector fat))))"

definition starts_run :: "tool_fat \<Rightarrow> u32 list \<Rightarrow> nat \<Rightarrow> bool" where
  "starts_run fat clusters i \<longleftrightarrow> (ucast (clusters ! i) :: u64) \<noteq> ucast (clusters ! (i - 1)) + tf_cluster_size fat"

definition count_map_entries :: "tool_fat \<Rightarrow> u32 list \<Rightarrow> u32" where
  "count_map_entries fat clusters =
     fold (\<lambda>i n. if starts_run fat clusters i then n + 1 else n) [1..<length clusters] 1"

text \<open>\<open>chunks[c_chunk].entries[c_map] = e\<close>; the index is checked against the object.\<close>

definition put_entry ::
  "nat \<Rightarrow> nat \<Rightarrow> (sector_map_entry \<Rightarrow> sector_map_entry) \<Rightarrow> sector_map_chunk list \<Rightarrow> sector_map_chunk list res" where
  "put_entry c_chunk c_map f chunks =
     (if c_chunk < length chunks \<and> c_map < SECTOR_MAP_ENTRIES
      then Inr (chunks[c_chunk := (chunks ! c_chunk)\<lparr>ch_entries :=
             (ch_entries (chunks ! c_chunk))[c_map := f (ch_entries (chunks ! c_chunk) ! c_map)]\<rparr>])
      else Inl Fault)"

text \<open>The step of the loop that fills the chunks, and the loop.\<close>

definition fill_step ::
  "tool_fat \<Rightarrow> u32 list \<Rightarrow> nat \<Rightarrow> nat \<times> nat \<times> sector_map_chunk list \<Rightarrow> (nat \<times> nat \<times> sector_map_chunk list) res" where
  "fill_step fat clusters i s =
     (case s of (c_map, c_chunk, chunks) \<Rightarrow>
        if starts_run fat clusters i then
          let c_map = c_map + 1;
              (c_map, c_chunk) = (if c_map \<ge> SECTOR_MAP_ENTRIES then (0, c_chunk + 1) else (c_map, c_chunk))
          in bnd (put_entry c_chunk c_map (\<lambda>_. \<lparr>se_sector = sector_of fat (clusters ! i), se_count = 1\<rparr>) chunks)
               (\<lambda>chunks. Inr (c_map, c_chunk, chunks))
        else
          bnd (put_entry c_chunk c_map (\<lambda>e. e\<lparr>se_count := se_count e + 1\<rparr>) chunks)
            (\<lambda>chunks. Inr (c_map, c_chunk, chunks)))"

fun fill_loop ::
  "tool_fat \<Rightarrow> u32 list \<Rightarrow> nat list \<Rightarrow> nat \<times> nat \<times> sector_map_chunk list \<Rightarrow> (nat \<times> nat \<times> sector_map_chunk list) res" where
  "fill_loop fat clusters [] s = Inr s"
| "fill_loop fat clusters (i # is) s = bnd (fill_step fat clusters i s) (fill_loop fat clusters is)"

definition fill_chunks :: "tool_fat \<Rightarrow> u32 list \<Rightarrow> sector_map_chunk list \<Rightarrow> sector_map_chunk list res" where
  "fill_chunks fat clusters chunks =
     (if clusters = [] then Inl Fault
      else
        bnd (put_entry 0 0 (\<lambda>_. \<lparr>se_sector = sector_of fat (clusters ! 0), se_count = 1\<rparr>) chunks) (\<lambda>chunks.
        bnd (fill_loop fat clusters [1..<length clusters] (0, 0, chunks)) (\<lambda>(_, _, chunks).
          Inr chunks)))"

fun write_chunks :: "int \<Rightarrow> sector_map_chunk list \<Rightarrow> host \<Rightarrow> bool \<times> host" where
  "write_chunks fd [] h = (True, h)"
| "write_chunks fd (c # cs) h =
     (case host_write fd (chunk_bytes c) h of
        (False, h) \<Rightarrow> (False, h)
      | (True, h) \<Rightarrow> write_chunks fd cs h)"

section \<open>The program\<close>

text \<open>The number of clusters, or of chunks: a quotient rounded up, as the code does it.\<close>

definition round_up_div :: "u64 \<Rightarrow> u64 \<Rightarrow> u32" where
  "round_up_div n d = (let q = ucast (n div d) in if n mod d \<noteq> 0 then q + 1 else q)"

definition close_both :: "int \<Rightarrow> tool_fat \<Rightarrow> host \<Rightarrow> host" where
  "close_both map_fd fat h = tool_fat_close fat (host_close map_fd h)"

definition round1 :: "nat \<Rightarrow> u8 list list \<Rightarrow> host \<Rightarrow> (int \<times> host) res" where
  "round1 fuel argv h =
     (if length argv \<noteq> 5 then Inr (-1, h)
      else
        let (r, fat, h) = tool_fat_open (argv ! 2) h
        in if r \<noteq> 0 then Inr (-1, h)
           else if tf_cluster_size fat \<noteq> 512 then Inr (-1, h)
           else
             let (map_fd, h) = host_open (argv ! 4) True h
             in if map_fd < 0 then Inr (-1, h)
                else
                  bnd (tool_fat_find_file fuel fat (tf_root_dir fat) (argv ! 3) h) (\<lambda>(_, stage2, h).
                  case stage2 of
                    None \<Rightarrow> Inr (-1, close_both map_fd fat h)
                  | Some stage2 \<Rightarrow>
                      let n_clusters = round_up_div (tl_size stage2) (tf_cluster_size fat);
                          (ok, h) = host_malloc h
                      in if \<not> ok then Inr (-1, close_both map_fd fat h)
                         else
                           bnd (tool_get_file_clusters fat stage2 (unat n_clusters) h) (\<lambda>(r, clusters, h).
                           if r \<noteq> 0 then Inr (-1, close_both map_fd fat h)
                           else
                             let n_map_entries = count_map_entries fat clusters;
                                 n_chunks = round_up_div (ucast n_map_entries) (of_nat SECTOR_MAP_ENTRIES);
                                 (ok, h) = host_malloc h
                             in if \<not> ok then Inr (-1, close_both map_fd fat h)
                                else
                                  bnd (fill_chunks fat clusters (replicate (unat n_chunks) chunk_zero)) (\<lambda>chunks.
                                  let (ok, h) = write_chunks map_fd chunks h
                                  in if \<not> ok then Inr (-1, close_both map_fd fat h)
                                     else Inr (0, close_both map_fd fat h)))))"

text \<open>The loop that chains the chunks of the map file on the image.\<close>

fun link_chunks :: "tool_fat \<Rightarrow> u32 list \<Rightarrow> u64 \<Rightarrow> host \<Rightarrow> bool \<times> host" where
  "link_chunks fat [] pre_addr h = (True, h)"
| "link_chunks fat (c # cs) pre_addr h =
     (case host_pwrite (tf_fd fat) (half_bytes (sector_of fat c)) pre_addr h of
        (False, h) \<Rightarrow> (False, h)
      | (True, h) \<Rightarrow> link_chunks fat cs (ucast c + offsetof_next_chunk) h)"

definition round2 :: "nat \<Rightarrow> u8 list list \<Rightarrow> host \<Rightarrow> (int \<times> host) res" where
  "round2 fuel argv h =
     (if length argv \<noteq> 4 then Inr (-1, h)
      else
        let (r, fat, h) = tool_fat_open (argv ! 2) h
        in if r \<noteq> 0 then Inr (-1, h)
           else if tf_cluster_size fat \<noteq> 512 then Inr (-1, h)
           else
             bnd (tool_fat_find_file fuel fat (tf_root_dir fat) (argv ! 3) h) (\<lambda>(_, map_file, h).
             case map_file of
               None \<Rightarrow> Inr (-1, tool_fat_close fat h)
             | Some map_file \<Rightarrow>
                 let n_clusters = round_up_div (tl_size map_file) (tf_cluster_size fat);
                     (ok, h) = host_malloc h
                 in if \<not> ok then Inr (-1, tool_fat_close fat h)
                    else
                      bnd (tool_get_file_clusters fat map_file (unat n_clusters) h) (\<lambda>(r, clusters, h).
                      if r \<noteq> 0 then Inr (-1, tool_fat_close fat h)
                      else
                        let (ok, h) = link_chunks fat clusters offsetof_stage2_map_sector h
                        in Inr (if ok then 0 else -1, tool_fat_close fat h))))"

text \<open>The standard \<open>strtol\<close> with base 10, its result converted to \<open>int\<close>; a C string ends it.\<close>

fun digits_value :: "u8 list \<Rightarrow> int \<Rightarrow> int" where
  "digits_value (c # cs) v = (if 48 \<le> c \<and> c \<le> 57 then digits_value cs (10 * v + (uint c - 48)) else v)"
| "digits_value [] v = v"

definition strtol10 :: "u8 list \<Rightarrow> int" where
  "strtol10 s =
     (let s = dropWhile (\<lambda>c. c = 32 \<or> (9 \<le> c \<and> c \<le> 13)) s;
          v = (case s of
                 c # cs \<Rightarrow> if c = 45 then - digits_value cs 0 else if c = 43 then digits_value cs 0
                           else digits_value s 0
               | [] \<Rightarrow> 0)
      in sint (of_int (min (2 ^ 63 - 1) (max (- (2 ^ 63)) v)) :: u32))"

definition sector_mapper_main :: "nat \<Rightarrow> u8 list list \<Rightarrow> host \<Rightarrow> (int \<times> host) res" where
  "sector_mapper_main fuel argv h =
     (if length argv < 2 then Inr (-1, h)
      else
        let round = strtol10 (argv ! 1)
        in if round = 1 then round1 fuel argv h
           else if round = 2 then round2 fuel argv h
           else Inr (1, h))"

end
