(* ===== verification/Sector_Mapper_Facts.thy ===== *)
theory Sector_Mapper_Facts
  imports Sector_Mapper Fat_Facts
begin

text \<open>
  The sector mapper is correct: the map file it writes lists the sectors of the second stage in order, and
  after the second round the boot sector leads through the map on the image.
\<close>

unbundle bit_operations_syntax

section \<open>Halves and bytes\<close>

definition half :: "u8 \<Rightarrow> u8 \<Rightarrow> u16" where
  "half a b = ucast a OR push_bit 8 (ucast b)"

lemma half_at: "half_at b i = half (b ! i) (b ! Suc i)"
  by (simp add: half_at_def half_def)

lemma unat_half: "unat (half a b) = unat a + 256 * unat b"
  by (simp add: half_def unat_bytes)

lemma half_bytes [simp]: "half (ucast x) (ucast (drop_bit 8 x)) = x"
  unfolding half_def by (rule bit_word_eqI) (auto simp: bit_simps)

lemma length_half_bytes [simp]: "length (half_bytes x) = 2"
  by (simp add: half_bytes_def)

lemma unat_ucast_down:
  assumes "unat (x :: 'a::len word) < 2 ^ LENGTH('b)"
  shows "unat (ucast x :: 'b::len word) = unat x"
  using assms by (simp add: unsigned_ucast_eq take_bit_nat_eq_self)

section \<open>A host that reads an image\<close>

text \<open>No call fails, and the descriptor is open on a file with the bytes \<open>img\<close>.\<close>

definition reads_as :: "int \<Rightarrow> u8 list \<Rightarrow> host \<Rightarrow> bool" where
  "reads_as fd img h \<longleftrightarrow> ho_faults h = [] \<and> (\<exists>path. fd_path fd h = Some path \<and> ho_files h path = Some img)"

lemma called_quiet: "ho_faults h = [] \<Longrightarrow> called h = h"
  by (simp add: called_def)

lemma quiet_calls: "ho_faults h = [] \<Longrightarrow> \<not> call_fails h"
  by (simp add: call_fails_def)

lemma sless_small64:
  assumes "unat a < 2 ^ 63" and "unat b < 2 ^ 63"
  shows "(a :: u64) <s b \<longleftrightarrow> unat a < unat b"
proof -
  have s: "sint x = int (unat x)" if "unat x < 2 ^ 63" for x :: u64
  proof -
    have "int (unat x) < int (2 ^ 63)" using that by (simp only: of_nat_less_iff)
    then have "uint x < 2 ^ 63" by simp
    moreover have "- (2 ^ 63) \<le> uint x" by (rule order_trans [of _ 0]) simp_all
    ultimately show ?thesis by (simp add: sint_uint signed_take_bit_int_eq_self)
  qed
  show ?thesis unfolding word_sless_alt s [OF assms(1)] s [OF assms(2)] by (rule of_nat_less_iff)
qed

lemma pread:
  assumes "reads_as fd img h" and "unat off < 2 ^ 63"
  shows "host_pread fd n off h = (Some (take n (drop (unat off) img)), h)"
proof -
  have "\<not> off <s 0" using sless_small64 [of off 0] assms(2) by simp
  with assms(1) show ?thesis
    by (auto simp: reads_as_def host_pread_def quiet_calls called_quiet)
qed

lemma malloc_quiet: "ho_faults h = [] \<Longrightarrow> host_malloc h = (True, h)"
  by (simp add: host_malloc_def quiet_calls called_quiet)

section \<open>Clusters of the image\<close>

text \<open>The layout the program can map: clusters of one sector, all sector numbers in 16 bits.\<close>

definition tool_geom :: "tool_fat \<Rightarrow> bool" where
  "tool_geom fat \<longleftrightarrow>
     tf_cluster_size fat = 512 \<and> 512 \<le> unat (tf_data_offset fat) \<and> unat (tf_data_offset fat) mod 512 = 0 \<and>
     unat (tf_data_offset fat) + 0xfee * 512 \<le> 65536 * 512 \<and>
     unat (tf_fat_offset fat) \<le> unat (tf_data_offset fat) \<and>
     unat (tl_first_cluster (tf_root_dir fat)) \<le> unat (tf_data_offset fat) \<and>
     (\<exists>b. tf_bootsector fat = Some b \<and> tb_sectors_per_cluster b = 1)"

definition tool_cluster_number :: "tool_fat \<Rightarrow> nat \<Rightarrow> nat" where
  "tool_cluster_number fat c = (c - unat (tf_data_offset fat)) div 512 + 2"

text \<open>The data cluster behind the one at the offset \<open>c\<close> in the chain of the table, 0 at its end.\<close>

definition tool_next_at :: "tool_fat \<Rightarrow> u8 list \<Rightarrow> nat \<Rightarrow> nat" where
  "tool_next_at fat img c =
     (let e = fat_entry_at (nth img) (unat (tf_fat_offset fat)) (tool_cluster_number fat c)
      in if 2 \<le> e \<and> e < 0xff0 then unat (tf_data_offset fat) + (e - 2) * 512 else 0)"

definition tool_chain :: "tool_fat \<Rightarrow> u8 list \<Rightarrow> nat \<Rightarrow> nat \<Rightarrow> nat" where
  "tool_chain fat img c k = (tool_next_at fat img ^^ k) c"

text \<open>A data cluster of the image whose entry of the table is in the image.\<close>

definition tool_cluster_ok :: "tool_fat \<Rightarrow> u8 list \<Rightarrow> nat \<Rightarrow> bool" where
  "tool_cluster_ok fat img c \<longleftrightarrow>
     unat (tf_data_offset fat) \<le> c \<and> c mod 512 = 0 \<and> c < 65536 * 512 \<and> c + 512 \<le> length img \<and>
     unat (tf_fat_offset fat) + tool_cluster_number fat c * 3 div 2 + 2 \<le> length img"

lemma tool_chain_0 [simp]: "tool_chain fat img c 0 = c"
  by (simp add: tool_chain_def)

lemma tool_chain_Suc: "tool_chain fat img c (Suc k) = tool_chain fat img (tool_next_at fat img c) k"
  by (simp add: tool_chain_def funpow_swap1)

lemma tool_get_fat_entry:
  assumes r: "reads_as (tf_fd hand) img h" and n: "unat n \<le> 65538"
    and fo: "unat (tf_fat_offset hand) \<le> 65536 * 512"
    and inside: "unat (tf_fat_offset hand) + unat n * 3 div 2 + 2 \<le> length img"
  shows "\<exists>e. tool_get_fat_entry hand n h = (e, h) \<and>
    unat e = fat_entry_at (nth img) (unat (tf_fat_offset hand)) (unat n)"
proof -
  let ?o = "tf_fat_offset hand + ucast ((n * 3) div 2) :: u64"
  let ?a = "unat (tf_fat_offset hand) + unat n * 3 div 2"
  have "unat (n * 3) = unat n * 3" using n by (simp add: unat_word_ariths)
  then have "unat ((n * 3) div 2) = unat n * 3 div 2" by (simp add: unat_div_distrib)
  then have "unat (ucast ((n * 3) div 2) :: u64) = unat n * 3 div 2" by (subst unat_ucast_up) simp_all
  then have o: "unat ?o = ?a" using n fo by (subst unat_add_no_wrap) simp_all
  have b: "take 2 (drop ?a img) = [img ! ?a, img ! Suc ?a]"
    using inside by (simp add: numeral_2_eq_2 take_Suc_conv_app_nth)
  let ?e = "half (img ! ?a) (img ! Suc ?a)"
  have "host_pread (tf_fd hand) 2 ?o h = (Some [img ! ?a, img ! Suc ?a], h)"
    using pread [OF r, of ?o 2] n fo unfolding o b by simp
  then have "tool_get_fat_entry hand n h =
      (ucast ((if n AND 0x01 \<noteq> 0 then drop_bit 4 ?e else ?e) AND 0xFFF), h)"
    by (simp add: tool_get_fat_entry_def Let_def half_at)
  moreover have "ucast (x AND 0xFFF) = (ucast x AND 0xFFF :: u32)" for x :: u16
    by (simp add: unsigned_and_eq)
  moreover have "unat (ucast (if n AND 1 \<noteq> 0 then drop_bit 4 ?e else ?e) AND 0xfff :: u32) =
      fat_entry_at (nth img) (unat (tf_fat_offset hand)) (unat n)"
    by (rule entry_bits) (simp add: unat_half)
  ultimately show ?thesis by auto
qed

lemma tool_get_next_cluster:
  assumes g: "tool_geom hand" and r: "reads_as (tf_fd hand) img h" and c: "tool_cluster_ok hand img (unat c)"
  shows "\<exists>d. tool_get_next_cluster hand c h = Inr (d, h) \<and> unat d = tool_next_at hand img (unat c)"
proof -
  let ?d = "unat (tf_data_offset hand)" and ?n = "tool_cluster_number hand (unat c)"
  have cs: "tf_cluster_size hand = 512" and d: "?d \<le> 65536 * 512" "unat (tf_fat_offset hand) \<le> ?d"
    using g by (simp_all add: tool_geom_def)
  have c1: "?d \<le> unat c" "unat c < 65536 * 512" using c by (simp_all add: tool_cluster_ok_def)
  have lt: "\<not> c <s tf_data_offset hand" using c1 d by (subst sless_small64) simp_all
  have n: "?n \<le> 65538" using c1 by (simp add: tool_cluster_number_def)
  have "unat ((c - tf_data_offset hand) div 512 + 2) = ?n"
  proof -
    have "unat ((c - tf_data_offset hand) div 512) = (unat c - ?d) div 512"
      using c1(1) by (simp add: unat_div_distrib unat_sub_le word_le_nat_alt)
    moreover have "(unat c - ?d) div 512 \<le> 65536" using c1(2) by simp
    ultimately show ?thesis by (subst unat_add_no_wrap) (simp_all add: tool_cluster_number_def)
  qed
  then have un: "unat (ucast ((c - tf_data_offset hand) div 512 + 2) :: u32) = ?n"
    using n by (subst unat_ucast_down) simp_all
  obtain e where e: "tool_get_fat_entry hand (ucast ((c - tf_data_offset hand) div 512 + 2)) h = (e, h)"
    "unat e = fat_entry_at (nth img) (unat (tf_fat_offset hand)) ?n"
    using tool_get_fat_entry [OF r, of "ucast ((c - tf_data_offset hand) div 512 + 2)"] n d c
    unfolding un tool_cluster_ok_def by auto
  let ?r = "if e \<ge> 0x002 \<and> e < 0xff0 then tf_data_offset hand + ucast (e - 2) * 512 else 0 :: u64"
  have "tool_get_next_cluster hand c h = Inr (?r, h)"
    using lt e(1) by (simp add: tool_get_next_cluster_def cs Let_def)
  moreover have "unat ?r = tool_next_at hand img (unat c)"
  proof (cases "e \<ge> 0x002 \<and> e < 0xff0")
    case True
    then have le: "2 \<le> unat e" "unat e < 0xff0" by (simp_all add: word_le_nat_alt word_less_nat_alt)
    have "unat (e - 2) = unat e - 2" using le by (subst unat_sub_le) (simp_all add: word_le_nat_alt)
    then have "unat (ucast (e - 2) :: u64) = unat e - 2" by (subst unat_ucast_up) simp_all
    then have "unat (ucast (e - 2) * 512 :: u64) = (unat e - 2) * 512"
      using le by (simp add: unat_word_ariths)
    then have "unat ?r = ?d + (unat e - 2) * 512"
      using True le d(1) by simp (subst unat_add_no_wrap, simp_all)
    with le show ?thesis by (simp add: tool_next_at_def e(2) [symmetric])
  next
    case False
    then have "\<not> (2 \<le> unat e \<and> unat e < 0xff0)" by (simp add: word_le_nat_alt word_less_nat_alt)
    then have "tool_next_at hand img (unat c) = 0" unfolding tool_next_at_def e(2) [symmetric] Let_def by (rule if_not_P)
    then show ?thesis by (simp only: if_not_P [OF False] unat_0)
  qed
  ultimately show ?thesis by blast
qed

text \<open>The clusters of a file of \<open>n\<close> clusters, as the program collects them.\<close>

definition tool_chain_ok :: "tool_fat \<Rightarrow> u8 list \<Rightarrow> nat \<Rightarrow> nat \<Rightarrow> bool" where
  "tool_chain_ok fat img c n \<longleftrightarrow> (\<forall>k < n. tool_cluster_ok fat img (tool_chain fat img c k))"

definition tool_clusters :: "tool_fat \<Rightarrow> u8 list \<Rightarrow> nat \<Rightarrow> nat \<Rightarrow> nat list" where
  "tool_clusters fat img c n = map (tool_chain fat img c) [0..<n]"

lemma tool_chain_ok_Suc:
  "tool_chain_ok fat img c (Suc n) \<longleftrightarrow>
    tool_cluster_ok fat img c \<and> tool_chain_ok fat img (tool_next_at fat img c) n"
  unfolding tool_chain_ok_def by (auto simp: less_Suc_eq_0_disj tool_chain_Suc)

lemma tool_clusters_Suc:
  "tool_clusters fat img c (Suc n) = c # tool_clusters fat img (tool_next_at fat img c) n"
  unfolding tool_clusters_def by (simp add: upt_conv_Cons map_Suc_upt [symmetric] tool_chain_Suc comp_def del: upt_Suc)

lemma tool_clusters_ok: "tool_chain_ok fat img c n \<Longrightarrow> x \<in> set (tool_clusters fat img c n) \<Longrightarrow> tool_cluster_ok fat img x"
  by (auto simp: tool_clusters_def tool_chain_ok_def)

lemma length_tool_clusters [simp]: "length (tool_clusters fat img c n) = n"
  by (simp add: tool_clusters_def)

lemma clusters_loop:
  assumes g: "tool_geom hand" and r: "reads_as (tf_fd hand) img h"
    and "tool_chain_ok hand img (unat clust) n" "unat pos + 512 * n < 2 ^ 63" "n \<le> room"
    and "unat sz \<le> unat pos + 512 * n" "0 < n \<Longrightarrow> unat pos + 512 * (n - 1) < unat sz"
  shows "tool_clusters_loop hand sz pos clust room h =
    Inr (0, map of_nat (tool_clusters hand img (unat clust) n), h)"
  using assms(3-)
proof (induction n arbitrary: pos clust room)
  case 0
  then have "\<not> pos < sz" by (simp add: word_less_nat_alt)
  then show ?case by (simp add: tool_clusters_loop.simps tool_clusters_def)
next
  case (Suc n)
  have cs: "tf_cluster_size hand = 512" using g by (simp add: tool_geom_def)
  have ok: "tool_cluster_ok hand img (unat clust)"
    "tool_chain_ok hand img (tool_next_at hand img (unat clust)) n"
    using Suc.prems(1) by (simp_all add: tool_chain_ok_Suc)
  obtain d where d: "tool_get_next_cluster hand clust h = Inr (d, h)" "unat d = tool_next_at hand img (unat clust)"
    using tool_get_next_cluster [OF g r ok(1)] by blast
  obtain m where m: "room = Suc m" "n \<le> m" using Suc.prems(3) by (cases room) auto
  have lt: "pos < sz" using Suc.prems(5) by (simp add: word_less_nat_alt)
  have nz: "clust \<noteq> 0"
  proof
    assume "clust = 0"
    with ok(1) g show False by (simp add: tool_cluster_ok_def tool_geom_def)
  qed
  have p: "unat (pos + 512) = unat pos + 512"
    using Suc.prems(2) by (subst unat_add_no_wrap) simp_all
  have "tool_clusters_loop hand sz (pos + 512) d m h = Inr (0, map of_nat (tool_clusters hand img (unat d) n), h)"
    by (rule Suc.IH) (use Suc.prems m(2) p ok(2) d(2) in simp_all)
  moreover have "(ucast clust :: u32) = of_nat (unat clust)" by (simp add: unsigned_def of_nat_nat)
  ultimately show ?case
    using lt nz m(1) d by (simp add: tool_clusters_loop.simps [of hand sz pos clust] cs tool_clusters_Suc)
qed

section \<open>The map\<close>

text \<open>The sectors of a list of runs, each a first sector and a count.\<close>

definition run_sectors :: "(nat \<times> nat) list \<Rightarrow> nat list" where
  "run_sectors rs = concat (map (\<lambda>(s, n). [s..<s + n]) rs)"

lemma run_sectors_simps [simp]:
  "run_sectors [] = []" "run_sectors (rs @ rs') = run_sectors rs @ run_sectors rs'"
  "run_sectors ((s, n) # rs) = [s..<s + n] @ run_sectors rs"
  by (simp_all add: run_sectors_def)

text \<open>The entries of all chunks, in one list.\<close>

definition entry_runs :: "sector_map_entry list \<Rightarrow> (nat \<times> nat) list" where
  "entry_runs es = map (\<lambda>e. (unat (se_sector e), unat (se_count e))) es"

definition all_entries :: "sector_map_chunk list \<Rightarrow> sector_map_entry list" where
  "all_entries chunks = concat (map ch_entries chunks)"

definition chunks_ok :: "sector_map_chunk list \<Rightarrow> bool" where
  "chunks_ok chunks \<longleftrightarrow> (\<forall>c \<in> set chunks. length (ch_entries c) = SECTOR_MAP_ENTRIES \<and> ch_next_chunk c = 0)"

lemma concat_nth_update:
  assumes "\<forall>xs \<in> set xss. length xs = k" "c < length xss" "m < k"
  shows "concat xss ! (c * k + m) = xss ! c ! m"
    and "concat (xss[c := (xss ! c)[m := y]]) = (concat xss)[c * k + m := y]"
  using assms
proof (induction xss arbitrary: c)
  case (Cons xs xss)
  { case 1 then show ?case using Cons.IH(1) by (cases c) (simp_all add: nth_append add.assoc) }
  { case 2 then show ?case using Cons.IH(2) by (cases c) (simp_all add: list_update_append add.assoc) }
qed simp_all

lemma entries_length: "chunks_ok chunks \<Longrightarrow> length (all_entries chunks) = length chunks * SECTOR_MAP_ENTRIES"
  by (induction chunks) (auto simp: all_entries_def chunks_ok_def)

lemma put_entry_all:
  assumes ok: "chunks_ok chunks" and c: "c < length chunks" and m: "m < SECTOR_MAP_ENTRIES"
  shows "\<exists>chunks'. put_entry c m f chunks = Inr chunks' \<and> chunks_ok chunks' \<and> length chunks' = length chunks \<and>
    all_entries chunks' = (all_entries chunks)[c * SECTOR_MAP_ENTRIES + m :=
      f (all_entries chunks ! (c * SECTOR_MAP_ENTRIES + m))]"
proof -
  let ?es = "map ch_entries chunks"
  have len: "\<forall>xs \<in> set ?es. length xs = SECTOR_MAP_ENTRIES" using ok by (auto simp: chunks_ok_def)
  have c': "c < length ?es" using c by simp
  let ?chunks = "chunks[c := (chunks ! c)\<lparr>ch_entries := (ch_entries (chunks ! c))[m := f (ch_entries (chunks ! c) ! m)]\<rparr>]"
  have "map ch_entries ?chunks = ?es[c := (?es ! c)[m := f (?es ! c ! m)]]"
    using c by (simp add: map_update)
  then have "all_entries ?chunks = (all_entries chunks)[c * SECTOR_MAP_ENTRIES + m :=
      f (all_entries chunks ! (c * SECTOR_MAP_ENTRIES + m))]"
    unfolding all_entries_def using concat_nth_update [OF len c' m] by simp
  moreover have "chunks_ok ?chunks"
    unfolding chunks_ok_def
  proof
    fix x assume "x \<in> set ?chunks"
    then have "x \<in> set chunks \<or> x = (chunks ! c)\<lparr>ch_entries := (ch_entries (chunks ! c))[m := f (ch_entries (chunks ! c) ! m)]\<rparr>"
      using set_update_subset_insert by fast
    then show "length (ch_entries x) = SECTOR_MAP_ENTRIES \<and> ch_next_chunk x = 0"
      using ok nth_mem [OF c] by (auto simp: chunks_ok_def)
  qed
  ultimately show ?thesis using c m by (simp add: put_entry_def)
qed

text \<open>
  While the chunks are filled the entries are some complete runs, the current one and zeros; together the
  runs are the sectors seen so far.
\<close>

definition zero_entry :: sector_map_entry where
  "zero_entry = \<lparr>se_sector = 0, se_count = 0\<rparr>"

definition breaks :: "nat list \<Rightarrow> nat" where
  "breaks ss = length (filter (\<lambda>i. ss ! i \<noteq> Suc (ss ! (i - 1))) [1..<length ss])"

definition entries_are :: "nat list \<Rightarrow> sector_map_entry list \<Rightarrow> sector_map_entry \<Rightarrow> bool" where
  "entries_are ss es e \<longleftrightarrow> (\<forall>x \<in> set (es @ [e]). se_sector x \<noteq> 0) \<and> se_count e \<noteq> 0 \<and> ss \<noteq> [] \<and>
     run_sectors (entry_runs (es @ [e])) = ss \<and> unat (se_sector e) + unat (se_count e) = Suc (last ss) \<and>
     length es = breaks ss"

definition filled :: "nat \<Rightarrow> nat list \<Rightarrow> nat \<times> nat \<times> sector_map_chunk list \<Rightarrow> bool" where
  "filled len ss s \<longleftrightarrow> (case s of (c_map, c_chunk, chunks) \<Rightarrow>
     chunks_ok chunks \<and> length chunks = len \<and> c_map < SECTOR_MAP_ENTRIES \<and>
     (\<exists>es e z. all_entries chunks = es @ e # replicate z zero_entry \<and>
        c_chunk * SECTOR_MAP_ENTRIES + c_map = length es \<and> entries_are ss es e))"

lemma breaks_snoc:
  "ss \<noteq> [] \<Longrightarrow> breaks (ss @ [s]) = breaks ss + (if s = Suc (last ss) then 0 else 1)"
proof -
  assume ne: "ss \<noteq> []"
  have f: "filter (\<lambda>i. (ss @ [s]) ! i \<noteq> Suc ((ss @ [s]) ! (i - 1))) [1..<length ss] =
      filter (\<lambda>i. ss ! i \<noteq> Suc (ss ! (i - 1))) [1..<length ss]"
    by (rule filter_cong) (auto simp: nth_append)
  have "[1..<length (ss @ [s])] = [1..<length ss] @ [length ss]"
    using ne by (cases ss) simp_all
  then show ?thesis
    using ne f by (simp add: breaks_def nth_append last_conv_nth)
qed

lemma entry_runs_snoc: "entry_runs (es @ [e]) = entry_runs es @ [(unat (se_sector e), unat (se_count e))]"
  by (simp add: entry_runs_def)

lemma entries_are_first:
  "0 < s \<Longrightarrow> s < 65536 \<Longrightarrow> entries_are [s] [] \<lparr>se_sector = of_nat s, se_count = 1\<rparr>"
proof -
  assume s: "0 < s" "s < 65536"
  then have "unat (of_nat s :: u16) = s" by (simp add: unat_of_nat)
  with s show ?thesis by (auto simp: entries_are_def entry_runs_def breaks_def)
qed

lemma entries_are_break:
  assumes "entries_are ss es e" and s: "0 < s" "s < 65536" and "s \<noteq> Suc (last ss)"
  shows "entries_are (ss @ [s]) (es @ [e]) \<lparr>se_sector = of_nat s, se_count = 1\<rparr>"
proof -
  have u: "unat (of_nat s :: u16) = s" using s by (simp add: unat_of_nat)
  then have "(of_nat s :: u16) \<noteq> 0" using s by auto
  moreover have "run_sectors (entry_runs ((es @ [e]) @ [\<lparr>se_sector = of_nat s, se_count = 1\<rparr>])) = ss @ [s]"
    using assms(1) by (subst entry_runs_snoc) (simp add: entries_are_def u)
  ultimately show ?thesis using assms u by (simp add: entries_are_def breaks_snoc)
qed

lemma entries_are_extend:
  assumes a: "entries_are ss es e" and s: "Suc (last ss) < 65536"
  shows "entries_are (ss @ [Suc (last ss)]) es (e\<lparr>se_count := se_count e + 1\<rparr>)"
proof -
  have "se_sector e \<noteq> 0" using a by (simp add: entries_are_def)
  then have nz: "unat (se_sector e) \<noteq> 0" by (metis unat_eq_zero)
  have sum: "unat (se_sector e) + unat (se_count e) = Suc (last ss)" using a by (simp add: entries_are_def)
  have u: "unat (se_count e + 1) = Suc (unat (se_count e))"
    using nz sum s by (subst unat_add_no_wrap) simp_all
  then have "se_count e + 1 \<noteq> 0" by auto
  moreover have "run_sectors (entry_runs (es @ [e\<lparr>se_count := se_count e + 1\<rparr>])) = ss @ [Suc (last ss)]"
  proof -
    have "run_sectors (entry_runs (es @ [e])) = ss" using a by (simp add: entries_are_def)
    then show ?thesis using sum by (auto simp: entry_runs_snoc u)
  qed
  ultimately show ?thesis using a u by (simp add: entries_are_def breaks_snoc)
qed

lemma fill_step:
  assumes f: "filled len ss st" and s: "0 < s" "s < 65536"
    and starts: "starts_run fat clusters i \<longleftrightarrow> s \<noteq> Suc (last ss)"
    and sec: "sector_of fat (clusters ! i) = of_nat s"
    and room: "breaks (ss @ [s]) < len * SECTOR_MAP_ENTRIES"
  shows "\<exists>st'. fill_step fat clusters i st = Inr st' \<and> filled len (ss @ [s]) st'"
proof -
  obtain m c chunks where st: "st = (m, c, chunks)" by (cases st)
  obtain es e z where F: "chunks_ok chunks" "length chunks = len" "m < SECTOR_MAP_ENTRIES"
    "all_entries chunks = es @ e # replicate z zero_entry" "c * SECTOR_MAP_ENTRIES + m = length es"
    "entries_are ss es e" using f by (auto simp: filled_def st)
  have b: "length es = breaks ss" "ss \<noteq> []" using F(6) by (simp_all add: entries_are_def)
  have total: "length es + 1 + z = len * SECTOR_MAP_ENTRIES"
    using entries_length [OF F(1)] F(2,4) by simp
  show ?thesis
  proof (cases "s = Suc (last ss)")
    case True
    have "c * SECTOR_MAP_ENTRIES < len * SECTOR_MAP_ENTRIES" using F(5) total by linarith
    then have "c < length chunks" using F(2) by simp
    from put_entry_all [OF F(1) this F(3), of "\<lambda>e. e\<lparr>se_count := se_count e + 1\<rparr>"]
    obtain chunks' where P: "put_entry c m (\<lambda>e. e\<lparr>se_count := se_count e + 1\<rparr>) chunks = Inr chunks'"
      "chunks_ok chunks'" "length chunks' = length chunks"
      "all_entries chunks' = es @ e\<lparr>se_count := se_count e + 1\<rparr> # replicate z zero_entry"
      unfolding F(4,5) by auto
    have "filled len (ss @ [s]) (m, c, chunks')"
      unfolding filled_def prod.case
      using P F(2,3,5) entries_are_extend [OF F(6)] s(2) True by auto
    then show ?thesis using True starts P(1) by (simp add: fill_step_def st)
  next
    case False
    obtain z' where z': "z = Suc z'" using room total b False by (cases z) (simp_all add: breaks_snoc)
    let ?mc = "if m + 1 \<ge> SECTOR_MAP_ENTRIES then (0, c + 1) else (m + 1, c)"
    obtain m' c' where mc: "?mc = (m', c')" by (cases ?mc)
    have m': "m' < SECTOR_MAP_ENTRIES" "c' * SECTOR_MAP_ENTRIES + m' = Suc (length es)"
      using mc F(3,5) by (auto simp: SECTOR_MAP_ENTRIES_def split: if_splits)
    have "c' * SECTOR_MAP_ENTRIES < len * SECTOR_MAP_ENTRIES" using m'(2) total z' by linarith
    then have "c' < length chunks" using F(2) by simp
    let ?e = "\<lparr>se_sector = of_nat s, se_count = 1\<rparr>"
    from put_entry_all [OF F(1) \<open>c' < length chunks\<close> m'(1), of "\<lambda>_. ?e"]
    obtain chunks' where P: "put_entry c' m' (\<lambda>_. ?e) chunks = Inr chunks'"
      "chunks_ok chunks'" "length chunks' = length chunks"
      "all_entries chunks' = (es @ [e]) @ ?e # replicate z' zero_entry"
      unfolding F(4) m'(2) z' by (auto simp: list_update_append)
    have "filled len (ss @ [s]) (m', c', chunks')"
      unfolding filled_def prod.case
      using P F(2) m' entries_are_break [OF F(6) s False] by (intro conjI exI [of _ "es @ [e]"] exI [of _ ?e] exI [of _ z']) auto
    moreover have "fill_step fat clusters i st = Inr (m', c', chunks')"
      unfolding fill_step_def st prod.case Let_def mc sec using False starts P(1) by simp
    ultimately show ?thesis by blast
  qed
qed

text \<open>The clusters as sectors, and the loop over them.\<close>

definition cluster_at_sector :: "nat \<Rightarrow> bool" where
  "cluster_at_sector c \<longleftrightarrow> 512 \<le> c \<and> c mod 512 = 0 \<and> c < 65536 * 512"

definition sectors :: "nat list \<Rightarrow> nat list" where
  "sectors cs = map (\<lambda>c. c div 512) cs"

lemma sector_of_cluster:
  assumes "tool_geom fat" and "cluster_at_sector c"
  shows "sector_of fat (of_nat c) = of_nat (c div 512)"
proof -
  obtain b where b: "tf_bootsector fat = Some b" "tb_sectors_per_cluster b = 1" "tf_cluster_size fat = 512"
    using assms(1) by (auto simp: tool_geom_def)
  have c: "c < 2 ^ 32" "c div 512 < 65536" using assms(2) by (auto simp: cluster_at_sector_def)
  have "unat (of_nat c :: u32) = c" using c(1) by (simp add: unat_of_nat)
  then have "unat (ucast (of_nat c :: u32) :: u64) = c" by (subst unat_ucast_up) simp_all
  then have "unat (ucast (of_nat c :: u32) div 512 :: u64) = c div 512" by (simp add: unat_div_distrib)
  then have "unat (sector_of fat (of_nat c)) = c div 512"
    using c(2) unfolding sector_of_def b option.sel by (simp add: unat_ucast_down)
  moreover have "unat (of_nat (c div 512) :: u16) = c div 512" using c(2) by (simp add: unat_of_nat)
  ultimately show ?thesis by (simp add: word_unat_eq_iff)
qed

lemma starts_run_sectors:
  assumes "tool_geom fat" and "\<forall>c \<in> set cs. cluster_at_sector c" and "0 < i" "i < length cs"
  shows "starts_run fat (map of_nat cs) i \<longleftrightarrow> sectors cs ! i \<noteq> Suc (sectors cs ! (i - 1))"
proof -
  let ?a = "cs ! (i - 1)" and ?b = "cs ! i"
  have c: "cluster_at_sector ?a" "cluster_at_sector ?b" using assms by simp_all
  have cs: "tf_cluster_size fat = 512" using assms(1) by (simp add: tool_geom_def)
  have u: "unat (ucast (of_nat c :: u32) :: u64) = c" if "cluster_at_sector c" for c
    using that by (subst unat_ucast_up) (auto simp: cluster_at_sector_def unat_of_nat)
  have "unat (ucast (of_nat ?a :: u32) + 512 :: u64) = ?a + 512"
    using u [OF c(1)] c(1) by (subst unat_add_no_wrap) (auto simp: cluster_at_sector_def)
  then have "starts_run fat (map of_nat cs) i \<longleftrightarrow> ?b \<noteq> ?a + 512"
    using u [OF c(2)] assms(3,4) by (simp add: starts_run_def cs word_unat_eq_iff)
  also have "\<dots> \<longleftrightarrow> ?b div 512 \<noteq> Suc (?a div 512)"
    using c by (auto simp: cluster_at_sector_def)
  finally show ?thesis using assms(3,4) by (simp add: sectors_def)
qed

lemma fold_count: "fold (\<lambda>i n. if P i then n + 1 else n) xs (a :: u32) = a + of_nat (length (filter P xs))"
  by (induction xs arbitrary: a) simp_all

lemma count_entries:
  assumes "tool_geom fat" and "\<forall>c \<in> set cs. cluster_at_sector c"
  shows "count_map_entries fat (map of_nat cs) = of_nat (Suc (breaks (sectors cs)))"
proof -
  have "filter (starts_run fat (map of_nat cs)) [1..<length cs] =
      filter (\<lambda>i. sectors cs ! i \<noteq> Suc (sectors cs ! (i - 1))) [1..<length cs]"
    by (rule filter_cong) (use starts_run_sectors [OF assms] in auto)
  then show ?thesis
    unfolding count_map_entries_def fold_count by (simp add: breaks_def sectors_def)
qed

lemma breaks_mono: "breaks (take i ss) \<le> breaks ss"
proof (cases "0 < i \<and> i < length ss")
  case True
  have "filter (\<lambda>k. take i ss ! k \<noteq> Suc (take i ss ! (k - 1))) [1..<i] =
      filter (\<lambda>k. ss ! k \<noteq> Suc (ss ! (k - 1))) [1..<i]"
    by (rule filter_cong) auto
  moreover have "[1..<length ss] = [1..<i] @ [i..<length ss]"
    using True upt_add_eq_append [of 1 i "length ss - i"] by simp
  ultimately show ?thesis using True by (simp add: breaks_def)
qed (auto simp: breaks_def)

lemma fill_loop:
  assumes g: "tool_geom fat" and cs: "\<forall>c \<in> set cs. cluster_at_sector c"
    and room: "breaks (sectors cs) < len * SECTOR_MAP_ENTRIES"
    and "filled len (take i (sectors cs)) st" "0 < i" "i \<le> length cs"
  shows "\<exists>st'. fill_loop fat (map of_nat cs) [i..<length cs] st = Inr st' \<and> filled len (sectors cs) st'"
  using assms(4-)
proof (induction "length cs - i" arbitrary: i st)
  case 0
  then show ?case by (simp add: sectors_def)
next
  case (Suc n)
  then have i: "0 < i" "i < length cs" by simp_all
  let ?s = "sectors cs ! i"
  have lens: "length (sectors cs) = length cs" by (simp add: sectors_def)
  have snoc: "take (Suc i) (sectors cs) = take i (sectors cs) @ [?s]"
    using i lens by (simp add: take_Suc_conv_app_nth)
  have "take i (sectors cs) \<noteq> []" using i lens by auto
  then have l: "last (take i (sectors cs)) = sectors cs ! (i - 1)" using i lens by (simp add: last_conv_nth)
  have c: "cluster_at_sector (cs ! i)" using cs i by simp
  have s: "0 < ?s" "?s < 65536" using c i by (auto simp: sectors_def cluster_at_sector_def)
  have sec: "sector_of fat (map of_nat cs ! i) = of_nat ?s"
    using sector_of_cluster [OF g c] i by (simp add: sectors_def)
  have "breaks (take (Suc i) (sectors cs)) < len * SECTOR_MAP_ENTRIES"
    using breaks_mono [of "Suc i" "sectors cs"] room by simp
  from fill_step [OF Suc.prems(1) s _ sec this [unfolded snoc]] starts_run_sectors [OF g cs i]
  obtain st' where st': "fill_step fat (map of_nat cs) i st = Inr st'"
    "filled len (take (Suc i) (sectors cs)) st'"
    unfolding l snoc by blast
  have "\<exists>st''. fill_loop fat (map of_nat cs) [Suc i..<length cs] st' = Inr st'' \<and> filled len (sectors cs) st''"
    by (rule Suc.hyps(1)) (use st'(2) Suc.hyps(2) i in simp_all)
  then show ?case using st'(1) i by (simp add: upt_conv_Cons)
qed

text \<open>The chunks that list the sectors of the clusters.\<close>

definition chunks_list :: "nat list \<Rightarrow> sector_map_chunk list \<Rightarrow> bool" where
  "chunks_list ss chunks \<longleftrightarrow> chunks_ok chunks \<and> breaks ss < length chunks * SECTOR_MAP_ENTRIES \<and>
     (\<exists>es z. all_entries chunks = es @ replicate z zero_entry \<and> length es = Suc (breaks ss) \<and>
       (\<forall>e \<in> set es. se_sector e \<noteq> 0) \<and> run_sectors (entry_runs es) = ss)"

lemma all_zero: "all_entries (replicate n chunk_zero) = replicate (n * SECTOR_MAP_ENTRIES) zero_entry"
  by (induction n) (simp_all add: all_entries_def chunk_zero_def zero_entry_def replicate_add)

lemma fill_chunks:
  assumes g: "tool_geom fat" and cs: "\<forall>c \<in> set cs. cluster_at_sector c" "cs \<noteq> []"
    and room: "breaks (sectors cs) < len * SECTOR_MAP_ENTRIES"
  shows "\<exists>chunks. fill_chunks fat (map of_nat cs) (replicate len chunk_zero) = Inr chunks \<and>
    chunks_list (sectors cs) chunks \<and> length chunks = len"
proof -
  let ?z = "replicate len chunk_zero" and ?s = "sectors cs ! 0"
  let ?e = "\<lparr>se_sector = of_nat ?s, se_count = 1\<rparr>"
  have c: "cluster_at_sector (cs ! 0)" using cs by simp
  have s: "0 < ?s" "?s < 65536" using c cs(2) by (auto simp: sectors_def cluster_at_sector_def)
  have sec: "sector_of fat (of_nat (cs ! 0)) = of_nat ?s"
    using sector_of_cluster [OF g c] cs(2) by (simp add: sectors_def)
  have ok: "chunks_ok ?z" by (auto simp: chunks_ok_def chunk_zero_def)
  have len: "0 < length ?z" "0 < SECTOR_MAP_ENTRIES" using room by (simp_all add: SECTOR_MAP_ENTRIES_def)
  obtain k where k: "len * SECTOR_MAP_ENTRIES = Suc k" using room by (cases "len * SECTOR_MAP_ENTRIES") auto
  from put_entry_all [OF ok len, of "\<lambda>_. ?e"] obtain chunks where P:
    "put_entry 0 0 (\<lambda>_. ?e) ?z = Inr chunks" "chunks_ok chunks" "length chunks = len"
    "all_entries chunks = [] @ ?e # replicate k zero_entry"
    unfolding all_zero k by auto
  have "take 1 (sectors cs) = [?s]" using cs(2) by (cases cs) (simp_all add: sectors_def)
  then have "filled len (take 1 (sectors cs)) (0, 0, chunks)"
    unfolding filled_def prod.case using P(2-) len(2) entries_are_first [OF s] by auto
  from fill_loop [OF g cs(1) room this] cs(2) obtain m c' chunks' where L:
    "fill_loop fat (map of_nat cs) [1..<length cs] (0, 0, chunks) = Inr (m, c', chunks')"
    "filled len (sectors cs) (m, c', chunks')" by (cases cs) auto
  have "fill_chunks fat (map of_nat cs) ?z = Inr chunks'"
    using P(1) L(1) cs(2) by (simp add: fill_chunks_def sec)
  moreover have "chunks_list (sectors cs) chunks' \<and> length chunks' = len"
  proof -
    from L(2) obtain es e z where F: "chunks_ok chunks'" "length chunks' = len"
      "all_entries chunks' = es @ e # replicate z zero_entry" "entries_are (sectors cs) es e"
      by (auto simp: filled_def)
    then have "all_entries chunks' = (es @ [e]) @ replicate z zero_entry" by simp
    with F room show ?thesis
      unfolding chunks_list_def entries_are_def by (intro conjI exI [of _ "es @ [e]"] exI [of _ z]) auto
  qed
  ultimately show ?thesis by blast
qed

section \<open>The map on the image\<close>

lemma entry_bytes_length:
  "length (concat (map (\<lambda>e. half_bytes (se_sector e) @ half_bytes (se_count e)) es)) = 4 * length es"
  by (induction es) simp_all

lemma chunk_bytes_length: "length (ch_entries c) = SECTOR_MAP_ENTRIES \<Longrightarrow> length (chunk_bytes c) = 512"
  by (simp add: chunk_bytes_def entry_bytes_length SECTOR_MAP_ENTRIES_def del: length_concat)

lemma chunk_next:
  assumes "length (ch_entries c) = SECTOR_MAP_ENTRIES"
  shows "half (chunk_bytes c ! 508) (chunk_bytes c ! 509) = ch_next_chunk c"
proof -
  have "chunk_bytes c ! (508 + i) = (half_bytes (ch_next_chunk c) @ half_bytes (ch_reserved c)) ! i" for i
    using assms by (simp add: chunk_bytes_def nth_append entry_bytes_length SECTOR_MAP_ENTRIES_def del: length_concat)
  from this [of 0] this [of 1] show ?thesis by (simp add: half_bytes_def)
qed

text \<open>Runs split over several sectors of the map, the last of them filled up with zeros.\<close>

definition pointer_at :: "u8 list \<Rightarrow> nat \<Rightarrow> u16" where
  "pointer_at img p = half (img ! p) (img ! Suc p)"

fun write_links :: "u8 list \<Rightarrow> nat \<Rightarrow> nat list \<Rightarrow> u8 list" where
  "write_links img p [] = img"
| "write_links img p (c # cs) = write_links (file_put img p (half_bytes (of_nat (c div 512)))) (c + 508) cs"

fun link_cells :: "nat \<Rightarrow> nat list \<Rightarrow> nat set" where
  "link_cells p [] = {}"
| "link_cells p (c # cs) = {p, Suc p} \<union> link_cells (c + 508) cs"

text \<open>The pointers lead from the cell \<open>p\<close> through the clusters, to a zero.\<close>

fun links_to :: "u8 list \<Rightarrow> nat \<Rightarrow> nat list \<Rightarrow> bool" where
  "links_to img p [] \<longleftrightarrow> pointer_at img p = 0"
| "links_to img p (c # cs) \<longleftrightarrow> unat (pointer_at img p) = c div 512 \<and> links_to img (c + 508) cs"

lemma put_half:
  assumes "p + 2 \<le> length img"
  shows "length (file_put img p (half_bytes x)) = length img"
    and "pointer_at (file_put img p (half_bytes x)) p = x"
    and "i \<noteq> p \<Longrightarrow> i \<noteq> Suc p \<Longrightarrow> i < length img \<Longrightarrow> file_put img p (half_bytes x) ! i = img ! i"
proof -
  have f: "file_put img p (half_bytes x) = take p img @ half_bytes x @ drop (p + 2) img"
    using assms by (simp add: file_put_def)
  show "length (file_put img p (half_bytes x)) = length img" using assms by (simp add: f)
  have t: "length (take p img) = p" using assms by simp
  show "pointer_at (file_put img p (half_bytes x)) p = x"
    unfolding pointer_at_def f using t by (simp add: nth_append half_bytes_def)
  assume i: "i \<noteq> p" "i \<noteq> Suc p" "i < length img"
  then consider "i < p" | "p + 2 \<le> i" by linarith
  then show "file_put img p (half_bytes x) ! i = img ! i"
  proof cases
    case 2
    then obtain k where "i = p + 2 + k" using le_Suc_ex by blast
    then show ?thesis unfolding f using t assms by (simp add: nth_append half_bytes_def)
  qed (use t in \<open>simp add: f nth_append\<close>)
qed

definition link_room :: "u8 list \<Rightarrow> nat \<Rightarrow> nat list \<Rightarrow> bool" where
  "link_room img p cs \<longleftrightarrow> p + 2 \<le> length img \<and> (\<forall>c \<in> set cs. cluster_at_sector c \<and> c + 512 \<le> length img)"

lemma link_room_Cons: "link_room img p (c # cs) \<Longrightarrow> link_room (file_put img p (half_bytes x)) (c + 508) cs"
  by (auto simp: link_room_def put_half)

lemma write_links_length: "link_room img p cs \<Longrightarrow> length (write_links img p cs) = length img"
proof (induction cs arbitrary: img p)
  case (Cons c cs)
  then show ?case using Cons.IH [OF link_room_Cons [OF Cons.prems]] by (simp add: put_half link_room_def)
qed simp

lemma write_links_other:
  "link_room img p cs \<Longrightarrow> i \<notin> link_cells p cs \<Longrightarrow> i < length img \<Longrightarrow> write_links img p cs ! i = img ! i"
proof (induction cs arbitrary: img p)
  case (Cons c cs)
  have p: "p + 2 \<le> length img" using Cons.prems(1) by (simp add: link_room_def)
  show ?case
    using Cons.IH [OF link_room_Cons [OF Cons.prems(1)]] Cons.prems(2,3) put_half(1,3) [OF p] by simp
qed simp

lemma link_cells_where:
  assumes "i \<in> link_cells p cs"
  shows "i = p \<or> i = Suc p \<or> (\<exists>c \<in> set cs. i = c + 508 \<or> i = c + 509)"
  using assms
proof (induction cs arbitrary: p)
  case (Cons c cs)
  then show ?case using Cons.IH [of "c + 508"] by auto
qed simp

text \<open>Whether a cell lies apart from the pointers in the clusters.\<close>

definition apart :: "nat \<Rightarrow> nat list \<Rightarrow> bool" where
  "apart p cs \<longleftrightarrow> (\<forall>c \<in> set cs. p + 2 \<le> c + 508 \<or> c + 510 \<le> p)"

lemma apart_clusters:
  assumes "cluster_at_sector c" "\<forall>d \<in> set cs. cluster_at_sector d" "c \<notin> set cs"
  shows "apart (c + 508) cs"
  unfolding apart_def
proof
  fix d assume d: "d \<in> set cs"
  have "512 dvd c" "512 dvd d"
    using assms(1,2) d by (auto simp: cluster_at_sector_def mod_eq_0_iff_dvd)
  then obtain j k where jk: "c = 512 * j" "d = 512 * k" unfolding dvd_def by blast
  then have "j \<noteq> k" using assms(3) d by auto
  then show "c + 508 + 2 \<le> d + 508 \<or> d + 510 \<le> c + 508" unfolding jk by linarith
qed

lemma links_written:
  assumes "link_room img p cs" "distinct cs" "apart p cs" "\<forall>c \<in> set cs. pointer_at img (c + 508) = 0"
    "cs = [] \<Longrightarrow> pointer_at img p = 0"
  shows "links_to (write_links img p cs) p cs"
  using assms
proof (induction cs arbitrary: img p)
  case (Cons c cs)
  let ?img = "file_put img p (half_bytes (of_nat (c div 512)))"
  have p: "p + 2 \<le> length img" and cl: "\<forall>d \<in> set (c # cs). cluster_at_sector d \<and> d + 512 \<le> length img"
    using Cons.prems(1) by (simp_all add: link_room_def)
  have ap: "apart (c + 508) cs" using Cons.prems(2) cl by (intro apart_clusters) auto
  have zero: "pointer_at ?img (d + 508) = 0" if d: "d \<in> set (c # cs)" for d
  proof -
    have "d + 508 \<noteq> p" "d + 508 \<noteq> Suc p" "Suc (d + 508) \<noteq> p" "Suc (d + 508) \<noteq> Suc p"
      using Cons.prems(3) d unfolding apart_def by fastforce+
    moreover have "d + 508 < length img" "Suc (d + 508) < length img" using cl d by fastforce+
    ultimately have "pointer_at ?img (d + 508) = pointer_at img (d + 508)"
      by (simp add: pointer_at_def put_half(3) [OF p])
    then show ?thesis using Cons.prems(4) d by auto
  qed
  have "links_to (write_links ?img (c + 508) cs) (c + 508) cs"
    by (rule Cons.IH [OF link_room_Cons [OF Cons.prems(1)]]) (use Cons.prems(2) ap zero in auto)
  moreover have "pointer_at (write_links ?img (c + 508) cs) p = pointer_at ?img p"
  proof -
    have "p \<notin> link_cells (c + 508) cs" "Suc p \<notin> link_cells (c + 508) cs"
      using Cons.prems(3) unfolding apart_def by (auto dest!: link_cells_where)
    then show ?thesis
      using write_links_other [OF link_room_Cons [OF Cons.prems(1)]] p put_half(1) [OF p]
      by (simp add: pointer_at_def)
  qed
  moreover have "unat (of_nat (c div 512) :: u16) = c div 512"
    using cl by (auto simp: unat_of_nat cluster_at_sector_def)
  ultimately show ?case by (simp add: put_half(2) [OF p])
qed simp

lemma pointer_in_sector:
  "c + 512 \<le> length img \<Longrightarrow>
    half (take 512 (drop c img) ! 508) (take 512 (drop c img) ! 509) = pointer_at img (c + 508)"
  by (simp add: pointer_at_def add.commute)

lemma chunk_bytes_nth:
  assumes "length (ch_entries k) = SECTOR_MAP_ENTRIES" and "j < 512" "j \<noteq> 508" "j \<noteq> 509"
  shows "chunk_bytes (k\<lparr>ch_next_chunk := x\<rparr>) ! j = chunk_bytes k ! j"
proof -
  let ?E = "concat (map (\<lambda>e. half_bytes (se_sector e) @ half_bytes (se_count e)) (ch_entries k))"
  have E: "length ?E = 508" using assms(1) by (simp add: entry_bytes_length SECTOR_MAP_ENTRIES_def del: length_concat)
  consider "j < 508" | "j = 510" | "j = 511" using assms(2-) by linarith
  then show ?thesis
    using E by cases (simp_all add: chunk_bytes_def nth_append half_bytes_def del: length_concat)
qed

lemma half_inj:
  assumes "half a b = half c d"
  shows "a = c" and "b = d"
proof -
  have e: "unat a + 256 * unat b = unat c + 256 * unat d" using assms unat_half by metis
  have "unat a < 256" "unat c < 256" using unsigned_less [of a] unsigned_less [of c] by simp_all
  then have a: "unat a = unat c" using arg_cong [OF e, of "\<lambda>n. n mod 256"] by simp
  then have "unat b = unat d" using e by simp
  with a show "a = c" "b = d" by (simp_all add: word_unat_eq_iff)
qed

text \<open>A sector with only its pointer changed holds the chunk with only its pointer changed.\<close>

lemma sector_linked:
  assumes c: "c + 512 \<le> length img" and l: "length img' = length img"
    and k: "take 512 (drop c img) = chunk_bytes k" "length (ch_entries k) = SECTOR_MAP_ENTRIES"
    and same: "\<And>j. j < 512 \<Longrightarrow> j \<noteq> 508 \<Longrightarrow> j \<noteq> 509 \<Longrightarrow> img' ! (c + j) = img ! (c + j)"
    and x: "pointer_at img' (c + 508) = x"
  shows "take 512 (drop c img') = chunk_bytes (k\<lparr>ch_next_chunk := x\<rparr>)"
proof (rule nth_equalityI)
  have n: "length (chunk_bytes (k\<lparr>ch_next_chunk := x\<rparr>)) = 512" using k(2) by (simp add: chunk_bytes_length)
  show "length (take 512 (drop c img')) = length (chunk_bytes (k\<lparr>ch_next_chunk := x\<rparr>))"
    using c l n by simp
  fix j assume "j < length (take 512 (drop c img'))"
  then have j: "j < 512" by simp
  have t: "take 512 (drop c img') ! j = img' ! (c + j)" using j c l by simp
  show "take 512 (drop c img') ! j = chunk_bytes (k\<lparr>ch_next_chunk := x\<rparr>) ! j"
  proof (cases "j = 508 \<or> j = 509")
    case False
    then have "chunk_bytes (k\<lparr>ch_next_chunk := x\<rparr>) ! j = take 512 (drop c img) ! j"
      using chunk_bytes_nth [OF k(2) j] k(1) by simp
    also have "\<dots> = img ! (c + j)" using j c by simp
    finally show ?thesis using t same [OF j] False by simp
  next
    case True
    have "half (img' ! (c + 508)) (img' ! (c + 509)) =
        half (chunk_bytes (k\<lparr>ch_next_chunk := x\<rparr>) ! 508) (chunk_bytes (k\<lparr>ch_next_chunk := x\<rparr>) ! 509)"
      using chunk_next [of "k\<lparr>ch_next_chunk := x\<rparr>"] k(2) x by (simp add: pointer_at_def add.commute [of c])
    from half_inj [OF this] True t show ?thesis by auto
  qed
qed

lemma outside_links:
  assumes sec: "\<forall>c \<in> set cs. cluster_at_sector c" and c: "c \<in> set cs" and j: "j < 512" "j \<noteq> 508" "j \<noteq> 509"
  shows "c + j \<notin> link_cells 506 cs"
proof
  have "512 dvd c" "512 \<le> c" using sec c by (auto simp: cluster_at_sector_def mod_eq_0_iff_dvd)
  then obtain m where m: "c = 512 * m" unfolding dvd_def by auto
  assume "c + j \<in> link_cells 506 cs"
  then consider "c + j \<le> 507" | d where "d \<in> set cs" "c + j = d + 508 \<or> c + j = d + 509"
    by (auto dest!: link_cells_where)
  then show False
  proof cases
    case 2
    then have "512 dvd d" using sec by (auto simp: cluster_at_sector_def mod_eq_0_iff_dvd)
    then obtain k where k: "d = 512 * k" unfolding dvd_def by auto
    then have "512 * m + j = 512 * k + 508 \<or> 512 * m + j = 512 * k + 509" using 2(2) m by simp
    then show False using j by (cases m k rule: linorder_cases) linarith+
  qed (use \<open>512 \<le> c\<close> in simp)
qed

text \<open>The chunks with the pointers the second round gives them: each leads to the next, the last ends.\<close>

fun linked :: "nat list \<Rightarrow> sector_map_chunk list \<Rightarrow> sector_map_chunk list" where
  "linked (c # cs) (k # ks) =
     k\<lparr>ch_next_chunk := (case cs of [] \<Rightarrow> 0 | d # _ \<Rightarrow> of_nat (d div 512))\<rparr> # linked cs ks"
| "linked _ _ = []"

lemma sectors_linked:
  assumes "links_to img' p cs" "length img' = length img"
    and "map (\<lambda>c. take 512 (drop c img)) cs = map chunk_bytes ks" "chunks_ok ks"
    and "\<forall>c \<in> set cs. c + 512 \<le> length img \<and> c < 65536 * 512"
    and "\<And>c j. c \<in> set cs \<Longrightarrow> j < 512 \<Longrightarrow> j \<noteq> 508 \<Longrightarrow> j \<noteq> 509 \<Longrightarrow> img' ! (c + j) = img ! (c + j)"
  shows "map (\<lambda>c. take 512 (drop c img')) cs = map chunk_bytes (linked cs ks)"
  using assms
proof (induction cs arbitrary: p ks)
  case (Cons c cs)
  obtain k ks' where k: "ks = k # ks'" using Cons.prems(3) by (cases ks) auto
  let ?x = "case cs of [] \<Rightarrow> 0 | d # _ \<Rightarrow> (of_nat (d div 512) :: u16)"
  have l: "links_to img' (c + 508) cs" using Cons.prems(1) by simp
  have "pointer_at img' (c + 508) = ?x"
  proof (cases cs)
    case (Cons d ds)
    then have "unat (pointer_at img' (c + 508)) = d div 512" using l by simp
    from arg_cong [OF this, of "of_nat :: nat \<Rightarrow> u16"] Cons show ?thesis by simp
  qed (use l in simp)
  then have "take 512 (drop c img') = chunk_bytes (k\<lparr>ch_next_chunk := ?x\<rparr>)"
    using Cons.prems(2-6) k by (intro sector_linked [of c img]) (auto simp: chunks_ok_def)
  moreover have "map (\<lambda>c. take 512 (drop c img')) cs = map chunk_bytes (linked cs ks')"
    using Cons.IH [OF l Cons.prems(2), of ks'] Cons.prems(3-6) k by (auto simp: chunks_ok_def)
  ultimately show ?case using k by simp
qed simp

section \<open>Files of the host\<close>

lemma fd_path_open:
  assumes "ho_faults h = []" and "ho_files h path \<noteq> None \<or> creat"
  obtains fd h' where "host_open path creat h = (fd, h')" "0 \<le> fd" "ho_faults h' = []" "fd_path fd h = None"
    "\<And>x. fd_path x h' = (if x = fd then Some path else fd_path x h)" "fd_pos fd h' = 0"
    "ho_files h' = (if ho_files h path = None then (ho_files h)(path \<mapsto> []) else ho_files h)"
proof -
  let ?k = "free_fd (ho_fds h)"
  let ?fds = "if ?k < length (ho_fds h) then ho_fds h else ho_fds h @ [None]"
  have k: "?k \<le> length (ho_fds h)" by (simp add: free_fd_def length_takeWhile_le)
  have free: "?k < length (ho_fds h) \<Longrightarrow> ho_fds h ! ?k = None"
    using nth_length_takeWhile [of "\<lambda>f. f \<noteq> None" "ho_fds h"] unfolding free_fd_def by blast
  have len: "length ?fds = max (Suc ?k) (length (ho_fds h))" using k by auto
  let ?h = "h\<lparr>ho_fds := ?fds[?k := Some (path, 0)],
    ho_files := if ho_files h path = None then (ho_files h)(path \<mapsto> []) else ho_files h\<rparr>"
  have path: "fd_path x ?h = (if x = int ?k then Some path else fd_path x h)" for x
  proof (cases "x = int ?k")
    case True
    then show ?thesis using k by (auto simp: fd_path_def)
  next
    case False
    then have n: "0 \<le> x \<Longrightarrow> nat x \<noteq> ?k" by auto
    show ?thesis using k n False by (auto simp: fd_path_def nth_append)
  qed
  show ?thesis
  proof (rule that)
    show "host_open path creat h = (int ?k, ?h)"
      using assms by (auto simp: host_open_def quiet_calls called_quiet Let_def)
    show "fd_path (int ?k) h = None" using free by (simp add: fd_path_def)
    show "fd_pos (int ?k) ?h = 0" using k by (auto simp: fd_pos_def)
  qed (use assms(1) path in simp_all)
qed

lemma fd_path_close: "0 \<le> fd \<Longrightarrow> fd_path x (host_close fd h) = (if x = fd then None else fd_path x h)"
  by (auto simp: fd_path_def host_close_def nth_list_update)

lemma close_simps [simp]:
  "ho_files (host_close fd h) = ho_files h" "ho_faults (host_close fd h) = ho_faults h"
  by (simp_all add: host_close_def)

lemma fd_path_files [simp]: "fd_path x (h\<lparr>ho_files := fs\<rparr>) = fd_path x h" "fd_pos x (h\<lparr>ho_files := fs\<rparr>) = fd_pos x h"
  by (simp_all add: fd_path_def fd_pos_def)

lemma set_pos_simps:
  assumes "fd_path fd h = Some path"
  shows "fd_path x (set_pos fd path n h) = fd_path x h" "fd_pos fd (set_pos fd path n h) = n"
    "ho_files (set_pos fd path n h) = ho_files h" "ho_faults (set_pos fd path n h) = ho_faults h"
  using assms by (auto simp: fd_path_def fd_pos_def set_pos_def nth_list_update split: if_splits)

lemma file_put_append:
  assumes "p \<le> length f"
  shows "file_put (file_put f p b) (p + length b) b' = file_put f p (b @ b')"
  using assms by (simp add: file_put_def min_def ac_simps)

lemma file_put_none: "p \<le> length f \<Longrightarrow> file_put f p [] = f"
  by (simp add: file_put_def)

lemma write_chunks:
  assumes "ho_faults h = []" "fd_path fd h = Some path" "ho_files h path = Some f" "fd_pos fd h \<le> length f"
  shows "\<exists>h'. write_chunks fd cs h = (True, h') \<and> ho_faults h' = [] \<and> (\<forall>x. fd_path x h' = fd_path x h) \<and>
    ho_files h' = (ho_files h)(path \<mapsto> file_put f (fd_pos fd h) (concat (map chunk_bytes cs)))"
  using assms
proof (induction cs arbitrary: h f)
  case Nil
  then show ?case by (simp add: file_put_none fun_upd_idem)
next
  case (Cons c cs)
  let ?f = "file_put f (fd_pos fd h) (chunk_bytes c)" and ?p = "fd_pos fd h + length (chunk_bytes c)"
  let ?h = "set_pos fd path ?p (h\<lparr>ho_files := (ho_files h)(path \<mapsto> ?f)\<rparr>)"
  have w: "host_write fd (chunk_bytes c) h = (True, ?h)"
    using Cons.prems by (simp add: host_write_def quiet_calls called_quiet)
  have fp: "fd_path fd (h\<lparr>ho_files := (ho_files h)(path \<mapsto> ?f)\<rparr>) = Some path" using Cons.prems(2) by simp
  note sp = set_pos_simps [OF fp]
  have "\<exists>h'. write_chunks fd cs ?h = (True, h') \<and> ho_faults h' = [] \<and> (\<forall>x. fd_path x h' = fd_path x ?h) \<and>
      ho_files h' = (ho_files ?h)(path \<mapsto> file_put ?f (fd_pos fd ?h) (concat (map chunk_bytes cs)))"
    by (rule Cons.IH) (use Cons.prems sp in \<open>auto simp: file_put_def\<close>)
  then show ?case
    using Cons.prems(4) by (auto simp: w sp file_put_append)
qed

text \<open>The searches see nothing of the host but the image.\<close>

definition image_read :: "u8 list \<Rightarrow> nat \<Rightarrow> u64 \<Rightarrow> u8 list option" where
  "image_read img n off = (if off <s 0 then None else Some (take n (drop (unat off) img)))"

lemma pread_image: "reads_as fd img h \<Longrightarrow> host_pread fd n off h = (image_read img n off, h)"
  by (auto simp: host_pread_def reads_as_def image_read_def quiet_calls called_quiet)

lemma fat_entry_same:
  assumes "reads_as (tf_fd hand) img h" and "reads_as (tf_fd hand) img g"
  shows "\<exists>e. tool_get_fat_entry hand n h = (e, h) \<and> tool_get_fat_entry hand n g = (e, g)"
  using assms by (simp add: tool_get_fat_entry_def Let_def pread_image split: option.split)

lemma next_cluster_same:
  assumes "reads_as (tf_fd hand) img h" and "reads_as (tf_fd hand) img g"
  shows "tool_get_next_cluster hand c g = bnd (tool_get_next_cluster hand c h) (\<lambda>(d, _). Inr (d, g))"
proof -
  obtain e where "tool_get_fat_entry hand (ucast ((c - tf_data_offset hand) div tf_cluster_size hand + 2)) h = (e, h)"
    "tool_get_fat_entry hand (ucast ((c - tf_data_offset hand) div tf_cluster_size hand + 2)) g = (e, g)"
    using fat_entry_same [OF assms] by blast
  then show ?thesis by (simp add: tool_get_next_cluster_def Let_def)
qed

lemma find_loop_same:
  assumes "reads_as (tf_fd hand) img h" and "reads_as (tf_fd hand) img g"
  shows "tool_find_loop fuel hand off name g = bnd (tool_find_loop fuel hand off name h) (\<lambda>(r, f, _). Inr (r, f, g))"
proof (induction fuel arbitrary: off)
  case 0
  then show ?case by (simp add: tool_find_loop.simps)
next
  case (Suc fuel)
  let ?n = "unat (tf_cluster_size hand)"
  have host: "tool_get_next_cluster hand off h = Inr (d, h') \<Longrightarrow> h' = h" for d h'
    using next_cluster_same [OF assms(1,1), of off] by simp
  let ?rest = "\<lambda>h. bnd (tool_get_next_cluster hand off h) (\<lambda>(d, h). tool_find_loop fuel hand d name h)"
  have rest: "?rest g = bnd (?rest h) (\<lambda>(r, f, _). Inr (r, f, g))"
    unfolding next_cluster_same [OF assms, of off]
  proof (cases "tool_get_next_cluster hand off h")
    case (Inr p)
    then obtain d where "p = (d, h)" using host by (cases p) auto
    with Inr show "bnd (bnd (tool_get_next_cluster hand off h) (\<lambda>(d, _). Inr (d, g)))
        (\<lambda>(d, h). tool_find_loop fuel hand d name h) = bnd (?rest h) (\<lambda>(r, f, _). Inr (r, f, g))"
      by (simp add: Suc)
  qed simp
  show ?case
  proof (cases "off = 0")
    case True
    then show ?thesis by (simp add: tool_find_loop.simps)
  next
    case nz: False
    show ?thesis
    proof (cases "\<exists>b. image_read img ?n off = Some b \<and> length b = ?n")
      case True
      then obtain b where b: "image_read img ?n off = Some b" "length b = ?n" by blast
      show ?thesis
        unfolding tool_find_loop.simps [of "Suc fuel"] pread_image [OF assms(1)] pread_image [OF assms(2)] b(1)
        using nz b(2) rest
        by (cases "tool_scan_dirents b name 0 (?n div tool_dirent_size)") (auto split: option.split)
    next
      case False
      then show ?thesis
        unfolding tool_find_loop.simps [of "Suc fuel"] pread_image [OF assms(1)] pread_image [OF assms(2)]
        using nz by (cases "image_read img ?n off") auto
    qed
  qed
qed

lemma malloc_image: "reads_as fd img h \<Longrightarrow> host_malloc h = (True, h)"
  by (auto simp: reads_as_def intro: malloc_quiet)

lemma find_entry_same:
  assumes "reads_as (tf_fd hand) img h" and "reads_as (tf_fd hand) img g"
  shows "tool_find_entry fuel hand dir name g = bnd (tool_find_entry fuel hand dir name h) (\<lambda>(r, f, _). Inr (r, f, g))"
  unfolding tool_find_entry_def malloc_image [OF assms(1)] malloc_image [OF assms(2)] Let_def
  using find_loop_same [OF assms]
  by (cases "strlen name") simp_all

lemma find_path_same:
  assumes "reads_as (tf_fd hand) img h" and "reads_as (tf_fd hand) img g"
  shows "tool_find_path fuel hand dir name g = bnd (tool_find_path fuel hand dir name h) (\<lambda>(r, f, _). Inr (r, f, g))"
proof (induction "length name" arbitrary: dir name rule: less_induct)
  case less
  note unf = tool_find_path.simps [of fuel hand dir name]
  show ?case
  proof (cases "strchr name (of_char CHR ''/'')")
    case (Inl e)
    then show ?thesis unfolding unf by simp
  next
    case (Inr sep)
    show ?thesis
    proof (cases sep)
      case None
      then show ?thesis unfolding unf Inr using find_entry_same [OF assms] by simp
    next
      case (Some i)
      let ?find = "\<lambda>h. tool_find_entry fuel hand dir (take i name @ [0]) h"
      note E = find_entry_same [OF assms, of fuel dir "take i name @ [0]"]
      have host: "?find h = Inr (r, f, h') \<Longrightarrow> h' = h" for r f h'
        using find_entry_same [OF assms(1,1), of fuel dir "take i name @ [0]"] by simp
      show ?thesis
      proof (cases "?find h")
        case e: (Inl e)
        show ?thesis unfolding unf Inr Some malloc_image [OF assms(1)] malloc_image [OF assms(2)] Let_def
          by (simp add: E e)
      next
        case p: (Inr p)
        then obtain r f where f: "?find h = Inr (r, f, h)" using host by (cases p) auto
        then have g: "?find g = Inr (r, f, g)" using E by simp
        show ?thesis unfolding unf Inr Some malloc_image [OF assms(1)] malloc_image [OF assms(2)] Let_def
          using less [of "drop (Suc i) name"] by (auto simp: f g split: option.split)
      qed
    qed
  qed
qed

lemma find_file_same:
  assumes "reads_as (tf_fd hand) img h" and "reads_as (tf_fd hand) img g"
    and "tool_fat_find_file fuel hand dir name h = Inr (r, f, h')"
  shows "tool_fat_find_file fuel hand dir name g = Inr (r, f, g)"
  using assms(3) find_path_same [OF assms(1,2)]
  by (auto simp: tool_fat_find_file_def split: list.splits if_splits)

text \<open>Opening and closing an image.\<close>

lemma open_image:
  assumes o: "tool_fat_open path h = (0, fat, h1)" and q: "ho_faults h = []"
  shows "\<exists>img. ho_files h path = Some img \<and> reads_as (tf_fd fat) img h1 \<and> 0 \<le> tf_fd fat \<and>
    ho_files h1 = ho_files h \<and> fd_path (tf_fd fat) h = None \<and>
    (\<forall>x. fd_path x h1 = (if x = tf_fd fat then Some path else fd_path x h))"
proof (cases "ho_files h path")
  case None
  then have "host_open path False h = (-1, h)" using q by (simp add: host_open_def called_quiet)
  with o show ?thesis by (simp add: tool_fat_open_def Let_def)
next
  case (Some img)
  then have "ho_files h path \<noteq> None \<or> False" by simp
  from fd_path_open [OF q this] obtain fd h' where O: "host_open path False h = (fd, h')" "0 \<le> fd"
    "ho_faults h' = []" "fd_path fd h = None" "\<And>x. fd_path x h' = (if x = fd then Some path else fd_path x h)"
    "fd_pos fd h' = 0" "ho_files h' = ho_files h"
    using Some by auto
  have p: "fd_path fd h' = Some path" using O(5) by simp
  let ?b = "take tool_bootsector_size img" and ?h = "set_pos fd path (length (take tool_bootsector_size img)) h'"
  have r: "host_read fd tool_bootsector_size h' = (Some ?b, ?h)"
    using p Some by (simp add: host_read_def quiet_calls [OF O(3)] called_quiet [OF O(3)] O(6,7) Let_def)
  note sp = set_pos_simps [OF p]
  have "length ?b = tool_bootsector_size"
  proof (rule ccontr)
    assume "length ?b \<noteq> tool_bootsector_size"
    with o show False
      using O(2) by (simp add: tool_fat_open_def Let_def O(1) malloc_quiet [OF O(3)] r split: if_splits)
  qed
  with o have "tf_fd fat = fd" "h1 = ?h"
    using O(2) by (auto simp: tool_fat_open_def Let_def O(1) malloc_quiet [OF O(3)] r)
  then show ?thesis
    using Some O(2,4,5,7) O(3) sp p by (auto simp: reads_as_def)
qed

lemma round_up:
  assumes "unat n < 2 ^ 32" and "2 \<le> unat d"
  shows "unat (round_up_div n d) = (unat n + unat d - 1) div unat d"
proof -
  let ?q = "unat n div unat d" and ?r = "unat n mod unat d"
  have q: "?q \<le> unat n div 2" using assms(2) by (rule div_le_mono2 [rotated]) simp
  then have q32: "?q < 2 ^ 32 - 1" using assms(1) by simp
  have u: "unat (n div d) = ?q" by (simp add: unat_div_distrib)
  then have uq: "unat (ucast (n div d) :: u32) = ?q" using q32 by (subst unat_ucast_down) simp_all
  have e: "unat n = unat d * ?q + ?r" by simp
  have r: "?r < unat d" using assms(2) by simp
  have z: "n mod d = 0 \<longleftrightarrow> ?r = 0" by (metis unat_eq_zero unat_mod_distrib)
  show ?thesis
  proof (cases "?r = 0")
    case True
    have "unat n + unat d - 1 = unat d * ?q + (unat d - 1)" using e True assms(2) by linarith
    moreover have "(unat d * ?q + (unat d - 1)) div unat d = ?q"
      using assms(2) by (intro div_nat_eqI) (auto simp: algebra_simps)
    ultimately have "(unat n + unat d - 1) div unat d = ?q" by simp
    with True z uq show ?thesis by (simp add: round_up_div_def Let_def)
  next
    case False
    have "unat n + unat d - 1 = unat d * Suc ?q + (?r - 1)" using e False assms(2) by (simp only: mult_Suc_right)
    moreover have "(unat d * Suc ?q + (?r - 1)) div unat d = Suc ?q" using r by (intro div_nat_eqI) (auto simp: algebra_simps)
    ultimately have "(unat n + unat d - 1) div unat d = Suc ?q" by simp
    moreover have "unat ((ucast (n div d) :: u32) + 1) = Suc ?q" using uq q32 by (subst unat_add_no_wrap) simp_all
    ultimately show ?thesis using False z by (simp add: round_up_div_def Let_def)
  qed
qed

lemma chunks_room: "b < (Suc b + 126) div 127 * 127"
proof -
  have "(Suc b + 126) div 127 * 127 + (Suc b + 126) mod 127 = Suc b + 126" "(Suc b + 126) mod 127 < 127"
    by (rule div_mult_mod_eq, rule mod_less_divisor) simp
  then show ?thesis by linarith
qed

lemma breaks_less: "ss \<noteq> [] \<Longrightarrow> breaks ss < length ss"
proof -
  assume "ss \<noteq> []"
  moreover have "breaks ss \<le> length [1..<length ss]" unfolding breaks_def by (rule length_filter_le)
  ultimately show ?thesis by (cases ss) (simp_all del: upt_Suc)
qed

section \<open>The two rounds\<close>

text \<open>A file whose clusters the program can map: at least one, all of them sectors of the image.\<close>

definition file_clusters :: "tool_file \<Rightarrow> nat" where
  "file_clusters f = (unat (tl_size f) + 511) div 512"

definition mappable :: "tool_fat \<Rightarrow> u8 list \<Rightarrow> tool_file \<Rightarrow> bool" where
  "mappable fat img f \<longleftrightarrow> 0 < unat (tl_size f) \<and> unat (tl_size f) < 2 ^ 32 \<and>
     tool_chain_ok fat img (unat (tl_first_cluster f)) (file_clusters f)"

abbreviation clusters_of :: "tool_fat \<Rightarrow> u8 list \<Rightarrow> tool_file \<Rightarrow> nat list" where
  "clusters_of fat img f \<equiv> tool_clusters fat img (unat (tl_first_cluster f)) (file_clusters f)"

lemma file_clusters_bounds:
  assumes "mappable fat img f"
  shows "0 < file_clusters f" "file_clusters f \<le> 2 ^ 23" "unat (tl_size f) \<le> 512 * file_clusters f"
    "512 * (file_clusters f - 1) < unat (tl_size f)"
proof -
  have s: "0 < unat (tl_size f)" "unat (tl_size f) < 4294967296" using assms by (simp_all add: mappable_def)
  show "0 < file_clusters f" "file_clusters f \<le> 2 ^ 23" "unat (tl_size f) \<le> 512 * file_clusters f"
    "512 * (file_clusters f - 1) < unat (tl_size f)"
  proof -
    let ?n = "(unat (tl_size f) + 511) div 512" and ?m = "(unat (tl_size f) + 511) mod 512"
    have "512 * ?n + ?m = unat (tl_size f) + 511" "?m < 512" by simp_all
    then show "0 < file_clusters f" "file_clusters f \<le> 2 ^ 23" "unat (tl_size f) \<le> 512 * file_clusters f"
      "512 * (file_clusters f - 1) < unat (tl_size f)"
      using s unfolding file_clusters_def diff_mult_distrib2 by simp_all
  qed
qed

lemma clusters_of_sectors:
  assumes "tool_geom fat" "mappable fat img f"
  shows "\<forall>c \<in> set (clusters_of fat img f). cluster_at_sector c \<and> c + 512 \<le> length img"
  using tool_clusters_ok [of fat img _ "file_clusters f"] assms
  by (fastforce simp: mappable_def tool_geom_def tool_cluster_ok_def cluster_at_sector_def)

lemma get_file_clusters:
  assumes g: "tool_geom fat" and r: "reads_as (tf_fd fat) img h" and m: "mappable fat img f"
  shows "tool_get_file_clusters fat f (unat (round_up_div (tl_size f) (tf_cluster_size fat))) h =
    Inr (0, map of_nat (clusters_of fat img f), h)"
proof -
  have cs: "tf_cluster_size fat = 512" using g by (simp add: tool_geom_def)
  have n: "unat (round_up_div (tl_size f) (tf_cluster_size fat)) = file_clusters f"
    using m by (subst round_up) (simp_all add: cs mappable_def file_clusters_def)
  note b = file_clusters_bounds [OF m]
  have b23: "file_clusters f \<le> 8388608" using b(2) by simp
  show ?thesis
    unfolding tool_get_file_clusters_def n
    by (rule clusters_loop [OF g r]) (use m b(1,3,4) b23 in \<open>simp_all add: mappable_def\<close>)
qed

lemma close_image:
  assumes "0 \<le> tf_fd fat" "tf_fd fat \<noteq> 0"
  shows "fd_path x (tool_fat_close fat h) = (if x = tf_fd fat then None else fd_path x h)"
    "ho_files (tool_fat_close fat h) = ho_files h"
  using assms by (simp_all add: tool_fat_close_def fd_path_close)

text \<open>
  C37: The first round of the sector mapper writes the map of the file it is given: when no call of the
  library fails, and the clusters of the file are sectors of the image, it returns 0 with a new map file
  that consists of the chunks whose runs are exactly the sectors of the file in order, changes no other
  file and leaves no descriptor open.
\<close>

theorem round1_maps:
  assumes q: "ho_faults h = []" "fd_path 0 h \<noteq> None" "ho_files h map_name = None"
    and opened: "tool_fat_open disk h = (0, fat, h1)" "ho_files h disk = Some img" "tool_geom fat"
    and found: "tool_fat_find_file fuel fat (tf_root_dir fat) name h1 = Inr (0, Some f, h1')"
    and mappd: "mappable fat img f"
  shows "\<exists>h' chunks. round1 fuel [prog, cmd, disk, name, map_name] h = Inr (0, h') \<and>
    chunks_list (sectors (clusters_of fat img f)) chunks \<and>
    ho_files h' = (ho_files h)(map_name \<mapsto> concat (map chunk_bytes chunks)) \<and>
    (\<forall>fd. fd_path fd h' = fd_path fd h)"
proof -
  let ?cs = "clusters_of fat img f"
  have img: "reads_as (tf_fd fat) img h1" "0 \<le> tf_fd fat" "ho_files h1 = ho_files h" "fd_path (tf_fd fat) h = None"
    and p1: "\<And>x. fd_path x h1 = (if x = tf_fd fat then Some disk else fd_path x h)"
    using open_image [OF opened(1) q(1)] opened(2) by auto
  have fd: "tf_fd fat \<noteq> 0" using img(4) q(2) by auto
  have cs: "tf_cluster_size fat = 512" using opened(3) by (simp add: tool_geom_def)
  have q1: "ho_faults h1 = []" using img(1) by (simp add: reads_as_def)
  have m1: "ho_files h1 map_name = None" using q(3) img(3) by simp
  have "ho_files h1 map_name \<noteq> None \<or> True" by simp
  from fd_path_open [OF q1 this] obtain mfd h2 where O: "host_open map_name True h1 = (mfd, h2)" "0 \<le> mfd"
    "ho_faults h2 = []" "fd_path mfd h1 = None" "\<And>x. fd_path x h2 = (if x = mfd then Some map_name else fd_path x h1)"
    "fd_pos mfd h2 = 0" "ho_files h2 = (ho_files h1)(map_name \<mapsto> [])"
    using m1 by auto
  have ne: "mfd \<noteq> tf_fd fat" using O(4) p1 by auto
  have r2: "reads_as (tf_fd fat) img h2"
    using ne O(3,5,7) p1 opened(2) q(3) img(3) by (auto simp: reads_as_def)
  note F = find_file_same [OF img(1) r2 found]
  note G = get_file_clusters [OF opened(3) r2 mappd]
  have sec: "\<forall>c \<in> set ?cs. cluster_at_sector c" using clusters_of_sectors [OF opened(3) mappd] by blast
  have nb: "length ?cs = file_clusters f" "?cs \<noteq> []" "file_clusters f \<le> 8388608"
    using file_clusters_bounds [OF mappd] by (auto simp flip: length_greater_0_conv)
  have "sectors ?cs \<noteq> []" using nb(2) by (simp add: sectors_def)
  from breaks_less [OF this] have b: "Suc (breaks (sectors ?cs)) \<le> 8388608" using nb by (simp add: sectors_def)
  let ?n = "count_map_entries fat (map of_nat ?cs)" and ?len = "(Suc (breaks (sectors ?cs)) + 126) div 127"
  have b32: "Suc (breaks (sectors ?cs)) < 2 ^ LENGTH(32)" using b by simp
  have "unat ?n = Suc (breaks (sectors ?cs))"
    unfolding count_entries [OF opened(3) sec] by (simp only: unsigned_of_nat take_bit_nat_eq_self [OF b32] of_nat_id)
  then have "unat (ucast ?n :: u64) = Suc (breaks (sectors ?cs))" by (subst unat_ucast_up) simp_all
  then have len: "unat (round_up_div (ucast ?n) (of_nat SECTOR_MAP_ENTRIES)) = ?len"
    using b by (subst round_up) (simp_all add: SECTOR_MAP_ENTRIES_def)
  have s127: "SECTOR_MAP_ENTRIES = 127" by (simp add: SECTOR_MAP_ENTRIES_def)
  have room: "breaks (sectors ?cs) < ?len * SECTOR_MAP_ENTRIES" unfolding s127 by (rule chunks_room)
  obtain chunks where C: "fill_chunks fat (map of_nat ?cs) (replicate ?len chunk_zero) = Inr chunks"
    "chunks_list (sectors ?cs) chunks"
    using fill_chunks [OF opened(3) sec nb(2) room] by blast
  have pm: "fd_path mfd h2 = Some map_name" "ho_files h2 map_name = Some []" using O(5,7) by simp_all
  obtain h3 where W: "write_chunks mfd chunks h2 = (True, h3)" "\<And>x. fd_path x h3 = fd_path x h2"
    "ho_files h3 = (ho_files h2)(map_name \<mapsto> file_put [] 0 (concat (map chunk_bytes chunks)))"
    using write_chunks [OF O(3) pm, of chunks] O(6) by auto
  have "round1 fuel [prog, cmd, disk, name, map_name] h = Inr (0, close_both mfd fat h3)"
  proof -
    have argv: "\<not> length [prog, cmd, disk, name, map_name] \<noteq> 5" "[prog, cmd, disk, name, map_name] ! 2 = disk"
      "[prog, cmd, disk, name, map_name] ! 3 = name" "[prog, cmd, disk, name, map_name] ! 4 = map_name"
      by (simp_all add: numeral_eq_Suc)
    have tests: "\<not> (0 :: int) \<noteq> 0" "\<not> tf_cluster_size fat \<noteq> 512" "\<not> mfd < 0" "\<not> \<not> True"
      using cs O(2) by simp_all
    show ?thesis
      unfolding round1_def if_not_P [OF argv(1)] argv(2-)
      by (simp only: Let_def opened(1) prod.case O(1) if_not_P [OF tests(1)] if_not_P [OF tests(2)]
          if_not_P [OF tests(3)] if_not_P [OF tests(4)] F bnd_Inr option.case malloc_quiet [OF O(3)] G len C(1) W(1))
  qed
  moreover have "ho_files (close_both mfd fat h3) = (ho_files h)(map_name \<mapsto> concat (map chunk_bytes chunks))"
    using W(3) O(7) img(3) close_image(2) [OF img(2) fd] by (simp add: close_both_def file_put_def)
  moreover have "fd_path x (close_both mfd fat h3) = fd_path x h" for x
    using W(2) O(4,5) p1 img(4) ne close_image(1) [OF img(2) fd] fd_path_close [OF O(2)]
    by (auto simp: close_both_def split: if_splits)
  ultimately show ?thesis using C(2) by blast
qed

lemma link_chunks:
  assumes g: "tool_geom fat" and "reads_as (tf_fd fat) img h" "fd_path (tf_fd fat) h = Some path"
    and "link_room img (unat p) cs" "unat p < 2 ^ 63"
  shows "\<exists>h'. link_chunks fat (map of_nat cs) p h = (True, h') \<and> ho_faults h' = [] \<and> ho_fds h' = ho_fds h \<and>
    ho_files h' = (ho_files h)(path \<mapsto> write_links img (unat p) cs)"
  using assms(2-)
proof (induction cs arbitrary: img p h)
  case Nil
  then show ?case by (auto simp: reads_as_def fun_upd_idem)
next
  case (Cons c cs)
  let ?img = "file_put img (unat p) (half_bytes (of_nat (c div 512)))"
  let ?h = "h\<lparr>ho_files := (ho_files h)(path \<mapsto> ?img)\<rparr>"
  have c: "cluster_at_sector c" "c < 65536 * 512" using Cons.prems(3) by (auto simp: link_room_def cluster_at_sector_def)
  have q: "ho_faults h = []" "ho_files h path = Some img" using Cons.prems(1,2) by (auto simp: reads_as_def)
  have "\<not> p <s 0" using sless_small64 [of p 0] Cons.prems(4) by simp
  then have w: "host_pwrite (tf_fd fat) (half_bytes (sector_of fat (of_nat c))) p h = (True, ?h)"
    using q Cons.prems(2) by (simp add: host_pwrite_def quiet_calls called_quiet sector_of_cluster [OF g c(1)])
  have "unat (of_nat c :: u32) = c" using c(2) by (simp add: unat_of_nat)
  then have "unat (ucast (of_nat c :: u32) :: u64) = c" by (subst unat_ucast_up) simp_all
  then have u: "unat (ucast (of_nat c :: u32) + offsetof_next_chunk) = c + 508"
    using c(2) by (subst unat_add_no_wrap) (simp_all add: offsetof_next_chunk_def SECTOR_MAP_ENTRIES_def)
  have "\<exists>h'. link_chunks fat (map of_nat cs) (ucast (of_nat c :: u32) + offsetof_next_chunk) ?h = (True, h') \<and>
      ho_faults h' = [] \<and> ho_fds h' = ho_fds ?h \<and>
      ho_files h' = (ho_files ?h)(path \<mapsto> write_links ?img (unat (ucast (of_nat c :: u32) + offsetof_next_chunk)) cs)"
    by (rule Cons.IH)
      (use q Cons.prems(2) c(2) link_room_Cons [OF Cons.prems(3)] in \<open>simp_all add: reads_as_def u\<close>)
  then show ?case by (auto simp: w u)
qed

text \<open>
  C38: The second round links the map of a file: when the clusters of the map file on the image hold
  chunks as the first round writes them, the round returns 0, the field at byte 506 of the boot sector
  then holds the number of the first of these sectors, and each of them holds its chunk with the number
  of the next sector as its pointer, the last one 0. Nothing else of the image changes, no other file
  does, and no descriptor stays open.
\<close>

theorem round2_links:
  assumes q: "ho_faults h = []" "fd_path 0 h \<noteq> None"
    and opened: "tool_fat_open disk h = (0, fat, h1)" "ho_files h disk = Some img" "tool_geom fat"
    and found: "tool_fat_find_file fuel fat (tf_root_dir fat) name h1 = Inr (0, Some f, h1')"
    and mappd: "mappable fat img f" "distinct (clusters_of fat img f)"
    and map: "chunks_ok chunks"
      "map (\<lambda>c. take 512 (drop c img)) (clusters_of fat img f) = map chunk_bytes chunks"
  shows "\<exists>h' img'. round2 fuel [prog, cmd, disk, name] h = Inr (0, h') \<and>
    ho_files h' = (ho_files h)(disk \<mapsto> img') \<and> (\<forall>fd. fd_path fd h' = fd_path fd h) \<and>
    unat (pointer_at img' 506) = hd (clusters_of fat img f) div 512 \<and>
    map (\<lambda>c. take 512 (drop c img')) (clusters_of fat img f) =
      map chunk_bytes (linked (clusters_of fat img f) chunks) \<and>
    length img' = length img \<and>
    (\<forall>i < length img. i \<noteq> 506 \<and> i \<noteq> 507 \<and> (\<forall>c \<in> set (clusters_of fat img f). i < c \<or> c + 512 \<le> i)
       \<longrightarrow> img' ! i = img ! i)"
proof -
  let ?cs = "clusters_of fat img f"
  have im: "reads_as (tf_fd fat) img h1" "0 \<le> tf_fd fat" "ho_files h1 = ho_files h" "fd_path (tf_fd fat) h = None"
    and p1: "\<And>x. fd_path x h1 = (if x = tf_fd fat then Some disk else fd_path x h)"
    using open_image [OF opened(1) q(1)] opened(2) by auto
  have fd: "tf_fd fat \<noteq> 0" using im(4) q(2) by auto
  have cs: "tf_cluster_size fat = 512" using opened(3) by (simp add: tool_geom_def)
  have h1': "h1' = h1" and F: "tool_fat_find_file fuel fat (tf_root_dir fat) name h1 = Inr (0, Some f, h1)"
    using find_file_same [OF im(1) im(1) found] found by simp_all
  note G = get_file_clusters [OF opened(3) im(1) mappd(1)]
  have sec: "\<forall>c \<in> set ?cs. cluster_at_sector c \<and> c + 512 \<le> length img"
    using clusters_of_sectors [OF opened(3) mappd(1)] by blast
  have ne: "?cs \<noteq> []" using file_clusters_bounds(1) [OF mappd(1)] by (simp flip: length_greater_0_conv)
  then obtain c0 where "c0 \<in> set ?cs" by (cases ?cs) auto
  with sec have li: "1024 \<le> length img" by (fastforce simp: cluster_at_sector_def)
  have room: "link_room img 506 ?cs" using sec li by (simp add: link_room_def)
  have p506: "unat offsetof_stage2_map_sector = 506" by (simp add: stage2_map_sector_at)
  obtain h2 where L: "link_chunks fat (map of_nat ?cs) offsetof_stage2_map_sector h1 = (True, h2)"
    "ho_fds h2 = ho_fds h1" "ho_files h2 = (ho_files h1)(disk \<mapsto> write_links img 506 ?cs)"
    using link_chunks [OF opened(3) im(1), of disk offsetof_stage2_map_sector ?cs] p1 room unfolding p506 by auto
  let ?img = "write_links img 506 ?cs"
  have "round2 fuel [prog, cmd, disk, name] h = Inr (0, tool_fat_close fat h2)"
  proof -
    have argv: "\<not> length [prog, cmd, disk, name] \<noteq> 4" "[prog, cmd, disk, name] ! 2 = disk"
      "[prog, cmd, disk, name] ! 3 = name" by (simp_all add: numeral_eq_Suc)
    have tests: "\<not> (0 :: int) \<noteq> 0" "\<not> tf_cluster_size fat \<noteq> 512" "\<not> \<not> True" using cs by simp_all
    show ?thesis
      unfolding round2_def if_not_P [OF argv(1)] argv(2-)
      by (simp only: Let_def opened(1) prod.case if_not_P [OF tests(1)] if_not_P [OF tests(2)] if_not_P [OF tests(3)]
          F bnd_Inr option.case malloc_image [OF im(1)] G L(1) if_True)
  qed
  moreover have "ho_files (tool_fat_close fat h2) = (ho_files h)(disk \<mapsto> ?img)"
    using L(3) im(3) close_image(2) [OF im(2) fd] by simp
  moreover have "fd_path x (tool_fat_close fat h2) = fd_path x h" for x
  proof -
    have "fd_path x h2 = fd_path x h1" by (simp add: fd_path_def L(2))
    then show ?thesis using p1 im(4) close_image(1) [OF im(2) fd] by auto
  qed
  moreover have "unat (pointer_at ?img 506) = hd ?cs div 512 \<and>
      map (\<lambda>c. take 512 (drop c ?img)) ?cs = map chunk_bytes (linked ?cs chunks)"
  proof -
    have ok: "\<And>c. c \<in> set chunks \<Longrightarrow> length (ch_entries c) = SECTOR_MAP_ENTRIES \<and> ch_next_chunk c = 0"
      using map(1) by (auto simp: chunks_ok_def)
    have len: "length ?cs = length chunks" using map(2) by (metis length_map)
    have nth: "take 512 (drop (?cs ! i) img) = chunk_bytes (chunks ! i)" if "i < length ?cs" for i
      using map(2) that len by (metis nth_map)
    have "\<forall>c \<in> set ?cs. pointer_at img (c + 508) = 0"
    proof
      fix c assume c: "c \<in> set ?cs"
      then obtain i where i: "i < length ?cs" "c = ?cs ! i" by (metis in_set_conv_nth)
      then have "pointer_at img (c + 508) = half (chunk_bytes (chunks ! i) ! 508) (chunk_bytes (chunks ! i) ! 509)"
        using pointer_in_sector [of c img] sec c nth by simp
      then show "pointer_at img (c + 508) = 0" using chunk_next ok i(1) len by simp
    qed
    moreover have "apart 506 ?cs" using sec by (fastforce simp: apart_def cluster_at_sector_def)
    ultimately have links: "links_to ?img 506 ?cs"
      using links_written [OF room mappd(2)] ne by simp
    have same: "?img ! (c + j) = img ! (c + j)" if "c \<in> set ?cs" "j < 512" "j \<noteq> 508" "j \<noteq> 509" for c j
      using outside_links [OF _ that] write_links_other [OF room] sec that(1,2) by fastforce
    have "\<forall>c \<in> set ?cs. c + 512 \<le> length img \<and> c < 65536 * 512" using sec by (auto simp: cluster_at_sector_def)
    from sectors_linked [OF links write_links_length [OF room] map(2,1) this same] links ne
    show ?thesis by (cases ?cs) simp_all
  qed
  moreover have "?img ! i = img ! i" if i: "i < length img" "i \<noteq> 506" "i \<noteq> 507"
    "\<forall>c \<in> set ?cs. i < c \<or> c + 512 \<le> i" for i
  proof -
    have "i \<notin> link_cells 506 ?cs" using i(2-4) by (fastforce dest: link_cells_where)
    then show ?thesis using write_links_other [OF room _ i(1)] by blast
  qed
  ultimately show ?thesis
    using write_links_length [OF room] by blast
qed

section \<open>An image\<close>

text \<open>
  A boot sector, a table, a root directory of one sector with the second stage \<open>A\<close> (600 bytes in the
  clusters 2 and 3) and the map \<open>M\<close> (cluster 4), and the three clusters.
\<close>

definition disk_boot :: "u8 list" where
  "disk_boot = replicate 11 0 @ [0, 2, 1, 1, 0, 1, 16, 0, 0, 0, 0, 1, 0] @ replicate 488 0"

definition disk_table :: "u8 list" where
  "disk_table = [0xF0, 0xFF, 0xFF, 0x03, 0xF0, 0xFF, 0xFF, 0x0F] @ replicate 504 0"

definition disk_dirent :: "u8 \<Rightarrow> u8 \<Rightarrow> u8 list \<Rightarrow> u8 list" where
  "disk_dirent c clust sz = [c] @ replicate 10 32 @ [0x20] @ replicate 14 0 @ [clust, 0] @ sz"

definition disk_root :: "u8 list" where
  "disk_root = disk_dirent 65 2 [0x58, 2, 0, 0] @ disk_dirent 77 4 [0, 2, 0, 0] @ replicate 448 0"

definition disk_chunk :: sector_map_chunk where
  "disk_chunk = \<lparr>ch_entries = \<lparr>se_sector = 3, se_count = 2\<rparr> # replicate 126 zero_entry, ch_next_chunk = 0, ch_reserved = 0\<rparr>"

definition disk_image :: "u8 list" where
  "disk_image = disk_boot @ disk_table @ disk_root @ replicate 1024 0 @ chunk_bytes disk_chunk"

definition disk_host :: host where
  "disk_host = \<lparr>ho_files = [cstr ''disk'' \<mapsto> disk_image], ho_fds = [Some ([0], 0), Some ([0], 0), Some ([0], 0)],
     ho_faults = []\<rparr>"

lemma disk_lengths: "length disk_boot = 512" "length disk_table = 512" "length disk_root = 512"
  "length (chunk_bytes disk_chunk) = 512"
  by (simp_all add: disk_boot_def disk_table_def disk_root_def disk_dirent_def chunk_bytes_length disk_chunk_def
      SECTOR_MAP_ENTRIES_def)

definition disk_fat :: tool_fat where
  "disk_fat = \<lparr>tf_fd = 3, tf_cluster_size = 512, tf_fat_offset = 512, tf_fat_size = 512, tf_data_offset = 1536,
     tf_bootsector = Some disk_boot, tf_root_dir = \<lparr>tl_size = 512, tl_first_cluster = 1024, tl_attr = 0\<rparr>\<rparr>"

definition disk_opened :: host where
  "disk_opened = set_pos 3 (cstr ''disk'') 512 (disk_host\<lparr>ho_fds := ho_fds disk_host @ [Some (cstr ''disk'', 0)]\<rparr>)"

lemma disk_boot_fields:
  "tb_bytes_per_sector disk_boot = 512" "tb_sectors_per_cluster disk_boot = 1" "tb_reserved_sectors disk_boot = 1"
  "tb_fat_copies disk_boot = 1" "tb_root_dir_entries disk_boot = 16" "tb_sectors_per_fat disk_boot = 1"
  unfolding tb_bytes_per_sector_def tb_sectors_per_cluster_def tb_reserved_sectors_def tb_fat_copies_def
    tb_root_dir_entries_def tb_sectors_per_fat_def half_at_def byte_at_def disk_boot_def
  by (simp_all add: nth_append nth_Cons')

lemma disk_open: "tool_fat_open (cstr ''disk'') disk_host = (0, disk_fat, disk_opened)"
proof -
  have q: "ho_faults (disk_host\<lparr>ho_fds := f\<rparr>) = []" "ho_faults disk_host = []" for f by (simp_all add: disk_host_def)
  have o: "host_open (cstr ''disk'') False disk_host =
      (3, disk_host\<lparr>ho_fds := ho_fds disk_host @ [Some (cstr ''disk'', 0)]\<rparr>)"
    by (simp add: host_open_def disk_host_def call_fails_def called_def free_fd_def Let_def)
  let ?h = "disk_host\<lparr>ho_fds := ho_fds disk_host @ [Some (cstr ''disk'', 0)]\<rparr>"
  have "fd_path 3 ?h = Some (cstr ''disk'')" "fd_pos 3 ?h = 0" "ho_files ?h (cstr ''disk'') = Some disk_image"
    by (simp_all add: fd_path_def fd_pos_def disk_host_def)
  moreover have "take 512 disk_image = disk_boot" by (simp add: disk_image_def disk_lengths)
  ultimately have r: "host_read 3 tool_bootsector_size ?h = (Some disk_boot, disk_opened)"
    by (simp add: host_read_def quiet_calls [OF q(1)] called_quiet [OF q(1)] tool_sizes disk_opened_def disk_lengths)
  have i: "int_product 1 512 = 512" "int_product (ucast (1 :: u8)) 512 = 512" by (simp_all add: int_product_def)
  show ?thesis
    by (simp add: tool_fat_open_def Let_def o malloc_quiet [OF q(1)] r [unfolded tool_sizes] disk_lengths tool_sizes disk_boot_fields i
        tool_fat_zero_def disk_fat_def)
qed

lemma disk_geom: "tool_geom disk_fat"
  by (simp add: tool_geom_def disk_fat_def disk_boot_fields)

definition disk_file :: "u8 \<Rightarrow> tool_file" where
  "disk_file c = (if c = 65 then \<lparr>tl_size = 600, tl_first_cluster = 1536, tl_attr = 0x20\<rparr>
     else \<lparr>tl_size = 512, tl_first_cluster = 2560, tl_attr = 0x20\<rparr>)"

lemma disk_image_file: "ho_files disk_host (cstr ''disk'') = Some disk_image" "ho_faults disk_host = []"
  by (simp_all add: disk_host_def)

lemma disk_reads: "reads_as 3 disk_image disk_opened"
  using open_image [OF disk_open disk_image_file(2)] disk_image_file(1) by (auto simp: disk_fat_def)

lemma disk_scan:
  "tool_scan_dirents disk_root [65, 0] 0 16 = Inr (Some disk_root)"
  "tool_scan_dirents disk_root [77, 0] 0 16 = Inr (Some (drop 32 disk_root))"
  by code_simp+

lemma disk_find:
  assumes "c = 65 \<or> c = 77"
  shows "tool_fat_find_file 1 disk_fat (tf_root_dir disk_fat) [c, 0] disk_opened = Inr (0, Some (disk_file c), disk_opened)"
proof -
  have read: "host_pread 3 512 1024 disk_opened = (Some disk_root, disk_opened)"
    using pread [OF disk_reads, of 1024 512] by (simp add: disk_image_def disk_lengths)
  have fields: "td_filesize disk_root = 600" "td_start_cluster disk_root = 2" "td_attr disk_root = 0x20"
    "td_filesize (drop 32 disk_root) = 512" "td_start_cluster (drop 32 disk_root) = 4" "td_attr (drop 32 disk_root) = 0x20"
    by code_simp+
  have "strchr [c, 0] (of_char CHR ''/'') = Inr None" "strlen [c, 0] = Inr 1" "c \<noteq> of_char CHR ''/''"
    using assms by auto
  then show ?thesis
    using assms disk_scan read
    by (auto simp: tool_fat_find_file_def tool_find_path.simps tool_find_entry_def malloc_image [OF disk_reads]
        tool_find_loop.simps tool_populate_file_handle_def disk_fat_def tool_sizes disk_lengths disk_file_def fields)
qed

lemma disk_table_nth: "i < 512 \<Longrightarrow> disk_image ! (512 + i) = disk_table ! i"
  by (simp add: disk_image_def nth_append disk_lengths)

lemma disk_next: "tool_next_at disk_fat disk_image 1536 = 2048"
proof -
  have "disk_image ! 515 = 3" "disk_image ! 516 = 0xF0"
    using disk_table_nth [of 3] disk_table_nth [of 4] by (simp_all add: disk_table_def)
  then show ?thesis
    by (simp add: tool_next_at_def fat_entry_at_def tool_cluster_number_def disk_fat_def)
qed

lemma disk_mappable: "mappable disk_fat disk_image (disk_file c)"
proof -
  have l: "length disk_image = 3072" by (simp add: disk_image_def disk_lengths)
  have ok: "tool_cluster_ok disk_fat disk_image k" if "k = 1536 \<or> k = 2048 \<or> k = 2560" for k
    using that by (auto simp: tool_cluster_ok_def tool_cluster_number_def disk_fat_def l)
  have n: "file_clusters (disk_file 65) = Suc (Suc 0)" "c \<noteq> 65 \<Longrightarrow> file_clusters (disk_file c) = Suc 0"
    by (simp_all add: file_clusters_def disk_file_def)
  have z: "tool_chain_ok disk_fat disk_image k 0" for k by (simp add: tool_chain_ok_def)
  show ?thesis
    using ok z n disk_next by (cases "c = 65") (auto simp: mappable_def tool_chain_ok_Suc disk_file_def)
qed

lemma disk_clusters:
  "clusters_of disk_fat disk_image (disk_file 65) = [1536, 2048]"
  "clusters_of disk_fat disk_image (disk_file 77) = [2560]"
proof -
  have n: "file_clusters (disk_file 65) = Suc (Suc 0)" "file_clusters (disk_file 77) = Suc 0"
    by (simp_all add: file_clusters_def disk_file_def)
  have z: "tool_clusters disk_fat disk_image k 0 = []" for k by (simp add: tool_clusters_def)
  show "clusters_of disk_fat disk_image (disk_file 65) = [1536, 2048]"
    "clusters_of disk_fat disk_image (disk_file 77) = [2560]"
    by (simp_all add: n tool_clusters_Suc z disk_next) (simp_all add: disk_file_def disk_next)
qed

theorem round1_maps_witness:
  "\<exists>h' chunks. round1 1 [[0], [0], cstr ''disk'', [65, 0], cstr ''map''] disk_host = Inr (0, h') \<and>
     chunks_list [3, 4] chunks \<and> ho_files h' (cstr ''map'') = Some (concat (map chunk_bytes chunks))"
proof -
  have q: "fd_path 0 disk_host \<noteq> None" "ho_files disk_host (cstr ''map'') = None"
    by (simp_all add: fd_path_def disk_host_def cstr_def bytes_of_def)
  have "sectors [1536, 2048] = [3, 4]" by (simp add: sectors_def)
  with round1_maps [OF disk_image_file(2) q disk_open disk_image_file(1) disk_geom disk_find disk_mappable,
      of 65 "[0]" "[0]"]
  show ?thesis unfolding disk_clusters by fastforce
qed

theorem round2_links_witness:
  "\<exists>h' img'. round2 1 [[0], [0], cstr ''disk'', [77, 0]] disk_host = Inr (0, h') \<and>
     ho_files h' (cstr ''disk'') = Some img' \<and> unat (pointer_at img' 506) = 5 \<and>
     take 512 (drop 2560 img') = chunk_bytes disk_chunk"
proof -
  have q: "fd_path 0 disk_host \<noteq> None" by (simp add: fd_path_def disk_host_def)
  have c: "chunks_ok [disk_chunk]"
    by (simp add: chunks_ok_def disk_chunk_def SECTOR_MAP_ENTRIES_def)
  have l: "linked [2560] [disk_chunk] = [disk_chunk]" by (simp add: disk_chunk_def)
  have b: "map (\<lambda>c. take 512 (drop c disk_image)) (clusters_of disk_fat disk_image (disk_file 77)) =
      map chunk_bytes [disk_chunk]"
    unfolding disk_clusters by (simp add: disk_image_def disk_lengths)
  have d: "distinct (clusters_of disk_fat disk_image (disk_file 77))" unfolding disk_clusters by simp
  show ?thesis
    using round2_links [OF disk_image_file(2) q disk_open disk_image_file(1) disk_geom disk_find disk_mappable d c b,
        of "[0]" "[0]"] unfolding disk_clusters l by fastforce
qed

end
