(* ===== verification/Cstart.thy ===== *)
theory Cstart
  imports Exec Serial Output
begin

text \<open>
  The start of the second stage, \<^verbatim>\<open>src/startup/cstart.c\<close>, which composes the components: interrupts,
  timer, screen, heap, serial line, floppy driver, file system, configuration and execution. The
  static handles of the file are the values passed on. A build without \<^verbatim>\<open>CONFIG_PROTOCOL\<close> is modelled, in
  which every file is one of the floppy's file system. Interrupts that arrive between the calls only count
  ticks and are left out; those inside the serial driver are its schedule. A panic prints and halts: its
  outcome is \<open>Panic\<close>, whatever it prints.
\<close>

unbundle bit_operations_syntax

section \<open>State\<close>

text \<open>What the build and the linker determine; \<open>ld_serial\<close> is the rate and the configuration word with
  \<^verbatim>\<open>CONFIG_USE_SERIAL\<close>, \<open>ld_banner\<close> the first line with the date of the build.\<close>

record loader =
  ld_bss_begin :: u32
  ld_bss_end :: u32
  ld_end :: u32
  ld_wrappers :: "nat \<Rightarrow> u32"
  ld_config_file :: u32
  ld_banner :: "u8 list"
  ld_statusbar :: bool
  ld_serial :: "(u32 \<times> u32) option"
  ld_elf :: bool
  ld_flat :: bool

text \<open>The machine with the driver's statics, the interrupts to come in its loops, and the screen.\<close>

record 'd boot =
  bt_serial :: "'d serial"
  bt_sched :: "round list"
  bt_vga :: "vga_state \<times> u32"

definition bt_world :: "'d boot \<Rightarrow> 'd world" where
  "bt_world b = in_world (bt_serial b)"

definition bt_put :: "'d world \<Rightarrow> 'd boot \<Rightarrow> 'd boot" where
  "bt_put w b = b\<lparr>bt_serial := (bt_serial b)\<lparr>in_world := w\<rparr>\<rparr>"

text \<open>The two output handles, as operations on all of the state.\<close>

definition vga_hand :: "bool \<Rightarrow> 'd boot output_hand" where
  "vga_hand statusbar =
     (let h = vga_output statusbar; put = (\<lambda>b v. b\<lparr>bt_vga := v\<rparr>)
      in \<lparr>oh_write = \<lambda>b data sz. bnd (oh_write h (bt_vga b) data sz) (\<lambda>(n, v). Inr (n, put b v)),
          oh_status = map_option (\<lambda>f b str. bnd (f (bt_vga b) str) (\<lambda>v. Inr (put b v))) (oh_status h),
          oh_working = map_option (\<lambda>f b st. bnd (f (bt_vga b) st) (\<lambda>v. Inr (put b v))) (oh_working h)\<rparr>)"

definition serial_hand :: "'d hardware \<Rightarrow> serial_output \<Rightarrow> 'd boot output_hand" where
  "serial_hand hw outp =
     \<lparr>oh_write = \<lambda>b data sz.
        if \<not> so_serial_write outp then Inl Fault
        else bnd (serial_write hw outp data (of_nat sz) (bt_sched b) (bt_serial b)) (\<lambda>(n, sched, s).
          Inr (unat n, b\<lparr>bt_serial := s, bt_sched := sched\<rparr>)),
      oh_status = None, oh_working = None\<rparr>"

section \<open>The stages\<close>

text \<open>\<open>_init_data\<close>: the difference of two pointers to \<open>int\<close> is a quarter of the bytes between them.\<close>

definition init_data :: "loader \<Rightarrow> 'd world \<Rightarrow> 'd world" where
  "init_data ld w =
     w\<lparr>w_mem := mem_put (w_mem w) (ld_bss_begin ld)
         (replicate (nat (sint (ld_bss_end ld - ld_bss_begin ld) sdiv 4)) 0)\<rparr>"

text \<open>\<open>cstart\<close> down to the banner: the devices, the heap and the current output.\<close>

definition start_devices ::
  "loader \<Rightarrow> 'd hardware \<Rightarrow> 'd boot \<Rightarrow> ('d boot output_dev \<times> 'd boot) res" where
  "start_devices ld hw b =
     (let b = bt_put (init_data ld (bt_world b)) b;
          (_, s) = interrupts_init hw (ld_wrappers ld) (bt_serial b);
          (_, s) = time_init hw s;
          b = b\<lparr>bt_serial := s\<rparr>
      in bnd (vga_init (fst (bt_vga b))) (\<lambda>(_, v).
         let b = b\<lparr>bt_vga := (v, snd (bt_vga b))\<rparr>;
             cur = Some (vga_hand (ld_statusbar ld))
         in bnd (alloc_init (ld_end ld) (0x80000 - ld_end ld)) (\<lambda>heap.
            let b = bt_put ((bt_world b)\<lparr>w_heap := heap\<rparr>) b
            in bnd (case ld_serial ld of
                      None \<Rightarrow> Inr (cur, b)
                    | Some (baud, cfg) \<Rightarrow>
                        bnd (serial_init hw None (Some \<lparr>so_data = 0, so_serial_write = False\<rparr>) baud cfg (bt_serial b))
                          (\<lambda>(_, _, outp, s). Inr (Some (serial_hand hw (the outp)), b\<lparr>bt_serial := s\<rparr>)))
                 (\<lambda>(cur, b). bnd (puts cur b (ld_banner ld)) (\<lambda>b. Inr (cur, b))))))"

text \<open>The floppy and its file system.\<close>

definition start_storage ::
  "'d hardware \<Rightarrow> 'd boot \<Rightarrow> (storage_bios_data \<times> fat_data \<times> 'd boot) res" where
  "start_storage hw b =
     (case storage_bios_init bios_data0 0x00 of (r, bdata, st) \<Rightarrow>
        if r \<noteq> 0 then Inl Panic
        else bnd (fs_fat_init (bios_read hw bdata) 0x00 (bt_world b)) (\<lambda>(r, fs, w).
          if r \<noteq> 0 then Inl Panic
          else case fs of
              None \<Rightarrow> Inl Fault
            | Some fs \<Rightarrow> Inr (bdata, fs_data fs, bt_put w b)))"

text \<open>The operations of the default file system, as \<open>file_open\<close> and the readers of files use them.\<close>

definition boot_close :: "(fat_data, 'd) close_op" where
  "boot_close f s = (case s of (fd, w) \<Rightarrow> bnd (fat_file_close False f w) (\<lambda>(r, w). Inr (r, fd, w)))"

definition boot_open :: "nat \<Rightarrow> 'd Fat.reader \<Rightarrow> (fat_data, 'd) open_op" where
  "boot_open fuel rd path s =
     file_open None (file_set_default_fs (Some (fat_fs_find fuel rd, boot_close))) path s"

definition config_file :: "u8 list" where
  "config_file = cstr ''LBOOT/LBOOT.CFG''"

text \<open>
  From the first status message to the kernel's file: the configuration, and the open kernel. \<open>fuel\<close>
  bounds the clusters of a directory, \<open>slack\<close> the bytes behind the configuration's buffer.
\<close>

definition start_kernel_file ::
  "loader \<Rightarrow> nat \<Rightarrow> nat \<Rightarrow> 'd Fat.reader \<Rightarrow> 'd boot output_dev \<Rightarrow> fat_data \<Rightarrow> 'd boot
     \<Rightarrow> (config_data \<times> file_hand \<times> fat_data \<times> 'd boot) res" where
  "start_kernel_file ld fuel slack rd cur fd b =
     bnd (print_status (ld_statusbar ld) cur b (cstr ''Loading config `%s`'') [VPtr (ld_config_file ld) config_file]) (\<lambda>b.
     bnd (config_load slack (boot_open fuel rd) (fat_file_read rd) config_data0 config_file (fd, bt_world b))
       (\<lambda>(r, cfg, fd, w).
       if r \<noteq> 0 then Inl Panic
       else case cd_kernel_path cfg of
           None \<Rightarrow> Inl Panic
         | Some (a, path) \<Rightarrow>
             bnd (print_status (ld_statusbar ld) cur (bt_put w b) (cstr ''Loading kernel `%s`'') [VPtr a path]) (\<lambda>b.
             bnd (boot_open fuel rd path (fd, bt_world b)) (\<lambda>(r, kfile, fd, w).
               if r \<noteq> 0 then Inl Panic
               else case kfile of
                   None \<Rightarrow> Inl Fault
                 | Some kf \<Rightarrow> Inr (cfg, kf, fd, bt_put w b)))))"

text \<open>The end: how the loader is left. \<open>Halted\<close> is the loop behind a return of the execution.\<close>

datatype boot_end = Kernel outcome | Halted

definition start_kernel ::
  "loader \<Rightarrow> 'd hardware \<Rightarrow> bios_regs \<Rightarrow> nat \<Rightarrow> nat \<Rightarrow> nat \<Rightarrow> 'd Fat.reader \<Rightarrow> 'd boot output_dev
     \<Rightarrow> config_data \<Rightarrow> file_hand \<Rightarrow> fat_data \<Rightarrow> 'd boot \<Rightarrow> (boot_end \<times> 'd boot) res" where
  "start_kernel ld hw stk fuel fuel2 fuel3 rd cur cfg kf fd b =
     bnd (exec_open (ld_elf ld) (ld_flat ld) (fat_file_read rd) kf (fd, bt_world b)) (\<lambda>(r, exec, s).
     if r \<noteq> 0 then Inl Panic
     else bnd (exec_exec hw stk fuel2 fuel3 (boot_open fuel rd) (fat_file_read rd) boot_close exec cfg 0 s)
       (\<lambda>(out, exec, cfg, rsdp, fd, w).
       case out of
         Returned r \<Rightarrow>
           if r \<noteq> 0 then Inl Panic
           else bnd (puts cur (bt_put w b) [79, 75, 10, 0]) (\<lambda>b. Inr (Halted, b))
       | _ \<Rightarrow> Inr (Kernel out, bt_put w b)))"

definition cstart ::
  "loader \<Rightarrow> 'd hardware \<Rightarrow> bios_regs \<Rightarrow> nat \<Rightarrow> nat \<Rightarrow> nat \<Rightarrow> nat \<Rightarrow> 'd boot \<Rightarrow> (boot_end \<times> 'd boot) res" where
  "cstart ld hw stk fuel slack fuel2 fuel3 b =
     bnd (start_devices ld hw b) (\<lambda>(cur, b).
     bnd (start_storage hw b) (\<lambda>(bdata, fd, b).
     bnd (start_kernel_file ld fuel slack (bios_read hw bdata) cur fd b) (\<lambda>(cfg, kf, fd, b).
       start_kernel ld hw stk fuel fuel2 fuel3 (bios_read hw bdata) cur cfg kf fd b)))"

end
