(* ===== verification/Spec2Isabelle.thy ===== *)
theory Spec2Isabelle
  imports Prelude Alloc Alloc_Facts Fifo Lib_String Machine Storage_Bios Fat Fat_Names Fat_Facts Config Vga Output Files File_Source Stores Elf Elf_Facts Multiboot Multiboot_Facts Exec Exec_Facts Interrupts Serial Fifo_Interrupt Serial_Facts Protocol Protocol_Facts Sector_Mapper Sector_Mapper_Facts Cstart
begin

text \<open>
  LBoot, a boot loader for x86 that loads a kernel from a FAT12 floppy disk, with the theorems
  that make its C code correct.

  \<^bigskip> The program. The assembly stages (\<^verbatim>\<open>stage1/\<close>, \<^verbatim>\<open>src/startup/startup.s\<close>) put the second stage in memory; from there on the
  loader is C. \<^verbatim>\<open>startup/cstart.c\<close> sets up the heap (\<^verbatim>\<open>mm/alloc.c\<close>), the interrupts
  (\<^verbatim>\<open>intr/\<close>), the timer (\<^verbatim>\<open>time/\<close>), and the output devices (\<^verbatim>\<open>io/\<close>), mounts the
  boot floppy through the BIOS (\<^verbatim>\<open>storage/bios.c\<close>) and the FAT file system
  (\<^verbatim>\<open>storage/fs/fat.c\<close>), reads its configuration (\<^verbatim>\<open>config/config.c\<close>), and
  executes the kernel it names (\<^verbatim>\<open>exec/\<close>), an ELF or flat image, possibly with a Multiboot 2
  information structure. Output goes through a device handle, files through a file handle, and the
  executable formats through a table of operations; each of these is a parameter of the code that
  uses it, or a locale where the proofs rest on what it promises.

  \<^bigskip> The machine. A pointer is a 32-bit word, an integer of the code is a word of its width, a
  panic or an access outside an object is the left value of the result type \<open>'a res\<close> (theory
  \<open>Prelude\<close>: \<open>Panic\<close>, \<open>Fault\<close>). State is passed explicitly: a \<open>world\<close>
  (theory \<open>Machine\<close>) is the flat memory, the heap, the interrupt flag and the state of the
  devices. What lies behind a port or a BIOS call is not code of the repository: the record
  \<open>hardware\<close> is a parameter, and the laws the proofs need of it are the assumptions of the locales
  \<open>bios_floppy\<close> and \<open>reliable_device\<close>, interpreted on concrete machines.

  \<^bigskip> Theories and code.
  \<^item> \<open>Prelude\<close>: types, results, little-endian reads, lemmas on lists and words.
  \<^item> \<open>Regions\<close>, \<open>Alloc\<close>, \<open>Alloc_Facts\<close>: \<^verbatim>\<open>mm/alloc.c\<close>. \<open>Regions\<close> is what a
    table of regions means, independent of the table; \<open>Alloc\<close> is the code; \<open>Alloc_Facts\<close> proves
    that allocation and release are sound and conserve memory, and states the contract of an
    allocator as the locale \<open>allocator\<close>, interpreted on the code.
  \<^item> \<open>Fifo\<close>: \<^verbatim>\<open>data/fifo.c\<close>, with the contract \<open>bounded_queue\<close>.
  \<^item> \<open>Lib_String\<close>: \<^verbatim>\<open>stdlib/\<close>.
  \<^item> \<open>Machine\<close>: \<^verbatim>\<open>io/ioport.h\<close>, \<^verbatim>\<open>intr/pic.c\<close>, \<^verbatim>\<open>bios/bios.c\<close>.
  \<^item> \<open>Storage_Bios\<close>: the floppy driver \<^verbatim>\<open>storage/bios.c\<close> over an abstract BIOS.
  \<^item> \<open>Fat\<close>, \<open>Fat_Names\<close>, \<open>Fat_Facts\<close>: \<^verbatim>\<open>storage/fs/fat.c\<close>. \<open>Fat_Names\<close> has the comparison of
    names and the replacement policy of the cache of table sectors, \<open>Fat_Facts\<close> the reads.
  \<^item> \<open>Files\<close>, \<open>File_Source\<close>: \<^verbatim>\<open>storage/fs/fs.c\<close>, \<^verbatim>\<open>storage/file.c\<close> and \<^verbatim>\<open>config_load\<close>;
    \<open>File_Source\<close> is the contract of a readable file, provided by the FAT file system.
  \<^item> \<open>Config\<close>: the parser of \<^verbatim>\<open>config/config.c\<close>.
  \<^item> \<open>Vga\<close>, \<open>Output\<close>: \<^verbatim>\<open>io/vga.c\<close> and \<^verbatim>\<open>io/output.c\<close>.
  \<^item> \<open>Stores\<close>, \<open>Elf\<close>, \<open>Elf_Facts\<close>: little-endian stores, and the loaders of \<^verbatim>\<open>exec/fmt\<close>.
  \<^item> \<open>Multiboot\<close>, \<open>Multiboot_Facts\<close>: \<^verbatim>\<open>exec/multiboot.c\<close>.
  \<^item> \<open>Exec\<close>, \<open>Exec_Facts\<close>: \<^verbatim>\<open>exec/exec.c\<close>.
  \<^item> \<open>Interrupts\<close>: \<^verbatim>\<open>intr/idt.c\<close>, \<^verbatim>\<open>intr/interrupts.c\<close>, \<^verbatim>\<open>time/pit.c\<close> and \<^verbatim>\<open>time/time.c\<close>.
  \<^item> \<open>Serial\<close>, \<open>Serial_Facts\<close>: \<^verbatim>\<open>io/serial.c\<close>, its calls and its interrupt handler; the contracts
    of the port (\<open>uart_line\<close>) and of the timer (\<open>clock\<close>).
  \<^item> \<open>Fifo_Interrupt\<close>: \<^verbatim>\<open>fifo_read\<close> cut into its memory accesses, with a handler between them.
  \<^item> \<open>Protocol\<close>, \<open>Protocol_Facts\<close>: \<^verbatim>\<open>storage/protocol/\<close>, with the contract \<open>packet_line\<close> of a line
    that carries packets.
  \<^item> \<open>Sector_Mapper\<close>, \<open>Sector_Mapper_Facts\<close>: \<^verbatim>\<open>tools/sector_mapper/\<close>, the program of the build host
    that records where the second stage lies on the image.
  \<^item> \<open>Cstart\<close>: \<^verbatim>\<open>startup/cstart.c\<close>, which composes the others.

  \<^bigskip> What the lemmas show. The allocator's table is read as a multiset of regions, and every
  operation is described on it. The queue
  and the VGA driver are refined to a list and to an endless roll of paper. The C library agrees
  with the list functions of the same meaning. The floppy driver returns the bytes of the medium
  or fails; the FAT driver over it the bytes of the file; the ELF loader
  over that the image the file describes; and the last property of \<open>Exec_Facts\<close> puts them
  together: what the loader jumps into is the kernel of the file. A serial read returns the bytes
  of the line whatever interrupts arrive meanwhile, a wait for the timer ends, and an XMODEM
  transfer gives the blocks that were sent, whatever is lost or spoiled on the way. The sector map
  the host program writes lists the sectors of the file, and the boot sector leads through it.

  \<^bigskip> Interrupts. An interrupt that arrives while the driver runs is an argument: a schedule
  says, for each point where the code can be interrupted (between the calls of a loop, in a halt),
  which interrupts come there, and the handlers of the model run on the state at that point. A loop
  that waits for more interrupts than the schedule holds has the left value \<open>Loop\<close>; so that
  a loop ends is a statement about the schedule, and proved as such. \<open>Fifo_Interrupt\<close> looks inside a
  queue operation, as a step relation on its memory accesses.

  \<^bigskip> Bounds and fuel. Loops are structural recursions where their bound is known when they start.
  The others are functions with a measure: the word that runs towards a bound, or the part of
  the object that is left. Fuel appears only where the number of rounds is an input of the
  environment: the clusters of a directory on the medium (a chain may be a cycle) and the packets of
  a transfer (a sender may repeat one for ever). A definition says what its fuel counts, and the
  theorems say how much is enough: one unit for each cluster, one for each packet.

  \<^bigskip> Not modelled. Assembly (\<^verbatim>\<open>stage1/\<close>, \<^verbatim>\<open>startup.s\<close>, \<^verbatim>\<open>bios_asm.s\<close>, \<^verbatim>\<open>int_wrappers.s\<close>, the body of
  \<^verbatim>\<open>bios_call_asm\<close>, the jump into the kernel), because no C semantics reaches it: the
  definitions stop at the call, and the wrappers are their addresses. The debug output under
  \<^verbatim>\<open>CONFIG_\<close> switches, the register dump of an unhandled exception, the progress spinner and the
  messages of the host program, which change nothing but the screen. The structures of
  \<^verbatim>\<open>elf_types.h\<close> and \<^verbatim>\<open>multiboot_types.h\<close> that no code uses. In \<open>Cstart\<close> the build with a file
  transfer protocol, whose parts are modelled in \<open>Protocol\<close>, and interrupts between the calls.
  The build files and \<^verbatim>\<open>tools/lboot_prepare.sh\<close>.
\<close>

end
